(* ===== verification/Prelude.thy ===== *)
theory Prelude
  imports Main "HOL-Library.Word"
begin

unbundle bit_operations_syntax

text \<open>
  What every component shares: the faults a C++ statement can run into, the sequencing of
  statements that may fault, the bytes and words of a little-endian host (the byte order of the
  machines the router runs on), the byte-order conversions of \<^verbatim>\<open><netinet/in.h>\<close>, reads and writes
  of header fields in a byte buffer, and the list facts the component proofs rest on.
  The collection \<open>buf_simps\<close> holds the rules that evaluate reads and writes on a buffer,
  \<open>exec_simps\<close> those that evaluate sequencing.
\<close>

named_theorems buf_simps
named_theorems exec_simps

section \<open>Faults and sequencing\<close>

text \<open>
  A C++ statement that dereferences a null pointer, reads or writes outside a buffer, uses a
  packet it has given away, an object that is freed or a variable that was never set, or fails an assertion has no
  result. The model makes each a value.
\<close>

datatype fault =
    Null_deref
  | Out_of_bounds
  | Stale_packet
  | Assert_failed
  | Uninitialised
  | Use_after_free

type_synonym 'a exec = "fault + 'a"

definition ebind :: "'a exec \<Rightarrow> ('a \<Rightarrow> 'b exec) \<Rightarrow> 'b exec" where
  "ebind m f = (case m of Inl e \<Rightarrow> Inl e | Inr x \<Rightarrow> f x)"

lemma ebind_simps [simp, exec_simps]:
  "ebind (Inl e) f = Inl e"
  "ebind (Inr x) f = f x"
  by (simp_all add: ebind_def)

lemma ebind_Inr_conv [exec_simps]:
  "ebind m f = Inr y \<longleftrightarrow> (\<exists>x. m = Inr x \<and> f x = Inr y)"
  by (cases m) simp_all

lemma ebind_Inl_conv:
  "ebind m f = Inl e \<longleftrightarrow> m = Inl e \<or> (\<exists>x. m = Inr x \<and> f x = Inl e)"
  by (cases m) simp_all

text \<open>
  Code with a loop that may run forever: \<open>None\<close> when it does. \<open>dbind\<close> continues after a statement that
  ends, \<open>rbind\<close> after one that may not.
\<close>

type_synonym 'a run = "'a exec option"

definition dbind :: "'a exec \<Rightarrow> ('a \<Rightarrow> 'b run) \<Rightarrow> 'b run" where
  "dbind m f = (case m of Inl e \<Rightarrow> Some (Inl e) | Inr x \<Rightarrow> f x)"

definition rbind :: "'a run \<Rightarrow> ('a \<Rightarrow> 'b run) \<Rightarrow> 'b run" where
  "rbind m f = Option.bind m (\<lambda>r. dbind r f)"

lemma dbind_simps [simp, exec_simps]:
  "dbind (Inl e) f = Some (Inl e)"
  "dbind (Inr x) f = f x"
  "rbind None g = None"
  "rbind (Some r) g = dbind r g"
  by (simp_all add: dbind_def rbind_def)

lemma dbind_mono [partial_function_mono]:
  assumes "\<And>x. mono_option (\<lambda>f. B x f)"
  shows "mono_option (\<lambda>f. dbind m (\<lambda>x. B x f))"
  using assms by (cases m) (simp_all add: partial_function_mono)

lemma rbind_mono [partial_function_mono]:
  assumes "mono_option A" and "\<And>x. mono_option (\<lambda>f. B x f)"
  shows "mono_option (\<lambda>f. rbind (A f) (\<lambda>x. B x f))"
  unfolding rbind_def by (intro bind_mono assms dbind_mono)

section \<open>Bytes and words\<close>

type_synonym byte = "8 word"
type_synonym u8 = "8 word"
type_synonym u16 = "16 word"
type_synonym u32 = "32 word"

definition bytes16 :: "u16 \<Rightarrow> byte list" where
  "bytes16 w = [ucast w, ucast (drop_bit 8 w)]"

definition le16 :: "byte \<Rightarrow> byte \<Rightarrow> u16" where
  "le16 a b = word_cat b a"

definition bytes32 :: "u32 \<Rightarrow> byte list" where
  "bytes32 w = [ucast w, ucast (drop_bit 8 w), ucast (drop_bit 16 w), ucast (drop_bit 24 w)]"

definition le32 :: "byte \<Rightarrow> byte \<Rightarrow> byte \<Rightarrow> byte \<Rightarrow> u32" where
  "le32 a b c d = word_cat (word_cat d c :: u16) (word_cat b a :: u16)"

text \<open>The host is little-endian, so \<open>htons\<close> and \<open>ntohs\<close> swap the two bytes.\<close>

definition htons :: "u16 \<Rightarrow> u16" where
  "htons w = push_bit 8 w OR drop_bit 8 w"

abbreviation ntohs :: "u16 \<Rightarrow> u16" where
  "ntohs \<equiv> htons"

definition htonl :: "u32 \<Rightarrow> u32" where
  "htonl w = le32 (ucast (drop_bit 24 w)) (ucast (drop_bit 16 w)) (ucast (drop_bit 8 w)) (ucast w)"

abbreviation ntohl :: "u32 \<Rightarrow> u32" where
  "ntohl \<equiv> htonl"

lemma length_bytes [simp]: "length (bytes16 w) = 2" "length (bytes32 v) = 4"
  by (simp_all add: bytes16_def bytes32_def)

lemma le16_bytes [simp]: "le16 (ucast w) (ucast (drop_bit 8 w)) = w"
  unfolding le16_def by (rule bit_word_eqI) (auto simp: bit_simps)

lemma bytes16_le16 [simp]: "bytes16 (le16 a b) = [a, b]"
  unfolding le16_def bytes16_def
  by (auto intro!: bit_word_eqI simp: bit_simps)

lemma le32_bytes [simp]:
  "le32 (ucast w) (ucast (drop_bit 8 w)) (ucast (drop_bit 16 w)) (ucast (drop_bit 24 w)) = w"
  unfolding le32_def by (rule bit_word_eqI) (auto simp: bit_simps)

lemma bytes32_le32 [simp]: "bytes32 (le32 a b c d) = [a, b, c, d]"
  unfolding le32_def bytes32_def
  by (auto intro!: bit_word_eqI simp: bit_simps)

lemma le32_inject [simp]: "le32 a b c d = le32 a' b' c' d' \<longleftrightarrow> a = a' \<and> b = b' \<and> c = c' \<and> d = d'"
proof
  assume "le32 a b c d = le32 a' b' c' d'"
  from arg_cong [OF this, of bytes32] show "a = a' \<and> b = b' \<and> c = c' \<and> d = d'" by simp
qed simp

lemma htons_htons [simp]: "htons (htons w) = w"
  unfolding htons_def by (rule bit_word_eqI) (auto simp: bit_simps)

lemma htons_le16: "htons (le16 a b) = le16 b a"
  unfolding htons_def le16_def by (rule bit_word_eqI) (auto simp: bit_simps)

lemma htons_and: "htons x AND htons y = htons (x AND y)"
  unfolding htons_def by (rule bit_word_eqI) (auto simp: bit_simps dest: bit_imp_le_length)

lemma htons_or: "htons x OR htons y = htons (x OR y)"
  unfolding htons_def by (rule bit_word_eqI) (auto simp: bit_simps dest: bit_imp_le_length)

lemma htons_not: "NOT (htons x) = htons (NOT x)"
  unfolding htons_def by (rule bit_word_eqI) (auto simp: bit_simps dest: bit_imp_le_length)

lemma htons_zero [simp]: "htons 0 = 0"
  by (simp add: htons_def)

lemma htons_zero_iff [simp]: "htons x = 0 \<longleftrightarrow> x = 0"
proof
  assume "htons x = 0"
  then have "htons (htons x) = htons 0" by simp
  then show "x = 0" by (simp add: htons_def [of 0])
qed (simp add: htons_def)

lemma htonl_htonl [simp]: "htonl (htonl w) = w"
  unfolding htonl_def le32_def by (rule bit_word_eqI) (auto simp: bit_simps)

lemma htonl_le32: "htonl (le32 a b c d) = le32 d c b a"
  unfolding htonl_def le32_def by (rule bit_word_eqI) (auto simp: bit_simps)

lemma unat_byte_less: "unat (a :: byte) < 256"
  by (rule less_le_trans [OF unsigned_less]) simp

lemma unat_ucast_byte [simp]: "unat (ucast (a :: byte) :: u16) = unat a"
  using unat_byte_less [of a] by (simp add: unsigned_ucast_eq take_bit_nat_eq_self)

lemma unat_le16: "unat (le16 a b) = unat a + 256 * unat b"
proof -
  note ab = unat_byte_less [of a] unat_byte_less [of b]
  have "unat (word_cat b a :: u16) = (unat b * 256 + unat a) mod 65536"
    by (simp add: word_cat_eq unat_word_ariths push_bit_eq_mult mod_simps)
  with ab show ?thesis by (simp add: le16_def)
qed

lemma unat_htons_of_nat: "n < 65536 \<Longrightarrow> unat (htons (htons (of_nat n))) = n"
  by (simp add: unat_of_nat)

section \<open>Reads and writes in a byte buffer\<close>

text \<open>
  A C struct laid over a buffer: a field of width 1, 2 or 4 at a byte offset. Reading or writing
  past the end of the buffer is a fault.
\<close>

definition read8 :: "byte list \<Rightarrow> nat \<Rightarrow> u8 exec" where
  "read8 bs i = (if i < length bs then Inr (bs ! i) else Inl Out_of_bounds)"

definition read16 :: "byte list \<Rightarrow> nat \<Rightarrow> u16 exec" where
  "read16 bs i = (if i + 1 < length bs then Inr (le16 (bs ! i) (bs ! (i + 1)))
                  else Inl Out_of_bounds)"

definition read32 :: "byte list \<Rightarrow> nat \<Rightarrow> u32 exec" where
  "read32 bs i = (if i + 3 < length bs
                  then Inr (le32 (bs ! i) (bs ! (i + 1)) (bs ! (i + 2)) (bs ! (i + 3)))
                  else Inl Out_of_bounds)"

definition write_bytes :: "byte list \<Rightarrow> nat \<Rightarrow> byte list \<Rightarrow> byte list exec" where
  "write_bytes bs i vs = (if i + length vs \<le> length bs
                          then Inr (take i bs @ vs @ drop (i + length vs) bs)
                          else Inl Out_of_bounds)"

definition read_bytes :: "byte list \<Rightarrow> nat \<Rightarrow> nat \<Rightarrow> byte list exec" where
  "read_bytes bs i n = (if i + n \<le> length bs then Inr (take n (drop i bs)) else Inl Out_of_bounds)"

abbreviation write8 :: "byte list \<Rightarrow> nat \<Rightarrow> u8 \<Rightarrow> byte list exec" where
  "write8 bs i v \<equiv> write_bytes bs i [v]"

abbreviation write16 :: "byte list \<Rightarrow> nat \<Rightarrow> u16 \<Rightarrow> byte list exec" where
  "write16 bs i v \<equiv> write_bytes bs i (bytes16 v)"

abbreviation write32 :: "byte list \<Rightarrow> nat \<Rightarrow> u32 \<Rightarrow> byte list exec" where
  "write32 bs i v \<equiv> write_bytes bs i (bytes32 v)"

lemma read_append [buf_simps]:
  "length xs \<le> i \<Longrightarrow> read8 (xs @ ys) i = read8 ys (i - length xs)"
  "length xs \<le> i \<Longrightarrow> read16 (xs @ ys) i = read16 ys (i - length xs)"
  "length xs \<le> i \<Longrightarrow> read32 (xs @ ys) i = read32 ys (i - length xs)"
  by (auto simp: read8_def read16_def read32_def nth_append Suc_diff_le)

lemma read_append_left [buf_simps]:
  "i < length xs \<Longrightarrow> read8 (xs @ ys) i = read8 xs i"
  "i + 1 < length xs \<Longrightarrow> read16 (xs @ ys) i = read16 xs i"
  "i + 3 < length xs \<Longrightarrow> read32 (xs @ ys) i = read32 xs i"
  by (auto simp: read8_def read16_def read32_def nth_append)

lemma read_head [buf_simps]:
  "read8 (a # ys) 0 = Inr a"
  "read16 (bytes16 v @ ys) 0 = Inr v"
  "read32 (bytes32 w @ ys) 0 = Inr w"
  by (simp_all add: read8_def read16_def read32_def bytes16_def bytes32_def)

lemma read_drop [buf_simps]:
  "i \<le> length bs \<Longrightarrow> read8 (drop i bs) j = read8 bs (i + j)"
  "i \<le> length bs \<Longrightarrow> read16 (drop i bs) j = read16 bs (i + j)"
  "i \<le> length bs \<Longrightarrow> read32 (drop i bs) j = read32 bs (i + j)"
  by (auto simp: read8_def read16_def read32_def add.assoc)

lemma read_Inr_length:
  "read8 bs i = Inr a \<Longrightarrow> i < length bs"
  "read16 bs i = Inr v \<Longrightarrow> i + 1 < length bs"
  "read32 bs i = Inr w \<Longrightarrow> i + 3 < length bs"
  by (auto simp: read8_def read16_def read32_def split: if_splits)

lemma write_bytes_append [buf_simps]:
  "i = length xs \<Longrightarrow> length old = length vs \<Longrightarrow>
     write_bytes (xs @ old @ ys) i vs = Inr (xs @ vs @ ys)"
  by (simp add: write_bytes_def)

lemma write_bytes_length:
  "write_bytes bs i vs = Inr bs' \<Longrightarrow> length bs' = length bs"
  by (auto simp: write_bytes_def split: if_splits)

lemma write_bytes_ok:
  "i + length vs \<le> length bs \<Longrightarrow> \<exists>bs'. write_bytes bs i vs = Inr bs'"
  by (simp add: write_bytes_def)

section \<open>Lists\<close>

lemma nth_update_if: "xs[i := x] ! j = (if i = j \<and> j < length xs then x else xs ! j)"
  by (cases "i < length xs") (auto simp: nth_list_update list_update_beyond)

end
