(* ===== verification/Click_IPAddress.thy ===== *)
theory Click_IPAddress
  imports Prelude
begin

unbundle bit_operations_syntax

text \<open>
  Click's \<^verbatim>\<open>IPAddress\<close> (\<^verbatim>\<open>click/include/click/ipaddress.hh\<close>, \<^verbatim>\<open>click/lib/ipaddress.cc\<close>): a 32-bit value in
  network byte order, so on the little-endian host its first byte is the least significant one.
  Prefix masks and their lengths, the prefix test, the dotted-quad printer and parser. The lookup
  of an address by name (\<^verbatim>\<open>AddressInfo::query_ip\<close>) reads the configuration's symbol tables and is the
  argument \<open>query_ip\<close> of the definitions that use it.
\<close>

type_synonym ipaddr = u32

section \<open>Operations\<close>

text \<open>The address of the bytes of its dotted-quad form, and those bytes.\<close>

abbreviation ip_quad :: "byte \<Rightarrow> byte \<Rightarrow> byte \<Rightarrow> byte \<Rightarrow> ipaddr" where
  "ip_quad a b c d \<equiv> le32 a b c d"

definition ip_data :: "ipaddr \<Rightarrow> byte list" where
  "ip_data a = bytes32 a"

definition ip_hashcode :: "ipaddr \<Rightarrow> nat" where
  "ip_hashcode a = unat a"

definition is_multicast :: "ipaddr \<Rightarrow> bool" where
  "is_multicast a \<longleftrightarrow> (a AND htonl 0xF0000000) = htonl 0xE0000000"

definition matches_prefix :: "ipaddr \<Rightarrow> ipaddr \<Rightarrow> ipaddr \<Rightarrow> bool" where
  "matches_prefix a addr msk \<longleftrightarrow> ((a XOR addr) AND msk) = 0"

definition mask_as_specific :: "ipaddr \<Rightarrow> ipaddr \<Rightarrow> bool" where
  "mask_as_specific a msk \<longleftrightarrow> (a AND msk) = msk"

definition mask_more_specific :: "ipaddr \<Rightarrow> ipaddr \<Rightarrow> bool" where
  "mask_more_specific a msk \<longleftrightarrow> (push_bit 1 a AND msk) = msk"

definition make_prefix :: "int \<Rightarrow> ipaddr exec" where
  "make_prefix prefix_len =
     (if 0 \<le> prefix_len \<and> prefix_len \<le> 32
      then Inr (htonl (if prefix_len > 0 then push_bit (nat (32 - prefix_len)) 0xFFFFFFFF else 0))
      else Inl Assert_failed)"

text \<open>The first set bit, counted from 1, by halving and a table (\<^verbatim>\<open>click/lib/integers.cc\<close>).\<close>

definition ffs_bvals :: "nat list" where
  "ffs_bvals = [0, 1, 2, 1, 3, 1, 2, 1, 4, 1, 2, 1, 3, 1, 2, 1]"

definition ffs_lsb :: "u32 \<Rightarrow> nat" where
  "ffs_lsb x =
     (if (x AND 0x0000FFFF) = 0 \<and> x = 0 then 0
      else (let (add1, x1) = (if (x AND 0x0000FFFF) = 0 then (16, drop_bit 16 x) else (0, x));
                (add2, x2) = (if (x1 AND 0x00FF) = 0 then (add1 + 8, drop_bit 8 x1) else (add1, x1));
                (add3, x3) = (if (x2 AND 0x0F) = 0 then (add2 + 4, drop_bit 4 x2) else (add2, x2))
            in add3 + ffs_bvals ! unat (x3 AND 0xF)))"

definition mask_to_prefix_len :: "ipaddr \<Rightarrow> int" where
  "mask_to_prefix_len a =
     (let host_addr = ntohl a; prefix = ffs_lsb host_addr
      in if prefix = 0 then 0
         else if host_addr = push_bit (prefix - 1) 0xFFFFFFFF then 33 - int prefix
         else - 1)"

section \<open>Printing and parsing\<close>

definition isdigit :: "char \<Rightarrow> bool" where
  "isdigit c \<longleftrightarrow> 48 \<le> (of_char c :: nat) \<and> (of_char c :: nat) \<le> 57"

definition digit_val :: "char \<Rightarrow> nat" where
  "digit_val c = of_char c - 48"

definition digit_char :: "nat \<Rightarrow> char" where
  "digit_char n = char_of (48 + n)"

text \<open>\<open>%d\<close> of a non-negative int.\<close>

fun dec_string :: "nat \<Rightarrow> string" where
  "dec_string n = (if n < 10 then [digit_char n] else dec_string (n div 10) @ [digit_char (n mod 10)])"

declare dec_string.simps [simp del]

definition ip_unparse :: "ipaddr \<Rightarrow> string" where
  "ip_unparse a =
     (let p = map unat (ip_data a)
      in dec_string (p ! 0) @ ''.'' @ dec_string (p ! 1) @ ''.'' @ dec_string (p ! 2) @ ''.''
         @ dec_string (p ! 3))"

text \<open>\<open>for (++t; t != end && isdigit(*t) && part <= 255; ++t) part = part * 10 + *t - '0';\<close>\<close>

fun parse_part :: "nat \<Rightarrow> string \<Rightarrow> nat \<times> string" where
  "parse_part part [] = (part, [])"
| "parse_part part (c # cs) =
     (if isdigit c \<and> part \<le> 255 then parse_part (part * 10 + digit_val c) cs else (part, c # cs))"

text \<open>
  The loop of \<^verbatim>\<open>basic_parse\<close>, at component \<open>d\<close> with the values so far and the rest of the string;
  the first argument counts the components still allowed. The result is the rest and the values.
\<close>

fun basic_parse_loop :: "nat \<Rightarrow> nat \<Rightarrow> string \<Rightarrow> nat list \<Rightarrow> string \<times> nat list" where
  "basic_parse_loop 0 d s vs = (s, vs)"
| "basic_parse_loop (Suc n) d s vs =
     (if s \<noteq> [] \<and> (d = 0 \<or> hd s = CHR ''.'')
      then (case (if d = 0 then s else tl s) of
              [] \<Rightarrow> (s, vs)
            | c # cs \<Rightarrow>
                if \<not> isdigit c then (s, vs)
                else (case parse_part (digit_val c) cs of (part, t) \<Rightarrow>
                        if part > 255 then (s, vs)
                        else basic_parse_loop n (d + 1) t (vs @ [part])))
      else (s, vs))"

definition basic_parse :: "string \<Rightarrow> string \<times> byte list \<times> nat" where
  "basic_parse s = (case basic_parse_loop 4 0 s [] of (rest, vs) \<Rightarrow>
     (rest, map of_nat vs @ replicate (4 - length vs) 0, length vs))"

definition ip_parse :: "(string \<Rightarrow> ipaddr option) \<Rightarrow> string \<Rightarrow> ipaddr option" where
  "ip_parse query_ip str =
     (case basic_parse str of (rest, v, nbytes) \<Rightarrow>
        if rest = [] \<and> nbytes = 4 then Some (ip_quad (v ! 0) (v ! 1) (v ! 2) (v ! 3))
        else query_ip str)"

text \<open>The constructor \<^verbatim>\<open>IPAddress(const String &)\<close>: the address 0 when the string does not parse.\<close>

definition IPAddress :: "(string \<Rightarrow> ipaddr option) \<Rightarrow> string \<Rightarrow> ipaddr" where
  "IPAddress query_ip str = (case ip_parse query_ip str of Some a \<Rightarrow> a | None \<Rightarrow> 0)"

section \<open>Prefixes\<close>

text \<open>The bit-trick \<^verbatim>\<open>ffs_lsb\<close> finds the lowest set bit.\<close>

lemma and_mask_zero:
  fixes x :: u32
  shows "(x AND 0xFFFF) = 0 \<longleftrightarrow> (\<forall>i < 16. \<not> bit x i)" "(x AND 0xFF) = 0 \<longleftrightarrow> (\<forall>i < 8. \<not> bit x i)"
    "(x AND 0xF) = 0 \<longleftrightarrow> (\<forall>i < 4. \<not> bit x i)"
proof -
  have m: "(x AND mask n) = 0 \<longleftrightarrow> (\<forall>i < n. \<not> bit x i)" if "n < 32" for n
  proof
    assume "\<forall>i < n. \<not> bit x i"
    then show "(x AND mask n) = 0" by (auto intro!: bit_word_eqI simp: bit_simps)
  next
    assume "(x AND mask n) = 0"
    then have z: "\<not> bit (x AND mask n) i" for i by simp
    have "\<not> bit x i" if "i < n" for i
      using z [of i] that \<open>n < 32\<close> by (simp add: bit_simps)
    then show "\<forall>i < n. \<not> bit x i" by blast
  qed
  show "(x AND 0xFFFF) = 0 \<longleftrightarrow> (\<forall>i < 16. \<not> bit x i)" "(x AND 0xFF) = 0 \<longleftrightarrow> (\<forall>i < 8. \<not> bit x i)"
    "(x AND 0xF) = 0 \<longleftrightarrow> (\<forall>i < 4. \<not> bit x i)"
    using m [of 16] m [of 8] m [of 4] by (simp_all add: mask_eq_exp_minus_1)
qed

text \<open>\<open>low_bit x n\<close>: \<open>n\<close> is the position of the lowest set bit of \<open>x\<close>.\<close>

definition low_bit :: "u32 \<Rightarrow> nat \<Rightarrow> bool" where
  "low_bit x n \<longleftrightarrow> bit x n \<and> (\<forall>i < n. \<not> bit x i)"

lemma low_bit_shift:
  assumes "\<forall>i < k. \<not> bit x i" and "low_bit (drop_bit k x) n"
  shows "low_bit x (k + n)"
  unfolding low_bit_def
proof (intro conjI allI impI)
  show "bit x (k + n)" using assms(2) by (simp add: low_bit_def bit_simps)
  show "\<not> bit x i" if "i < k + n" for i
  proof (cases "i < k")
    case False
    then have "\<not> bit (drop_bit k x) (i - k)" using that assms(2) by (simp add: low_bit_def)
    with False show ?thesis by (simp add: bit_drop_bit_eq)
  qed (use assms(1) in simp)
qed

lemma ffs_bvals_low:
  assumes "(x AND 0xF) \<noteq> 0"
  shows "\<exists>n. ffs_bvals ! unat (x AND 0xF) = Suc n \<and> low_bit x n"
proof -
  define k where "k = unat (x AND 0xF)"
  have y: "x AND 0xF = of_nat k" by (simp add: k_def)
  have "x AND 0xF = take_bit 4 x" by (simp add: take_bit_eq_mask mask_eq_exp_minus_1)
  then have "k < 16" by (simp add: k_def take_bit_eq_mod unat_mod)
  have b: "bit x i = bit (of_nat k :: u32) i" if "i < 4" for i
    using that by (simp add: y [symmetric] bit_and_iff bit_numeral_rec(1) numeral_nat less_Suc_eq) (auto simp: bit_simps)
  have "k \<noteq> 0" using assms y by (intro notI) simp
  have "\<forall>k \<in> set [1..<16]. \<exists>n \<in> set [0..<4]. ffs_bvals ! k = Suc n \<and> bit (of_nat k :: u32) n \<and>
          (\<forall>i \<in> set [0..<n]. \<not> bit (of_nat k :: u32) i)"
    by code_simp
  with \<open>k \<noteq> 0\<close> \<open>k < 16\<close> have "\<exists>n < 4. ffs_bvals ! k = Suc n \<and> bit (of_nat k :: u32) n \<and>
      (\<forall>i < n. \<not> bit (of_nat k :: u32) i)"
    by (fastforce simp: Suc_le_eq)
  then show ?thesis using b by (auto simp: k_def [symmetric] low_bit_def)
qed

lemma ffs_lsb_zero: "ffs_lsb 0 = 0"
  by (simp add: ffs_lsb_def)

lemma ffs_lsb_low_bit:
  assumes "x \<noteq> 0"
  shows "\<exists>n. ffs_lsb x = Suc n \<and> low_bit x n"
proof -
  define a1 x1 where "a1 = (if (x AND 0xFFFF) = 0 then 16 else (0 :: nat))" and "x1 = drop_bit a1 x"
  define a2 x2 where "a2 = (if (x1 AND 0xFF) = 0 then 8 else (0 :: nat))" and "x2 = drop_bit a2 x1"
  define a3 x3 where "a3 = (if (x2 AND 0xF) = 0 then 4 else (0 :: nat))" and "x3 = drop_bit a3 x2"
  note defs = a1_def x1_def a2_def x2_def a3_def x3_def
  have z1: "\<forall>i < a1. \<not> bit x i" and z2: "\<forall>i < a2. \<not> bit x1 i" and z3: "\<forall>i < a3. \<not> bit x2 i"
    by (auto simp: a1_def a2_def a3_def and_mask_zero)
  have n1: "\<exists>i < 16. bit x1 i"
  proof (cases "(x AND 0xFFFF) = 0")
    case True
    obtain i where i: "bit x i" using assms by (metis bit_eq_iff bit_0_eq bot_apply bot_bool_def)
    with True have "16 \<le> i" "i < 32" by (auto simp: and_mask_zero not_less bit_imp_le_length dest: bit_imp_le_length)
    with i True have "bit x1 (i - 16)" "i - 16 < 16" by (simp_all add: x1_def a1_def bit_simps)
    then show ?thesis by blast
  qed (auto simp: x1_def a1_def and_mask_zero)
  have n2: "\<exists>i < 8. bit x2 i"
  proof (cases "(x1 AND 0xFF) = 0")
    case True
    with n1 obtain i where i: "bit x1 i" "8 \<le> i" "i < 16" by (metis and_mask_zero(2) not_less)
    with True have "bit x2 (i - 8)" "i - 8 < 8" by (simp_all add: x2_def a2_def bit_simps)
    then show ?thesis by blast
  qed (auto simp: x2_def a2_def and_mask_zero)
  have n3: "\<exists>i < 4. bit x3 i"
  proof (cases "(x2 AND 0xF) = 0")
    case True
    with n2 obtain i where i: "bit x2 i" "4 \<le> i" "i < 8" by (metis and_mask_zero(3) not_less)
    with True have "bit x3 (i - 4)" "i - 4 < 4" by (simp_all add: x3_def a3_def bit_simps)
    then show ?thesis by blast
  qed (auto simp: x3_def a3_def and_mask_zero)
  then obtain n where n: "ffs_bvals ! unat (x3 AND 0xF) = Suc n" "low_bit x3 n"
    using ffs_bvals_low [of x3] by (auto simp: and_mask_zero)
  have "low_bit x (a1 + (a2 + (a3 + n)))"
    using n(2) z1 z2 z3 unfolding x1_def x2_def x3_def by (blast intro: low_bit_shift)
  moreover have "ffs_lsb x = Suc (a1 + (a2 + (a3 + n)))"
    using assms n(1) by (simp add: ffs_lsb_def Let_def defs split: if_splits)
  ultimately show ?thesis by blast
qed

lemma bit_push_ones: "bit (push_bit k (0xFFFFFFFF :: u32)) i \<longleftrightarrow> k \<le> i \<and> i < 32"
proof -
  have "(0xFFFFFFFF :: u32) = - 1" by simp
  then show ?thesis by (simp only:) (auto simp: bit_simps)
qed

lemma and_eq_zero_iff: "(x AND y) = (0 :: u32) \<longleftrightarrow> (\<forall>i < 32. \<not> (bit x i \<and> bit y i))"
proof
  assume "(x AND y) = 0"
  then show "\<forall>i < 32. \<not> (bit x i \<and> bit y i)" by (metis bit_and_iff bit_0_eq bot_apply bot_bool_def)
qed (auto intro!: bit_word_eqI simp: bit_simps)

lemma htonl_distrib:
  "htonl (x AND y) = htonl x AND htonl y" "htonl (x XOR y) = htonl x XOR htonl y"
  unfolding htonl_def le32_def by (rule bit_word_eqI; auto simp: bit_simps)+

lemma htonl_eq_iff: "htonl x = y \<longleftrightarrow> x = htonl y"
  by (metis htonl_htonl)

lemma htonl_zero [simp]: "htonl 0 = 0"
  by (simp add: htonl_def le32_def)

lemma low_bit_unique: "low_bit x m \<Longrightarrow> low_bit x n \<Longrightarrow> m = n"
  unfolding low_bit_def by (metis linorder_neqE_nat)

lemma low_bit_push: "k < 32 \<Longrightarrow> low_bit (push_bit k 0xFFFFFFFF) k"
  by (auto simp: low_bit_def bit_push_ones)

lemma push_ones_nonzero: "k < 32 \<Longrightarrow> push_bit k (0xFFFFFFFF :: u32) \<noteq> 0"
  using low_bit_push [of k] by (auto simp: low_bit_def)

text \<open>
  \<open>make_prefix\<close> and \<open>mask_to_prefix_len\<close> are inverse to each other: the length is non-negative
  exactly for the 33 prefix masks, and then it is the length the mask was made from.
\<close>

lemma mask_to_prefix_len_iff:
  "0 \<le> n \<and> mask_to_prefix_len a = n \<longleftrightarrow> make_prefix n = Inr a"
proof (cases "a = 0")
  case True
  have "n = 0" if "0 < n" "n \<le> 32" "push_bit (nat (32 - n)) (0xFFFFFFFF :: u32) = 0"
    using that push_ones_nonzero [of "nat (32 - n)"] by simp
  with True show ?thesis
    by (auto simp: mask_to_prefix_len_def ffs_lsb_zero make_prefix_def Let_def htonl_eq_iff split: if_splits)
next
  case False
  then have "ntohl a \<noteq> 0" by (metis htonl_htonl htonl_zero)
  then obtain k where k: "ffs_lsb (ntohl a) = Suc k" "low_bit (ntohl a) k"
    using ffs_lsb_low_bit by blast
  then have "k < 32" by (auto simp: low_bit_def dest: bit_imp_le_length)
  have fwd: "k = nat (32 - n)" if "ntohl a = push_bit (nat (32 - n)) 0xFFFFFFFF" "0 < n" "n \<le> 32"
  proof (rule low_bit_unique [OF k(2)])
    show "low_bit (ntohl a) (nat (32 - n))" unfolding that(1) using that by (intro low_bit_push) auto
  qed
  have eq: "n = 32 - int k \<Longrightarrow> nat (32 - n) = k" by simp
  show ?thesis (is "?L \<longleftrightarrow> ?R")
  proof
    assume ?L
    with k(1) have "ntohl a = push_bit k 0xFFFFFFFF" "n = 32 - int k"
      by (auto simp: mask_to_prefix_len_def Let_def split: if_splits)
    with \<open>k < 32\<close> eq show ?R by (simp add: make_prefix_def htonl_eq_iff)
  next
    assume ?R
    then have n: "0 \<le> n" "n \<le> 32"
      and a: "a = htonl (if n > 0 then push_bit (nat (32 - n)) 0xFFFFFFFF else 0)"
      by (auto simp: make_prefix_def split: if_splits)
    have "n > 0" using False a by (cases "n > 0") simp_all
    with a have p: "ntohl a = push_bit (nat (32 - n)) 0xFFFFFFFF" by simp
    from fwd [OF this \<open>n > 0\<close> n(2)] n p k(1) show ?L
      by (simp add: mask_to_prefix_len_def Let_def)
  qed
qed

text \<open>An address matches a prefix of length \<open>n\<close> when their \<open>n\<close> leading bits agree.\<close>

lemma matches_prefix_leading_bits:
  assumes "make_prefix (int n) = Inr m"
  shows "matches_prefix a addr m \<longleftrightarrow> drop_bit (32 - n) (ntohl a) = drop_bit (32 - n) (ntohl addr)"
proof -
  have n: "n \<le> 32" and m: "m = htonl (if n > 0 then push_bit (32 - n) 0xFFFFFFFF else 0)"
    using assms by (auto simp: make_prefix_def nat_diff_distrib split: if_splits)
  let ?x = "ntohl a XOR ntohl addr"
  have "matches_prefix a addr m \<longleftrightarrow> (?x AND ntohl m) = 0"
    unfolding matches_prefix_def by (metis htonl_distrib htonl_htonl htonl_zero)
  also have "\<dots> \<longleftrightarrow> (\<forall>i < 32. 32 - n \<le> i \<longrightarrow> \<not> bit ?x i)"
    using n unfolding m by (auto simp: and_eq_zero_iff bit_push_ones)
  also have "\<dots> \<longleftrightarrow> drop_bit (32 - n) (ntohl a) = drop_bit (32 - n) (ntohl addr)"
  proof
    assume *: "drop_bit (32 - n) (ntohl a) = drop_bit (32 - n) (ntohl addr)"
    show "\<forall>i < 32. 32 - n \<le> i \<longrightarrow> \<not> bit ?x i"
    proof (intro allI impI)
      fix i :: nat assume "32 - n \<le> i"
      then have "bit (ntohl a) i = bit (drop_bit (32 - n) (ntohl a)) (i - (32 - n))"
        "bit (ntohl addr) i = bit (drop_bit (32 - n) (ntohl addr)) (i - (32 - n))"
        by (simp_all add: bit_drop_bit_eq)
      with * show "\<not> bit ?x i" by (simp add: bit_xor_iff)
    qed
  next
    assume *: "\<forall>i < 32. 32 - n \<le> i \<longrightarrow> \<not> bit ?x i"
    show "drop_bit (32 - n) (ntohl a) = drop_bit (32 - n) (ntohl addr)"
    proof (rule bit_word_eqI)
      fix i assume "i < LENGTH(32)"
      show "bit (drop_bit (32 - n) (ntohl a)) i = bit (drop_bit (32 - n) (ntohl addr)) i"
      proof (cases "32 - n + i < 32")
        case True
        with * show ?thesis by (auto simp: bit_drop_bit_eq bit_xor_iff)
      next
        case False
        then show ?thesis by (auto simp: bit_drop_bit_eq dest: bit_imp_le_length)
      qed
    qed
  qed
  finally show ?thesis .
qed

section \<open>The dotted-quad round trip\<close>

lemma digit_facts:
  assumes "d < 10"
  shows "isdigit (digit_char d)" "digit_val (digit_char d) = d"
  using assms by (simp_all add: isdigit_def digit_val_def digit_char_def)

lemma not_isdigit_dot [simp]: "\<not> isdigit CHR ''.''"
  by (simp add: isdigit_def)

lemma parse_part_stop: "rest = [] \<or> hd rest = CHR ''.'' \<Longrightarrow> parse_part n rest = (n, rest)"
  by (cases rest) auto

lemma parse_dec_string:
  assumes "n \<le> 255" and "rest = [] \<or> hd rest = CHR ''.''"
  shows "\<exists>c cs. dec_string n = c # cs \<and> isdigit c \<and> parse_part (digit_val c) (cs @ rest) = (n, rest)"
proof -
  consider "n < 10" | "10 \<le> n" "n < 100" | "100 \<le> n" by linarith
  then show ?thesis
  proof cases
    case 1
    then have "dec_string n = [digit_char n]" by (simp add: dec_string.simps [of n])
    with 1 assms show ?thesis by (simp add: digit_facts parse_part_stop)
  next
    case 2
    then have d: "n div 10 < 10" "n mod 10 < 10" by simp_all
    then have s: "dec_string n = [digit_char (n div 10), digit_char (n mod 10)]"
      using 2 by (simp add: dec_string.simps [of n] dec_string.simps [of "n div 10"])
    have "n div 10 * 10 + n mod 10 = n" by simp
    with d assms s show ?thesis by (simp add: digit_facts parse_part_stop)
  next
    case 3
    then have d: "n div 10 div 10 < 10" "n div 10 mod 10 < 10" "n mod 10 < 10" "n div 10 \<ge> 10"
      "n div 10 \<le> 255" "n div 10 div 10 \<le> 255"
      using assms(1) by linarith+
    have e: "n div 10 div 10 * 10 + n div 10 mod 10 = n div 10" "n div 10 * 10 + n mod 10 = n" by simp_all
    have s: "dec_string n = [digit_char (n div 10 div 10), digit_char (n div 10 mod 10), digit_char (n mod 10)]"
      using 3 d by (simp add: dec_string.simps [of n] dec_string.simps [of "n div 10"]
          dec_string.simps [of "n div 10 div 10"])
    show ?thesis unfolding s using d assms e
      by (simp add: digit_facts parse_part_stop del: div_mult_mod_eq) linarith
  qed
qed

lemma basic_parse_loop_step:
  assumes "n \<le> 255" and "rest = [] \<or> hd rest = CHR ''.''"
    and "s = (if d = 0 then dec_string n @ rest else CHR ''.'' # dec_string n @ rest)"
  shows "basic_parse_loop (Suc k) d s vs = basic_parse_loop k (d + 1) rest (vs @ [n])"
proof -
  obtain c cs where "dec_string n = c # cs" "isdigit c" "parse_part (digit_val c) (cs @ rest) = (n, rest)"
    using parse_dec_string [OF assms(1,2)] by blast
  with assms show ?thesis by auto
qed

text \<open>Printing an address and parsing the result gives the address back, whatever names are defined.\<close>

lemma ip_parse_unparse: "ip_parse query_ip (ip_unparse a) = Some a"
proof -
  obtain b0 b1 b2 b3 where b: "ip_data a = [b0, b1, b2, b3]" and a: "a = le32 b0 b1 b2 b3"
    using le32_bytes [of a] by (metis ip_data_def bytes32_def)
  have le: "unat (x :: byte) \<le> 255" for x using unat_byte_less [of x] by simp
  note step = basic_parse_loop_step [OF le]
  let ?d = "CHR ''.''"
  have "basic_parse_loop (Suc 3) 0 (ip_unparse a) [] = basic_parse_loop 3 (0 + 1)
      (?d # dec_string (unat b1) @ ?d # dec_string (unat b2) @ ?d # dec_string (unat b3)) ([] @ [unat b0])"
    by (rule step) (simp_all add: ip_unparse_def b)
  also have "\<dots> = basic_parse_loop (Suc 2) 1
      (?d # dec_string (unat b1) @ ?d # dec_string (unat b2) @ ?d # dec_string (unat b3)) [unat b0]"
    by (simp add: numeral_eq_Suc)
  also have "\<dots> = basic_parse_loop (Suc 1) 2 (?d # dec_string (unat b2) @ ?d # dec_string (unat b3)) [unat b0, unat b1]"
    using step [of "?d # dec_string (unat b2) @ ?d # dec_string (unat b3)" _ 1 b1 "Suc 1" "[unat b0]"]
    by (simp add: numeral_eq_Suc del: basic_parse_loop.simps)
  also have "\<dots> = basic_parse_loop (Suc 0) 3 (?d # dec_string (unat b3)) [unat b0, unat b1, unat b2]"
    using step [of "?d # dec_string (unat b3)" _ 2 b2 "Suc 0" "[unat b0, unat b1]"]
    by (simp add: numeral_eq_Suc del: basic_parse_loop.simps)
  also have "\<dots> = ([], [unat b0, unat b1, unat b2, unat b3])"
    using step [of "[]" _ 3 b3 0 "[unat b0, unat b1, unat b2]"]
    by (simp del: basic_parse_loop.simps(2))
  finally have "basic_parse_loop 4 0 (ip_unparse a) [] = ([], [unat b0, unat b1, unat b2, unat b3])"
    by (simp only: numeral_eq_Suc) simp
  then show ?thesis by (simp add: ip_parse_def basic_parse_def a)
qed

section \<open>Properties\<close>

text \<open>Every address printed by \<open>unparse\<close> is parsed back, whatever name resolution would answer.\<close>

lemma ip_unparse_parses: "IPAddress query_ip (ip_unparse a) = a"
  by (simp add: IPAddress_def ip_parse_unparse)

text \<open>
  \<open>mask_to_prefix_len\<close> recognises exactly the masks \<open>make_prefix\<close> makes: it answers a length between
  0 and 32 for the mask of that length and - 1 for an address that is no mask of any length.
\<close>

lemma mask_to_prefix_len_correct:
  "(\<forall>n. 0 \<le> n \<and> mask_to_prefix_len a = n \<longleftrightarrow> make_prefix n = Inr a) \<and>
   (mask_to_prefix_len a = - 1 \<longleftrightarrow> (\<forall>n. make_prefix n \<noteq> Inr a))"
proof (intro conjI allI)
  show "0 \<le> n \<and> mask_to_prefix_len a = n \<longleftrightarrow> make_prefix n = Inr a" for n
    by (rule mask_to_prefix_len_iff)
  have "0 \<le> mask_to_prefix_len a \<or> mask_to_prefix_len a = - 1"
  proof (cases "ntohl a = 0")
    case False
    then obtain n where "ffs_lsb (ntohl a) = Suc n" "bit (ntohl a) n"
      using ffs_lsb_low_bit by (auto simp: low_bit_def)
    with bit_imp_le_length [of "ntohl a" n] show ?thesis unfolding mask_to_prefix_len_def Let_def by auto
  qed (simp add: mask_to_prefix_len_def ffs_lsb_zero)
  then show "mask_to_prefix_len a = - 1 \<longleftrightarrow> (\<forall>n. make_prefix n \<noteq> Inr a)"
    using mask_to_prefix_len_iff [of _ a] by (metis neg_0_le_iff_le not_one_le_zero)
qed

text \<open>
  An address matches a prefix of n bits iff it agrees with the prefix in its n leading bits (in
  host order).
\<close>

lemma matches_prefix_correct:
  assumes "mask_to_prefix_len m = int n"
  shows "matches_prefix a addr m \<longleftrightarrow> (\<forall>i < n. bit (ntohl a) (31 - i) = bit (ntohl addr) (31 - i))"
proof -
  have m: "make_prefix (int n) = Inr m" using mask_to_prefix_len_iff [of "int n" m] assms by simp
  then have n: "n \<le> 32" by (simp add: make_prefix_def split: if_splits)
  have "matches_prefix a addr m \<longleftrightarrow> (\<forall>j. bit (ntohl a) (32 - n + j) = bit (ntohl addr) (32 - n + j))"
    unfolding matches_prefix_leading_bits [OF m] bit_eq_iff bit_drop_bit_eq
    using bit_imp_le_length [of "ntohl a"] bit_imp_le_length [of "ntohl addr"] by fastforce
  also have "\<dots> \<longleftrightarrow> (\<forall>i < n. bit (ntohl a) (31 - i) = bit (ntohl addr) (31 - i))" (is "?l \<longleftrightarrow> ?r")
  proof
    assume ?l
    show ?r
    proof (intro allI impI)
      fix i assume "i < n"
      then show "bit (ntohl a) (31 - i) = bit (ntohl addr) (31 - i)"
        using \<open>?l\<close> [rule_format, of "n - 1 - i"] n by simp
    qed
  next
    assume r: ?r
    show ?l
    proof
      fix j
      show "bit (ntohl a) (32 - n + j) = bit (ntohl addr) (32 - n + j)"
      proof (cases "j < n")
        case True
        then show ?thesis using r [rule_format, of "n - 1 - j"] n by simp
      next
        case False
        then have "32 \<le> 32 - n + j" using n by simp
        then show ?thesis using bit_imp_le_length [of "ntohl a"] bit_imp_le_length [of "ntohl addr"] by force
      qed
    qed
  qed
  finally show ?thesis .
qed

theorem matches_prefix_correct_witness:
  "mask_to_prefix_len (ip_quad 255 255 255 0) = int 24 \<and>
   (matches_prefix (ip_quad 192 168 2 1) (ip_quad 192 168 2 0) (ip_quad 255 255 255 0) \<longleftrightarrow>
     (\<forall>i < 24. bit (ntohl (ip_quad 192 168 2 1)) (31 - i) = bit (ntohl (ip_quad 192 168 2 0)) (31 - i)))"
proof -
  have m: "make_prefix (int 24) = Inr (ip_quad 255 255 255 0)" by (simp add: make_prefix_def htonl_def)
  then have "mask_to_prefix_len (ip_quad 255 255 255 0) = int 24"
    using mask_to_prefix_len_iff [of "int 24" "ip_quad 255 255 255 0"] by simp
  with matches_prefix_correct [OF this] show ?thesis by blast
qed

end
