(* ===== verification/IGMP_Packets.thy ===== *)
theory IGMP_Packets
  imports Click_IPAddress
begin

text \<open>
  The data of \<^verbatim>\<open>elements/packets.hh\<close>: the layouts of the three wire structures as sizes and field
  offsets (little-endian host, natural alignment, no padding), the parsed group record, the filter
  mode and the database record. Vectors are lists (theory \<open>Click_Vector\<close> shows why that is right).
\<close>

section \<open>Wire layouts\<close>

definition sizeof_click_ip :: nat where
  "sizeof_click_ip = 20"

text \<open>\<^verbatim>\<open>struct igmpv3query\<close>\<close>

definition sizeof_igmpv3query :: nat where
  "sizeof_igmpv3query = 12"

abbreviation (input) q_type :: nat where "q_type \<equiv> 0"
abbreviation (input) q_max_response_code :: nat where "q_max_response_code \<equiv> 1"
abbreviation (input) q_checksum :: nat where "q_checksum \<equiv> 2"
abbreviation (input) q_group_address :: nat where "q_group_address \<equiv> 4"
abbreviation (input) q_resv_and_s_and_qrv :: nat where "q_resv_and_s_and_qrv \<equiv> 8"
abbreviation (input) q_qqic :: nat where "q_qqic \<equiv> 9"
abbreviation (input) q_no_of_sources :: nat where "q_no_of_sources \<equiv> 10"
abbreviation (input) q_sources :: "nat \<Rightarrow> nat" where "q_sources i \<equiv> 12 + 4 * i"

text \<open>\<^verbatim>\<open>struct igmpv3grouprecord\<close>\<close>

definition sizeof_igmpv3grouprecord :: nat where
  "sizeof_igmpv3grouprecord = 8"

abbreviation (input) g_type :: nat where "g_type \<equiv> 0"
abbreviation (input) g_aux_data_len :: nat where "g_aux_data_len \<equiv> 1"
abbreviation (input) g_no_of_sources :: nat where "g_no_of_sources \<equiv> 2"
abbreviation (input) g_multicast_address :: nat where "g_multicast_address \<equiv> 4"
abbreviation (input) g_sources :: "nat \<Rightarrow> nat" where "g_sources i \<equiv> 8 + 4 * i"

text \<open>\<^verbatim>\<open>struct igmpv3report\<close>\<close>

definition sizeof_igmpv3report :: nat where
  "sizeof_igmpv3report = 8"

abbreviation (input) r_type :: nat where "r_type \<equiv> 0"
abbreviation (input) r_reserved :: nat where "r_reserved \<equiv> 1"
abbreviation (input) r_checksum :: nat where "r_checksum \<equiv> 2"
abbreviation (input) r_reserved_long :: nat where "r_reserved_long \<equiv> 4"
abbreviation (input) r_no_of_grouprecords :: nat where "r_no_of_grouprecords \<equiv> 6"

section \<open>High-level records\<close>

text \<open>\<^verbatim>\<open>struct grouprecord\<close>, \<^verbatim>\<open>enum filtermode\<close> and \<^verbatim>\<open>struct Record\<close>\<close>

record grouprecord =
  gr_type :: u8
  gr_multicast_address :: ipaddr
  gr_sources :: "ipaddr list"

datatype filtermode = INCLUDE | EXCLUDE

record Record =
  multicast_address :: ipaddr
  sources :: "ipaddr list"
  filter_mode :: filtermode

end
