(* ===== verification/Click_Vector.thy ===== *)
theory Click_Vector
  imports Prelude
begin

text \<open>
  Click's \<^verbatim>\<open>Vector<T>\<close> (\<^verbatim>\<open>click/include/click/vector.hh\<close>, \<^verbatim>\<open>click/include/click/vector.cc\<close>): an allocated
  array of cells, of which the first \<open>vn\<close> hold constructed objects. A cell is \<open>None\<close> when it is raw
  memory. Iterators are positions. Whether \<^verbatim>\<open>CLICK_LALLOC\<close> of a number of elements succeeds is the
  argument \<open>alloc\<close>. The section on correctness shows that each operation on a well-formed vector
  is the list operation of the same name; the other theories then use lists for vectors, and
  the positions of \<open>list_erase\<close> for iterators.
\<close>

section \<open>Representation and operations\<close>

record 'a vector =
  cells :: "'a option list"
  vn :: nat

abbreviation capacity :: "'a vector \<Rightarrow> nat" where
  "capacity v \<equiv> length (cells v)"

definition vec_empty :: "'a vector" where
  "vec_empty = \<lparr> cells = [], vn = 0 \<rparr>"

definition vec_at :: "'a vector \<Rightarrow> nat \<Rightarrow> 'a exec" where
  "vec_at v i = (if i < vn v then (case cells v ! i of Some x \<Rightarrow> Inr x | None \<Rightarrow> Inl Out_of_bounds)
                 else Inl Assert_failed)"

text \<open>
  \<open>reserve_and_push_back(want, 0)\<close>, where a negative \<open>want\<close> (\<open>RESERVE_GROW\<close>) is \<open>None\<close>. The flag is the
  return value.
\<close>

definition vec_reserve :: "(nat \<Rightarrow> bool) \<Rightarrow> nat option \<Rightarrow> 'a vector \<Rightarrow> bool \<times> 'a vector" where
  "vec_reserve alloc w v =
     (let want = (case w of None \<Rightarrow> if capacity v > 0 then capacity v * 2 else 4 | Some n \<Rightarrow> n)
      in if want > capacity v
         then if \<not> alloc want then (False, v)
              else (True, v\<lparr> cells := take (vn v) (cells v) @ replicate (want - vn v) None \<rparr>)
         else (True, v))"

definition vec_construct_end :: "'a \<Rightarrow> 'a vector \<Rightarrow> 'a vector" where
  "vec_construct_end x v = v\<lparr> cells := (cells v)[vn v := Some x], vn := vn v + 1 \<rparr>"

definition vec_push_back :: "(nat \<Rightarrow> bool) \<Rightarrow> 'a \<Rightarrow> 'a vector \<Rightarrow> 'a vector" where
  "vec_push_back alloc x v =
     (if vn v < capacity v then vec_construct_end x v
      else (case vec_reserve alloc None v of (ok, v') \<Rightarrow>
              if ok then vec_construct_end x v' else v'))"

definition vec_pop_back :: "'a vector \<Rightarrow> 'a vector exec" where
  "vec_pop_back v = (if vn v > 0 then Inr (v\<lparr> cells := (cells v)[vn v - 1 := None], vn := vn v - 1 \<rparr>)
                     else Inl Assert_failed)"

text \<open>The copying loop of \<open>erase(a, b)\<close> and the loop that destroys what is left.\<close>

function erase_move :: "nat \<Rightarrow> nat \<Rightarrow> nat \<Rightarrow> 'a option list \<Rightarrow> 'a option list" where
  "erase_move n i j c = (if j < n then erase_move n (i + 1) (j + 1) (c[i := c ! j]) else c)"
  by pat_completeness auto
termination
  by (relation "measure (\<lambda>(n, i, j, c). n - j)") auto

function destroy_from :: "nat \<Rightarrow> nat \<Rightarrow> 'a option list \<Rightarrow> 'a option list" where
  "destroy_from n i c = (if i < n then destroy_from n (i + 1) (c[i := None]) else c)"
  by pat_completeness auto
termination
  by (relation "measure (\<lambda>(n, i, c). n - i)") auto

declare erase_move.simps [simp del] destroy_from.simps [simp del]

definition vec_erase_range :: "nat \<Rightarrow> nat \<Rightarrow> 'a vector \<Rightarrow> (nat \<times> 'a vector) exec" where
  "vec_erase_range a b v =
     (if b > a
      then if b \<le> vn v
           then Inr (a, v\<lparr> cells := destroy_from (vn v) (a + (vn v - b)) (erase_move (vn v) a b (cells v)),
                           vn := vn v - (b - a) \<rparr>)
           else Inl Assert_failed
      else Inr (b, v))"

definition vec_erase :: "nat \<Rightarrow> 'a vector \<Rightarrow> (nat \<times> 'a vector) exec" where
  "vec_erase it v = (if it < vn v then vec_erase_range it (it + 1) v else Inr (it, v))"

definition vec_clear :: "'a vector \<Rightarrow> 'a vector exec" where
  "vec_clear v = ebind (vec_erase_range 0 (vn v) v) (\<lambda>(_, v'). Inr v')"

text \<open>\<open>for (j = end(); j > it; ) { --j; new(j + 1) T(*j); j->~T(); }\<close>, by the number of steps left.\<close>

fun insert_move :: "nat \<Rightarrow> nat \<Rightarrow> 'a option list \<Rightarrow> 'a option list" where
  "insert_move it 0 c = c"
| "insert_move it (Suc k) c = insert_move it k (c[it + k + 1 := c ! (it + k), it + k := None])"

definition vec_insert :: "(nat \<Rightarrow> bool) \<Rightarrow> nat \<Rightarrow> 'a \<Rightarrow> 'a vector \<Rightarrow> (nat \<times> 'a vector) exec" where
  "vec_insert alloc it x v =
     (if it \<le> vn v
      then (case (if vn v = capacity v then vec_reserve alloc None v else (True, v)) of (ok, v') \<Rightarrow>
              if ok
              then Inr (it, v'\<lparr> cells := (insert_move it (vn v' - it) (cells v'))[it := Some x],
                                vn := vn v' + 1 \<rparr>)
              else Inr (vn v', v'))
      else Inl Assert_failed)"

definition vec_resize :: "(nat \<Rightarrow> bool) \<Rightarrow> nat \<Rightarrow> 'a \<Rightarrow> 'a vector \<Rightarrow> 'a vector" where
  "vec_resize alloc n x v =
     (case (if n \<le> capacity v then (True, v) else vec_reserve alloc (Some n) v) of (ok, v') \<Rightarrow>
        if ok
        then v'\<lparr> cells := fold (\<lambda>i c. c[i := Some x]) [vn v'..<n] (destroy_from (vn v') n (cells v')),
                 vn := n \<rparr>
        else v')"

definition vec_assign :: "(nat \<Rightarrow> bool) \<Rightarrow> 'a vector \<Rightarrow> 'a vector \<Rightarrow> 'a vector" where
  "vec_assign alloc src v =
     (let v0 = v\<lparr> cells := destroy_from (vn v) 0 (cells v), vn := 0 \<rparr>
      in case vec_reserve alloc (Some (vn src)) v0 of (ok, v1) \<Rightarrow>
           if ok
           then v1\<lparr> cells := fold (\<lambda>i c. c[i := cells src ! i]) [0..<vn src] (cells v1), vn := vn src \<rparr>
           else v1)"

section \<open>Correctness\<close>

text \<open>A well-formed vector: the objects of a list, then raw memory.\<close>

definition vec_of :: "'a list \<Rightarrow> nat \<Rightarrow> 'a vector" where
  "vec_of xs k = \<lparr> cells = map Some xs @ replicate k None, vn = length xs \<rparr>"

definition vec_list :: "'a vector \<Rightarrow> 'a list" where
  "vec_list v = map the (take (vn v) (cells v))"

definition vec_inv :: "'a vector \<Rightarrow> bool" where
  "vec_inv v \<longleftrightarrow> (\<exists>xs k. v = vec_of xs k)"

lemma vec_of_simps [simp]:
  "vn (vec_of xs k) = length xs" "capacity (vec_of xs k) = length xs + k"
  "vec_list (vec_of xs k) = xs" "vec_inv (vec_of xs k)"
  by (auto simp: vec_of_def vec_list_def vec_inv_def comp_def)

lemma cells_vec_of: "cells (vec_of xs k) = map Some xs @ replicate k None"
  by (simp add: vec_of_def)

lemma cells_vec_of_nth:
  "t < length xs + k \<Longrightarrow> cells (vec_of xs k) ! t = (if t < length xs then Some (xs ! t) else None)"
  by (simp add: cells_vec_of nth_append)

lemma vec_of_eqI: "cells v = map Some xs @ replicate k None \<Longrightarrow> vn v = length xs \<Longrightarrow> v = vec_of xs k"
  by (simp add: vec_of_def)

lemma vec_empty_of: "vec_empty = vec_of [] 0"
  by (simp add: vec_empty_def vec_of_def)

lemma vec_at_of:
  "vec_at (vec_of xs k) i = (if i < length xs then Inr (xs ! i) else Inl Assert_failed)"
  by (simp add: vec_at_def cells_vec_of nth_append)

lemma vec_reserve_of:
  "vec_reserve alloc w (vec_of xs k) =
     (let want = (case w of None \<Rightarrow> if length xs + k > 0 then (length xs + k) * 2 else 4 | Some n \<Rightarrow> n)
      in if want \<le> length xs + k then (True, vec_of xs k)
         else if alloc want then (True, vec_of xs (want - length xs)) else (False, vec_of xs k))"
  by (cases w; cases "xs = []"; cases "k = 0") (simp_all add: vec_reserve_def vec_of_def Let_def)

lemma vec_construct_end_of: "0 < k \<Longrightarrow> vec_construct_end x (vec_of xs k) = vec_of (xs @ [x]) (k - 1)"
  by (cases k) (auto intro!: vec_of_eqI simp: vec_construct_end_def cells_vec_of list_update_append)

text \<open>
  \<open>push_back\<close> appends the element; when the array is full it is doubled (or made 4 long), and when
  that allocation fails the vector stays as it was.
\<close>

lemma vec_push_back_of:
  "vec_push_back alloc x (vec_of xs k) =
     (if 0 < k then vec_of (xs @ [x]) (k - 1)
      else let want = (if xs = [] then 4 else length xs * 2)
           in if alloc want then vec_of (xs @ [x]) (want - length xs - 1) else vec_of xs 0)"
  by (auto simp: vec_push_back_def vec_construct_end_of vec_reserve_of Let_def)

lemma vec_pop_back_of:
  "vec_pop_back (vec_of xs k) = (if xs = [] then Inl Assert_failed else Inr (vec_of (butlast xs) (k + 1)))"
proof (cases xs rule: rev_cases)
  case (snoc ys y)
  then show ?thesis
    by (auto intro!: vec_of_eqI simp: vec_pop_back_def cells_vec_of list_update_append)
qed (simp add: vec_pop_back_def)

lemma erase_move_nth:
  assumes "i < j" and "j \<le> n" and "n \<le> length c"
  shows "length (erase_move n i j c) = length c \<and>
     (\<forall>t < length c. erase_move n i j c ! t =
        (if i \<le> t \<and> t < i + (n - j) then c ! (t + (j - i)) else c ! t))"
  using assms
proof (induction n i j c rule: erase_move.induct)
  case (1 n i j c)
  show ?case
  proof (cases "j < n")
    case True
    with 1 have "length (erase_move n (i + 1) (j + 1) (c[i := c ! j])) = length c \<and>
      (\<forall>t < length c. erase_move n (i + 1) (j + 1) (c[i := c ! j]) ! t =
        (if i + 1 \<le> t \<and> t < i + 1 + (n - (j + 1)) then c[i := c ! j] ! (t + (j + 1 - (i + 1)))
         else c[i := c ! j] ! t))"
      by simp
    with True 1(2-) show ?thesis
      by (subst (1 2) erase_move.simps) (auto simp: nth_list_update)
  next
    case False
    with 1(2-) show ?thesis by (subst (1 2) erase_move.simps) simp
  qed
qed

lemma destroy_from_nth:
  "n \<le> length c \<Longrightarrow> length (destroy_from n i c) = length c \<and>
     (\<forall>t < length c. destroy_from n i c ! t = (if i \<le> t \<and> t < n then None else c ! t))"
  by (induction n i c rule: destroy_from.induct)
     (subst (1 2) destroy_from.simps, auto simp: nth_list_update)

text \<open>\<open>erase(a, b)\<close> removes the elements at positions \<open>a\<close> to \<open>b - 1\<close> and keeps the capacity.\<close>

lemma vec_erase_range_of:
  assumes "a < b" and "b \<le> length xs"
  shows "vec_erase_range a b (vec_of xs k) = Inr (a, vec_of (take a xs @ drop b xs) (k + (b - a)))"
proof -
  define c e where "c = cells (vec_of xs k)" and "e = a + (length xs - b)"
  define m where "m = erase_move (length xs) a b c"
  define d where "d = destroy_from (length xs) e m"
  have c: "length c = length xs + k"
    "\<And>t. t < length xs + k \<Longrightarrow> c ! t = (if t < length xs then Some (xs ! t) else None)"
    by (simp_all add: c_def cells_vec_of_nth)
  have m: "length m = length xs + k"
    "\<And>t. t < length xs + k \<Longrightarrow> m ! t = (if a \<le> t \<and> t < e then c ! (t + (b - a)) else c ! t)"
    using erase_move_nth [OF assms, of c] c(1) by (simp_all add: m_def e_def)
  have d: "length d = length xs + k"
    "\<And>t. t < length xs + k \<Longrightarrow> d ! t = (if e \<le> t \<and> t < length xs then None else m ! t)"
    using destroy_from_nth [of "length xs" m e] m(1) by (simp_all add: d_def)
  have "d = map Some (take a xs @ drop b xs) @ replicate (k + (b - a)) None"
  proof (rule nth_equalityI)
    fix t assume "t < length d"
    with d(1) have t: "t < length xs + k" by simp
    have "t - a + b = t + (b - a)" if "a \<le> t" using that assms by simp
    with assms t show "d ! t = (map Some (take a xs @ drop b xs) @ replicate (k + (b - a)) None) ! t"
      by (auto simp: d(2) m(2) c(2) e_def nth_append add.commute)
  qed (use assms d(1) in simp)
  with assms show ?thesis
    by (auto intro!: vec_of_eqI simp: vec_erase_range_def d_def m_def e_def c_def)
qed

lemma vec_clear_of: "vec_clear (vec_of xs k) = Inr (vec_of [] (k + length xs))"
  using vec_erase_range_of [of 0 "length xs" xs k]
  by (cases xs) (simp_all add: vec_clear_def vec_erase_range_def)

text \<open>
  The list view of \<open>erase(it)\<close>: nothing happens at or past the end. This is what the
  databases' loops over stale iterators rest on.
\<close>

definition list_erase :: "nat \<Rightarrow> 'a list \<Rightarrow> 'a list" where
  "list_erase it xs = take it xs @ drop (Suc it) xs"

lemma vec_erase_of:
  "vec_erase it (vec_of xs k) =
     Inr (it, vec_of (list_erase it xs) (if it < length xs then k + 1 else k))"
  using vec_erase_range_of [of it "it + 1" xs k] by (simp add: vec_erase_def list_erase_def)

lemma length_list_erase: "length (list_erase it xs) = (if it < length xs then length xs - 1 else length xs)"
  by (auto simp: list_erase_def)

lemma insert_move_nth:
  "it + k < length c \<Longrightarrow> length (insert_move it k c) = length c \<and>
     (\<forall>t < length c. t \<noteq> it \<longrightarrow> insert_move it k c ! t =
        (if it < t \<and> t \<le> it + k then c ! (t - 1) else c ! t))"
proof (induction it k c rule: insert_move.induct)
  case (2 it k c)
  then show ?case by (auto simp: nth_list_update le_Suc_eq)
qed auto

lemma vec_insert_room:
  assumes "it \<le> length xs" and "0 < k"
  shows "vec_insert alloc it x (vec_of xs k) = Inr (it, vec_of (take it xs @ x # drop it xs) (k - 1))"
proof -
  let ?c = "cells (vec_of xs k)"
  let ?m = "insert_move it (length xs - it) ?c"
  have m: "length ?m = length xs + k"
    "\<And>t. t < length xs + k \<Longrightarrow> t \<noteq> it \<Longrightarrow> ?m ! t =
      (if it < t \<and> t \<le> length xs then ?c ! (t - 1) else ?c ! t)"
    using insert_move_nth [of it "length xs - it" ?c] assms by simp_all
  have "?m[it := Some x] = map Some (take it xs @ x # drop it xs) @ replicate (k - 1) None"
  proof (rule nth_equalityI)
    fix t assume "t < length (?m[it := Some x])"
    with m(1) have t: "t < length xs + k" by simp
    then show "?m[it := Some x] ! t = (map Some (take it xs @ x # drop it xs) @ replicate (k - 1) None) ! t"
      using assms by (cases "t = it") (auto simp: m cells_vec_of_nth nth_append nth_Cons')
  qed (use assms m(1) in simp)
  with assms show ?thesis by (auto intro!: vec_of_eqI simp: vec_insert_def)
qed

lemma fold_construct_nth:
  "n \<le> length c \<Longrightarrow> length (fold (\<lambda>i c. c[i := f i]) [m..<n] c) = length c \<and>
     (\<forall>t < length c. fold (\<lambda>i c. c[i := f i]) [m..<n] c ! t = (if m \<le> t \<and> t < n then f t else c ! t))"
proof (induction n)
  case (Suc n)
  then show ?case by (cases "m \<le> n") (auto simp: nth_list_update)
qed simp

lemma vec_resize_of:
  assumes "n \<le> length xs + k \<or> alloc n"
  shows "vec_resize alloc n x (vec_of xs k) =
     vec_of (take n xs @ replicate (n - length xs) x) (max (length xs + k) n - n)"
proof -
  define k' where "k' = max (length xs + k) n - length xs"
  have r: "(if n \<le> length xs + k then (True, vec_of xs k) else vec_reserve alloc (Some n) (vec_of xs k))
      = (True, vec_of xs k')"
    using assms by (auto simp: vec_reserve_of k'_def Let_def)
  let ?d = "destroy_from (length xs) n (cells (vec_of xs k'))"
  let ?f = "fold (\<lambda>i c. c[i := Some x]) [length xs..<n] ?d"
  have k': "n \<le> length xs + k'" and k'_eq: "max (length xs + k) n = length xs + k'"
    by (simp_all add: k'_def)
  have d: "length ?d = length xs + k'"
    "\<And>t. t < length xs + k' \<Longrightarrow> ?d ! t = (if n \<le> t \<and> t < length xs then None else cells (vec_of xs k') ! t)"
    using destroy_from_nth [of "length xs" "cells (vec_of xs k')" n] by simp_all
  have f: "length ?f = length xs + k'"
    "\<And>t. t < length xs + k' \<Longrightarrow> ?f ! t = (if length xs \<le> t \<and> t < n then Some x else ?d ! t)"
    using fold_construct_nth [of n ?d "\<lambda>_. Some x" "length xs"] d(1) k' by simp_all
  have "?f = map Some (take n xs @ replicate (n - length xs) x) @ replicate (max (length xs + k) n - n) None"
  proof (rule nth_equalityI)
    fix t assume "t < length ?f"
    with f(1) have "t < length xs + k'" by simp
    then show "?f ! t = (map Some (take n xs @ replicate (n - length xs) x) @
        replicate (max (length xs + k) n - n) None) ! t"
      using k' by (auto simp: f(2) d(2) cells_vec_of_nth nth_append k'_eq)
  qed (use f(1) k' in \<open>simp add: k'_eq\<close>)
  then show ?thesis
    using r by (auto intro!: vec_of_eqI simp: vec_resize_def)
qed

lemma vec_assign_of:
  fixes xs ys :: "'a list"
  assumes "length ys \<le> length xs + k \<or> alloc (length ys)"
  shows "vec_assign alloc (vec_of ys l) (vec_of xs k) = vec_of ys (max (length xs + k) (length ys) - length ys)"
proof -
  define c where "c = max (length xs + k) (length ys)"
  have "destroy_from (length xs) 0 (cells (vec_of xs k)) = replicate (length xs + k) None"
    using destroy_from_nth [of "length xs" "cells (vec_of xs k)" 0]
    by (intro nth_equalityI) (auto simp: cells_vec_of nth_append)
  then have v0: "(vec_of xs k)\<lparr> cells := destroy_from (length xs) 0 (cells (vec_of xs k)), vn := 0 \<rparr>
      = vec_of [] (length xs + k)"
    by (intro vec_of_eqI) simp_all
  have r: "vec_reserve alloc (Some (length ys)) (vec_of [] (length xs + k)) = (True, vec_of [] c :: 'a vector)"
    using assms by (auto simp: vec_reserve_of c_def Let_def)
  let ?f = "fold (\<lambda>i d. d[i := cells (vec_of ys l) ! i]) [0..<length ys] (cells (vec_of [] c))"
  have "?f = map Some ys @ replicate (c - length ys) None"
    using fold_construct_nth [of "length ys" "cells (vec_of [] c)" "\<lambda>i. cells (vec_of ys l) ! i" 0]
    by (intro nth_equalityI) (auto simp: c_def cells_vec_of nth_append)
  with v0 r show ?thesis
    by (intro vec_of_eqI) (simp_all add: vec_assign_def c_def)
qed

lemma vec_insert_full:
  assumes "it \<le> length xs" and "alloc (if xs = [] then 4 else length xs * 2)"
  shows "\<exists>k. vec_insert alloc it x (vec_of xs 0) = Inr (it, vec_of (take it xs @ x # drop it xs) k)"
proof -
  define want where "want = (if xs = [] then 4 else length xs * 2)"
  have w: "0 < want - length xs" "\<not> want \<le> length xs" by (simp_all add: want_def)
  have r: "vec_reserve alloc None (vec_of xs 0) = (True, vec_of xs (want - length xs))"
    using assms(2) w(2) by (auto simp: vec_reserve_of want_def Let_def)
  have "vec_insert alloc it x (vec_of xs 0) = vec_insert alloc it x (vec_of xs (want - length xs))"
    using r w by (simp add: vec_insert_def)
  with vec_insert_room [OF assms(1) w(1)] show ?thesis by auto
qed

section \<open>Properties\<close>



text \<open>
  Out of memory a full vector stays as it was: \<open>push_back\<close> drops the new element and \<open>insert\<close> returns
  the end iterator; indexing outside the vector and popping an empty one fail their assertions.
\<close>

lemma vector_out_of_memory:
  fixes xs :: "'a list"
  assumes "\<forall>n. \<not> alloc n" and "it \<le> length xs"
  shows "vec_push_back alloc x (vec_of xs 0) = vec_of xs 0 \<and>
     vec_insert alloc it x (vec_of xs 0) = Inr (length xs, vec_of xs 0) \<and>
     vec_at (vec_of xs 0) (length xs) = Inl Assert_failed \<and> vec_pop_back (vec_of ([] :: 'a list) k) = Inl Assert_failed"
  using assms by (simp add: vec_push_back_of vec_insert_def vec_reserve_of vec_at_of vec_pop_back_of Let_def)

lemma vector_out_of_memory_witness:
  "vec_push_back (\<lambda>n. False) (7 :: nat) (vec_of [5, 6] 0) = vec_of [5, 6] 0"
  using vector_out_of_memory [of "\<lambda>n. False" 0 "[5, 6]" "7 :: nat" 0] by simp

end
