(* ===== verification/Click_HashTable.thy ===== *)
theory Click_HashTable
  imports Prelude "HOL-Library.Multiset"
begin

text \<open>
  Click's chained hash table: \<^verbatim>\<open>HashTable<K,V>\<close> (\<^verbatim>\<open>click/include/click/hashtable.hh\<close>) over
  \<^verbatim>\<open>HashContainer\<close> (\<^verbatim>\<open>click/include/click/hashcontainer.hh\<close>). The state is the bucket array, each bucket
  its chain from the head, the element count and the cached first bucket an iteration starts at.
  The hash function is an argument. The theory ends with the interface the databases rely on,
  the locale \<open>assoc_table\<close>: a finite map with an enumeration of its entries.
\<close>

section \<open>Representation\<close>

record ('k, 'v) hashtable =
  buckets :: "('k \<times> 'v) list list"
  ht_size :: nat
  first_bucket :: nat

text \<open>\<^verbatim>\<open>max_bucket_count = (size_t) -1\<close> on a 64-bit host.\<close>

definition max_bucket_count :: nat where
  "max_bucket_count = 2 ^ 64 - 1"

definition initial_bucket_count :: nat where
  "initial_bucket_count = 63"

abbreviation nbuckets :: "('k, 'v) hashtable \<Rightarrow> nat" where
  "nbuckets t \<equiv> length (buckets t)"

definition ht_empty :: "('k, 'v) hashtable" where
  "ht_empty = \<lparr> buckets = replicate initial_bucket_count [], ht_size = 0,
                first_bucket = initial_bucket_count \<rparr>"

text \<open>The loop that doubles a bucket count up to a wanted size: \<open>b = ((b + 1) << 1) - 1\<close>.\<close>

function grow_buckets :: "nat \<Rightarrow> nat \<Rightarrow> nat" where
  "grow_buckets n b =
     (if b < n \<and> b < max_bucket_count then grow_buckets n ((b + 1) * 2 - 1) else b)"
  by pat_completeness auto
termination
  by (relation "measure (\<lambda>(n, b). n - b)") auto

declare grow_buckets.simps [simp del]

definition ht_empty_n :: "nat \<Rightarrow> ('k, 'v) hashtable" where
  "ht_empty_n n = (let b = grow_buckets n 1 in
     \<lparr> buckets = replicate b [], ht_size = 0, first_bucket = b \<rparr>)"

definition ht_bucket :: "('k \<Rightarrow> nat) \<Rightarrow> ('k, 'v) hashtable \<Rightarrow> 'k \<Rightarrow> nat" where
  "ht_bucket hc t k = hc k mod nbuckets t"

definition ht_unbalanced :: "('k, 'v) hashtable \<Rightarrow> bool" where
  "ht_unbalanced t \<longleftrightarrow> ht_size t > 2 * nbuckets t \<and> nbuckets t < max_bucket_count"

section \<open>Lookup, insertion and rehashing\<close>

fun chain_find :: "'k \<Rightarrow> ('k \<times> 'v) list \<Rightarrow> 'v option" where
  "chain_find k [] = None"
| "chain_find k ((k', v) # c) = (if k' = k then Some v else chain_find k c)"

definition ht_find :: "('k \<Rightarrow> nat) \<Rightarrow> ('k, 'v) hashtable \<Rightarrow> 'k \<Rightarrow> 'v option" where
  "ht_find hc t k = chain_find k (buckets t ! ht_bucket hc t k)"

definition ht_get :: "('k \<Rightarrow> nat) \<Rightarrow> 'v \<Rightarrow> ('k, 'v) hashtable \<Rightarrow> 'k \<Rightarrow> 'v" where
  "ht_get hc d t k = (case ht_find hc t k of Some v \<Rightarrow> v | None \<Rightarrow> d)"

fun chain_assign :: "'k \<Rightarrow> 'v \<Rightarrow> ('k \<times> 'v) list \<Rightarrow> ('k \<times> 'v) list" where
  "chain_assign k v [] = []"
| "chain_assign k v ((k', w) # c) = (if k' = k then (k', v) # c else (k', w) # chain_assign k v c)"

definition push_bucket :: "('k \<Rightarrow> nat) \<Rightarrow> 'k \<times> 'v \<Rightarrow> ('k \<times> 'v) list list \<Rightarrow> ('k \<times> 'v) list list" where
  "push_bucket hc e bs = (let b = hc (fst e) mod length bs in bs[b := e # bs ! b])"

definition ht_rehash :: "('k \<Rightarrow> nat) \<Rightarrow> nat \<Rightarrow> ('k, 'v) hashtable \<Rightarrow> ('k, 'v) hashtable" where
  "ht_rehash hc n t =
     (let nb = grow_buckets n 1 in
      if nbuckets t = nb then t
      else t\<lparr> buckets := fold (\<lambda>chain. fold (push_bucket hc) chain) (buckets t) (replicate nb []),
              first_bucket := 0 \<rparr>)"

text \<open>
  \<^verbatim>\<open>HashTable::set\<close> with \<^verbatim>\<open>HashContainer::set(it, element, true)\<close> inlined: an existing element's value
  is assigned in place; a new element is counted, the table rebalanced if it has become unbalanced,
  and the element put at the head of its bucket. The flag tells whether an element was added.
\<close>

definition ht_insert :: "('k \<Rightarrow> nat) \<Rightarrow> 'k \<Rightarrow> 'v \<Rightarrow> ('k, 'v) hashtable \<Rightarrow> ('k, 'v) hashtable" where
  "ht_insert hc k v t =
     (let t1 = t\<lparr> ht_size := ht_size t + 1 \<rparr>;
          t2 = (if ht_unbalanced t1 then ht_rehash hc (nbuckets t1 + 1) t1 else t1);
          b = ht_bucket hc t2 k
      in t2\<lparr> first_bucket := (if buckets t2 ! b = [] then 0 else first_bucket t2),
             buckets := (buckets t2)[b := (k, v) # buckets t2 ! b] \<rparr>)"

definition ht_set :: "('k \<Rightarrow> nat) \<Rightarrow> 'k \<Rightarrow> 'v \<Rightarrow> ('k, 'v) hashtable \<Rightarrow> bool \<times> ('k, 'v) hashtable" where
  "ht_set hc k v t =
     (case ht_find hc t k of
        Some _ \<Rightarrow> (False, t\<lparr> buckets := (buckets t)[ht_bucket hc t k :=
                                chain_assign k v (buckets t ! ht_bucket hc t k)] \<rparr>)
      | None \<Rightarrow> (True, ht_insert hc k v t))"

text \<open>
  What users of \<^verbatim>\<open>HashContainer\<close> itself call: \<open>set\<close> at the iterator of a failed \<open>find\<close> without rebalancing puts
  the element at the head of its bucket; \<open>erase\<close> unlinks the element with a key, if there is one; \<open>balance\<close> is left to the user.
\<close>

definition ht_link :: "('k \<Rightarrow> nat) \<Rightarrow> 'k \<Rightarrow> 'v \<Rightarrow> ('k, 'v) hashtable \<Rightarrow> ('k, 'v) hashtable" where
  "ht_link hc k v t =
     (let b = ht_bucket hc t k
      in t\<lparr> ht_size := ht_size t + 1,
            first_bucket := (if buckets t ! b = [] then 0 else first_bucket t),
            buckets := (buckets t)[b := (k, v) # buckets t ! b] \<rparr>)"

fun chain_erase :: "'k \<Rightarrow> ('k \<times> 'v) list \<Rightarrow> ('k \<times> 'v) list" where
  "chain_erase k [] = []"
| "chain_erase k ((k', v) # c) = (if k' = k then c else (k', v) # chain_erase k c)"

definition ht_erase :: "('k \<Rightarrow> nat) \<Rightarrow> 'k \<Rightarrow> ('k, 'v) hashtable \<Rightarrow> ('k, 'v) hashtable" where
  "ht_erase hc k t =
     (case ht_find hc t k of
        None \<Rightarrow> t
      | Some _ \<Rightarrow> (let b = ht_bucket hc t k in
          t\<lparr> ht_size := ht_size t - 1, buckets := (buckets t)[b := chain_erase k (buckets t ! b)] \<rparr>))"

definition ht_balance :: "('k \<Rightarrow> nat) \<Rightarrow> ('k, 'v) hashtable \<Rightarrow> ('k, 'v) hashtable" where
  "ht_balance hc t = (if ht_unbalanced t then ht_rehash hc (nbuckets t + 1) t else t)"

section \<open>Iteration\<close>

text \<open>An iterator: the bucket it is in and the chain from the current element on (empty at the end).\<close>

type_synonym ('k, 'v) ht_iterator = "nat \<times> ('k \<times> 'v) list"

function scan_bucket :: "('k \<times> 'v) list list \<Rightarrow> nat \<Rightarrow> nat" where
  "scan_bucket bs b = (if b < length bs then if bs ! b \<noteq> [] then b else scan_bucket bs (b + 1)
                       else length bs)"
  by pat_completeness auto
termination
  by (relation "measure (\<lambda>(bs, b). length bs - b)") auto

declare scan_bucket.simps [simp del]

definition ht_at_bucket :: "('k, 'v) hashtable \<Rightarrow> nat \<Rightarrow> ('k, 'v) ht_iterator" where
  "ht_at_bucket t b = (b, if b < nbuckets t then buckets t ! b else [])"

fun ht_next :: "('k, 'v) hashtable \<Rightarrow> ('k, 'v) ht_iterator \<Rightarrow> ('k, 'v) ht_iterator" where
  "ht_next t (b, e # e' # c) = (b, e' # c)"
| "ht_next t (b, c) = (if b < nbuckets t then ht_at_bucket t (scan_bucket (buckets t) (b + 1))
                       else (b, []))"

text \<open>\<open>begin()\<close> starts at the cached first bucket and moves the cache to the first non-empty one.\<close>

definition ht_begin :: "('k, 'v) hashtable \<Rightarrow> ('k, 'v) hashtable \<times> ('k, 'v) ht_iterator" where
  "ht_begin t =
     (let b = first_bucket t in
      if b \<ge> nbuckets t then (t, (b, []))
      else if buckets t ! b \<noteq> [] then (t, (b, buckets t ! b))
      else (let it = ht_next t (b, []) in (t\<lparr> first_bucket := fst it \<rparr>, it)))"

lemma scan_bucket_bounds:
  "b \<le> length bs \<Longrightarrow> b \<le> scan_bucket bs b \<and> scan_bucket bs b \<le> length bs"
  by (induction bs b rule: scan_bucket.induct) (subst scan_bucket.simps, auto)+

text \<open>The loop \<open>for (it = begin(); it != end(); it++)\<close>, as the list of (bucket, element) it visits.\<close>

function ht_walk :: "('k, 'v) hashtable \<Rightarrow> ('k, 'v) ht_iterator \<Rightarrow> (nat \<times> ('k \<times> 'v)) list" where
  "ht_walk t it = (case it of (b, []) \<Rightarrow> [] | (b, e # c) \<Rightarrow> (b, e) # ht_walk t (ht_next t it))"
  by pat_completeness auto
termination
proof (relation "measures [\<lambda>(t, it). nbuckets t - fst it, \<lambda>(t, it). length (snd it)]", goal_cases)
  case (2 t it b cs e c)
  moreover have "b < nbuckets t \<Longrightarrow> b < scan_bucket (buckets t) (b + 1) \<and>
      scan_bucket (buckets t) (b + 1) \<le> nbuckets t"
    using scan_bucket_bounds [of "b + 1" "buckets t"] by auto
  ultimately show ?case by (cases c) (auto simp: ht_at_bucket_def)
qed auto

declare ht_walk.simps [simp del]

definition ht_entries :: "('k, 'v) hashtable \<Rightarrow> ('k \<times> 'v) list" where
  "ht_entries t = map snd (ht_walk t (snd (ht_begin t)))"

text \<open>
  The copy constructor: a table of at least as many buckets, each element appended to the bucket
  it was found in (\<open>clone_elements\<close>).
\<close>

definition ht_clone :: "('k, 'v) hashtable \<Rightarrow> ('k, 'v) hashtable" where
  "ht_clone t =
     fold (\<lambda>(b, e) u. u\<lparr> buckets := (buckets u)[b := buckets u ! b @ [e]],
                          ht_size := ht_size u + 1, first_bucket := 0 \<rparr>)
       (ht_walk t (snd (ht_begin t))) (ht_empty_n (nbuckets t))"

section \<open>Invariant and correctness\<close>

text \<open>Every element sits in the bucket of its key.\<close>

definition placed :: "('k \<Rightarrow> nat) \<Rightarrow> ('k \<times> 'v) list list \<Rightarrow> bool" where
  "placed hc bs \<longleftrightarrow> (\<forall>b < length bs. \<forall>e \<in> set (bs ! b). hc (fst e) mod length bs = b)"

definition ht_inv :: "('k \<Rightarrow> nat) \<Rightarrow> ('k, 'v) hashtable \<Rightarrow> bool" where
  "ht_inv hc t \<longleftrightarrow>
     0 < nbuckets t \<and> placed hc (buckets t) \<and> distinct (map fst (concat (buckets t))) \<and>
     ht_size t = length (concat (buckets t)) \<and>
     first_bucket t \<le> nbuckets t \<and> (\<forall>b < first_bucket t. buckets t ! b = []) \<and>
     grow_buckets (nbuckets t) 1 = nbuckets t"

lemma chain_find_map_of: "chain_find k c = map_of c k"
  by (induction k c rule: chain_find.induct) auto

lemma chain_assign_keys [simp]: "map fst (chain_assign k v c) = map fst c"
  by (induction k v c rule: chain_assign.induct) auto

lemma chain_assign_map_of:
  "chain_find k c \<noteq> None \<Longrightarrow> map_of (chain_assign k v c) = (map_of c)(k \<mapsto> v)"
  by (induction k v c rule: chain_assign.induct) (auto simp: fun_eq_iff)

lemma chain_assign_keyset [simp]: "fst ` set (chain_assign k v c) = fst ` set c"
  by (metis chain_assign_keys list.set_map)

lemma length_chain_assign [simp]: "length (chain_assign k v c) = length c"
  by (induction k v c rule: chain_assign.induct) auto

lemma grow_buckets_ge: "b \<le> grow_buckets n b"
  by (induction n b rule: grow_buckets.induct) (subst grow_buckets.simps, auto)

lemma grow_buckets_pos: "0 < grow_buckets n 1" "0 < grow_buckets n (Suc 0)"
  using grow_buckets_ge [of 1 n] by simp_all

lemma grow_buckets_idem: "grow_buckets (grow_buckets n b) b = grow_buckets n b"
proof (induction n b rule: grow_buckets.induct)
  case (1 n b)
  show ?case
  proof (cases "b < n \<and> b < max_bucket_count")
    case True
    let ?g = "grow_buckets n ((b + 1) * 2 - 1)"
    have g: "grow_buckets n b = ?g" using True by (subst grow_buckets.simps) simp
    have "b < ?g" using grow_buckets_ge [of "(b + 1) * 2 - 1" n] by simp
    then have "grow_buckets ?g b = grow_buckets ?g ((b + 1) * 2 - 1)"
      using True by (subst grow_buckets.simps) simp
    with "1.IH" [OF True] g show ?thesis by simp
  next
    case False
    then have "grow_buckets n b = b" by (subst grow_buckets.simps) auto
    then show ?thesis by (simp add: grow_buckets.simps [of b b])
  qed
qed

lemma map_of_split_nth:
  assumes "distinct (map fst (concat bs))" and "i < length bs"
    and "\<And>j. j < length bs \<Longrightarrow> j \<noteq> i \<Longrightarrow> k \<notin> fst ` set (bs ! j)"
  shows "map_of (concat bs) k = map_of (bs ! i) k"
proof (cases "map_of (concat bs) k")
  case None
  then have "k \<notin> fst ` set (concat bs)" by (simp add: map_of_eq_None_iff)
  then have "k \<notin> fst ` set (bs ! i)" using nth_mem [OF assms(2)] by auto
  then show ?thesis using None by (metis map_of_eq_None_iff)
next
  case (Some v)
  then have "(k, v) \<in> set (concat bs)" by (rule map_of_SomeD)
  then obtain j where j: "j < length bs" "(k, v) \<in> set (bs ! j)"
    by (auto simp: in_set_conv_nth [of _ bs])
  with assms(3) [of j] have "j = i" by force
  moreover have "distinct (map fst (bs ! i))"
    using assms(1,2) by (simp add: map_concat distinct_concat_iff)
  ultimately have "map_of (bs ! i) k = Some v" using j by (auto intro: map_of_is_SomeI)
  then show ?thesis using Some by simp
qed

lemma ht_find_concat:
  assumes "ht_inv hc t"
  shows "ht_find hc t k = map_of (concat (buckets t)) k"
proof -
  let ?b = "hc k mod nbuckets t"
  from assms have pos: "?b < nbuckets t" and pl: "placed hc (buckets t)"
    and di: "distinct (map fst (concat (buckets t)))"
    by (auto simp: ht_inv_def)
  have "k \<notin> fst ` set (buckets t ! j)" if "j < nbuckets t" "j \<noteq> ?b" for j
    using pl that by (auto simp: placed_def)
  then show ?thesis
    using map_of_split_nth [OF di pos] by (simp add: ht_find_def ht_bucket_def chain_find_map_of)
qed

lemma ht_inv_empty: "ht_inv hc (ht_empty :: ('k, 'v) hashtable)"
proof -
  have "grow_buckets 63 1 = 63"
    by (simp add: grow_buckets.simps max_bucket_count_def)
  then show ?thesis
    by (simp add: ht_inv_def ht_empty_def initial_bucket_count_def placed_def)
qed

lemma concat_replicate_Nil [simp]: "concat (replicate n []) = []"
  by (induction n) auto

lemma ht_find_empty: "ht_find hc ht_empty k = None"
  using ht_find_concat [OF ht_inv_empty, of hc k]
  by (simp add: ht_empty_def)

text \<open>Rehashing moves every element to the bucket of its key and loses none.\<close>

lemma push_bucket_length [simp]: "length (push_bucket hc e bs) = length bs"
  by (simp add: push_bucket_def Let_def)

lemma push_bucket_Nil_iff [simp]: "push_bucket hc e bs = [] \<longleftrightarrow> bs = []"
  by (simp add: push_bucket_def Let_def)

lemma mset_concat_update:
  "b < length bs \<Longrightarrow> mset (concat (bs[b := c])) + mset (bs ! b) = mset (concat bs) + mset c"
proof (induction bs arbitrary: b)
  case (Cons a bs)
  then show ?case by (cases b) (auto simp: union_assoc union_commute union_lcomm)
qed simp

lemma mset_push_bucket:
  "bs \<noteq> [] \<Longrightarrow> mset (concat (push_bucket hc e bs)) = add_mset e (mset (concat bs))"
  using mset_concat_update [of "hc (fst e) mod length bs" bs "e # bs ! (hc (fst e) mod length bs)"]
  by (simp add: push_bucket_def Let_def)

lemma placed_push_bucket: "placed hc bs \<Longrightarrow> placed hc (push_bucket hc e bs)"
  by (auto simp: placed_def push_bucket_def Let_def nth_update_if split: if_splits)

lemma fold_push_bucket:
  assumes "0 < length bs" and "placed hc bs"
  shows "length (fold (push_bucket hc) c bs) = length bs"
    and "placed hc (fold (push_bucket hc) c bs)"
    and "mset (concat (fold (push_bucket hc) c bs)) = mset c + mset (concat bs)"
proof -
  have "length (fold (push_bucket hc) c bs) = length bs \<and> placed hc (fold (push_bucket hc) c bs) \<and>
      mset (concat (fold (push_bucket hc) c bs)) = mset c + mset (concat bs)"
    using assms
    by (induction c arbitrary: bs) (auto simp: placed_push_bucket mset_push_bucket)
  then show "length (fold (push_bucket hc) c bs) = length bs"
    and "placed hc (fold (push_bucket hc) c bs)"
    and "mset (concat (fold (push_bucket hc) c bs)) = mset c + mset (concat bs)" by auto
qed

lemma fold_fold_push_bucket:
  assumes "0 < length bs" and "placed hc bs"
  shows "length (fold (\<lambda>c. fold (push_bucket hc) c) cs bs) = length bs \<and>
     placed hc (fold (\<lambda>c. fold (push_bucket hc) c) cs bs) \<and>
     mset (concat (fold (\<lambda>c. fold (push_bucket hc) c) cs bs)) = mset (concat cs) + mset (concat bs)"
  using assms
proof (induction cs arbitrary: bs)
  case (Cons c cs)
  note f = fold_push_bucket [OF Cons.prems, of c]
  have "0 < length (fold (push_bucket hc) c bs)" using f(1) Cons.prems(1) by simp
  from Cons.IH [OF this f(2)] f show ?case by (simp add: union_assoc union_lcomm)
qed simp

lemma ht_rehash_facts:
  assumes "0 < nbuckets t" and "placed hc (buckets t)"
    and "first_bucket t \<le> nbuckets t" and "\<forall>b < first_bucket t. buckets t ! b = []"
    and "grow_buckets (nbuckets t) 1 = nbuckets t"
  shows "0 < nbuckets (ht_rehash hc n t)" "placed hc (buckets (ht_rehash hc n t))"
    "mset (concat (buckets (ht_rehash hc n t))) = mset (concat (buckets t))"
    "ht_size (ht_rehash hc n t) = ht_size t"
    "first_bucket (ht_rehash hc n t) \<le> nbuckets (ht_rehash hc n t)"
    "\<forall>b < first_bucket (ht_rehash hc n t). buckets (ht_rehash hc n t) ! b = []"
    "grow_buckets (nbuckets (ht_rehash hc n t)) 1 = nbuckets (ht_rehash hc n t)"
proof -
  let ?nb = "grow_buckets n 1"
  have "0 < length (replicate ?nb [])" and "placed hc (replicate ?nb [])"
    by (simp_all add: grow_buckets_pos placed_def)
  note f = fold_fold_push_bucket [OF this, of "buckets t"]
  show "0 < nbuckets (ht_rehash hc n t)" "placed hc (buckets (ht_rehash hc n t))"
    "mset (concat (buckets (ht_rehash hc n t))) = mset (concat (buckets t))"
    "ht_size (ht_rehash hc n t) = ht_size t"
    "first_bucket (ht_rehash hc n t) \<le> nbuckets (ht_rehash hc n t)"
    "\<forall>b < first_bucket (ht_rehash hc n t). buckets (ht_rehash hc n t) ! b = []"
    "grow_buckets (nbuckets (ht_rehash hc n t)) 1 = nbuckets (ht_rehash hc n t)"
    using f assms grow_buckets_pos [of n] grow_buckets_idem [of n 1]
    by (auto simp: ht_rehash_def Let_def)
qed

lemma map_of_mset_eq:
  assumes "mset xs = mset ys" and "distinct (map fst ys)"
  shows "map_of xs = map_of ys"
proof -
  have "distinct (map fst xs)" using assms by (metis mset_map mset_eq_imp_distinct_iff)
  moreover have "set xs = set ys" using assms(1) by (metis set_mset_mset)
  ultimately show ?thesis using assms(2) by (simp add: map_of_inject_set)
qed

text \<open>A new element put at the head of its bucket, in a table with the elements of \<open>t\<close>.\<close>

lemma push_head_facts:
  assumes inv: "ht_inv hc t" and new: "ht_find hc t k = None"
    and t2: "0 < nbuckets t2" "placed hc (buckets t2)" "mset (concat (buckets t2)) = mset (concat (buckets t))"
      "ht_size t2 = ht_size t + 1" "first_bucket t2 \<le> nbuckets t2" "\<forall>b < first_bucket t2. buckets t2 ! b = []"
      "grow_buckets (nbuckets t2) 1 = nbuckets t2"
    and t3: "t3 = t2\<lparr> first_bucket := (if buckets t2 ! ht_bucket hc t2 k = [] then 0 else first_bucket t2),
          buckets := push_bucket hc (k, v) (buckets t2) \<rparr>"
  shows "ht_inv hc t3" and "ht_find hc t3 = (ht_find hc t)(k \<mapsto> v)"
proof -
  have ms: "mset (concat (push_bucket hc (k, v) (buckets t2))) = mset ((k, v) # concat (buckets t))"
    using t2(1,3) by (simp add: mset_push_bucket)
  have dk: "distinct (map fst ((k, v) # concat (buckets t)))"
    using inv new by (auto simp: ht_inv_def ht_find_concat [OF inv] map_of_eq_None_iff)
  have "distinct (map fst (concat (push_bucket hc (k, v) (buckets t2))))"
    using ms dk by (metis mset_map mset_eq_imp_distinct_iff)
  moreover have "length (concat (push_bucket hc (k, v) (buckets t2))) = ht_size t2"
    using ms t2(4) inv by (metis ht_inv_def Suc_eq_plus1 length_Cons size_mset)
  moreover have "push_bucket hc (k, v) (buckets t2) ! b' = []"
    if "b' < (if buckets t2 ! ht_bucket hc t2 k = [] then 0 else first_bucket t2)" for b'
    using that t2 by (auto simp: push_bucket_def Let_def nth_update_if ht_bucket_def split: if_splits)
  ultimately show inv': "ht_inv hc t3"
    using t2 by (auto simp: t3 ht_inv_def placed_push_bucket)
  have "buckets t3 = push_bucket hc (k, v) (buckets t2)" by (simp add: t3)
  then show "ht_find hc t3 = (ht_find hc t)(k \<mapsto> v)"
    using map_of_mset_eq [OF ms dk]
    by (auto simp: fun_eq_iff ht_find_concat [OF inv'] ht_find_concat [OF inv])
qed

lemma ht_insert_facts:
  assumes inv: "ht_inv hc t" and new: "ht_find hc t k = None"
  shows "ht_inv hc (ht_insert hc k v t)"
    and "ht_find hc (ht_insert hc k v t) = (ht_find hc t)(k \<mapsto> v)"
proof -
  define t1 where "t1 = t\<lparr> ht_size := ht_size t + 1 \<rparr>"
  define t2 where "t2 = (if ht_unbalanced t1 then ht_rehash hc (nbuckets t1 + 1) t1 else t1)"
  have ins: "ht_insert hc k v t =
      t2\<lparr> first_bucket := (if buckets t2 ! ht_bucket hc t2 k = [] then 0 else first_bucket t2),
          buckets := push_bucket hc (k, v) (buckets t2) \<rparr>"
    by (simp add: ht_insert_def t1_def t2_def Let_def push_bucket_def ht_bucket_def)
  have t1: "0 < nbuckets t1" "placed hc (buckets t1)" "first_bucket t1 \<le> nbuckets t1"
    "\<forall>b < first_bucket t1. buckets t1 ! b = []" "grow_buckets (nbuckets t1) 1 = nbuckets t1"
    using inv by (auto simp: ht_inv_def t1_def)
  have t2: "0 < nbuckets t2" "placed hc (buckets t2)"
    "mset (concat (buckets t2)) = mset (concat (buckets t))" "ht_size t2 = ht_size t + 1"
    "first_bucket t2 \<le> nbuckets t2" "\<forall>b < first_bucket t2. buckets t2 ! b = []"
    "grow_buckets (nbuckets t2) 1 = nbuckets t2"
    using ht_rehash_facts [OF t1] t1 by (auto simp: t2_def t1_def)
  from push_head_facts [OF inv new t2 ins]
  show "ht_inv hc (ht_insert hc k v t)" and "ht_find hc (ht_insert hc k v t) = (ht_find hc t)(k \<mapsto> v)" .
qed

lemma ht_link_facts:
  assumes inv: "ht_inv hc t" and new: "ht_find hc t k = None"
  shows "ht_inv hc (ht_link hc k v t)"
    and "ht_find hc (ht_link hc k v t) = (ht_find hc t)(k \<mapsto> v)"
proof -
  define t2 where "t2 = t\<lparr> ht_size := ht_size t + 1 \<rparr>"
  have ins: "ht_link hc k v t =
      t2\<lparr> first_bucket := (if buckets t2 ! ht_bucket hc t2 k = [] then 0 else first_bucket t2),
          buckets := push_bucket hc (k, v) (buckets t2) \<rparr>"
    by (simp add: ht_link_def t2_def Let_def push_bucket_def ht_bucket_def)
  have t2: "0 < nbuckets t2" "placed hc (buckets t2)"
    "mset (concat (buckets t2)) = mset (concat (buckets t))" "ht_size t2 = ht_size t + 1"
    "first_bucket t2 \<le> nbuckets t2" "\<forall>b < first_bucket t2. buckets t2 ! b = []"
    "grow_buckets (nbuckets t2) 1 = nbuckets t2"
    using inv by (auto simp: t2_def ht_inv_def)
  from push_head_facts [OF inv new t2 ins]
  show "ht_inv hc (ht_link hc k v t)" and "ht_find hc (ht_link hc k v t) = (ht_find hc t)(k \<mapsto> v)" .
qed

lemma chain_erase_map_of:
  "distinct (map fst c) \<Longrightarrow> map_of (chain_erase k c) = (map_of c)(k := None)"
  by (induction k c rule: chain_erase.induct) (auto simp: fun_eq_iff map_of_eq_None_iff)

lemma mset_chain_erase:
  "chain_find k c = Some v \<Longrightarrow> add_mset (k, v) (mset (chain_erase k c)) = mset c"
  by (induction k c rule: chain_erase.induct) (auto split: if_splits)

lemma chain_erase_subset: "set (chain_erase k c) \<subseteq> set c"
  by (induction k c rule: chain_erase.induct) auto

text \<open>Erasing removes exactly the element with the key.\<close>

lemma ht_erase_live:
  assumes inv: "ht_inv hc t" and old: "ht_find hc t k = Some v"
  defines "b \<equiv> ht_bucket hc t k"
  defines "t' \<equiv> t\<lparr> ht_size := ht_size t - 1, buckets := (buckets t)[b := chain_erase k (buckets t ! b)] \<rparr>"
  shows "ht_inv hc t'" and "ht_find hc t' = (ht_find hc t)(k := None)"
proof -
  have bpos: "b < nbuckets t" using inv by (simp add: b_def ht_bucket_def ht_inv_def)
  have "chain_find k (buckets t ! b) = Some v" using old by (simp add: ht_find_def b_def)
  note e = mset_chain_erase [OF this]
  have ms: "mset (concat (buckets t)) = mset ((k, v) # concat (buckets t'))"
    using mset_concat_update [OF bpos, of "chain_erase k (buckets t ! b)", folded e] by (simp add: t'_def)
  have di: "distinct (map fst (concat (buckets t)))" using inv by (simp add: ht_inv_def)
  have dk: "distinct (map fst ((k, v) # concat (buckets t')))"
    using mset_eq_imp_distinct_iff [OF arg_cong [OF ms, of "image_mset fst", folded mset_map]] di by simp
  have "placed hc (buckets t')"
    using inv chain_erase_subset [of k]
    by (fastforce simp: placed_def t'_def ht_inv_def nth_update_if split: if_splits)
  moreover have "length (concat (buckets t)) = Suc (length (concat (buckets t')))"
    using arg_cong [OF ms, of size] by simp
  moreover have "buckets t' ! i = []" if "i < first_bucket t" for i
    using that inv by (auto simp: t'_def nth_update_if ht_inv_def)
  moreover have "nbuckets t' = nbuckets t" "first_bucket t' = first_bucket t" "ht_size t' = ht_size t - 1"
    by (simp_all add: t'_def)
  ultimately show inv': "ht_inv hc t'" using inv dk by (simp add: ht_inv_def)
  have "map_of (concat (buckets t)) = map_of ((k, v) # concat (buckets t'))"
    using map_of_mset_eq [OF ms dk] .
  moreover have "map_of (concat (buckets t')) k = None" using dk by (simp add: map_of_eq_None_iff)
  ultimately show "ht_find hc t' = (ht_find hc t)(k := None)"
    by (auto simp: fun_eq_iff ht_find_concat [OF inv'] ht_find_concat [OF inv])
qed

lemma ht_erase_facts:
  assumes "ht_inv hc t"
  shows "ht_inv hc (ht_erase hc k t)"
    and "ht_find hc (ht_erase hc k t) = (ht_find hc t)(k := None)"
  using assms ht_erase_live [OF assms, of k]
  by (auto simp: ht_erase_def Let_def fun_eq_iff split: option.splits)

lemma concat_map_fst_update:
  "map fst c = map fst (bs ! b) \<Longrightarrow> map fst (concat (bs[b := c])) = map fst (concat bs)"
proof (induction bs arbitrary: b)
  case (Cons a bs)
  then show ?case by (cases b) auto
qed simp

lemma ht_assign_facts:
  fixes t :: "('k, 'v) hashtable" and v :: 'v
  assumes inv: "ht_inv hc t" and old: "ht_find hc t k \<noteq> None"
  defines "b \<equiv> ht_bucket hc t k"
  defines "t' \<equiv> t\<lparr> buckets := (buckets t)[b := chain_assign k v (buckets t ! b)] \<rparr>"
  shows "ht_inv hc t'" and "ht_find hc t' = (ht_find hc t)(k \<mapsto> v)"
proof -
  have keys: "map fst (concat (buckets t')) = map fst (concat (buckets t))"
    by (simp add: t'_def concat_map_fst_update)
  have keyset: "fst ` set (buckets t' ! i) = fst ` set (buckets t ! i)" for i
    by (simp add: t'_def nth_update_if)
  have nb: "nbuckets t' = nbuckets t" by (simp add: t'_def)
  have pl: "placed hc (buckets t')"
    unfolding placed_def nb
  proof (intro allI impI ballI)
    fix i e assume "i < nbuckets t" and "e \<in> set (buckets t' ! i)"
    moreover from this keyset [of i] obtain e' where "e' \<in> set (buckets t ! i)" "fst e' = fst e"
      by (metis image_iff)
    ultimately show "hc (fst e) mod nbuckets t = i"
      using inv by (metis ht_inv_def placed_def)
  qed
  have "buckets t' ! i = []" if "i < first_bucket t" for i
    using inv that keyset [of i] by (simp add: ht_inv_def)
  then show "ht_inv hc t'"
    using inv pl keys nb map_eq_imp_length_eq [OF keys]
    by (simp add: ht_inv_def) (simp add: t'_def)
  show "ht_find hc t' = (ht_find hc t)(k \<mapsto> v)"
  proof
    fix k'
    have bpos: "b < nbuckets t" using inv by (simp add: b_def ht_bucket_def ht_inv_def)
    show "ht_find hc t' k' = ((ht_find hc t)(k \<mapsto> v)) k'"
      using bpos old chain_assign_map_of [of k "buckets t ! b" v]
      by (cases "ht_bucket hc t k' = b")
         (auto simp: ht_find_def ht_bucket_def t'_def b_def chain_find_map_of)
  qed
qed

text \<open>\<^verbatim>\<open>HashTable::set\<close> keeps the invariant, updates the map at the key and says whether it was new.\<close>

lemma ht_set_facts:
  assumes "ht_inv hc t"
  shows "ht_inv hc (snd (ht_set hc k v t))"
    and "ht_find hc (snd (ht_set hc k v t)) = (ht_find hc t)(k \<mapsto> v)"
    and "fst (ht_set hc k v t) \<longleftrightarrow> ht_find hc t k = None"
  using ht_insert_facts [OF assms, of k v] ht_assign_facts [OF assms, of k v]
  by (auto simp: ht_set_def split: option.split)

text \<open>The iteration visits the chains bucket by bucket.\<close>

lemma scan_bucket_skips: "b \<le> i \<Longrightarrow> i < scan_bucket bs b \<Longrightarrow> i < length bs \<Longrightarrow> bs ! i = []"
proof (induction bs b rule: scan_bucket.induct)
  case (1 bs b)
  show ?case
  proof (cases "bs ! b = [] \<and> i \<noteq> b")
    case True
    then have "scan_bucket bs b = scan_bucket bs (b + 1)"
      using "1.prems" by (subst scan_bucket.simps) simp
    then show ?thesis using 1 True by simp
  next
    case False
    then show ?thesis using "1.prems" by (auto simp: scan_bucket.simps [of bs b] split: if_splits)
  qed
qed

lemma scan_bucket_nonempty: "scan_bucket bs b < length bs \<Longrightarrow> bs ! scan_bucket bs b \<noteq> []"
proof (induction bs b rule: scan_bucket.induct)
  case (1 bs b)
  then show ?case
    by (cases "b < length bs \<and> bs ! b = []") (auto simp: scan_bucket.simps [of bs b] split: if_splits)
qed

definition bucket_tags :: "('k \<times> 'v) list list \<Rightarrow> nat \<Rightarrow> (nat \<times> ('k \<times> 'v)) list" where
  "bucket_tags bs b = concat (map (\<lambda>i. map (Pair i) (bs ! i)) [b..<length bs])"

lemma bucket_tags_scan:
  "b \<le> length bs \<Longrightarrow> bucket_tags bs (scan_bucket bs b) = bucket_tags bs b"
proof (induction bs b rule: scan_bucket.induct)
  case (1 bs b)
  show ?case
  proof (cases "b < length bs \<and> bs ! b = []")
    case True
    moreover have "scan_bucket bs b = scan_bucket bs (b + 1)"
      using True by (subst scan_bucket.simps) simp
    moreover have "bucket_tags bs b = bucket_tags bs (b + 1)"
      using True by (simp add: bucket_tags_def upt_conv_Cons)
    ultimately show ?thesis using 1 by simp
  next
    case False
    then show ?thesis using 1 by (subst scan_bucket.simps) auto
  qed
qed

lemma bucket_tags_step:
  "b < length bs \<Longrightarrow> bucket_tags bs b = map (Pair b) (bs ! b) @ bucket_tags bs (b + 1)"
  by (simp add: bucket_tags_def upt_conv_Cons)

lemma bucket_tags_end [simp]: "length bs \<le> b \<Longrightarrow> bucket_tags bs b = []"
  by (simp add: bucket_tags_def)

lemma bucket_tags_snd: "b \<le> length bs \<Longrightarrow> map snd (bucket_tags bs b) = concat (drop b bs)"
proof (induction "length bs - b" arbitrary: b)
  case (Suc n)
  then have "b < length bs" by simp
  then show ?case using Suc(1) [of "b + 1"] Suc(2)
    by (simp add: bucket_tags_step comp_def Cons_nth_drop_Suc [symmetric])
qed simp

lemma ht_walk_Nil [simp]: "ht_walk t (b, []) = []"
  by (subst ht_walk.simps) simp

lemma ht_walk_tags:
  "b < nbuckets t \<Longrightarrow> c \<noteq> [] \<Longrightarrow>
     ht_walk t (b, c) = map (Pair b) c @ bucket_tags (buckets t) (b + 1)"
proof (induction t "(b, c)" arbitrary: b c rule: ht_walk.induct)
  case (1 t b c)
  from "1.prems"(2) obtain e c' where c: "c = e # c'" by (cases c) auto
  have step: "ht_walk t (b, c) = (b, e) # ht_walk t (ht_next t (b, c))"
    by (subst ht_walk.simps) (simp add: c)
  show ?case
  proof (cases c')
    case (Cons e' c'')
    then show ?thesis using step "1.hyps" [of b c e c' b c'] "1.prems" c by simp
  next
    case Nil
    let ?s = "scan_bucket (buckets t) (b + 1)"
    have nxt: "ht_next t (b, c) = ht_at_bucket t ?s" using c Nil "1.prems" by simp
    have tags: "bucket_tags (buckets t) ?s = bucket_tags (buckets t) (b + 1)"
      using "1.prems" by (simp add: bucket_tags_scan)
    show ?thesis
    proof (cases "?s < nbuckets t")
      case True
      then have "ht_next t (b, c) = (?s, buckets t ! ?s)" by (simp add: nxt ht_at_bucket_def)
      with "1.hyps" [of b c e c' ?s "buckets t ! ?s"] True c Nil scan_bucket_nonempty [OF True]
      have "ht_walk t (ht_next t (b, c)) = bucket_tags (buckets t) ?s"
        by (simp add: bucket_tags_step)
      with step tags c Nil show ?thesis by simp
    next
      case False
      with step tags c Nil nxt show ?thesis by (simp add: ht_at_bucket_def)
    qed
  qed
qed

lemma bucket_tags_skip:
  "\<forall>i < b. bs ! i = [] \<Longrightarrow> b \<le> length bs \<Longrightarrow> bucket_tags bs b = bucket_tags bs 0"
proof (induction b)
  case (Suc b)
  then show ?case using bucket_tags_step [of b bs] by simp
qed simp

lemma ht_walk_begin:
  assumes "first_bucket t \<le> nbuckets t" and "\<forall>b < first_bucket t. buckets t ! b = []"
  shows "ht_walk t (snd (ht_begin t)) = bucket_tags (buckets t) 0"
proof -
  let ?b = "first_bucket t" and ?s = "scan_bucket (buckets t) (first_bucket t + 1)"
  have tags: "bucket_tags (buckets t) 0 = bucket_tags (buckets t) ?b"
    using bucket_tags_skip [OF assms(2,1)] by (rule sym)
  consider "?b = nbuckets t" | "?b < nbuckets t" "buckets t ! ?b \<noteq> []"
    | "?b < nbuckets t" "buckets t ! ?b = []"
    using assms(1) le_neq_implies_less by blast
  then show ?thesis
  proof cases
    case 1
    then show ?thesis by (simp add: tags ht_begin_def Let_def)
  next
    case 2
    then have "ht_walk t (snd (ht_begin t)) = ht_walk t (?b, buckets t ! ?b)"
      by (simp add: ht_begin_def Let_def)
    then show ?thesis using ht_walk_tags [OF 2] bucket_tags_step [OF 2(1)] tags by simp
  next
    case 3
    have "bucket_tags (buckets t) ?b = bucket_tags (buckets t) ?s"
      using bucket_tags_step [OF 3(1)] bucket_tags_scan [of "?b + 1" "buckets t"] 3 by simp
    moreover have "ht_walk t (ht_at_bucket t ?s) = bucket_tags (buckets t) ?s"
    proof (cases "?s < nbuckets t")
      case True
      from ht_walk_tags [OF True scan_bucket_nonempty [OF True]] bucket_tags_step [OF True] True
      show ?thesis by (simp add: ht_at_bucket_def)
    qed (simp add: ht_at_bucket_def)
    moreover have "snd (ht_begin t) = ht_at_bucket t ?s" using 3 by (simp add: ht_begin_def Let_def)
    ultimately show ?thesis by (simp add: tags)
  qed
qed

lemma ht_entries_concat: "ht_inv hc t \<Longrightarrow> ht_entries t = concat (buckets t)"
  by (simp add: ht_entries_def ht_inv_def ht_walk_begin bucket_tags_snd)

text \<open>Starting an iteration only moves the cache: nothing a client can observe changes.\<close>

lemma ht_begin_inv:
  assumes "ht_inv hc t"
  shows "ht_inv hc (fst (ht_begin t))" and "buckets (fst (ht_begin t)) = buckets t"
proof -
  let ?b = "first_bucket t" and ?s = "scan_bucket (buckets t) (first_bucket t + 1)"
  show "buckets (fst (ht_begin t)) = buckets t"
    by (simp add: ht_begin_def Let_def)
  have "ht_inv hc (t\<lparr> first_bucket := ?s \<rparr>)" if "?b < nbuckets t" "buckets t ! ?b = []"
  proof -
    have s: "?s \<le> nbuckets t" using scan_bucket_bounds [of "?b + 1" "buckets t"] that by simp
    have "buckets t ! i = []" if "i < ?s" for i
    proof (cases "i \<le> ?b")
      case True
      then show ?thesis using \<open>buckets t ! ?b = []\<close> assms
        by (cases "i = ?b") (auto simp: ht_inv_def)
    next
      case False
      then show ?thesis using scan_bucket_skips [of "?b + 1" i "buckets t"] that s by simp
    qed
    with s assms show ?thesis by (simp add: ht_inv_def)
  qed
  then show "ht_inv hc (fst (ht_begin t))"
    using assms by (auto simp: ht_begin_def Let_def ht_at_bucket_def)
qed

text \<open>Copying a table keeps every chain as it is.\<close>

definition clone_step :: "nat \<times> ('k \<times> 'v) \<Rightarrow> ('k, 'v) hashtable \<Rightarrow> ('k, 'v) hashtable" where
  "clone_step be u = u\<lparr> buckets := (buckets u)[fst be := buckets u ! fst be @ [snd be]],
                         ht_size := ht_size u + 1, first_bucket := 0 \<rparr>"

lemma fold_clone_chain:
  "b < nbuckets u \<Longrightarrow> fold clone_step (map (Pair b) c) u =
     u\<lparr> buckets := (buckets u)[b := buckets u ! b @ c], ht_size := ht_size u + length c,
        first_bucket := (if c = [] then first_bucket u else 0) \<rparr>"
  by (induction c arbitrary: u) (auto simp: clone_step_def)

lemma fold_clone_tags:
  assumes "b \<le> length bs" and "nbuckets u = length bs" and "drop b (buckets u) = replicate (length bs - b) []"
  shows "buckets (fold clone_step (bucket_tags bs b) u) = take b (buckets u) @ drop b bs \<and>
     ht_size (fold clone_step (bucket_tags bs b) u) = ht_size u + length (concat (drop b bs)) \<and>
     first_bucket (fold clone_step (bucket_tags bs b) u) \<le> first_bucket u \<and>
     (concat (drop b bs) \<noteq> [] \<longrightarrow> first_bucket (fold clone_step (bucket_tags bs b) u) = 0)"
  using assms
proof (induction "length bs - b" arbitrary: b u)
  case 0
  then show ?case by simp
next
  case (Suc n)
  then have b: "b < length bs" by simp
  let ?u = "fold clone_step (map (Pair b) (bs ! b)) u"
  have ub: "buckets u ! b = []"
    using Suc.prems b by (metis diff_is_0_eq hd_drop_conv_nth hd_replicate leD replicate_empty)
  have u: "?u = u\<lparr> buckets := (buckets u)[b := bs ! b], ht_size := ht_size u + length (bs ! b),
      first_bucket := (if bs ! b = [] then first_bucket u else 0) \<rparr>"
    using b Suc.prems(2) ub by (simp add: fold_clone_chain)
  have "drop (b + 1) (buckets ?u) = replicate (length bs - (b + 1)) []"
    using Suc.prems(3) by (simp add: u) (metis Suc_eq_plus1 diff_Suc_eq_diff_pred drop_Suc drop_replicate drop_drop tl_drop tl_replicate diff_Suc_1 diff_diff_left)
  then have IH: "buckets (fold clone_step (bucket_tags bs (b + 1)) ?u)
        = take (b + 1) (buckets ?u) @ drop (b + 1) bs \<and>
     ht_size (fold clone_step (bucket_tags bs (b + 1)) ?u) = ht_size ?u + length (concat (drop (b + 1) bs)) \<and>
     first_bucket (fold clone_step (bucket_tags bs (b + 1)) ?u) \<le> first_bucket ?u \<and>
     (concat (drop (b + 1) bs) \<noteq> [] \<longrightarrow> first_bucket (fold clone_step (bucket_tags bs (b + 1)) ?u) = 0)"
    using Suc.hyps(1) [of "b + 1" ?u] Suc.hyps(2) Suc.prems b u by simp
  have "take (b + 1) (buckets ?u) = take b (buckets u) @ [bs ! b]"
    using b Suc.prems(2) by (simp add: u take_Suc_conv_app_nth)
  with IH b u show ?case
    by (cases "bs ! b = []") (simp_all add: bucket_tags_step Cons_nth_drop_Suc [symmetric])
qed

lemma ht_clone_facts:
  fixes t :: "('k, 'v) hashtable"
  assumes "ht_inv hc t"
  shows "buckets (ht_clone t) = buckets t" and "ht_inv hc (ht_clone t)"
proof -
  let ?e = "ht_empty_n (nbuckets t) :: ('k, 'v) hashtable"
  have e: "buckets ?e = replicate (nbuckets t) []" "ht_size ?e = 0" "first_bucket ?e = nbuckets t"
    using assms by (simp_all add: ht_empty_n_def Let_def ht_inv_def)
  have walk: "ht_walk t (snd (ht_begin t)) = bucket_tags (buckets t) 0"
    using assms by (simp add: ht_inv_def ht_walk_begin)
  have "ht_clone t = fold clone_step (bucket_tags (buckets t) 0) ?e"
    unfolding ht_clone_def walk by (rule fold_cong) (auto simp: clone_step_def)
  with fold_clone_tags [of 0 "buckets t" ?e] e
  have c: "buckets (ht_clone t) = buckets t" "ht_size (ht_clone t) = length (concat (buckets t))"
    "first_bucket (ht_clone t) \<le> nbuckets t"
    "concat (buckets t) \<noteq> [] \<Longrightarrow> first_bucket (ht_clone t) = 0"
    by simp_all
  show "buckets (ht_clone t) = buckets t" by (rule c(1))
  have "buckets t ! b = []" if "b < first_bucket (ht_clone t)" for b
    using c(3,4) that by (cases "concat (buckets t) = []") (auto simp: nth_mem)
  then show "ht_inv hc (ht_clone t)" using assms c by (simp add: ht_inv_def)
qed

text \<open>Starting an iteration only moves the cached first bucket.\<close>

lemma ht_begin_keeps:
  assumes "ht_inv hc t"
  shows "ht_inv hc (fst (ht_begin t))" "ht_find hc (fst (ht_begin t)) = ht_find hc t"
proof -
  let ?s = "scan_bucket (buckets t) (first_bucket t + 1)"
  show inv: "ht_inv hc (fst (ht_begin t))"
  proof (cases "first_bucket t < nbuckets t \<and> buckets t ! first_bucket t = []")
    case True
    then have "fst (ht_begin t) = t\<lparr> first_bucket := ?s \<rparr>"
      by (simp add: ht_begin_def Let_def ht_at_bucket_def)
    moreover have "?s \<le> nbuckets t" using scan_bucket_bounds [of "first_bucket t + 1" "buckets t"] True by simp
    moreover have "buckets t ! i = []" if "i < ?s" for i
    proof (cases "i < first_bucket t + 1")
      case False
      then show ?thesis using scan_bucket_skips [of "first_bucket t + 1" i "buckets t"] that \<open>?s \<le> nbuckets t\<close> by simp
    qed (use True assms in \<open>auto simp: ht_inv_def less_Suc_eq\<close>)
    ultimately show ?thesis using assms by (simp add: ht_inv_def)
  qed (use assms in \<open>auto simp: ht_begin_def Let_def\<close>)
  have "buckets (fst (ht_begin t)) = buckets t" by (simp add: ht_begin_def Let_def)
  then show "ht_find hc (fst (ht_begin t)) = ht_find hc t"
    by (simp add: fun_eq_iff ht_find_concat [OF inv] ht_find_concat [OF assms])
qed

text \<open>Growing a table keeps its elements.\<close>

lemma ht_rehash_keeps:
  assumes "ht_inv hc t"
  shows "ht_inv hc (ht_rehash hc n t)" "ht_find hc (ht_rehash hc n t) = ht_find hc t"
    "ht_size (ht_rehash hc n t) = ht_size t"
proof -
  note i = assms [unfolded ht_inv_def]
  have d: "distinct (map fst (concat (buckets t)))" using i by simp
  have p: "0 < nbuckets t" "placed hc (buckets t)" "first_bucket t \<le> nbuckets t"
    "\<forall>b < first_bucket t. buckets t ! b = []" "grow_buckets (nbuckets t) 1 = nbuckets t" using i by simp_all
  note r = ht_rehash_facts [OF p, of n]
  have "distinct (map fst (concat (buckets (ht_rehash hc n t))))"
    using d r(3) by (metis mset_map mset_eq_imp_distinct_iff)
  moreover have "length (concat (buckets (ht_rehash hc n t))) = length (concat (buckets t))"
    using r(3) by (metis size_mset)
  ultimately show inv: "ht_inv hc (ht_rehash hc n t)" using r i by (simp add: ht_inv_def)
  show "ht_find hc (ht_rehash hc n t) = ht_find hc t"
    using map_of_mset_eq [OF r(3) d] by (auto simp: fun_eq_iff ht_find_concat [OF inv] ht_find_concat [OF assms])
  show "ht_size (ht_rehash hc n t) = ht_size t" by (rule r(4))
qed

lemma ht_balance_keeps:
  assumes "ht_inv hc t"
  shows "ht_inv hc (ht_balance hc t)" "ht_find hc (ht_balance hc t) = ht_find hc t"
  using ht_rehash_keeps [OF assms] assms by (simp_all add: ht_balance_def)

section \<open>The interface of the databases\<close>

text \<open>
  What the databases need of a table: a finite map that \<open>put\<close> updates at one key, and an
  enumeration of its pairs without repetition. \<open>keys_of\<close> and the selection lemmas below are the
  client's view of a loop over the table.
\<close>

locale assoc_table =
  fixes invar :: "'t \<Rightarrow> bool"
    and lookup :: "'t \<Rightarrow> 'k \<Rightarrow> 'v option"
    and put :: "'k \<Rightarrow> 'v \<Rightarrow> 't \<Rightarrow> 't"
    and entries :: "'t \<Rightarrow> ('k \<times> 'v) list"
    and new :: 't
  assumes invar_new: "invar new"
    and lookup_new: "lookup new k = None"
    and invar_put: "invar t \<Longrightarrow> invar (put k v t)"
    and lookup_put: "invar t \<Longrightarrow> lookup (put k v t) = (lookup t)(k \<mapsto> v)"
    and entries_map: "invar t \<Longrightarrow> map_of (entries t) = lookup t"
    and entries_distinct: "invar t \<Longrightarrow> distinct (map fst (entries t))"
begin

lemma entries_iff: "invar t \<Longrightarrow> (k, v) \<in> set (entries t) \<longleftrightarrow> lookup t k = Some v"
  by (metis entries_distinct entries_map map_of_eq_Some_iff)

lemma ex_entry: "invar t \<Longrightarrow> (\<exists>e \<in> set (entries t). P (fst e) (snd e)) \<longleftrightarrow> (\<exists>k v. lookup t k = Some v \<and> P k v)"
proof -
  assume "invar t"
  have "(\<exists>e \<in> set (entries t). P (fst e) (snd e)) \<longleftrightarrow> (\<exists>k v. (k, v) \<in> set (entries t) \<and> P k v)"
    by force
  then show ?thesis by (simp add: entries_iff [OF \<open>invar t\<close>])
qed

lemma selected_keys:
  "invar t \<Longrightarrow> set (map fst (filter (\<lambda>e. P (fst e) (snd e)) (entries t))) = {k. \<exists>v. lookup t k = Some v \<and> P k v}"
proof -
  assume "invar t"
  have "set (map fst (filter (\<lambda>e. P (fst e) (snd e)) (entries t)))
      = {k. \<exists>v. (k, v) \<in> set (entries t) \<and> P k v}"
    by force
  then show ?thesis by (simp add: entries_iff [OF \<open>invar t\<close>])
qed

lemma fold_put_lookup:
  "invar t \<Longrightarrow> invar (fold (\<lambda>(k, v). put k v) kvs t) \<and>
     lookup (fold (\<lambda>(k, v). put k v) kvs t) = lookup t ++ map_of (rev kvs)"
proof (induction kvs arbitrary: t)
  case (Cons kv kvs)
  obtain k v where kv: "kv = (k, v)" by fastforce
  from Cons.IH [OF invar_put [OF Cons.prems, of k v]] show ?case
    by (simp add: kv lookup_put [OF Cons.prems] map_add_def fun_eq_iff split: option.split)
qed simp

end

lemma ht_assoc_table:
  "assoc_table (ht_inv hc) (ht_find hc) (\<lambda>k v t. snd (ht_set hc k v t)) ht_entries ht_empty"
proof
  show "map_of (ht_entries t) = ht_find hc t" if "ht_inv hc t" for t :: "('a, 'b) hashtable"
    using that by (simp add: fun_eq_iff ht_entries_concat ht_find_concat)
  show "distinct (map fst (ht_entries t))" if "ht_inv hc t" for t :: "('a, 'b) hashtable"
    using that by (simp add: ht_entries_concat [OF that] ht_inv_def)
qed (simp_all add: ht_inv_empty ht_find_empty ht_set_facts)

interpretation ht: assoc_table "ht_inv hc" "ht_find hc" "\<lambda>k v t. snd (ht_set hc k v t)" ht_entries ht_empty
  for hc
  by (rule ht_assoc_table)

text \<open>
  What the ARP table needs besides: a container whose user links new elements, erases by key and decides
  when to rebalance.
\<close>

locale erasable_table = assoc_table invar lookup put entries new
  for invar :: "'t \<Rightarrow> bool" and lookup :: "'t \<Rightarrow> 'k \<Rightarrow> 'v option" and put entries new +
  fixes link :: "'k \<Rightarrow> 'v \<Rightarrow> 't \<Rightarrow> 't"
    and del :: "'k \<Rightarrow> 't \<Rightarrow> 't"
    and tidy :: "'t \<Rightarrow> 't"
  assumes invar_link: "invar t \<Longrightarrow> lookup t k = None \<Longrightarrow> invar (link k v t)"
    and lookup_link: "invar t \<Longrightarrow> lookup t k = None \<Longrightarrow> lookup (link k v t) = (lookup t)(k \<mapsto> v)"
    and invar_del: "invar t \<Longrightarrow> invar (del k t)"
    and lookup_del: "invar t \<Longrightarrow> lookup (del k t) = (lookup t)(k := None)"
    and invar_tidy: "invar t \<Longrightarrow> invar (tidy t)"
    and lookup_tidy: "invar t \<Longrightarrow> lookup (tidy t) = lookup t"
begin

lemmas container_facts = invar_put lookup_put invar_link lookup_link invar_del lookup_del invar_tidy lookup_tidy

lemma fold_del:
  "invar t \<Longrightarrow> invar (fold del ks t) \<and> lookup (fold del ks t) = (\<lambda>k. if k \<in> set ks then None else lookup t k)"
proof (induction ks arbitrary: t)
  case (Cons k ks)
  from Cons.IH [OF invar_del [OF Cons.prems, of k]] show ?case
    by (auto simp: lookup_del [OF Cons.prems])
qed simp

lemma del_all: "invar t \<Longrightarrow> lookup (fold del (map fst (entries t)) t) = Map.empty"
proof -
  assume t: "invar t"
  have "lookup t k = None" if "k \<notin> fst ` set (entries t)" for k
    using that entries_map [OF t] by (metis map_of_eq_None_iff)
  then show ?thesis using fold_del [OF t, of "map fst (entries t)"] by auto
qed

end

interpretation hc: erasable_table "ht_inv hc" "ht_find hc" "\<lambda>k v t. snd (ht_set hc k v t)" ht_entries ht_empty
  "ht_link hc" "ht_erase hc" "ht_balance hc"
  for hc
  by unfold_locales (simp_all add: ht_link_facts ht_erase_facts ht_balance_keeps)

section \<open>Properties\<close>

text \<open>
  C28. The hash table refines a finite map. Whatever sequence of assignments fills an empty table, and
  however often it grows on the way, a lookup returns the value assigned last, the iterator visits
  every key once with that value, and the size is the number of keys.
\<close>

theorem hashtable_refines_map:
  fixes kvs :: "('k \<times> 'v) list" and hc :: "'k \<Rightarrow> nat"
  defines "t \<equiv> fold (\<lambda>(k, v) t. snd (ht_set hc k v t)) kvs ht_empty"
  shows "ht_find hc t = map_of (rev kvs) \<and> map_of (ht_entries t) = map_of (rev kvs) \<and>
     distinct (map fst (ht_entries t)) \<and> ht_size t = card (fst ` set kvs)"
proof -
  have "ht_find hc (ht_empty :: ('k, 'v) hashtable) = Map.empty" by (simp add: fun_eq_iff ht_find_empty)
  then have t: "ht_inv hc t" "ht_find hc t = map_of (rev kvs)"
    using ht.fold_put_lookup [OF ht.invar_new, of hc kvs] by (simp_all add: t_def)
  have e: "map_of (ht_entries t) = map_of (rev kvs)" "distinct (map fst (ht_entries t))"
    using ht.entries_map [OF t(1)] ht.entries_distinct [OF t(1)] t(2) by simp_all
  have "ht_size t = length (map fst (ht_entries t))"
    using t(1) by (simp add: ht_entries_concat [OF t(1)] ht_inv_def)
  also have "\<dots> = card (fst ` set (ht_entries t))" using distinct_card [OF e(2)] by simp
  also have "fst ` set (ht_entries t) = fst ` set kvs"
    using e(1) dom_map_of_conv_image_fst [of "ht_entries t"] dom_map_of_conv_image_fst [of "rev kvs"] by simp
  finally show ?thesis using t e by simp
qed

text \<open>
  Growing a table to any number of buckets and copying it change nothing that can be observed: the
  invariant, every lookup and the size stay.
\<close>

lemma hashtable_rehash_clone:
  assumes "ht_inv hc t"
  shows "ht_inv hc (ht_rehash hc n t) \<and> ht_find hc (ht_rehash hc n t) = ht_find hc t \<and>
     ht_size (ht_rehash hc n t) = ht_size t \<and>
     ht_inv hc (ht_clone t) \<and> ht_find hc (ht_clone t) = ht_find hc t \<and> ht_size (ht_clone t) = ht_size t"
proof -
  note c = ht_clone_facts [OF assms]
  have "ht_find hc (ht_clone t) k = ht_find hc t k" for k
    using c by (simp add: ht_find_concat [OF c(2)] ht_find_concat [OF assms])
  moreover have "ht_size (ht_clone t) = ht_size t" using c assms by (simp add: ht_inv_def)
  ultimately show ?thesis using ht_rehash_keeps [OF assms] c(2) by blast
qed

theorem hashtable_rehash_clone_witness:
  "ht_find (\<lambda>k. k) (ht_rehash (\<lambda>k. k) 4 (snd (ht_set (\<lambda>k. k) 3 True ht_empty))) (3 :: nat) = Some True"
proof -
  note s = ht_set_facts [OF ht_inv_empty [of "\<lambda>k :: nat. k"], of 3 True]
  show ?thesis using hashtable_rehash_clone [OF s(1), of 4] s(2) by simp
qed

end
