(* ===== verification/IGMP_ClientDB.thy ===== *)
theory IGMP_ClientDB
  imports IGMP_Packets Click_Vector Click_HashTable
begin

text \<open>
  The client database (\<^verbatim>\<open>elements/IGMPClientDB.cc\<close>): a vector of pointers to records, each owned by
  this database, one per multicast group. An operation finds the first record of the group and
  works on it in place, so the state is the list of records and \<open>on_record\<close> is the assignment
  through the pointer \<open>getRecord\<close> returns. Every operation of the class is a definition; after them
  come the lookup laws of the whole, the interface \<open>membership_db\<close> the client and the router rely
  on, and the behaviour of the two operations that erase through iterators.
\<close>

type_synonym client_db = "Record list"

section \<open>Operations\<close>

definition mode_string :: "filtermode \<Rightarrow> string" where
  "mode_string m = (if m = INCLUDE then ''(I)'' else ''(E)'')"

definition newline :: string where
  "newline = [CHR 0x0A]"

definition record_string :: "Record \<Rightarrow> string" where
  "record_string r =
     mode_string (filter_mode r) @ '' - '' @ ip_unparse (multicast_address r) @ newline @
     concat (map (\<lambda>ip. ''    '' @ ip_unparse ip @ newline) (sources r))"

definition cdb_toString :: "client_db \<Rightarrow> string" where
  "cdb_toString db =
     ''IGMPRouterDB'' @ newline @ ''------------'' @ newline @ concat (map record_string db)"

fun recordExists :: "client_db \<Rightarrow> ipaddr \<Rightarrow> bool" where
  "recordExists [] ma = False"
| "recordExists (r # rs) ma = (if multicast_address r = ma then True else recordExists rs ma)"

fun getRecord :: "client_db \<Rightarrow> ipaddr \<Rightarrow> Record option" where
  "getRecord [] ma = None"
| "getRecord (r # rs) ma = (if multicast_address r = ma then Some r else getRecord rs ma)"

text \<open>An update of the record \<open>getRecord\<close> points to.\<close>

fun on_record :: "ipaddr \<Rightarrow> (Record \<Rightarrow> Record) \<Rightarrow> client_db \<Rightarrow> client_db" where
  "on_record ma f [] = []"
| "on_record ma f (r # rs) = (if multicast_address r = ma then f r # rs else r # on_record ma f rs)"

definition includeSources :: "client_db \<Rightarrow> ipaddr \<Rightarrow> ipaddr list \<Rightarrow> client_db" where
  "includeSources db ma srcs =
     (case getRecord db ma of
        None \<Rightarrow> db @ [\<lparr> multicast_address = ma, sources = srcs, filter_mode = INCLUDE \<rparr>]
      | Some r \<Rightarrow>
          (case filter_mode r of
             INCLUDE \<Rightarrow> db
           | EXCLUDE \<Rightarrow> on_record ma (\<lambda>r. r\<lparr> filter_mode := EXCLUDE, sources := [] @ srcs \<rparr>) db))"

text \<open>
  The loop of \<open>excludeSources\<close> over the record's own sources: the inner loop compares \<open>*it\<close> with
  each source in turn and on a match erases at \<open>it\<close> and moves \<open>it\<close> on. Reading \<open>*it\<close> at or past the
  end is a fault; so is an iterator that has run past the end, since it will never equal \<open>end()\<close>.
\<close>

fun exclude_inner :: "ipaddr list \<Rightarrow> nat \<Rightarrow> ipaddr list \<Rightarrow> (nat \<times> ipaddr list) exec" where
  "exclude_inner [] it xs = Inr (it, xs)"
| "exclude_inner (s # ss) it xs =
     (if it < length xs
      then if xs ! it = s then exclude_inner ss (it + 1) (list_erase it xs)
           else exclude_inner ss it xs
      else Inl Out_of_bounds)"

lemma exclude_inner_bounds:
  "exclude_inner ss it xs = Inr (it', xs') \<Longrightarrow> it \<le> it' \<and> length xs' \<le> length xs"
  by (induction ss it xs rule: exclude_inner.induct)
     (fastforce simp: length_list_erase split: if_splits)+

function exclude_loop :: "ipaddr list \<Rightarrow> nat \<Rightarrow> ipaddr list \<Rightarrow> ipaddr list exec" where
  "exclude_loop srcs it xs =
     (if it = length xs then Inr xs
      else if it > length xs then Inl Out_of_bounds
      else (case exclude_inner srcs it xs of
              Inl e \<Rightarrow> Inl e
            | Inr r \<Rightarrow> exclude_loop srcs (fst r + 1) (snd r)))"
  by pat_completeness auto
termination
proof (relation "measure (\<lambda>(srcs, it, xs). length xs - it)", goal_cases)
  case (2 srcs it xs r)
  then show ?case using exclude_inner_bounds [of srcs it xs "fst r" "snd r"] by auto
qed simp

declare exclude_loop.simps [simp del]

definition excludeSources :: "client_db \<Rightarrow> ipaddr \<Rightarrow> ipaddr list \<Rightarrow> client_db exec" where
  "excludeSources db ma srcs =
     (case getRecord db ma of
        None \<Rightarrow> Inr (db @ [\<lparr> multicast_address = ma, sources = [], filter_mode = INCLUDE \<rparr>])
      | Some r \<Rightarrow>
          (case filter_mode r of
             INCLUDE \<Rightarrow> ebind (exclude_loop srcs 0 (sources r))
                          (\<lambda>xs. Inr (on_record ma (\<lambda>r. r\<lparr> sources := xs \<rparr>) db))
           | EXCLUDE \<Rightarrow> Inr db))"

text \<open>The operations that return \<open>-1\<close> when the group has no record and \<open>0\<close> otherwise.\<close>

definition if_record :: "client_db \<Rightarrow> ipaddr \<Rightarrow> (Record \<Rightarrow> Record) \<Rightarrow> int \<times> client_db" where
  "if_record db ma f = (case getRecord db ma of None \<Rightarrow> (- 1, db) | Some _ \<Rightarrow> (0, on_record ma f db))"

definition addSources :: "client_db \<Rightarrow> ipaddr \<Rightarrow> ipaddr list \<Rightarrow> int \<times> client_db" where
  "addSources db ma srcs = if_record db ma (\<lambda>r. r\<lparr> sources := fold (\<lambda>s xs. xs @ [s]) srcs (sources r) \<rparr>)"

definition addSource :: "client_db \<Rightarrow> ipaddr \<Rightarrow> ipaddr \<Rightarrow> int \<times> client_db" where
  "addSource db ma s = if_record db ma (\<lambda>r. r\<lparr> sources := sources r @ [s] \<rparr>)"

definition clearSources :: "client_db \<Rightarrow> ipaddr \<Rightarrow> int \<times> client_db" where
  "clearSources db ma = if_record db ma (\<lambda>r. r\<lparr> sources := [] \<rparr>)"

text \<open>
  The removals first collect the iterators of the matching sources, then erase at each of them in
  turn, although every erasure moves the later elements down.
\<close>

definition match_positions :: "(ipaddr \<Rightarrow> bool) \<Rightarrow> ipaddr list \<Rightarrow> nat list" where
  "match_positions P xs = filter (\<lambda>i. P (xs ! i)) [0..<length xs]"

definition erase_all :: "nat list \<Rightarrow> ipaddr list \<Rightarrow> ipaddr list" where
  "erase_all ps xs = fold list_erase ps xs"

definition removeSources :: "client_db \<Rightarrow> ipaddr \<Rightarrow> ipaddr list \<Rightarrow> int \<times> client_db" where
  "removeSources db ma srcs =
     if_record db ma (\<lambda>r. r\<lparr> sources :=
       erase_all (match_positions (\<lambda>x. x \<in> set srcs) (sources r)) (sources r) \<rparr>)"

definition removeSource :: "client_db \<Rightarrow> ipaddr \<Rightarrow> ipaddr \<Rightarrow> int \<times> client_db" where
  "removeSource db ma s =
     if_record db ma (\<lambda>r. r\<lparr> sources :=
       erase_all (match_positions (\<lambda>x. x = s) (sources r)) (sources r) \<rparr>)"

text \<open>\<open>addRecord\<close> appends without looking for an existing record. (It has no return statement; no caller reads a result.)\<close>

definition addRecord :: "client_db \<Rightarrow> ipaddr \<Rightarrow> ipaddr list \<Rightarrow> filtermode \<Rightarrow> client_db" where
  "addRecord db ma srcs m = db @ [\<lparr> multicast_address = ma, sources = srcs, filter_mode = m \<rparr>]"

definition cdb_acceptFromSource :: "client_db \<Rightarrow> ipaddr \<Rightarrow> ipaddr \<Rightarrow> bool" where
  "cdb_acceptFromSource db ma src =
     (case getRecord db ma of
        None \<Rightarrow> False
      | Some r \<Rightarrow>
          (let inSourceList = src \<in> set (sources r)
           in if filter_mode r = INCLUDE \<and> inSourceList then True
              else if filter_mode r = INCLUDE \<and> \<not> inSourceList then False
              else if filter_mode r = EXCLUDE \<and> inSourceList then False
              else if filter_mode r = EXCLUDE \<and> \<not> inSourceList then True
              else False))"

definition setMode :: "client_db \<Rightarrow> ipaddr \<Rightarrow> filtermode \<Rightarrow> int \<times> client_db" where
  "setMode db ma m = if_record db ma (\<lambda>r. r\<lparr> filter_mode := m \<rparr>)"

definition getSources :: "client_db \<Rightarrow> ipaddr \<Rightarrow> ipaddr list exec" where
  "getSources db ma = (case getRecord db ma of None \<Rightarrow> Inl Null_deref | Some r \<Rightarrow> Inr (sources r))"

definition getMode :: "client_db \<Rightarrow> ipaddr \<Rightarrow> filtermode exec" where
  "getMode db ma = (case getRecord db ma of None \<Rightarrow> Inl Null_deref | Some r \<Rightarrow> Inr (filter_mode r))"

definition getMulticastFiltermodeTable :: "client_db \<Rightarrow> (ipaddr, filtermode) hashtable" where
  "getMulticastFiltermodeTable db =
     fold (\<lambda>r t. snd (ht_set ip_hashcode (multicast_address r) (filter_mode r) t)) db ht_empty"

section \<open>Invariant: one record per group\<close>

definition cdb_inv :: "client_db \<Rightarrow> bool" where
  "cdb_inv db \<longleftrightarrow> distinct (map multicast_address db)"

text \<open>Updates through the pointer keep the record's group.\<close>

definition keeps_group :: "(Record \<Rightarrow> Record) \<Rightarrow> bool" where
  "keeps_group f \<longleftrightarrow> (\<forall>r. multicast_address (f r) = multicast_address r)"

lemma recordExists_iff: "recordExists db ma \<longleftrightarrow> getRecord db ma \<noteq> None"
  by (induction db) auto

lemma getRecord_group: "getRecord db ma = Some r \<Longrightarrow> multicast_address r = ma \<and> r \<in> set db"
  by (induction db) (auto split: if_splits)

lemma getRecord_None_iff: "getRecord db ma = None \<longleftrightarrow> ma \<notin> multicast_address ` set db"
  by (induction db) auto

lemma getRecord_append:
  "getRecord (db @ rs) ma = (case getRecord db ma of None \<Rightarrow> getRecord rs ma | Some r \<Rightarrow> Some r)"
  by (induction db) auto

lemma getRecord_on_record:
  "keeps_group f \<Longrightarrow>
     getRecord (on_record ma f db) ma' = (if ma' = ma then map_option f (getRecord db ma) else getRecord db ma')"
  by (induction ma f db rule: on_record.induct) (auto simp: keeps_group_def)

lemma on_record_groups:
  "keeps_group f \<Longrightarrow> map multicast_address (on_record ma f db) = map multicast_address db"
  by (induction ma f db rule: on_record.induct) (auto simp: keeps_group_def)

lemma keeps_group_updates [simp]:
  "keeps_group (\<lambda>r. r\<lparr> sources := h r \<rparr>)" "keeps_group (\<lambda>r. r\<lparr> filter_mode := g r \<rparr>)"
  "keeps_group (\<lambda>r. r\<lparr> filter_mode := g r, sources := h r \<rparr>)"
  by (simp_all add: keeps_group_def)

lemma getRecord_mem:
  "cdb_inv db \<Longrightarrow> r \<in> set db \<Longrightarrow> getRecord db (multicast_address r) = Some r"
  by (induction db) (auto simp: cdb_inv_def)

lemma if_record_lookup:
  "keeps_group f \<Longrightarrow> getRecord (snd (if_record db ma f)) = (getRecord db)(ma := map_option f (getRecord db ma))"
  by (auto simp: if_record_def getRecord_on_record fun_eq_iff split: option.split)

lemma if_record_inv: "keeps_group f \<Longrightarrow> cdb_inv db \<Longrightarrow> cdb_inv (snd (if_record db ma f))"
  by (auto simp: if_record_def cdb_inv_def on_record_groups split: option.split)

lemma addRecord_inv: "cdb_inv db \<Longrightarrow> \<not> recordExists db ma \<Longrightarrow> cdb_inv (addRecord db ma srcs m)"
  by (auto simp: cdb_inv_def addRecord_def recordExists_iff getRecord_None_iff)

lemma addRecord_lookup:
  "\<not> recordExists db ma \<Longrightarrow> getRecord (addRecord db ma srcs m) =
     (getRecord db)(ma \<mapsto> \<lparr> multicast_address = ma, sources = srcs, filter_mode = m \<rparr>)"
  by (auto simp: addRecord_def recordExists_iff getRecord_append fun_eq_iff split: option.split)

lemma excludeSources_inv: "cdb_inv db \<Longrightarrow> excludeSources db ma srcs = Inr db' \<Longrightarrow> cdb_inv db'"
  by (auto simp: excludeSources_def cdb_inv_def on_record_groups exec_simps getRecord_None_iff
      split: option.splits filtermode.splits)

lemma includeSources_inv: "cdb_inv db \<Longrightarrow> cdb_inv (includeSources db ma srcs)"
  by (auto simp: includeSources_def cdb_inv_def on_record_groups getRecord_None_iff
      split: option.splits filtermode.splits)

lemma setMode_lookup:
  "getRecord (snd (setMode db ma m)) = (getRecord db)(ma := map_option (\<lambda>r. r\<lparr> filter_mode := m \<rparr>) (getRecord db ma))"
  by (simp add: setMode_def if_record_lookup)

lemma setMode_inv: "cdb_inv db \<Longrightarrow> cdb_inv (snd (setMode db ma m))"
  by (simp add: setMode_def if_record_inv)

section \<open>What the database answers\<close>

text \<open>The abstract view of a record: the set of sources it lets through.\<close>

definition accepted_sources :: "Record \<Rightarrow> ipaddr set" where
  "accepted_sources r = (case filter_mode r of INCLUDE \<Rightarrow> set (sources r) | EXCLUDE \<Rightarrow> - set (sources r))"

lemma accept_iff:
  "cdb_acceptFromSource db ma src \<longleftrightarrow> (\<exists>r. getRecord db ma = Some r \<and> src \<in> accepted_sources r)"
  by (auto simp: cdb_acceptFromSource_def accepted_sources_def Let_def split: option.split filtermode.split)

lemma table_lookup_general:
  "ht_inv ip_hashcode (getMulticastFiltermodeTable db) \<and>
   ht_find ip_hashcode (getMulticastFiltermodeTable db) =
     map_of (rev (map (\<lambda>r. (multicast_address r, filter_mode r)) db))"
proof -
  have eq: "getMulticastFiltermodeTable db =
      fold (\<lambda>(k, v) t. snd (ht_set ip_hashcode k v t))
        (map (\<lambda>r. (multicast_address r, filter_mode r)) db) ht_empty"
    by (simp add: getMulticastFiltermodeTable_def fold_map comp_def)
  show ?thesis
    unfolding eq using ht.fold_put_lookup [OF ht.invar_new]
    by (auto simp: ht.lookup_new map_add_def fun_eq_iff split: option.split)
qed

lemma map_of_rev_distinct: "distinct (map fst kvs) \<Longrightarrow> map_of (rev kvs) = map_of kvs"
  by (intro map_of_eqI) (auto simp: rev_map [symmetric] map_of_eq_Some_iff distinct_rev intro!: ext)

lemma getRecord_map_of:
  "map_of (map (\<lambda>r. (multicast_address r, f r)) db) ma = map_option f (getRecord db ma)"
  by (induction db) auto

lemma table_lookup:
  assumes "cdb_inv db"
  shows "ht_find ip_hashcode (getMulticastFiltermodeTable db) ma = map_option filter_mode (getRecord db ma)"
proof -
  have "distinct (map fst (map (\<lambda>r. (multicast_address r, filter_mode r)) db))"
    using assms by (simp add: cdb_inv_def comp_def)
  then show ?thesis
    using table_lookup_general [of db] by (simp add: map_of_rev_distinct getRecord_map_of)
qed

section \<open>The interface of a membership store\<close>

text \<open>
  What the IGMP client and router need of a database of groups: a lookup, a test for a record, a way
  to add a record for a group that has none and a way to set the mode of one that has. \<open>switch_lookup\<close>
  is the step both take for every join and leave: add the record if it is missing, then set the mode.
\<close>

locale membership_store =
  fixes invar :: "'db \<Rightarrow> bool"
    and look :: "'db \<Rightarrow> ipaddr \<Rightarrow> Record option"
    and has :: "'db \<Rightarrow> ipaddr \<Rightarrow> bool"
    and add :: "'db \<Rightarrow> ipaddr \<Rightarrow> ipaddr list \<Rightarrow> filtermode \<Rightarrow> 'db"
    and put_mode :: "'db \<Rightarrow> ipaddr \<Rightarrow> filtermode \<Rightarrow> 'db"
  assumes has_iff: "has db ma \<longleftrightarrow> look db ma \<noteq> None"
    and invar_add: "invar db \<Longrightarrow> \<not> has db ma \<Longrightarrow> invar (add db ma srcs m)"
    and look_add: "\<not> has db ma \<Longrightarrow> look (add db ma srcs m) =
          (look db)(ma \<mapsto> \<lparr> multicast_address = ma, sources = srcs, filter_mode = m \<rparr>)"
    and invar_put_mode: "invar db \<Longrightarrow> invar (put_mode db ma m)"
    and look_put_mode: "look (put_mode db ma m) =
          (look db)(ma := map_option (\<lambda>r. r\<lparr> filter_mode := m \<rparr>) (look db ma))"
    and look_group: "look db ma = Some r \<Longrightarrow> multicast_address r = ma"
begin

text \<open>The record a group has after a switch: its old sources, or none, and the new mode.\<close>

lemma switch_lookup:
  "look (put_mode (if has db ma then db else add db ma [] m0) ma m) =
     (look db)(ma \<mapsto> \<lparr> multicast_address = ma,
                       sources = (case look db ma of None \<Rightarrow> [] | Some r \<Rightarrow> sources r),
                       filter_mode = m \<rparr>)"
proof (cases "look db ma")
  case None
  then have "\<not> has db ma" by (simp add: has_iff)
  with None show ?thesis by (simp add: look_put_mode look_add fun_eq_iff)
next
  case (Some r)
  then have "has db ma" by (simp add: has_iff)
  moreover have "r\<lparr> filter_mode := m \<rparr> = \<lparr> multicast_address = ma, sources = sources r, filter_mode = m \<rparr>"
    using look_group [OF Some] by simp
  ultimately show ?thesis using Some by (simp add: look_put_mode fun_eq_iff)
qed

lemma switch_invar:
  "invar db \<Longrightarrow> invar (put_mode (if has db ma then db else add db ma [] m0) ma m)"
  by (simp add: invar_put_mode invar_add)

lemma switch_idem:
  "look (put_mode (if has db ma then db else add db ma [] m0) ma m) ma = Some r \<Longrightarrow>
     look (put_mode (put_mode (if has db ma then db else add db ma [] m0) ma m) ma m) =
     look (put_mode (if has db ma then db else add db ma [] m0) ma m)"
  by (auto simp: switch_lookup look_put_mode fun_eq_iff)

end

interpretation cdb: membership_store cdb_inv getRecord recordExists addRecord "\<lambda>db ma m. snd (setMode db ma m)"
  by unfold_locales
     (auto simp: recordExists_iff addRecord_inv addRecord_lookup setMode_lookup setMode_inv
           dest: getRecord_group)

section \<open>Removals through collected iterators\<close>

text \<open>
  The \<open>i\<close>-th collected position is erased after \<open>i\<close> earlier erasures, so what goes is the element that
  stood at that position plus \<open>i\<close>.
\<close>

lemma list_erase_nths: "list_erase it xs = nths xs (- {it})"
proof (induction xs arbitrary: it)
  case (Cons x xs)
  show ?case
  proof (cases it)
    case 0
    then have "{j. Suc j \<in> - {it}} = UNIV" by auto
    with 0 show ?thesis by (simp add: list_erase_def nths_Cons nths_all)
  next
    case (Suc n)
    then have "{j. Suc j \<in> - {it}} = - {n}" by auto
    with Suc Cons show ?thesis by (simp add: list_erase_def nths_Cons)
  qed
qed (simp add: list_erase_def)

lemma erase_all_shifted:
  "sorted_wrt (<) ps \<Longrightarrow>
     erase_all ps xs = nths xs (- (\<lambda>i. ps ! i + i) ` {..<length ps})"
proof (induction ps arbitrary: xs)
  case (Cons p ps)
  let ?E = "(\<lambda>i. ps ! i + i) ` {..<length ps}" and ?A = "- {p}"
  have gt: "p < e" if "e \<in> ?E" for e
    using that Cons.prems by (auto intro: trans_less_add1)
  have card: "card {i' \<in> ?A. i' < i} = (if i \<le> p then i else i - 1)" for i
  proof -
    have "{i' \<in> ?A. i' < i} = {..<i} - {p}" by auto
    then show ?thesis by simp
  qed
  have "{i \<in> ?A. card {i' \<in> ?A. i' < i} \<notin> ?E} = - (\<lambda>i. (p # ps) ! i + i) ` {..<length (p # ps)}"
    (is "?L = - ?R")
  proof -
    have R: "?R = insert p ((\<lambda>i. ps ! i + Suc i) ` {..<length ps})"
      by (simp add: lessThan_Suc_eq_insert_0 image_image del: lessThan_Suc)
    have gt': "p < e" if "e \<in> (\<lambda>i. ps ! i + Suc i) ` {..<length ps}" for e
      using that Cons.prems by (auto simp: less_Suc_eq trans_less_add1)
    have shift: "(i - 1 \<in> ?E) = (i \<in> (\<lambda>i. ps ! i + Suc i) ` {..<length ps})" if "p < i" for i
    proof -
      have "(i - 1 = n) = (i = Suc n)" for n using that by auto
      then show ?thesis by (simp add: image_iff)
    qed
    show ?thesis
    proof (rule set_eqI)
      fix i
      consider "i < p" | "i = p" | "p < i" by linarith
      then show "i \<in> ?L \<longleftrightarrow> i \<in> - ?R"
        unfolding R mem_Collect_eq card using gt [of i] gt' [of i] shift [of i]
        by cases (auto simp del: image_iff imageE)
    qed
  qed
  moreover have "erase_all (p # ps) xs = nths (nths xs ?A) (- ?E)"
    using Cons by (simp add: erase_all_def list_erase_nths)
  ultimately show ?case by (simp add: nths_nths)
qed (simp add: erase_all_def nths_all)

lemma match_positions_sorted: "sorted_wrt (<) (match_positions P xs)"
  by (simp add: match_positions_def sorted_wrt_filter)

text \<open>With at most one match, the removal is the intended one.\<close>

lemma match_positions_None: "\<forall>x \<in> set xs. \<not> P x \<Longrightarrow> match_positions P xs = []"
  by (simp add: match_positions_def)

lemma match_positions_Cons:
  "match_positions P (x # xs) = (if P x then [0] else []) @ map Suc (match_positions P xs)"
proof -
  have "[0..<length (x # xs)] = 0 # map Suc [0..<length xs]"
    by (metis length_Cons map_Suc_upt upt_conv_Cons zero_less_Suc)
  then show ?thesis by (simp add: match_positions_def filter_map comp_def)
qed

lemma match_positions_append:
  "match_positions P (xs @ ys) = match_positions P xs @ map (\<lambda>i. length xs + i) (match_positions P ys)"
  by (induction xs) (simp_all add: match_positions_Cons comp_def, simp add: match_positions_def)

lemma erase_single_match:
  assumes "\<forall>x \<in> set ys. \<not> P x" "P s" "\<forall>x \<in> set zs. \<not> P x"
  shows "erase_all (match_positions P (ys @ s # zs)) (ys @ s # zs) = filter (\<lambda>x. \<not> P x) (ys @ s # zs)"
proof -
  have "match_positions P (s # zs) = [0]"
    using assms by (simp add: match_positions_Cons match_positions_None)
  then have "match_positions P (ys @ s # zs) = [length ys]"
    using assms by (simp add: match_positions_append match_positions_None)
  with assms show ?thesis by (simp add: erase_all_def list_erase_def)
qed

lemma erase_source_distinct:
  assumes "distinct xs"
  shows "erase_all (match_positions (\<lambda>x. x = s) xs) xs = filter (\<lambda>x. x \<noteq> s) xs"
proof (cases "s \<in> set xs")
  case True
  then obtain ys zs where "xs = ys @ s # zs" by (meson split_list)
  moreover from this assms have "\<forall>x \<in> set ys. x \<noteq> s" "\<forall>x \<in> set zs. x \<noteq> s" by auto
  ultimately show ?thesis using erase_single_match [of ys "\<lambda>x. x = s" s zs] by blast
next
  case False
  then have "match_positions (\<lambda>x. x = s) xs = []" by (intro match_positions_None) auto
  moreover have "filter (\<lambda>x. x \<noteq> s) xs = xs" using False by (intro filter_True) auto
  ultimately show ?thesis by (simp add: erase_all_def)
qed

section \<open>Properties\<close>

text \<open>
  C33. No operation of the database creates a second record for a group: the invariant is kept by every
  one of them (by \<open>addRecord\<close>, which does not look, when the group has no record yet).
\<close>

theorem clientdb_one_record_per_group:
  assumes "cdb_inv db"
  shows "cdb_inv (includeSources db ma srcs) \<and> (\<forall>db'. excludeSources db ma srcs = Inr db' \<longrightarrow> cdb_inv db') \<and>
     cdb_inv (snd (addSources db ma srcs)) \<and> cdb_inv (snd (addSource db ma s)) \<and> cdb_inv (snd (clearSources db ma)) \<and>
     cdb_inv (snd (removeSources db ma srcs)) \<and> cdb_inv (snd (removeSource db ma s)) \<and> cdb_inv (snd (setMode db ma m)) \<and>
     (recordExists db ma \<or> cdb_inv (addRecord db ma srcs m))"
  using assms addRecord_inv [OF assms, of ma srcs m]
  by (auto simp: includeSources_inv excludeSources_inv addSources_def addSource_def clearSources_def removeSources_def
      removeSource_def if_record_inv setMode_inv)

theorem clientdb_one_record_per_group_witness:
  "cdb_inv (includeSources [\<lparr> multicast_address = 7, sources = [1], filter_mode = EXCLUDE \<rparr>] 7 [1, 2])"
  using clientdb_one_record_per_group [of "[\<lparr> multicast_address = 7, sources = [1], filter_mode = EXCLUDE \<rparr>]" 7 "[1, 2]"]
  by (simp add: cdb_inv_def)

text \<open>
  Joining and leaving as the client's and the router's handlers do it, making the record if it is
  missing and then setting its mode: the group is then received from every source but the listed ones
  in EXCLUDE mode, from the listed ones only in INCLUDE mode, and the other groups as before.
\<close>

lemma clientdb_switch_acceptance:
  "cdb_acceptFromSource (snd (setMode (if recordExists db ma then db else addRecord db ma [] m0) ma m)) g s \<longleftrightarrow>
     (if g = ma
      then (let listed = (case getRecord db ma of None \<Rightarrow> [] | Some r \<Rightarrow> sources r)
            in if m = INCLUDE then s \<in> set listed else s \<notin> set listed)
      else cdb_acceptFromSource db g s)"
  unfolding accept_iff cdb.switch_lookup [of db ma m0 m]
  by (cases m) (auto simp: accepted_sources_def Let_def)

text \<open>
  \<open>getMulticastFiltermodeTable\<close>, from which the current-state reports are made, has exactly the groups of the
  database, each with its filter mode.
\<close>

lemma clientdb_table_complete:
  assumes "cdb_inv db"
  shows "ht_find ip_hashcode (getMulticastFiltermodeTable db) ma = map_option filter_mode (getRecord db ma) \<and>
     set (ht_entries (getMulticastFiltermodeTable db)) = (\<lambda>r. (multicast_address r, filter_mode r)) ` set db"
proof -
  have inv: "ht_inv ip_hashcode (getMulticastFiltermodeTable db)" using table_lookup_general [of db] by simp
  have "(ma, m) \<in> set (ht_entries (getMulticastFiltermodeTable db)) \<longleftrightarrow>
      (\<exists>r \<in> set db. multicast_address r = ma \<and> filter_mode r = m)" for ma m
    using ht.entries_iff [OF inv] table_lookup [OF assms] getRecord_group getRecord_mem [OF assms] by fastforce
  then show ?thesis using table_lookup [OF assms] by (auto simp: image_iff)
qed

theorem clientdb_table_complete_witness:
  "ht_find ip_hashcode (getMulticastFiltermodeTable [\<lparr> multicast_address = 7, sources = [], filter_mode = EXCLUDE \<rparr>]) 7 = Some EXCLUDE"
  using clientdb_table_complete [of "[\<lparr> multicast_address = 7, sources = [], filter_mode = EXCLUDE \<rparr>]" 7]
  by (simp add: cdb_inv_def)

text \<open>
  Removing a source. When the sources are pairwise different \<open>removeSource\<close> removes exactly the one
  given; \<open>removeSources\<close> erases with iterators that earlier erasures have moved: it removes the element
  \<open>i\<close> places behind the \<open>i\<close>-th match instead of the match, so that of three sources \<open>a, b, c\<close> the removal
  of \<open>a\<close> and \<open>b\<close> leaves \<open>b\<close> and takes \<open>c\<close>.
\<close>

lemma clientdb_remove_sources:
  assumes "getRecord db ma = Some r" and "distinct (sources r)"
  shows "map_option sources (getRecord (snd (removeSource db ma s)) ma) = Some (filter (\<lambda>x. x \<noteq> s) (sources r)) \<and>
     (let ps = match_positions (\<lambda>x. x \<in> set srcs) (sources r)
      in map_option sources (getRecord (snd (removeSources db ma srcs)) ma) =
         Some (nths (sources r) (- (\<lambda>i. ps ! i + i) ` {..<length ps}))) \<and>
     (\<forall>a b c. sources r = [a, b, c] \<longrightarrow> map_option sources (getRecord (snd (removeSources db ma [a, b])) ma) = Some [b])"
proof -
  have e: "map_option sources (getRecord (snd (removeSources db ma ss)) ma) =
      Some (erase_all (match_positions (\<lambda>x. x \<in> set ss) (sources r)) (sources r))" for ss
    using assms(1) by (simp add: removeSources_def if_record_lookup)
  have "map_option sources (getRecord (snd (removeSource db ma s)) ma) = Some (filter (\<lambda>x. x \<noteq> s) (sources r))"
    using assms by (simp add: removeSource_def if_record_lookup erase_source_distinct)
  moreover have "erase_all (match_positions (\<lambda>x. x \<in> set [a, b]) [a, b, c]) [a, b, c] = [b]"
    if "sources r = [a, b, c]" for a b c
    using that assms(2) by (simp add: match_positions_def erase_all_def list_erase_def numeral_eq_Suc)
  ultimately show ?thesis
    by (auto simp: e Let_def erase_all_shifted [OF match_positions_sorted])
qed

theorem clientdb_remove_sources_witness:
  "map_option sources (getRecord (snd (removeSources
     [\<lparr> multicast_address = 7, sources = [1, 2, 3], filter_mode = EXCLUDE \<rparr>] 7 [1, 2])) 7) = Some [2]"
  using clientdb_remove_sources [of "[\<lparr> multicast_address = 7, sources = [1, 2, 3], filter_mode = EXCLUDE \<rparr>]" 7
      "\<lparr> multicast_address = 7, sources = [1, 2, 3], filter_mode = EXCLUDE \<rparr>" 1 "[1, 2]"]
  by simp

text \<open>
  \<open>excludeSources\<close> erases from the vector it iterates over: a record in INCLUDE mode whose only source
  is excluded sends the iterator past the end.
\<close>

lemma clientdb_exclude_overruns:
  assumes "getRecord db ma = Some r" and "filter_mode r = INCLUDE" and "sources r = [a]"
  shows "excludeSources db ma [a] = Inl Out_of_bounds"
  using assms by (simp add: excludeSources_def exclude_loop.simps list_erase_def)

theorem clientdb_exclude_overruns_witness:
  "excludeSources [\<lparr> multicast_address = 7, sources = [1], filter_mode = INCLUDE \<rparr>] 7 [1] = Inl Out_of_bounds"
  using clientdb_exclude_overruns [of "[\<lparr> multicast_address = 7, sources = [1], filter_mode = INCLUDE \<rparr>]" 7] by simp

end
