(* ===== verification/Click_Packet.thy ===== *)
theory Click_Packet
  imports Click_IPAddress
begin

text \<open>
  Click packets at user level (\<^verbatim>\<open>click/lib/packet.cc\<close>, \<^verbatim>\<open>click/include/click/packet.hh\<close>): a buffer cut in
  headroom, data and tailroom, the header pointers as offsets from the start of the buffer, the
  annotations the modelled elements use, and the two members that tell whether the buffer is shared:
  \<open>data_packet\<close> is \<open>None\<close> for a packet that owns its buffer and the number of references to the owner for
  a clone.
  The allocator is the argument \<open>mem\<close>: the uninitialised bytes of a new buffer of a given size, or
  \<open>None\<close>. Elements that receive a packet own it; an operation that frees its packet and returns
  another one is a function from packet to packet.
\<close>

section \<open>Representation\<close>

record packet =
  headroom_bytes :: "byte list"
  pdata :: "byte list"
  tailroom_bytes :: "byte list"
  mac_header :: "nat option"
  network_header :: "nat option"
  transport_header :: "nat option"
  dst_ip_anno :: ipaddr
  paint_anno :: u8
  packet_type_anno :: nat
  fix_ip_src_anno :: bool
  icmp_paramprob_anno :: u8
  data_packet :: "nat option"
  use_count :: nat

abbreviation plength :: "packet \<Rightarrow> nat" where
  "plength p \<equiv> length (pdata p)"

definition buffer :: "packet \<Rightarrow> byte list" where
  "buffer p = headroom_bytes p @ pdata p @ tailroom_bytes p"

definition shared :: "packet \<Rightarrow> bool" where
  "shared p \<longleftrightarrow> data_packet p \<noteq> None \<or> use_count p > 1"

type_synonym allocator = "nat \<Rightarrow> byte list option"

definition mem_ok :: "allocator \<Rightarrow> bool" where
  "mem_ok mem \<longleftrightarrow> (\<forall>n f. mem n = Some f \<longrightarrow> length f = n)"

section \<open>Allocation and sharing\<close>

definition min_buffer_length :: nat where
  "min_buffer_length = 64"

definition default_headroom :: nat where
  "default_headroom = 28"

text \<open>The three parts of a new buffer, uninitialised.\<close>

definition alloc_data :: "allocator \<Rightarrow> nat \<Rightarrow> nat \<Rightarrow> nat \<Rightarrow> (byte list \<times> byte list \<times> byte list) option" where
  "alloc_data mem headroom len tailroom =
     (let n = len + headroom + tailroom;
          n' = (if n < min_buffer_length then min_buffer_length else n)
      in case mem n' of
           None \<Rightarrow> None
         | Some f \<Rightarrow> Some (take headroom f, take len (drop headroom f), drop (headroom + len) f))"

text \<open>\<open>Packet::make\<close>; a null \<open>data\<close> argument is \<open>None\<close>.\<close>

definition packet_make :: "allocator \<Rightarrow> nat \<Rightarrow> byte list option \<Rightarrow> nat \<Rightarrow> nat \<Rightarrow> packet option" where
  "packet_make mem headroom data len tailroom =
     (case alloc_data mem headroom len tailroom of
        None \<Rightarrow> None
      | Some (h, d, t) \<Rightarrow>
          Some \<lparr> headroom_bytes = h, pdata = (case data of None \<Rightarrow> d | Some bs \<Rightarrow> take len bs), tailroom_bytes = t,
                 mac_header = None, network_header = None, transport_header = None,
                 dst_ip_anno = 0, paint_anno = 0, packet_type_anno = 0, fix_ip_src_anno = False, icmp_paramprob_anno = 0,
                 data_packet = None, use_count = 1 \<rparr>)"

definition clone :: "packet \<Rightarrow> packet \<times> packet" where
  "clone p = (p\<lparr> use_count := 1, data_packet := Some (use_count p + 1) \<rparr>, p\<lparr> use_count := use_count p + 1 \<rparr>)"

definition shift_header_annotations :: "int \<Rightarrow> packet \<Rightarrow> packet" where
  "shift_header_annotations extra p =
     (let sh = map_option (\<lambda>h. nat (int h + extra))
      in p\<lparr> mac_header := sh (mac_header p), network_header := sh (network_header p),
            transport_header := sh (transport_header p) \<rparr>)"

text \<open>
  \<open>expensive_uniqueify\<close>: a copy of the whole buffer with room added (or removed) at either end. When
  the packet has clones, a clone of it is copied instead; the result is the same packet contents.
\<close>

definition expensive_uniqueify :: "allocator \<Rightarrow> int \<Rightarrow> int \<Rightarrow> packet \<Rightarrow> packet option exec" where
  "expensive_uniqueify mem extra_headroom extra_tailroom p =
     (if extra_headroom \<ge> - int (length (headroom_bytes p)) \<and> extra_tailroom \<ge> - int (length (tailroom_bytes p))
      then (let q = (if use_count p > 1 then fst (clone p) else p);
                hr = nat (int (length (headroom_bytes q)) + extra_headroom);
                tr = nat (int (length (tailroom_bytes q)) + extra_tailroom)
            in case alloc_data mem hr (plength q) tr of
                 None \<Rightarrow> Inr None
               | Some (h, _, t) \<Rightarrow>
                   (let kept_head = drop (nat (- extra_headroom)) (headroom_bytes q);
                        kept_tail = take (length (tailroom_bytes q) - nat (- extra_tailroom)) (tailroom_bytes q)
                    in Inr (Some (shift_header_annotations extra_headroom
                         (q\<lparr> headroom_bytes := take (nat extra_headroom) h @ kept_head,
                             tailroom_bytes := kept_tail @ drop (length kept_tail) t,
                             use_count := 1, data_packet := None \<rparr>)))))
      else Inl Assert_failed)"

definition uniqueify :: "allocator \<Rightarrow> packet \<Rightarrow> packet option exec" where
  "uniqueify mem p = (if \<not> shared p then Inr (Some p) else expensive_uniqueify mem 0 0 p)"

section \<open>Moving the ends of the data\<close>

definition push_room :: "nat \<Rightarrow> packet \<Rightarrow> packet" where
  "push_room len p =
     (let k = length (headroom_bytes p) - len
      in p\<lparr> headroom_bytes := take k (headroom_bytes p), pdata := drop k (headroom_bytes p) @ pdata p \<rparr>)"

definition expensive_push :: "allocator \<Rightarrow> nat \<Rightarrow> packet \<Rightarrow> packet option exec" where
  "expensive_push mem nbytes p =
     ebind (expensive_uniqueify mem (int ((nbytes + 128) div 4 * 4)) 0 p)
       (\<lambda>q. Inr (map_option (push_room nbytes) q))"

definition packet_push :: "allocator \<Rightarrow> nat \<Rightarrow> packet \<Rightarrow> packet option exec" where
  "packet_push mem len p =
     (if length (headroom_bytes p) \<ge> len \<and> \<not> shared p then Inr (Some (push_room len p))
      else expensive_push mem len p)"

definition nonunique_push :: "allocator \<Rightarrow> nat \<Rightarrow> packet \<Rightarrow> packet option exec" where
  "nonunique_push mem len p =
     (if length (headroom_bytes p) \<ge> len then Inr (Some (push_room len p))
      else expensive_push mem len p)"

definition packet_pull :: "nat \<Rightarrow> packet \<Rightarrow> packet" where
  "packet_pull n p =
     (let len = (if n > plength p then plength p else n)
      in p\<lparr> headroom_bytes := headroom_bytes p @ take len (pdata p), pdata := drop len (pdata p) \<rparr>)"

definition put_room :: "nat \<Rightarrow> packet \<Rightarrow> packet" where
  "put_room len p = p\<lparr> pdata := pdata p @ take len (tailroom_bytes p),
                       tailroom_bytes := drop len (tailroom_bytes p) \<rparr>"

definition expensive_put :: "allocator \<Rightarrow> nat \<Rightarrow> packet \<Rightarrow> packet option exec" where
  "expensive_put mem nbytes p =
     ebind (expensive_uniqueify mem 0 (int nbytes + 128) p) (\<lambda>q. Inr (map_option (put_room nbytes) q))"

definition packet_put :: "allocator \<Rightarrow> nat \<Rightarrow> packet \<Rightarrow> packet option exec" where
  "packet_put mem len p =
     (if length (tailroom_bytes p) \<ge> len \<and> \<not> shared p then Inr (Some (put_room len p))
      else expensive_put mem len p)"

definition packet_take :: "nat \<Rightarrow> packet \<Rightarrow> packet" where
  "packet_take n p =
     (let len = (if n > plength p then plength p else n); k = plength p - len
      in p\<lparr> pdata := take k (pdata p), tailroom_bytes := drop k (pdata p) @ tailroom_bytes p \<rparr>)"

section \<open>Header pointers and header fields\<close>

text \<open>\<open>set_ip_header(ip, len)\<close> with the header at offset \<open>off\<close> of the buffer.\<close>

definition set_network_header :: "nat \<Rightarrow> nat \<Rightarrow> packet \<Rightarrow> packet exec" where
  "set_network_header off len p =
     (if off + len \<le> length (buffer p)
      then Inr (p\<lparr> network_header := Some off, transport_header := Some (off + len) \<rparr>)
      else Inl Assert_failed)"

definition set_mac_header :: "nat \<Rightarrow> nat \<Rightarrow> packet \<Rightarrow> packet exec" where
  "set_mac_header off len p =
     (if off + len \<le> length (buffer p)
      then Inr (p\<lparr> mac_header := Some off, network_header := Some (off + len) \<rparr>)
      else Inl Assert_failed)"

definition push_mac_header :: "allocator \<Rightarrow> nat \<Rightarrow> packet \<Rightarrow> packet option exec" where
  "push_mac_header mem len p =
     ebind (packet_push mem len p)
       (\<lambda>q. case q of None \<Rightarrow> Inr None
            | Some q \<Rightarrow> ebind (set_mac_header (length (headroom_bytes q)) len q) (\<lambda>r. Inr (Some r)))"

text \<open>
  What a pointer to \<open>data()\<close> can reach: the data and, past it, the tailroom of the same buffer. What
  the network header pointer can reach: the buffer from its offset on.
\<close>

definition data_view :: "packet \<Rightarrow> byte list" where
  "data_view p = pdata p @ tailroom_bytes p"

definition nh_view :: "packet \<Rightarrow> byte list exec" where
  "nh_view p = (case network_header p of None \<Rightarrow> Inl Null_deref | Some off \<Rightarrow> Inr (drop off (buffer p)))"

text \<open>Fields of the IP header \<^verbatim>\<open>click_ip\<close> (\<^verbatim>\<open>clicknet/ip.h\<close>), by offset.\<close>

abbreviation (input) ip_vhl_off :: nat where "ip_vhl_off \<equiv> 0"
abbreviation (input) ip_tos_off :: nat where "ip_tos_off \<equiv> 1"
abbreviation (input) ip_len_off :: nat where "ip_len_off \<equiv> 2"
abbreviation (input) ip_id_off :: nat where "ip_id_off \<equiv> 4"
abbreviation (input) ip_off_off :: nat where "ip_off_off \<equiv> 6"
abbreviation (input) ip_ttl_off :: nat where "ip_ttl_off \<equiv> 8"
abbreviation (input) ip_p_off :: nat where "ip_p_off \<equiv> 9"
abbreviation (input) ip_sum_off :: nat where "ip_sum_off \<equiv> 10"
abbreviation (input) ip_src_off :: nat where "ip_src_off \<equiv> 12"
abbreviation (input) ip_dst_off :: nat where "ip_dst_off \<equiv> 16"

definition ip_p :: "packet \<Rightarrow> u8 exec" where
  "ip_p p = ebind (nh_view p) (\<lambda>h. read8 h ip_p_off)"

definition ip_src :: "packet \<Rightarrow> ipaddr exec" where
  "ip_src p = ebind (nh_view p) (\<lambda>h. read32 h ip_src_off)"

definition ip_dst :: "packet \<Rightarrow> ipaddr exec" where
  "ip_dst p = ebind (nh_view p) (\<lambda>h. read32 h ip_dst_off)"

section \<open>What the operations keep\<close>

lemma alloc_data_lengths:
  assumes "mem_ok mem" and "alloc_data mem hr len tr = Some (h, d, t)"
  shows "length h = hr" "length d = len" "tr \<le> length t" "64 \<le> length h + length d + length t"
proof -
  obtain f where f: "mem (if len + hr + tr < 64 then 64 else len + hr + tr) = Some f"
    and hdt: "h = take hr f" "d = take len (drop hr f)" "t = drop (hr + len) f"
    using assms(2) unfolding alloc_data_def Let_def min_buffer_length_def by (auto split: option.splits)
  with assms(1) have "length f = (if len + hr + tr < 64 then 64 else len + hr + tr)"
    by (auto simp: mem_ok_def)
  with hdt show "length h = hr" "length d = len" "tr \<le> length t" "64 \<le> length h + length d + length t"
    by (auto split: if_splits)
qed

text \<open>A uniqueified packet has the same data, headers that point at the same bytes, and is not shared.\<close>

lemma packet_make_fields:
  assumes "mem_ok mem" and "packet_make mem hr None n 0 = Some q"
  shows "plength q = n" "length (headroom_bytes q) = hr" "\<not> shared q"
  using assms alloc_data_lengths
  by (auto simp: packet_make_def shared_def split: option.splits)

lemma expensive_uniqueify_ok:
  assumes m: "mem_ok mem" and r: "expensive_uniqueify mem (int eh) (int et) p = Inr (Some q)"
  shows "pdata q = pdata p" "\<not> shared q"
    "\<exists>junk more. length junk = eh \<and> headroom_bytes q = junk @ headroom_bytes p \<and>
       tailroom_bytes q = tailroom_bytes p @ more \<and> et \<le> length more"
    "network_header q = map_option (\<lambda>h. h + eh) (network_header p)"
    "transport_header q = map_option (\<lambda>h. h + eh) (transport_header p)"
    "mac_header q = map_option (\<lambda>h. h + eh) (mac_header p)"
    "dst_ip_anno q = dst_ip_anno p" "paint_anno q = paint_anno p"
    "fix_ip_src_anno q = fix_ip_src_anno p"
proof -
  define p' where "p' = (if use_count p > 1 then fst (clone p) else p)"
  have p': "pdata p' = pdata p" "headroom_bytes p' = headroom_bytes p" "tailroom_bytes p' = tailroom_bytes p"
    "network_header p' = network_header p" "transport_header p' = transport_header p"
    "mac_header p' = mac_header p" "dst_ip_anno p' = dst_ip_anno p" "paint_anno p' = paint_anno p"
    "fix_ip_src_anno p' = fix_ip_src_anno p"
    by (simp_all add: p'_def clone_def)
  from r obtain h d t where a: "alloc_data mem (length (headroom_bytes p) + eh) (plength p)
      (length (tailroom_bytes p) + et) = Some (h, d, t)"
    and q: "q = shift_header_annotations (int eh) (p'\<lparr> headroom_bytes := take eh h @ headroom_bytes p,
       tailroom_bytes := tailroom_bytes p @ drop (length (tailroom_bytes p)) t, use_count := 1, data_packet := None \<rparr>)"
    unfolding expensive_uniqueify_def Let_def p'_def [symmetric]
    by (auto simp: nat_int_add p' split: option.splits if_splits)
  note len = alloc_data_lengths [OF m a]
  have sh: "map_option (\<lambda>x. nat (int x + int eh)) z = map_option (\<lambda>x. x + eh) z" for z
    by (simp add: nat_int_add)
  show "pdata q = pdata p" "\<not> shared q"
    "network_header q = map_option (\<lambda>h. h + eh) (network_header p)"
    "transport_header q = map_option (\<lambda>h. h + eh) (transport_header p)"
    "mac_header q = map_option (\<lambda>h. h + eh) (mac_header p)"
    "dst_ip_anno q = dst_ip_anno p" "paint_anno q = paint_anno p"
    "fix_ip_src_anno q = fix_ip_src_anno p"
    by (simp_all add: q shift_header_annotations_def Let_def shared_def p' nat_int_add)
  show "\<exists>junk more. length junk = eh \<and> headroom_bytes q = junk @ headroom_bytes p \<and>
       tailroom_bytes q = tailroom_bytes p @ more \<and> et \<le> length more"
    by (rule exI [of _ "take eh h"], rule exI [of _ "drop (length (tailroom_bytes p)) t"])
       (use len in \<open>auto simp: q shift_header_annotations_def Let_def\<close>)
qed

text \<open>
  \<open>push\<close> prepends \<open>len\<close> bytes; when it has to reallocate, the new bytes come from uninitialised memory.
\<close>

lemma push_room_data:
  assumes "len \<le> length (headroom_bytes p)"
  shows "\<exists>pre. length pre = len \<and> pdata (push_room len p) = pre @ pdata p"
    "length (headroom_bytes (push_room len p)) = length (headroom_bytes p) - len"
    "buffer (push_room len p) = buffer p"
    "tailroom_bytes (push_room len p) = tailroom_bytes p" "shared (push_room len p) = shared p"
    "network_header (push_room len p) = network_header p"
    "dst_ip_anno (push_room len p) = dst_ip_anno p" "paint_anno (push_room len p) = paint_anno p"
    "fix_ip_src_anno (push_room len p) = fix_ip_src_anno p"
  using assms by (auto simp: push_room_def Let_def buffer_def shared_def)

lemma packet_push_ok:
  assumes "mem_ok mem" and "packet_push mem len p = Inr (Some q)"
  shows "\<exists>pre. length pre = len \<and> pdata q = pre @ pdata p" "\<not> shared q"
    "dst_ip_anno q = dst_ip_anno p" "paint_anno q = paint_anno p" "fix_ip_src_anno q = fix_ip_src_anno p"
    "\<exists>more. tailroom_bytes q = tailroom_bytes p @ more"
proof -
  have "(\<exists>pre. length pre = len \<and> pdata q = pre @ pdata p) \<and> \<not> shared q \<and> dst_ip_anno q = dst_ip_anno p \<and>
      paint_anno q = paint_anno p \<and> fix_ip_src_anno q = fix_ip_src_anno p \<and>
      (\<exists>more. tailroom_bytes q = tailroom_bytes p @ more)"
  proof (cases "length (headroom_bytes p) \<ge> len \<and> \<not> shared p")
    case True
    with assms(2) have "q = push_room len p" by (simp add: packet_push_def)
    with True push_room_data [of len p] show ?thesis by simp
  next
    case False
    define e where "e = (len + 128) div 4 * 4"
    from False assms(2) obtain r where r: "expensive_uniqueify mem (int e) (int 0) p = Inr (Some r)"
      and q: "q = push_room len r"
      by (auto simp: packet_push_def expensive_push_def ebind_Inr_conv e_def split: if_splits)
    note u = expensive_uniqueify_ok [OF assms(1) r]
    have "len \<le> e" by (simp add: e_def)
    with u(3) have "len \<le> length (headroom_bytes r)" by auto
    with push_room_data [of len r] u q show ?thesis by auto
  qed
  then show "\<exists>pre. length pre = len \<and> pdata q = pre @ pdata p" "\<not> shared q"
    "dst_ip_anno q = dst_ip_anno p" "paint_anno q = paint_anno p" "fix_ip_src_anno q = fix_ip_src_anno p"
    "\<exists>more. tailroom_bytes q = tailroom_bytes p @ more" by auto
qed

text \<open>Pulling what was pushed gives the packet's data back.\<close>

lemma pull_after_push:
  "mem_ok mem \<Longrightarrow> packet_push mem len p = Inr (Some q) \<Longrightarrow> pdata (packet_pull len q) = pdata p"
  using packet_push_ok(1) [of mem len p q] by (auto simp: packet_pull_def Let_def)

lemma packet_pull_keeps:
  "buffer (packet_pull n p) = buffer p" "network_header (packet_pull n p) = network_header p"
  "tailroom_bytes (packet_pull n p) = tailroom_bytes p" "shared (packet_pull n p) = shared p"
  by (simp_all add: packet_pull_def Let_def buffer_def shared_def)

lemma packet_take_keeps:
  "buffer (packet_take n p) = buffer p" "network_header (packet_take n p) = network_header p"
  "shared (packet_take n p) = shared p"
  by (auto simp: packet_take_def Let_def buffer_def shared_def)

lemma uniqueify_unshared: "\<not> shared p \<Longrightarrow> uniqueify mem p = Inr (Some p)"
  by (simp add: uniqueify_def)

text \<open>Asking for more room never fails with an assertion.\<close>

lemma uniqueify_total:
  "\<exists>q. expensive_uniqueify mem (int eh) (int et) p = Inr q" "\<exists>q. uniqueify mem p = Inr q"
proof -
  show e: "\<exists>q. expensive_uniqueify mem (int eh) (int et) p = Inr q" for eh et
    by (simp add: expensive_uniqueify_def Let_def split: option.split prod.split)
  show "\<exists>q. uniqueify mem p = Inr q" using e [of 0 0] by (simp add: uniqueify_def)
qed

lemma packet_push_total: "\<exists>q. packet_push mem len p = Inr q" "\<exists>q. nonunique_push mem len p = Inr q"
  using uniqueify_total(1) [of mem "(len + 128) div 4 * 4" 0 p]
  by (auto simp: packet_push_def nonunique_push_def expensive_push_def)

lemma packet_put_total: "\<exists>q. packet_put mem len p = Inr q"
  using uniqueify_total(1) [of mem 0 "len + 128" p] by (auto simp: packet_put_def expensive_put_def)

section \<open>Enough memory\<close>

text \<open>An allocator that never fails, as \<^verbatim>\<open>operator new\<close> does unless it throws.\<close>

definition has_memory :: "allocator \<Rightarrow> bool" where
  "has_memory mem \<longleftrightarrow> mem_ok mem \<and> (\<forall>n. mem n \<noteq> None)"

lemma alloc_data_has_memory: "has_memory mem \<Longrightarrow> \<exists>h d t. alloc_data mem hr len tr = Some (h, d, t)"
  unfolding has_memory_def alloc_data_def Let_def by (auto split: option.split simp del: not_None_eq)

lemma packet_make_has_memory:
  "has_memory mem \<Longrightarrow> \<exists>p. packet_make mem hr d len tr = Some p"
  using alloc_data_has_memory [of mem hr len tr] by (auto simp: packet_make_def)

lemma uniqueify_has_memory:
  assumes "has_memory mem"
  shows "\<exists>q. expensive_uniqueify mem (int eh) (int et) p = Inr (Some q)" "\<exists>q. uniqueify mem p = Inr (Some q)"
proof -
  show e: "\<exists>q. expensive_uniqueify mem (int eh) (int et) p = Inr (Some q)" for eh et
    using alloc_data_has_memory [OF assms] unfolding expensive_uniqueify_def Let_def
    by (auto split: option.split) (metis option.distinct(1))+
  show "\<exists>q. uniqueify mem p = Inr (Some q)" using e [of 0 0] by (simp add: uniqueify_def)
qed

lemma packet_push_has_memory:
  "has_memory mem \<Longrightarrow> \<exists>q. packet_push mem len p = Inr (Some q)"
  using uniqueify_has_memory(1) [of mem "(len + 128) div 4 * 4" 0 p]
  by (auto simp: packet_push_def expensive_push_def)

section \<open>Framed packets\<close>

text \<open>
  A packet an element can read and check: nobody cloned it, and if it is a clone itself, the packet
  it was cloned from is still held by somebody else.
\<close>

definition sole_handle :: "packet \<Rightarrow> bool" where
  "sole_handle p \<longleftrightarrow> use_count p \<le> 1 \<and> (case data_packet p of None \<Rightarrow> True | Some refs \<Rightarrow> refs > 1)"

lemma sole_handle_unshared: "\<not> shared p \<Longrightarrow> sole_handle p"
  by (auto simp: shared_def sole_handle_def)

text \<open>A packet with the given IP header of 20 bytes, at the network header pointer, and payload.\<close>

definition framed :: "packet \<Rightarrow> byte list \<Rightarrow> byte list \<Rightarrow> bool" where
  "framed p iph body \<longleftrightarrow> pdata p = iph @ body \<and> length iph = 20 \<and>
     network_header p = Some (length (headroom_bytes p))"

lemma framed_fields:
  assumes "framed p iph body"
  shows "ip_p p = Inr (iph ! 9)" "ip_src p = read32 iph 12" "ip_dst p = read32 iph 16"
    "read8 (data_view p) 0 = Inr (iph ! 0)" "body \<noteq> [] \<Longrightarrow> read8 (data_view p) 20 = Inr (body ! 0)"
  using assms
  by (simp_all add: framed_def ip_p_def ip_src_def ip_dst_def nh_view_def buffer_def data_view_def read_append_left)
     (simp_all add: read8_def nth_append)

section \<open>Properties\<close>

text \<open>An allocator that always finds memory, for the concrete packets of the examples.\<close>

definition ex_mem :: allocator where
  "ex_mem n = Some (replicate n 0)"

lemma ex_mem_ok: "has_memory ex_mem"
  by (simp add: has_memory_def mem_ok_def ex_mem_def)

text \<open>
  \<open>push\<close> gives the caller a packet it may write to: not shared, with the requested bytes in front of
  unchanged data, however little headroom there was and whether or not the data was shared;
  annotations stay and \<open>pull\<close> undoes it.
\<close>

lemma packet_push_writable:
  assumes "has_memory mem"
  shows "\<exists>q pre. packet_push mem len p = Inr (Some q) \<and> length pre = len \<and> pdata q = pre @ pdata p \<and>
     \<not> shared q \<and> dst_ip_anno q = dst_ip_anno p \<and> paint_anno q = paint_anno p \<and>
     pdata (packet_pull len q) = pdata p"
proof -
  have m: "mem_ok mem" using assms by (simp add: has_memory_def)
  obtain q where q: "packet_push mem len p = Inr (Some q)" using packet_push_has_memory [OF assms] by blast
  with packet_push_ok [OF m q] pull_after_push [OF m q] show ?thesis by auto
qed

text \<open>
  The shape every packet has: the header pointers point into the buffer (or just past it), it is referred to by itself, and a clone
  refers to a packet that has another reference.
\<close>

definition in_buffer :: "packet \<Rightarrow> nat option \<Rightarrow> bool" where
  "in_buffer p h \<longleftrightarrow> (case h of None \<Rightarrow> True | Some off \<Rightarrow> off \<le> length (buffer p))"

definition packet_wf :: "packet \<Rightarrow> bool" where
  "packet_wf p \<longleftrightarrow> in_buffer p (mac_header p) \<and> in_buffer p (network_header p) \<and> in_buffer p (transport_header p) \<and>
     1 \<le> use_count p \<and> (case data_packet p of None \<Rightarrow> True | Some refs \<Rightarrow> 1 < refs)"

lemma packet_wf_resized:
  assumes "packet_wf p" and "length (buffer q) \<ge> length (buffer p) + k" and "1 \<le> use_count q"
    and "case data_packet q of None \<Rightarrow> True | Some refs \<Rightarrow> 1 < refs"
    and "mac_header q = map_option (\<lambda>h. h + k) (mac_header p)" "network_header q = map_option (\<lambda>h. h + k) (network_header p)"
      "transport_header q = map_option (\<lambda>h. h + k) (transport_header p)"
  shows "packet_wf q"
  using assms by (auto simp: packet_wf_def in_buffer_def split: option.splits)

lemma packet_wf_same_buffer:
  assumes "packet_wf p" and "buffer q = buffer p" and "mac_header q = mac_header p" "network_header q = network_header p"
    "transport_header q = transport_header p" "use_count q = use_count p" "data_packet q = data_packet p"
  shows "packet_wf q"
  using assms by (simp add: packet_wf_def in_buffer_def cong: option.case_cong)

lemma packet_wf_uniqueify:
  assumes "mem_ok mem" and "packet_wf p" and "expensive_uniqueify mem (int eh) (int et) p = Inr (Some q)"
  shows "packet_wf q" "length (headroom_bytes q) = length (headroom_bytes p) + eh"
    "length (tailroom_bytes q) \<ge> length (tailroom_bytes p) + et"
proof -
  note u = expensive_uniqueify_ok [OF assms(1,3)]
  show l: "length (headroom_bytes q) = length (headroom_bytes p) + eh" "length (tailroom_bytes q) \<ge> length (tailroom_bytes p) + et"
    using u(3) by auto
  have "use_count q = 1" "data_packet q = None"
    using assms(3) by (auto simp: expensive_uniqueify_def shift_header_annotations_def Let_def split: if_splits option.splits)
  with l show "packet_wf q" using u(1) by (intro packet_wf_resized [OF assms(2) _ _ _ u(6,4,5)]) (simp_all add: buffer_def)
qed

lemma packet_wf_room:
  "packet_wf p \<Longrightarrow> len \<le> length (headroom_bytes p) \<Longrightarrow> packet_wf (push_room len p)"
  "packet_wf p \<Longrightarrow> packet_wf (put_room len p)" "packet_wf p \<Longrightarrow> packet_wf (packet_pull len p)"
  "packet_wf p \<Longrightarrow> packet_wf (packet_take len p)"
  by (erule packet_wf_same_buffer; simp add: push_room_def put_room_def packet_pull_def packet_take_def buffer_def Let_def)+

text \<open>The operations on a packet; \<open>Op_clone\<close> goes on with the clone.\<close>

datatype packet_op = P_push nat | P_nonunique_push nat | P_put nat | P_pull nat | P_take nat | P_uniqueify | P_clone
  | P_network nat nat | P_mac nat nat | P_push_mac nat

fun packet_apply :: "allocator \<Rightarrow> packet_op \<Rightarrow> packet \<Rightarrow> packet option exec" where
  "packet_apply mem (P_push n) p = packet_push mem n p"
| "packet_apply mem (P_nonunique_push n) p = nonunique_push mem n p"
| "packet_apply mem (P_put n) p = packet_put mem n p"
| "packet_apply mem (P_pull n) p = Inr (Some (packet_pull n p))"
| "packet_apply mem (P_take n) p = Inr (Some (packet_take n p))"
| "packet_apply mem P_uniqueify p = uniqueify mem p"
| "packet_apply mem P_clone p = Inr (Some (fst (clone p)))"
| "packet_apply mem (P_network off len) p = ebind (set_network_header off len p) (\<lambda>q. Inr (Some q))"
| "packet_apply mem (P_mac off len) p = ebind (set_mac_header off len p) (\<lambda>q. Inr (Some q))"
| "packet_apply mem (P_push_mac len) p = push_mac_header mem len p"

text \<open>The arguments the assertions of the two header operations ask for.\<close>

fun packet_op_ok :: "packet_op \<Rightarrow> packet \<Rightarrow> bool" where
  "packet_op_ok (P_network off len) p = (off + len \<le> length (buffer p))"
| "packet_op_ok (P_mac off len) p = (off + len \<le> length (buffer p))"
| "packet_op_ok _ p = True"

lemma packet_push_wf:
  assumes "mem_ok mem" and "packet_wf p" and "packet_push mem len p = Inr (Some q) \<or> nonunique_push mem len p = Inr (Some q)"
  shows "packet_wf q" "len \<le> plength q"
proof -
  consider "len \<le> length (headroom_bytes p)" "q = push_room len p" | "expensive_push mem len p = Inr (Some q)"
    using assms(3) by (auto simp: packet_push_def nonunique_push_def split: if_splits)
  then have "packet_wf q \<and> len \<le> plength q"
  proof cases
    case 1
    then show ?thesis using packet_wf_room(1) [OF assms(2)] push_room_data(1) [of len p] by auto
  next
    case 2
    then obtain r where r: "expensive_uniqueify mem (int ((len + 128) div 4 * 4)) (int 0) p = Inr (Some r)" "q = push_room len r"
      by (auto simp: expensive_push_def ebind_Inr_conv)
    note u = packet_wf_uniqueify [OF assms(1,2) r(1)]
    have "len \<le> (len + 128) div 4 * 4" by simp
    with u have "len \<le> length (headroom_bytes r)" by linarith
    then show ?thesis using packet_wf_room(1) [OF u(1)] push_room_data(1) [of len r] r(2) by auto
  qed
  then show "packet_wf q" "len \<le> plength q" by simp_all
qed

definition ex_packet :: packet where
  "ex_packet = \<lparr> headroom_bytes = [], pdata = [1, 2, 3], tailroom_bytes = [], mac_header = None,
     network_header = Some 0, transport_header = None, dst_ip_anno = 0, paint_anno = 0,
     packet_type_anno = 0, fix_ip_src_anno = False, icmp_paramprob_anno = 0, data_packet = Some 2, use_count = 1 \<rparr>"

theorem packet_push_writable_witness:
  "\<exists>q pre. packet_push ex_mem 2 ex_packet = Inr (Some q) \<and> length pre = 2 \<and> pdata q = pre @ [1, 2, 3] \<and> \<not> shared q"
  using packet_push_writable [OF ex_mem_ok, of 2 ex_packet] by (auto simp: ex_packet_def)

lemma packet_wf_set_header:
  assumes "packet_wf p"
  shows "set_network_header off len p = Inr q \<Longrightarrow> packet_wf q" "set_mac_header off len p = Inr q \<Longrightarrow> packet_wf q"
  using assms
  by (auto simp: set_network_header_def set_mac_header_def packet_wf_def in_buffer_def buffer_def cong: option.case_cong split: if_splits)

lemma shape_result:
  "\<exists>q. r = Inr q \<Longrightarrow> (\<And>q. r = Inr (Some q) \<Longrightarrow> P q) \<Longrightarrow> \<exists>q. r = Inr q \<and> (case q of None \<Rightarrow> True | Some q \<Rightarrow> P q)"
  by (metis option.case_eq_if option.collapse)



end
