(* ===== verification/Click_Checksum.thy ===== *)
theory Click_Checksum
  imports Prelude
begin

text \<open>
  The Internet checksum: \<open>click_in_cksum\<close> of \<^verbatim>\<open>click/lib/in_cksum.c\<close> and the incremental update
  \<open>click_update_in_cksum\<close> of \<^verbatim>\<open>click/include/clicknet/ip.h\<close>. The loop keeps a 32-bit accumulator
  and folds its carries twice. The reference is the one's complement sum \<open>ones16\<close> of the
  buffer's 16-bit words, counted without bound in \<open>wsum\<close>; the two agree on every buffer shorter
  than 131072 bytes, where the accumulator cannot wrap.
\<close>

section \<open>The algorithm\<close>

fun cksum_loop :: "byte list \<Rightarrow> u32 \<Rightarrow> u32" where
  "cksum_loop (a # b # bs) acc = cksum_loop bs (acc + ucast (le16 a b))"
| "cksum_loop [a] acc = acc + ucast (le16 a 0)"
| "cksum_loop [] acc = acc"

text \<open>Adding the carries back: \<open>sum = (sum & 0xffff) + (sum >> 16); sum += (sum >> 16);\<close>\<close>

definition fold_carries :: "u32 \<Rightarrow> u16" where
  "fold_carries s =
     (let t = (s AND 0xFFFF) + drop_bit 16 s in ucast (t + drop_bit 16 t))"

definition click_in_cksum :: "byte list \<Rightarrow> u16" where
  "click_in_cksum bs = NOT (fold_carries (cksum_loop bs 0))"

definition click_update_in_cksum :: "u16 \<Rightarrow> u16 \<Rightarrow> u16 \<Rightarrow> u16" where
  "click_update_in_cksum csum old_hw new_hw =
     NOT (fold_carries (ucast (NOT csum) + ucast (NOT old_hw) + ucast new_hw))"

section \<open>The one's complement sum\<close>

fun wsum :: "byte list \<Rightarrow> nat" where
  "wsum (a # b # bs) = unat (le16 a b) + wsum bs"
| "wsum [a] = unat a"
| "wsum [] = 0"

definition ones16 :: "nat \<Rightarrow> nat" where
  "ones16 n = (if n = 0 then 0 else (n - 1) mod 65535 + 1)"

lemma ones16_le: "ones16 n \<le> 65535"
  by (simp add: ones16_def Suc_le_eq)

lemma ones16_eq_max: "ones16 n = 65535 \<longleftrightarrow> n \<noteq> 0 \<and> n mod 65535 = 0"
proof (cases n)
  case (Suc m)
  then show ?thesis by (simp add: ones16_def mod_Suc)
qed (simp add: ones16_def)

lemma ones16_mod: "ones16 n mod 65535 = n mod 65535"
  by (cases n) (simp_all add: ones16_def mod_Suc_eq)

lemma ones16_small: "n \<le> 65535 \<Longrightarrow> ones16 n = n"
  by (cases n) (simp_all add: ones16_def)

lemma ones16_fold:
  assumes "n < 4294967296"
  shows "(let t = n mod 65536 + n div 65536 in (t + t div 65536) mod 65536) = ones16 n"
proof -
  define h l where "h = n div 65536" and "l = n mod 65536"
  have n: "n = 65536 * h + l" and l: "l < 65536" and h: "h < 65536"
    using assms by (auto simp: h_def l_def)
  show ?thesis
  proof (cases "l + h < 65536")
    case True
    have "ones16 n = l + h"
    proof (cases "l + h = 0")
      case False
      then have "n - 1 = (l + h - 1) + 65535 * h" using n by simp
      then have "(n - 1) mod 65535 = (l + h - 1) mod 65535" by (simp only: mod_mult_self2)
      with False True n show ?thesis by (simp add: ones16_def)
    qed (simp add: n ones16_def)
    with True show ?thesis by (simp add: h_def l_def Let_def)
  next
    case False
    then have d: "(l + h) div 65536 = 1" using l h by simp
    from False have "n - 1 = (l + h - 65536) + 65535 * (h + 1)" using n l h by simp
    then have "(n - 1) mod 65535 = (l + h - 65536) mod 65535" by (simp only: mod_mult_self2)
    moreover have "l + h - 65536 < 65535" using l h by simp
    ultimately have "ones16 n = l + h - 65536 + 1" using False n by (auto simp: ones16_def)
    moreover have "(l + h + 1) mod 65536 = l + h - 65536 + 1"
      using False l h by (simp add: mod_if) linarith
    ultimately show ?thesis using d by (simp add: h_def l_def Let_def)
  qed
qed

lemma unat_fold_carries: "unat (fold_carries s) = ones16 (unat s)"
proof -
  have s: "unat s < 4294967296" by (rule less_le_trans [OF unsigned_less]) simp
  define t where "t = (s AND 0xFFFF) + drop_bit 16 s"
  have "s AND 0xFFFF = take_bit 16 s"
    by (simp add: take_bit_eq_mask mask_eq_exp_minus_1)
  then have a: "unat (s AND 0xFFFF) = unat s mod 65536"
    by (simp add: unat_mod take_bit_eq_mod)
  have b: "unat (drop_bit 16 w) = unat w div 65536" for w :: u32
    by (simp add: drop_bit_eq_div unat_div)
  have t: "unat t = unat s mod 65536 + unat s div 65536"
    using s by (simp add: t_def a b unat_word_ariths)
  have "unat s mod 65536 < 65536" "unat s div 65536 < 65536" using s by simp_all
  then have "unat (t + drop_bit 16 t) = unat t + unat t div 65536"
    by (simp add: b t unat_word_ariths)
  then have "unat (fold_carries s) = (unat t + unat t div 65536) mod 65536"
    by (simp add: fold_carries_def t_def [symmetric] unsigned_ucast_eq take_bit_eq_mod)
  with t ones16_fold [OF s] show ?thesis by (simp add: Let_def)
qed

lemma unat_not16: "unat (NOT w :: u16) = 65535 - unat w"
proof -
  have "NOT w = - 1 - w" by (simp add: not_eq_complement)
  then show ?thesis by (simp add: unat_sub unsigned_minus_1_eq_mask mask_eq_exp_minus_1)
qed

lemma unat_cksum_loop: "unat (cksum_loop bs s) = (unat s + wsum bs) mod 4294967296"
proof (induction bs s rule: cksum_loop.induct)
  case (1 a b bs s)
  have "unat (ucast (le16 a b) :: u32) = unat (le16 a b)"
    by (simp add: unsigned_ucast_eq take_bit_nat_eq_self less_le_trans [OF unsigned_less])
  with 1 show ?case by (simp add: unat_word_ariths mod_simps add.assoc)
next
  case (2 a s)
  have "unat (ucast (le16 a 0) :: u32) = unat (le16 a 0)"
    by (simp add: unsigned_ucast_eq take_bit_nat_eq_self less_le_trans [OF unsigned_less])
  then show ?case by (simp add: unat_word_ariths unat_le16)
qed (simp add: less_le_trans [OF unsigned_less])

section \<open>What the checksum guarantees\<close>

lemma wsum_le: "wsum bs \<le> 65535 * ((length bs + 1) div 2)"
proof (induction bs rule: wsum.induct)
  case (1 a b bs)
  have "unat (le16 a b) < 65536" by (rule less_le_trans [OF unsigned_less]) simp
  with 1 show ?case by simp
qed (simp_all add: unat_byte_less less_imp_le less_trans [OF unat_byte_less])

lemma wsum_less: "length bs < 131072 \<Longrightarrow> wsum bs < 4294967296"
  using wsum_le [of bs] by linarith

lemma wsum_append: "even (length xs) \<Longrightarrow> wsum (xs @ ys) = wsum xs + wsum ys"
  by (induction xs rule: wsum.induct) auto

lemma wsum_bytes16 [simp]: "wsum (bytes16 w @ ys) = unat w + wsum ys" "wsum (bytes16 w) = unat w"
  by (simp_all add: bytes16_def)

lemma unat_click_in_cksum:
  "length bs < 131072 \<Longrightarrow> unat (click_in_cksum bs) = 65535 - ones16 (wsum bs)"
  by (simp add: click_in_cksum_def unat_not16 unat_fold_carries unat_cksum_loop wsum_less)

text \<open>A buffer verifies (its checksum is 0) exactly when its words sum to a non-zero multiple of 65535.\<close>

lemma click_in_cksum_zero_iff:
  assumes "length bs < 131072"
  shows "click_in_cksum bs = 0 \<longleftrightarrow> wsum bs \<noteq> 0 \<and> wsum bs mod 65535 = 0"
proof -
  have "click_in_cksum bs = 0 \<longleftrightarrow> unat (click_in_cksum bs) = 0" by (simp add: unat_eq_0)
  also have "\<dots> \<longleftrightarrow> ones16 (wsum bs) = 65535"
    using unat_click_in_cksum [OF assms] ones16_le [of "wsum bs"] by simp
  finally show ?thesis by (simp add: ones16_eq_max)
qed

lemma ones16_complement: "(65535 - ones16 n + n) mod 65535 = 0"
proof -
  have "(65535 - ones16 n + n) mod 65535 = (65535 - ones16 n + ones16 n) mod 65535"
    by (metis mod_add_right_eq ones16_mod)
  then show ?thesis using ones16_le [of n] by simp
qed

lemma click_in_cksum_complement:
  "length bs < 131072 \<Longrightarrow> (unat (click_in_cksum bs) + wsum bs) mod 65535 = 0"
  by (simp add: unat_click_in_cksum ones16_complement)

text \<open>Filling the zeroed checksum field with the checksum of the buffer makes the buffer verify.\<close>

lemma in_cksum_fill:
  assumes "even (length xs)" and "length (xs @ [0, 0] @ ys) < 131072"
  shows "click_in_cksum (xs @ bytes16 (click_in_cksum (xs @ [0, 0] @ ys)) @ ys) = 0"
proof -
  let ?c = "click_in_cksum (xs @ [0, 0] @ ys)"
  have z: "wsum (xs @ [0, 0] @ ys) = wsum xs + wsum ys"
    using assms(1) by (simp add: wsum_append unat_le16)
  have s: "wsum (xs @ bytes16 ?c @ ys) = unat ?c + wsum (xs @ [0, 0] @ ys)"
    using assms(1) z by (simp add: wsum_append)
  have "wsum (xs @ bytes16 ?c @ ys) \<noteq> 0"
    unfolding s using unat_click_in_cksum [OF assms(2)] by (auto simp: ones16_def)
  then show ?thesis
    using assms(2) s click_in_cksum_complement [OF assms(2)] by (subst click_in_cksum_zero_iff) auto
qed

text \<open>The incremental update moves the checksum by the difference of the half words.\<close>

lemma unat_click_update_in_cksum:
  "unat (click_update_in_cksum c old new) = 65535 - ones16 ((65535 - unat c) + (65535 - unat old) + unat new)"
proof -
  have lt: "unat w < 65536" for w :: u16 by (rule less_le_trans [OF unsigned_less]) simp
  have up: "unat (ucast w :: u32) = unat w" for w :: u16
    using lt [of w] by (simp add: unsigned_ucast_eq take_bit_nat_eq_self)
  define n where "n = (65535 - unat c) + (65535 - unat old) + unat new"
  have "n < 4294967296" using lt [of new] by (simp add: n_def)
  then have "unat (ucast (NOT c) + ucast (NOT old) + ucast new :: u32) = n"
    by (simp add: unat_word_ariths up unat_not16 n_def [symmetric])
  then show ?thesis by (simp add: click_update_in_cksum_def unat_not16 unat_fold_carries n_def)
qed

lemma click_update_in_cksum_mod:
  "(unat (click_update_in_cksum c old new) + unat new) mod 65535 = (unat c + unat old) mod 65535"
proof -
  have lt: "unat w < 65536" for w :: u16 by (rule less_le_trans [OF unsigned_less]) simp
  define n where "n = (65535 - unat c) + (65535 - unat old) + unat new"
  have n: "n + (unat c + unat old) = 65535 * 2 + unat new"
    using lt [of c] lt [of old] by (simp add: n_def)
  define d where "d = 65535 - ones16 n"
  have "(d + n + (unat c + unat old)) mod 65535 = (unat c + unat old) mod 65535"
    using ones16_complement [of n] by (metis d_def mod_add_left_eq add.left_neutral)
  moreover have "d + n + (unat c + unat old) = (d + unat new) + 65535 * 2"
    using n by simp
  ultimately show ?thesis by (simp only: unat_click_update_in_cksum n_def [symmetric] d_def [symmetric] mod_mult_self2)
qed

lemma mod_zero_sum_cancel:
  assumes "(a + s) mod m = 0" and "(b + s) mod m = (0 :: nat)"
  shows "a mod m = b mod m"
proof -
  have "int m dvd (int a + int s) - (int b + int s)"
    using assms by (intro dvd_diff) (simp_all add: mod_eq_0_iff_dvd flip: of_nat_add)
  then have "int a mod int m = int b mod int m" by (simp add: mod_eq_dvd_iff)
  then show ?thesis by (simp flip: of_nat_mod)
qed

section \<open>Properties\<close>

text \<open>
  C34. A checksum field filled with \<open>click_in_cksum\<close> of the data, computed with the field at zero, makes the
  whole verify, and no field verifies that differs from it modulo 65535: a change of the field is
  detected unless it exchanges the two representations of zero.
\<close>

theorem checksum_fill_verifies:
  assumes "even (length xs)" and "length xs + length ys < 131070"
  shows "click_in_cksum (xs @ bytes16 (click_in_cksum (xs @ [0, 0] @ ys)) @ ys) = 0 \<and>
     (\<forall>c. click_in_cksum (xs @ bytes16 c @ ys) = 0 \<longrightarrow>
        unat c mod 65535 = unat (click_in_cksum (xs @ [0, 0] @ ys)) mod 65535)"
proof (intro conjI allI impI)
  show "click_in_cksum (xs @ bytes16 (click_in_cksum (xs @ [0, 0] @ ys)) @ ys) = 0"
    using assms by (intro in_cksum_fill) simp_all
  fix c assume "click_in_cksum (xs @ bytes16 c @ ys) = 0"
  then have "(unat c + (wsum xs + wsum ys)) mod 65535 = 0"
    using assms by (simp add: click_in_cksum_zero_iff wsum_append ac_simps)
  moreover have "(unat (click_in_cksum (xs @ [0, 0] @ ys)) + (wsum xs + wsum ys)) mod 65535 = 0"
    using click_in_cksum_complement [of "xs @ [0, 0] @ ys"] assms by (simp add: wsum_append le16_def)
  ultimately show "unat c mod 65535 = unat (click_in_cksum (xs @ [0, 0] @ ys)) mod 65535"
    by (rule mod_zero_sum_cancel)
qed

theorem checksum_fill_verifies_witness:
  "click_in_cksum ([0x45, 0] @ bytes16 (click_in_cksum ([0x45, 0] @ [0, 0] @ [1])) @ [1]) = 0"
  using checksum_fill_verifies [of "[0x45, 0]" "[1]"] by simp

text \<open>
  The incremental update agrees with verification of the whole: when a 16-bit field changes, the
  checksum that \<open>click_update_in_cksum\<close> computes from the old and the new value keeps data that
  verified verifying.
\<close>

lemma checksum_update_verifies:
  assumes "even (length xs)" and "even (length ys)"
    and "length xs + length ys + length zs < 131068" and "wsum (xs @ ys @ zs) \<noteq> 0"
    and "click_in_cksum (xs @ bytes16 c @ ys @ bytes16 old @ zs) = 0"
  shows "click_in_cksum (xs @ bytes16 (click_update_in_cksum c old new) @ ys @ bytes16 new @ zs) = 0"
proof -
  let ?s = "wsum xs + wsum ys + wsum zs"
  have len: "length (xs @ bytes16 u @ ys @ bytes16 v @ zs) < 131072" for u v using assms(3) by simp
  have w: "wsum (xs @ bytes16 u @ ys @ bytes16 v @ zs) = unat u + unat v + ?s" for u v
    using assms(1,2) by (simp add: wsum_append)
  have nz: "?s \<noteq> 0" using assms(1,2,4) by (simp add: wsum_append)
  have "(unat c + unat old + ?s) mod 65535 = 0"
    using assms(5) unfolding click_in_cksum_zero_iff [OF len] w by simp
  then have "(unat (click_update_in_cksum c old new) + unat new + ?s) mod 65535 = 0"
    using click_update_in_cksum_mod [of c old new] by (metis mod_add_left_eq)
  with nz show ?thesis unfolding click_in_cksum_zero_iff [OF len] w by simp
qed

theorem checksum_update_verifies_witness:
  "click_in_cksum ([0x45, 0] @ bytes16 (click_update_in_cksum (click_in_cksum [0x45, 0, 0, 0, 64, 2]) 0x0240 0x023F) @
     [] @ bytes16 0x023F @ []) = 0"
proof -
  have "bytes16 0x0240 = [64, 2]" by (simp add: bytes16_def)
  then have "click_in_cksum ([0x45, 0] @ bytes16 (click_in_cksum [0x45, 0, 0, 0, 64, 2]) @ [] @ bytes16 0x0240 @ []) = 0"
    using in_cksum_fill [of "[0x45, 0]" "[64, 2]"] by simp
  then show ?thesis
    using checksum_update_verifies [of "[0x45, 0]" "[]" "[]"] by (simp add: le16_def)
qed

end
