(* ===== verification/IGMP_Report.thy ===== *)
theory IGMP_Report
  imports IGMP_ClientDB Click_Packet Click_Checksum
begin

text \<open>
  Membership reports: the generator \<^verbatim>\<open>elements/reportigmp.cc\<close>, which lays a report out in a fresh packet
  field by field and fills in its checksum, and the reader \<^verbatim>\<open>elements/ProcessReport.cc\<close>, which checks
  the checksum and walks the group records. \<open>report_bytes\<close> is the wire format both are compared with.
  Sizes are natural numbers: the \<^verbatim>\<open>int\<close> sums of the source agree with them up to 2 GB.
\<close>

section \<open>The generator\<close>

definition generateRecord :: "u8 \<Rightarrow> ipaddr \<Rightarrow> ipaddr list \<Rightarrow> grouprecord" where
  "generateRecord t ma srcs = \<lparr> gr_type = t, gr_multicast_address = ma, gr_sources = srcs \<rparr>"

definition calculateGrouprecordSize :: "grouprecord \<Rightarrow> nat" where
  "calculateGrouprecordSize r = sizeof_igmpv3grouprecord + length (gr_sources r) * 4"

text \<open>The loop that stores the sources of the record at offset \<open>off\<close>, from index \<open>j\<close> on.\<close>

fun write_sources :: "byte list \<Rightarrow> nat \<Rightarrow> nat \<Rightarrow> ipaddr list \<Rightarrow> byte list exec" where
  "write_sources buf off j [] = Inr buf"
| "write_sources buf off j (s # ss) =
     ebind (write32 buf (off + g_sources j) s) (\<lambda>buf. write_sources buf off (j + 1) ss)"

definition write_record :: "byte list \<Rightarrow> nat \<Rightarrow> grouprecord \<Rightarrow> byte list exec" where
  "write_record buf off r =
     ebind (write8 buf (off + g_type) (gr_type r)) (\<lambda>buf.
     ebind (write8 buf (off + g_aux_data_len) 0) (\<lambda>buf.
     ebind (write16 buf (off + g_no_of_sources) (htons (of_nat (length (gr_sources r))))) (\<lambda>buf.
     ebind (write32 buf (off + g_multicast_address) (gr_multicast_address r)) (\<lambda>buf.
     write_sources buf off 0 (gr_sources r)))))"

fun write_records :: "byte list \<Rightarrow> nat \<Rightarrow> grouprecord list \<Rightarrow> byte list exec" where
  "write_records buf off [] = Inr buf"
| "write_records buf off (r # rs) =
     ebind (write_record buf off r) (\<lambda>buf. write_records buf (off + calculateGrouprecordSize r) rs)"

definition write_report :: "byte list \<Rightarrow> grouprecord list \<Rightarrow> byte list exec" where
  "write_report buf rs =
     ebind (write8 buf r_type 0x22) (\<lambda>buf.
     ebind (write8 buf r_reserved 0) (\<lambda>buf.
     ebind (write16 buf r_checksum 0) (\<lambda>buf.
     ebind (write16 buf r_reserved_long 0) (\<lambda>buf.
     ebind (write16 buf r_no_of_grouprecords (htons (of_nat (length rs)))) (\<lambda>buf.
     ebind (write_records buf 8 rs) (\<lambda>buf.
     write16 buf r_checksum (click_in_cksum buf)))))))"

definition report_generatePacket :: "allocator \<Rightarrow> grouprecord list \<Rightarrow> packet option exec" where
  "report_generatePacket mem rs =
     (let packetsize = sizeof_igmpv3report;
          sourcesSize = fold (\<lambda>r n. n + calculateGrouprecordSize r) rs 0
      in case packet_make mem 0 None (packetsize + sourcesSize) 0 of
           None \<Rightarrow> Inr None
         | Some p \<Rightarrow> ebind (write_report (replicate (plength p) 0) rs)
                        (\<lambda>buf. Inr (Some (p\<lparr> pdata := buf \<rparr>))))"

definition report_isINCLUDE :: "allocator \<Rightarrow> ipaddr \<Rightarrow> packet option exec" where
  "report_isINCLUDE mem ma = report_generatePacket mem [generateRecord 0x01 ma []]"

definition report_isEXCLUDE :: "allocator \<Rightarrow> ipaddr \<Rightarrow> packet option exec" where
  "report_isEXCLUDE mem ma = report_generatePacket mem [generateRecord 0x02 ma []]"

text \<open>The table is passed by value, so the loop runs over a copy.\<close>

definition report_isINCLUDEOrEXCLUDE :: "allocator \<Rightarrow> (ipaddr, filtermode) hashtable \<Rightarrow> packet option exec" where
  "report_isINCLUDEOrEXCLUDE mem t =
     report_generatePacket mem
       (map (\<lambda>(ma, m). if m = INCLUDE then generateRecord 0x01 ma [] else generateRecord 0x02 ma [])
         (ht_entries (ht_clone t)))"

definition report_toIN :: "allocator \<Rightarrow> ipaddr \<Rightarrow> ipaddr list \<Rightarrow> packet option exec" where
  "report_toIN mem ma srcs = report_generatePacket mem [generateRecord 0x03 ma srcs]"

definition report_toEX :: "allocator \<Rightarrow> ipaddr \<Rightarrow> ipaddr list \<Rightarrow> packet option exec" where
  "report_toEX mem ma srcs = report_generatePacket mem [generateRecord 0x04 ma srcs]"

definition report_allow :: "allocator \<Rightarrow> ipaddr \<Rightarrow> ipaddr list \<Rightarrow> packet option exec" where
  "report_allow mem ma srcs = report_generatePacket mem [generateRecord 0x05 ma srcs]"

definition report_block :: "allocator \<Rightarrow> ipaddr \<Rightarrow> ipaddr list \<Rightarrow> packet option exec" where
  "report_block mem ma srcs = report_generatePacket mem [generateRecord 0x06 ma srcs]"

section \<open>The reader\<close>

text \<open>
  The members of a \<^verbatim>\<open>ProcessReport\<close>. The constructor initialises only the vector, so the object a caller
  starts from is an argument.
\<close>

record ProcessReport =
  pr_type :: u8
  pr_checksum :: u16
  pr_no_of_grouprecords :: nat
  pr_records :: "grouprecord list"
  pr_verifiedChecksum :: bool

text \<open>
  Both readers check the checksum in place: they make the packet writable, save and clear the field,
  then sum the packet after its first 20 bytes. They go on using the packet they were given after
  \<open>uniqueify\<close>, whose contract allows that only when it returned the same packet; a packet that has
  clones of its own is released by \<open>uniqueify\<close>, so using it further is a fault.
\<close>

definition verifyChecksum :: "allocator \<Rightarrow> packet \<Rightarrow> (bool \<times> packet) exec" where
  "verifyChecksum mem p =
     (if use_count p > 1 then Inl Stale_packet
      else ebind (uniqueify mem p) (\<lambda>q. case q of
             None \<Rightarrow> Inl Null_deref
           | Some q \<Rightarrow>
               (let view = data_view q in
                ebind (read16 view (sizeof_click_ip + r_checksum)) (\<lambda>checksum.
                ebind (write16 view (sizeof_click_ip + r_checksum) 0) (\<lambda>view.
                Inr (click_in_cksum (take (plength q - sizeof_click_ip) (drop sizeof_click_ip view)) = checksum,
                     q\<lparr> pdata := take (plength q) view, tailroom_bytes := drop (plength q) view \<rparr>))))))"

text \<open>
  What the pointer \<open>format\<close>, taken before the call of \<open>verifyChecksum\<close>, reads afterwards. For a packet
  that owns its buffer it is the same memory, with the field cleared. For a clone it is the
  buffer of the packet it was cloned from, untouched, provided somebody else still holds that one.
\<close>

definition format_view :: "packet \<Rightarrow> packet \<Rightarrow> byte list exec" where
  "format_view p q =
     (case data_packet p of
        None \<Rightarrow> Inr (drop sizeof_click_ip (data_view q))
      | Some refs \<Rightarrow> if refs > 1 then Inr (drop sizeof_click_ip (data_view p)) else Inl Stale_packet)"

fun read_sources :: "byte list \<Rightarrow> nat \<Rightarrow> nat \<Rightarrow> ipaddr list exec" where
  "read_sources buf off 0 = Inr []"
| "read_sources buf off (Suc n) =
     ebind (read32 buf off) (\<lambda>s. ebind (read_sources buf (off + 4) n) (\<lambda>ss. Inr (s # ss)))"

fun read_records :: "byte list \<Rightarrow> nat \<Rightarrow> nat \<Rightarrow> grouprecord list exec" where
  "read_records buf off 0 = Inr []"
| "read_records buf off (Suc n) =
     ebind (read16 buf (off + g_no_of_sources)) (\<lambda>ns.
     ebind (read8 buf (off + g_type)) (\<lambda>t.
     ebind (read32 buf (off + g_multicast_address)) (\<lambda>ma.
     ebind (read_sources buf (off + g_sources 0) (unat (ntohs ns))) (\<lambda>srcs.
     ebind (read_records buf (off + (sizeof_igmpv3grouprecord + unat (ntohs ns) * 4)) n) (\<lambda>rs.
     Inr (\<lparr> gr_type = t, gr_multicast_address = ma, gr_sources = srcs \<rparr> # rs))))))"

definition process_report :: "allocator \<Rightarrow> ProcessReport \<Rightarrow> packet \<Rightarrow> (int \<times> ProcessReport \<times> packet) exec" where
  "process_report mem pr p =
     ebind (verifyChecksum mem p) (\<lambda>(ok, q).
     ebind (format_view p q) (\<lambda>format.
     ebind (read16 format r_checksum) (\<lambda>c.
     (let pr = pr\<lparr> pr_verifiedChecksum := ok, pr_checksum := c \<rparr> in
      if \<not> ok then Inr (- 1, pr, q)
      else ebind (read8 format r_type) (\<lambda>t.
        (let pr = pr\<lparr> pr_type := t \<rparr> in
         if t \<noteq> 0x22 then Inr (- 1, pr, q)
         else ebind (read16 format r_no_of_grouprecords) (\<lambda>n.
              ebind (read_records format 8 (unat (ntohs n))) (\<lambda>rs.
              Inr (0, pr\<lparr> pr_no_of_grouprecords := unat (ntohs n), pr_records := pr_records pr @ rs \<rparr>, q)))))))))"

section \<open>The wire format\<close>

definition enc_record :: "grouprecord \<Rightarrow> byte list" where
  "enc_record r =
     [gr_type r, 0] @ bytes16 (htons (of_nat (length (gr_sources r)))) @ bytes32 (gr_multicast_address r) @
     concat (map bytes32 (gr_sources r))"

definition report_bytes :: "grouprecord list \<Rightarrow> u16 \<Rightarrow> byte list" where
  "report_bytes rs c =
     [0x22, 0] @ bytes16 c @ [0, 0] @ bytes16 (htons (of_nat (length rs))) @ concat (map enc_record rs)"

lemma length_concat_bytes32 [simp]: "length (concat (map bytes32 ss)) = 4 * length ss"
  by (induction ss) simp_all

lemma length_enc_record: "length (enc_record r) = calculateGrouprecordSize r"
  by (simp add: enc_record_def calculateGrouprecordSize_def sizeof_igmpv3grouprecord_def)

lemma write_at:
  "off = length pre + k \<Longrightarrow> k + length vs \<le> length rest \<Longrightarrow>
     write_bytes (pre @ rest) off vs = Inr (pre @ take k rest @ vs @ drop (k + length vs) rest)"
  by (simp add: write_bytes_def)

lemma write_sources_ok:
  "length pre = off + g_sources j \<Longrightarrow> length old = 4 * length ss \<Longrightarrow>
     write_sources (pre @ old @ post) off j ss = Inr (pre @ concat (map bytes32 ss) @ post)"
proof (induction ss arbitrary: pre old j)
  case (Cons s ss)
  have "write32 (pre @ old @ post) (off + g_sources j) s = Inr ((pre @ bytes32 s) @ drop 4 old @ post)"
    using Cons.prems by (subst write_at [of _ _ 0]) simp_all
  with Cons.IH [of "pre @ bytes32 s" "j + 1" "drop 4 old"] Cons.prems show ?case by simp
qed simp

text \<open>Writing a record overwrites exactly its own bytes.\<close>

lemma write_record_ok:
  assumes "length pre = off" and "length old = calculateGrouprecordSize r"
  shows "write_record (pre @ old @ post) off r = Inr (pre @ enc_record r @ post)"
proof -
  let ?n = "bytes16 (htons (of_nat (length (gr_sources r))))" and ?m = "bytes32 (gr_multicast_address r)"
  obtain hdr body where old: "old = hdr @ body" and h: "length hdr = 8" and b: "length body = 4 * length (gr_sources r)"
    using assms(2) by (intro that [of "take 8 old" "drop 8 old"])
      (simp_all add: calculateGrouprecordSize_def sizeof_igmpv3grouprecord_def)
  obtain a0 a1 a2 a3 a4 a5 a6 a7 where hdr: "hdr = [a0, a1, a2, a3, a4, a5, a6, a7]"
    using h by (auto simp: numeral_eq_Suc length_Suc_conv)
  have "write_sources ((pre @ [gr_type r, 0] @ ?n @ ?m) @ body @ post) off 0 (gr_sources r) =
      Inr ((pre @ [gr_type r, 0] @ ?n @ ?m) @ concat (map bytes32 (gr_sources r)) @ post)"
    using assms(1) b by (intro write_sources_ok) simp_all
  moreover have "write_record (pre @ old @ post) off r =
      write_sources ((pre @ [gr_type r, 0] @ ?n @ ?m) @ body @ post) off 0 (gr_sources r)"
    using assms(1) unfolding write_record_def old hdr
    by (simp add: write_at [of _ pre 0] write_at [of _ pre 1] write_at [of _ pre 2] write_at [of _ pre 4])
  ultimately show ?thesis by (simp add: enc_record_def)
qed

lemma write_records_ok:
  "length pre = off \<Longrightarrow> length old = sum_list (map calculateGrouprecordSize rs) \<Longrightarrow>
     write_records (pre @ old @ post) off rs = Inr (pre @ concat (map enc_record rs) @ post)"
proof (induction rs arbitrary: pre off old)
  case (Cons r rs)
  obtain o1 o2 where old: "old = o1 @ o2" and o: "length o1 = calculateGrouprecordSize r"
      "length o2 = sum_list (map calculateGrouprecordSize rs)"
    using Cons.prems by (intro that [of "take (calculateGrouprecordSize r) old" "drop (calculateGrouprecordSize r) old"]) simp_all
  have "write_record (pre @ o1 @ o2 @ post) off r = Inr (pre @ enc_record r @ o2 @ post)"
    using Cons.prems o by (intro write_record_ok) simp_all
  moreover have "write_records ((pre @ enc_record r) @ o2 @ post) (off + calculateGrouprecordSize r) rs =
      Inr ((pre @ enc_record r) @ concat (map enc_record rs) @ post)"
    using Cons.prems o by (intro Cons.IH) (simp_all add: length_enc_record)
  ultimately show ?case by (simp add: old)
qed simp

lemma report_size:
  "fold (\<lambda>r n. n + calculateGrouprecordSize r) rs a = a + sum_list (map calculateGrouprecordSize rs)"
  by (induction rs arbitrary: a) simp_all

lemma length_report_bytes: "length (report_bytes rs c) = 8 + sum_list (map calculateGrouprecordSize rs)"
  by (simp add: report_bytes_def length_concat comp_def length_enc_record)

lemma write_report_ok:
  assumes "length old = 8 + sum_list (map calculateGrouprecordSize rs)"
  shows "write_report old rs = Inr (report_bytes rs (click_in_cksum (report_bytes rs 0)))"
proof -
  let ?n = "bytes16 (htons (of_nat (length rs)))"
  obtain hdr body where old: "old = hdr @ body" and h: "length hdr = 8"
    and b: "length body = sum_list (map calculateGrouprecordSize rs)"
    using assms by (intro that [of "take 8 old" "drop 8 old"]) simp_all
  obtain a0 a1 a2 a3 a4 a5 a6 a7 where hdr: "hdr = [a0, a1, a2, a3, a4, a5, a6, a7]"
    using h by (auto simp: numeral_eq_Suc length_Suc_conv)
  have z: "bytes16 0 = [0, 0]" by (simp add: bytes16_def)
  have "write_records (([0x22, 0, 0, 0, 0, 0] @ ?n) @ body @ []) 8 rs =
      Inr (([0x22, 0, 0, 0, 0, 0] @ ?n) @ concat (map enc_record rs) @ [])"
    using b by (intro write_records_ok) simp_all
  then have r: "write_records (0x22 # 0 # 0 # 0 # 0 # 0 # ?n @ body) 8 rs = Inr (report_bytes rs 0)"
    by (simp add: report_bytes_def z)
  have "write_report old rs = write16 (report_bytes rs 0) 2 (click_in_cksum (report_bytes rs 0))"
    unfolding write_report_def old hdr by (simp add: write_bytes_def z r)
  also have "\<dots> = Inr (report_bytes rs (click_in_cksum (report_bytes rs 0)))"
    by (simp add: report_bytes_def write_bytes_def z bytes16_def)
  finally show ?thesis .
qed

text \<open>The generator never faults, and when the allocation succeeds its packet holds the wire format.\<close>

lemma report_generatePacket_ok:
  assumes "mem_ok mem"
  shows "\<exists>q. report_generatePacket mem rs = Inr q \<and>
     (\<forall>p. q = Some p \<longrightarrow> pdata p = report_bytes rs (click_in_cksum (report_bytes rs 0)) \<and>
        \<not> shared p \<and> headroom_bytes p = [] \<and> network_header p = None)"
proof (cases "packet_make mem 0 None (8 + sum_list (map calculateGrouprecordSize rs)) 0")
  case None
  then show ?thesis by (simp add: report_generatePacket_def report_size sizeof_igmpv3report_def)
next
  case (Some p)
  then obtain h d t where a: "alloc_data mem 0 (8 + sum_list (map calculateGrouprecordSize rs)) 0 = Some (h, d, t)"
    and p: "pdata p = d" "headroom_bytes p = h" "\<not> shared p" "network_header p = None"
    by (auto simp: packet_make_def shared_def split: option.splits)
  note l = alloc_data_lengths [OF assms a]
  have "write_report (replicate (plength p) 0) rs = Inr (report_bytes rs (click_in_cksum (report_bytes rs 0)))"
    using l(2) p by (intro write_report_ok) simp
  with Some p l(1) show ?thesis
    by (simp add: report_generatePacket_def report_size sizeof_igmpv3report_def shared_def)
qed

section \<open>Reading a report back\<close>

lemma read_sources_ok:
  "off = length pre \<Longrightarrow> read_sources (pre @ concat (map bytes32 ss) @ post) off (length ss) = Inr ss"
proof (induction ss arbitrary: pre off)
  case (Cons s ss)
  from Cons.IH [of "off + 4" "pre @ bytes32 s"] Cons.prems show ?case
    by (simp add: read_append read_head)
qed simp

lemma unat_htons_length: "n < 65536 \<Longrightarrow> unat (ntohs (htons (of_nat n))) = n"
  by (simp add: unat_of_nat)

lemma read_record_fields:
  "read8 (pre @ enc_record r @ post) (length pre) = Inr (gr_type r)"
  "read16 (pre @ enc_record r @ post) (length pre + 2) = Inr (htons (of_nat (length (gr_sources r))))"
  "read32 (pre @ enc_record r @ post) (length pre + 4) = Inr (gr_multicast_address r)"
  by (simp_all add: enc_record_def read8_def read16_def read32_def nth_append bytes16_def bytes32_def)

lemma read_records_ok:
  "off = length pre \<Longrightarrow> \<forall>r \<in> set rs. length (gr_sources r) < 65536 \<Longrightarrow>
     read_records (pre @ concat (map enc_record rs) @ post) off (length rs) = Inr rs"
proof (induction rs arbitrary: pre off)
  case (Cons r rs)
  let ?post = "concat (map enc_record rs) @ post"
  have n: "unat (ntohs (htons (of_nat (length (gr_sources r)) :: u16))) = length (gr_sources r)"
    using Cons.prems by (intro unat_htons_length) simp
  have s: "read_sources (pre @ enc_record r @ ?post) (length pre + 8) (length (gr_sources r)) = Inr (gr_sources r)"
    using read_sources_ok [of "length pre + 8" "pre @ [gr_type r, 0] @
        bytes16 (htons (of_nat (length (gr_sources r)))) @ bytes32 (gr_multicast_address r)" "gr_sources r" ?post]
    by (simp add: enc_record_def)
  have "read_records ((pre @ enc_record r) @ ?post) (length pre + (8 + length (gr_sources r) * 4)) (length rs) = Inr rs"
    using Cons.prems by (intro Cons.IH)
      (simp_all add: length_enc_record calculateGrouprecordSize_def sizeof_igmpv3grouprecord_def)
  with Cons.prems s n show ?case
    by (simp add: read_record_fields read_record_fields(2) [unfolded add_2_eq_Suc']
        sizeof_igmpv3grouprecord_def del: htons_htons)
qed simp

text \<open>Checking a packet clears the checksum field of the copy that is returned.\<close>

lemma verifyChecksum_ok:
  assumes "has_memory mem" and "sole_handle p" and "framed p iph (a # b # bytes16 c @ rest)"
  shows "\<exists>q. verifyChecksum mem p = Inr (click_in_cksum (a # b # 0 # 0 # rest) = c, q) \<and>
     framed q iph (a # b # 0 # 0 # rest) \<and>
     (\<exists>t. format_view p q = Inr (a # b # bytes16 (if data_packet p = None then 0 else c) @ rest @ t))"
proof -
  obtain q where u: "uniqueify mem p = Inr (Some q)" using uniqueify_has_memory(2) [OF assms(1)] by blast
  have q: "pdata q = pdata p" "network_header q = network_header p"
    "length (headroom_bytes q) = length (headroom_bytes p)" "data_packet p = None \<Longrightarrow> q = p"
  proof -
    show "data_packet p = None \<Longrightarrow> q = p"
      using u assms(2) by (auto simp: uniqueify_def shared_def sole_handle_def)
    have "q = p \<or> expensive_uniqueify mem (int 0) (int 0) p = Inr (Some q)"
      using u by (auto simp: uniqueify_def split: if_splits)
    then show "pdata q = pdata p" "network_header q = network_header p"
      "length (headroom_bytes q) = length (headroom_bytes p)"
      using expensive_uniqueify_ok [of mem 0 0 p q] assms(1) by (auto simp: has_memory_def option.map_ident)
  qed
  let ?v = "iph @ (a # b # 0 # 0 # rest) @ tailroom_bytes q"
  let ?q = "q\<lparr> pdata := take (plength q) ?v, tailroom_bytes := drop (plength q) ?v \<rparr>"
  have z: "bytes16 0 = [0, 0]" by (simp add: bytes16_def)
  have v: "data_view q = iph @ (a # b # bytes16 c @ rest) @ tailroom_bytes q" and l: "length iph = 20"
    using assms(3) q(1) by (simp_all add: framed_def data_view_def)
  have r: "read16 (data_view q) 22 = Inr c" using l by (simp add: v read_append) (simp add: read16_def bytes16_def)
  have w: "write16 (data_view q) 22 0 = Inr ?v"
    using l by (simp add: v write_bytes_def z)
  have pl: "plength q = 24 + length rest" using assms(3) q(1) by (simp add: framed_def)
  have tk: "take (4 + length rest) (a # b # 0 # 0 # rest @ t) = a # b # 0 # 0 # rest" for t
    by (simp add: numeral_eq_Suc)
  have "verifyChecksum mem p = Inr (click_in_cksum (a # b # 0 # 0 # rest) = c, ?q)"
    using assms(2) l r w pl u by (simp add: tk verifyChecksum_def sole_handle_def Let_def sizeof_click_ip_def)
  moreover have "framed ?q iph (a # b # 0 # 0 # rest)"
    using l pl q assms(3) by (simp add: framed_def tk)
  moreover have "\<exists>t. format_view p ?q = Inr (a # b # bytes16 (if data_packet p = None then 0 else c) @ rest @ t)"
    using assms(2,3) l pl q(4) by (auto simp: format_view_def sizeof_click_ip_def sole_handle_def data_view_def
        framed_def z split: option.splits)
  ultimately show ?thesis by blast
qed

lemma report_bytes_split:
  "report_bytes rs c = 0x22 # 0 # bytes16 c @ ([0, 0] @ bytes16 (htons (of_nat (length rs))) @ concat (map enc_record rs))"
  by (simp add: report_bytes_def)

lemma process_report_ok:
  assumes "has_memory mem" and "sole_handle p"
    and "framed p iph (report_bytes rs (click_in_cksum (report_bytes rs 0)))"
    and "length rs < 65536" and "\<forall>r \<in> set rs. length (gr_sources r) < 65536"
  shows "\<exists>q c. process_report mem pr p = Inr (0, \<lparr> pr_type = 0x22, pr_checksum = c,
       pr_no_of_grouprecords = length rs, pr_records = pr_records pr @ rs, pr_verifiedChecksum = True \<rparr>, q) \<and>
     framed q iph (report_bytes rs 0)"
proof -
  let ?c = "click_in_cksum (report_bytes rs 0)"
  have z: "0x22 # 0 # 0 # 0 # [0, 0] @ bytes16 (htons (of_nat (length rs))) @ concat (map enc_record rs) = report_bytes rs 0"
    by (simp add: report_bytes_def bytes16_def)
  obtain q t d where v: "verifyChecksum mem p = Inr (True, q)" and fq: "framed q iph (report_bytes rs 0)"
    and fv: "format_view p q = Inr (report_bytes rs d @ t)"
    using verifyChecksum_ok [OF assms(1,2) assms(3) [unfolded report_bytes_split [of rs ?c]]]
    unfolding z by (auto simp: report_bytes_split)
  have h: "read16 (report_bytes rs d @ t) 2 = Inr d" "read8 (report_bytes rs d @ t) 0 = Inr 0x22"
    "read16 (report_bytes rs d @ t) 6 = Inr (htons (of_nat (length rs)))"
    by (simp_all add: report_bytes_def read8_def read16_def bytes16_def nth_append)
  have rr: "read_records (report_bytes rs d @ t) 8 (length rs) = Inr rs"
    using read_records_ok [of 8 "[0x22, 0] @ bytes16 d @ [0, 0] @ bytes16 (htons (of_nat (length rs)))" rs t] assms(5)
    by (simp add: report_bytes_def)
  have n: "unat (ntohs (htons (of_nat (length rs) :: u16))) = length rs"
    using assms(4) by (rule unat_htons_length)
  have "process_report mem pr p = Inr (0, \<lparr> pr_type = 0x22, pr_checksum = d,
       pr_no_of_grouprecords = length rs, pr_records = pr_records pr @ rs, pr_verifiedChecksum = True \<rparr>, q)"
    unfolding process_report_def v using rr by (simp add: fv h n Let_def del: htons_htons)
  with fq show ?thesis by blast
qed

section \<open>What bounds the reading\<close>

lemma read_errors:
  "read8 buf i = Inl e \<Longrightarrow> e = Out_of_bounds" "read16 buf i = Inl e \<Longrightarrow> e = Out_of_bounds"
  "read32 buf i = Inl e \<Longrightarrow> e = Out_of_bounds"
  by (simp_all add: read8_def read16_def read32_def split: if_splits)

lemma read_sources_error: "read_sources buf off n = Inl e \<Longrightarrow> e = Out_of_bounds"
  by (induction buf off n rule: read_sources.induct) (auto simp: ebind_Inl_conv dest: read_errors)

lemma read_records_error: "read_records buf off n = Inl e \<Longrightarrow> e = Out_of_bounds"
  by (induction n arbitrary: off) (auto simp: ebind_Inl_conv dest: read_errors read_sources_error)

lemma read_records_bound: "read_records buf off n = Inr rs \<Longrightarrow> n = 0 \<or> off + 8 * n \<le> length buf"
proof (induction n arbitrary: off rs)
  case (Suc n)
  then obtain ns ma rs' where r: "read32 buf (off + 4) = Inr ma"
    "read_records buf (off + (8 + unat (ntohs ns) * 4)) n = Inr rs'"
    by (auto simp: ebind_Inr_conv sizeof_igmpv3grouprecord_def)
  have "off + 8 \<le> length buf" using r(1) by (simp add: read32_def split: if_splits)
  moreover have "n = 0 \<or> off + (8 + unat (ntohs ns) * 4) + 8 * n \<le> length buf" by (rule Suc.IH [OF r(2)])
  ultimately show ?case by auto
qed simp

lemma verifyChecksum_unshared:
  assumes "\<not> shared p" and "framed p iph (a # b # bytes16 c @ rest)"
  shows "\<exists>q. verifyChecksum mem p = Inr (click_in_cksum (a # b # 0 # 0 # rest) = c, q) \<and>
     format_view p q = Inr (a # b # 0 # 0 # rest @ tailroom_bytes p)"
proof -
  have z: "bytes16 0 = [0, 0]" by (simp add: bytes16_def)
  have l: "pdata p = iph @ a # b # bytes16 c @ rest" "length iph = 20" using assms(2) by (simp_all add: framed_def)
  have r: "read16 (data_view p) 22 = Inr c"
    using l by (simp add: data_view_def read16_def nth_append bytes16_def)
  have w: "write16 (data_view p) 22 0 = Inr (iph @ a # b # 0 # 0 # rest @ tailroom_bytes p)"
    using l by (simp add: data_view_def write_bytes_def z)
  have t: "take (4 + length rest) (a # b # 0 # 0 # rest @ tailroom_bytes p) = a # b # 0 # 0 # rest"
    "drop (4 + length rest) (a # b # 0 # 0 # rest @ tailroom_bytes p) = tailroom_bytes p"
    by (simp_all add: numeral_eq_Suc)
  have "data_packet p = None" "use_count p \<le> 1" using assms(1) by (auto simp: shared_def)
  then show ?thesis
    using r w l t assms(1)
    by (simp add: verifyChecksum_def uniqueify_unshared format_view_def sizeof_click_ip_def Let_def data_view_def)
qed

section \<open>Properties\<close>


definition ex_record :: grouprecord where
  "ex_record = \<lparr> gr_type = 4, gr_multicast_address = ip_quad 239 0 0 0, gr_sources = [ip_quad 192 168 1 1] \<rparr>"


text \<open>
  C38. The reader trusts the counts of the packet: a report that verifies but announces more records than
  its buffer can hold makes it read beyond the end of the buffer.
\<close>

theorem report_count_trusted:
  assumes "\<not> shared p" and "framed p iph (0x22 # b # bytes16 c @ rest)"
    and "click_in_cksum (0x22 # b # 0 # 0 # rest) = c" and "read16 rest 2 = Inr n"
    and "length rest + length (tailroom_bytes p) < 4 + 8 * unat (ntohs n)"
  shows "process_report mem pr p = Inl Out_of_bounds"
proof -
  let ?v = "0x22 # b # 0 # 0 # rest @ tailroom_bytes p"
  have "2 + 1 < length rest" using assms(4) by (simp add: read16_def split: if_splits)
  then have n: "read16 ?v 6 = Inr n" using assms(4) by (simp add: read16_def nth_append)
  have z: "read16 ?v 2 = Inr (le16 0 0)" "read8 ?v 0 = Inr 0x22" by (simp_all add: read16_def read8_def)
  have "\<not> 8 + 8 * unat (ntohs n) \<le> length ?v" "unat (ntohs n) \<noteq> 0" using assms(5) \<open>2 + 1 < length rest\<close> by auto
  then have "read_records ?v 8 (unat (ntohs n)) = Inl Out_of_bounds"
    using read_records_bound [of ?v 8 "unat (ntohs n)"] read_records_error [of ?v 8 "unat (ntohs n)"]
    by (cases "read_records ?v 8 (unat (ntohs n))") auto
  with n z show ?thesis
    using verifyChecksum_unshared [OF assms(1,2), of mem] assms(3) by (auto simp: process_report_def Let_def)
qed

theorem report_count_trusted_witness:
  "process_report ex_mem \<lparr> pr_type = 0, pr_checksum = 0, pr_no_of_grouprecords = 0, pr_records = [], pr_verifiedChecksum = False \<rparr>
     (ex_packet\<lparr> pdata := replicate 20 0 @ (0x22 # 0 # bytes16 (click_in_cksum ([0x22, 0, 0, 0, 0, 0] @ bytes16 (htons 1))) @ [0, 0] @ bytes16 (htons 1)),
        data_packet := None \<rparr>) = Inl Out_of_bounds"
proof -
  let ?p = "ex_packet\<lparr> pdata := replicate 20 0 @ (0x22 # 0 # bytes16 (click_in_cksum ([0x22, 0, 0, 0, 0, 0] @ bytes16 (htons 1))) @ [0, 0] @ bytes16 (htons 1)),
        data_packet := None \<rparr>"
  have r: "\<not> shared ?p" "framed ?p (replicate 20 0) (0x22 # 0 # bytes16 (click_in_cksum ([0x22, 0, 0, 0, 0, 0] @ bytes16 (htons 1))) @ [0, 0] @ bytes16 (htons 1))"
    by (simp_all add: shared_def framed_def ex_packet_def)
  have "read16 ([0, 0] @ bytes16 (htons 1)) 2 = Inr (htons 1)" by (simp add: read16_def bytes16_def)
  then show ?thesis
    using report_count_trusted [OF r, of "htons 1" ex_mem] by (simp add: ex_packet_def)
qed

end
