(* ===== verification/IGMP_Query.thy ===== *)
theory IGMP_Query
  imports IGMP_Report
begin

text \<open>
  Membership queries: the generator \<^verbatim>\<open>elements/queryigmp.cc\<close>, which builds the query and puts an IP
  header in front of it, and the reader \<^verbatim>\<open>elements/ProcessQuery.cc\<close>. Address literals of the source are
  parsed as the program parses them; they are dotted quads, so no name is ever looked up
  (\<open>no_names\<close>). A function that flows off its end without a return statement has no value:
  \<open>None\<close>.
\<close>

definition no_names :: "string \<Rightarrow> ipaddr option" where
  "no_names s = None"

section \<open>The generator\<close>

definition write_query :: "byte list \<Rightarrow> ipaddr \<Rightarrow> ipaddr list \<Rightarrow> bool \<Rightarrow> byte list exec" where
  "write_query buf ma srcs suppress =
     ebind (write8 buf q_type 0x11) (\<lambda>buf.
     ebind (write8 buf q_max_response_code 0x64) (\<lambda>buf.
     ebind (write16 buf q_checksum 0) (\<lambda>buf.
     ebind (write32 buf q_group_address ma) (\<lambda>buf.
     ebind (write8 buf q_resv_and_s_and_qrv (if suppress then 0x0a else 0x02)) (\<lambda>buf.
     ebind (write8 buf q_qqic 0x7d) (\<lambda>buf.
     ebind (write16 buf q_no_of_sources (htons (of_nat (length srcs)))) (\<lambda>buf.
     ebind (fold (\<lambda>(i, s) r. ebind r (\<lambda>buf. write32 buf (q_sources i) s)) (enumerate 0 srcs) (Inr buf)) (\<lambda>buf.
     write16 buf q_checksum (click_in_cksum buf)))))))))"

definition query_generatePacket :: "allocator \<Rightarrow> ipaddr \<Rightarrow> packet option exec" where
  "query_generatePacket mem ma =
     (let sourcesVector = [];
          packetsize = sizeof_igmpv3query;
          sourcesSize = length sourcesVector * 4
      in case packet_make mem 0 None (packetsize + sourcesSize) 0 of
           None \<Rightarrow> Inr None
         | Some p \<Rightarrow> ebind (write_query (replicate (plength p) 0) ma sourcesVector False)
                        (\<lambda>buf. Inr (Some (p\<lparr> pdata := buf \<rparr>))))"

text \<open>
  The header on the stack: version 4, five words, TTL 1, protocol 2, source 0.0.0.0. Its checksum is
  computed before the length and the identification are known.
\<close>

definition query_ip_header :: "ipaddr \<Rightarrow> byte list" where
  "query_ip_header dst =
     (let src = IPAddress no_names ''0.0.0.0'';
          hdr = (\<lambda>c. [0x45, 0, 0, 0, 0, 0, 0, 0, 1, 2] @ bytes16 c @ bytes32 src @ bytes32 dst)
      in hdr (click_in_cksum (hdr 0)))"

definition setIPHeader :: "allocator \<Rightarrow> packet option \<Rightarrow> ipaddr \<Rightarrow> packet exec" where
  "setIPHeader mem p dst =
     (case p of
        None \<Rightarrow> Inl Null_deref
      | Some p \<Rightarrow>
          ebind (packet_push mem sizeof_click_ip p) (\<lambda>q. case q of
             None \<Rightarrow> Inl Null_deref
           | Some q \<Rightarrow>
               ebind (write_bytes (pdata q) 0 (query_ip_header dst)) (\<lambda>d.
               ebind (write16 d ip_len_off (htons (of_nat (plength q)))) (\<lambda>d.
               ebind (write16 d ip_id_off (htons 1)) (\<lambda>d.
               set_network_header (length (headroom_bytes q)) sizeof_click_ip (q\<lparr> pdata := d \<rparr>))))))"

definition query_generalQuery :: "allocator \<Rightarrow> packet exec" where
  "query_generalQuery mem =
     ebind (query_generatePacket mem (IPAddress no_names ''0.0.0.0''))
       (\<lambda>p. setIPHeader mem p (IPAddress no_names ''224.0.0.1''))"

definition query_groupQuery :: "allocator \<Rightarrow> ipaddr \<Rightarrow> packet exec" where
  "query_groupQuery mem ma = ebind (query_generatePacket mem ma) (\<lambda>p. setIPHeader mem p ma)"

section \<open>The reader\<close>

text \<open>
  The members of a \<^verbatim>\<open>ProcessQuery\<close>. The constructor sets only the address (to 0.0.0.0) and the
  sources (to none); the other members start with whatever the memory holds.
\<close>

record ProcessQuery =
  pq_type :: u8
  pq_max_response_code :: u8
  pq_checksum :: u16
  pq_group_address :: ipaddr
  pq_resv_and_s_and_qrv :: u8
  pq_qqic :: u8
  pq_sources :: "ipaddr list"
  pq_verifiedChecksum :: bool

definition process_query ::
  "allocator \<Rightarrow> ProcessQuery \<Rightarrow> packet \<Rightarrow> (int option \<times> ProcessQuery \<times> packet) exec" where
  "process_query mem pq p =
     ebind (verifyChecksum mem p) (\<lambda>(ok, q).
     ebind (format_view p q) (\<lambda>format.
     ebind (read16 format q_checksum) (\<lambda>c.
     (let pq = pq\<lparr> pq_verifiedChecksum := ok, pq_checksum := c \<rparr> in
      if \<not> ok then Inr (Some (- 1), pq, q)
      else ebind (read8 format q_type) (\<lambda>t.
        (let pq = pq\<lparr> pq_type := t \<rparr> in
         if t \<noteq> 0x11 then Inr (Some (- 1), pq, q)
         else
           ebind (read8 format q_max_response_code) (\<lambda>mrc.
           ebind (read32 format q_group_address) (\<lambda>ga.
           ebind (read8 format q_resv_and_s_and_qrv) (\<lambda>rs.
           ebind (read8 format q_qqic) (\<lambda>qqic.
           ebind (read16 format q_no_of_sources) (\<lambda>n.
           ebind (read_sources format (q_sources 0) (unat (ntohs n))) (\<lambda>srcs.
           Inr (None, pq\<lparr> pq_max_response_code := mrc, pq_group_address := ga, pq_resv_and_s_and_qrv := rs,
                          pq_qqic := qqic, pq_sources := pq_sources pq @ srcs \<rparr>, q)))))))))))))"

definition isGeneralQuery :: "ProcessQuery \<Rightarrow> bool" where
  "isGeneralQuery pq \<longleftrightarrow> pq_group_address pq = IPAddress no_names ''0.0.0.0'' \<and> length (pq_sources pq) = 0"

definition isGroupQuery :: "ProcessQuery \<Rightarrow> bool" where
  "isGroupQuery pq \<longleftrightarrow> pq_group_address pq \<noteq> IPAddress no_names ''0.0.0.0'' \<and> length (pq_sources pq) = 0"

text \<open>\<open>isGroupAndSourceQuery\<close> computes its test but has no return statement.\<close>

definition isGroupAndSourceQuery :: "ProcessQuery \<Rightarrow> bool option" where
  "isGroupAndSourceQuery pq = None"

section \<open>The wire format\<close>

definition query_bytes :: "ipaddr \<Rightarrow> u16 \<Rightarrow> byte list" where
  "query_bytes ma c = [0x11, 0x64] @ bytes16 c @ bytes32 ma @ [0x02, 0x7d, 0, 0]"

text \<open>The header of a query as it leaves the router, before the source address and the checksum are set.\<close>

definition query_header :: "ipaddr \<Rightarrow> byte list" where
  "query_header dst =
     [0x45, 0] @ bytes16 (htons 32) @ bytes16 (htons 1) @ [0, 0, 1, 2] @
     bytes16 (click_in_cksum ([0x45, 0, 0, 0, 0, 0, 0, 0, 1, 2, 0, 0, 0, 0, 0, 0] @ bytes32 dst)) @
     [0, 0, 0, 0] @ bytes32 dst"

lemma IPAddress_zero [simp]: "IPAddress query_ip ''0.0.0.0'' = 0"
  by (simp add: IPAddress_def ip_parse_def basic_parse_def numeral_eq_Suc isdigit_def digit_val_def le32_def)

lemma IPAddress_all_hosts: "IPAddress query_ip ''224.0.0.1'' = ip_quad 224 0 0 1"
  by (simp add: IPAddress_def ip_parse_def basic_parse_def numeral_eq_Suc isdigit_def digit_val_def)

lemma length_query_bytes [simp]: "length (query_bytes ma c) = 12" "length (query_header ma) = 20"
  by (simp_all add: query_bytes_def query_header_def)

lemma query_generatePacket_ok:
  assumes "mem_ok mem"
  shows "\<exists>q. query_generatePacket mem ma = Inr q \<and>
     (\<forall>p. q = Some p \<longrightarrow> pdata p = query_bytes ma (click_in_cksum (query_bytes ma 0)) \<and> \<not> shared p)"
proof (cases "packet_make mem 0 None 12 0")
  case None
  then show ?thesis by (simp add: query_generatePacket_def sizeof_igmpv3query_def)
next
  case (Some p)
  then obtain h d t where a: "alloc_data mem 0 12 0 = Some (h, d, t)" and p: "pdata p = d" "\<not> shared p"
    by (auto simp: packet_make_def shared_def split: option.splits)
  have "length d = 12" using alloc_data_lengths [OF assms a] by simp
  with p have "write_query (replicate (plength p) 0) ma [] False =
      Inr (query_bytes ma (click_in_cksum (query_bytes ma 0)))"
    by (simp add: write_query_def write_bytes_def query_bytes_def numeral_eq_Suc bytes16_def bytes32_def htons_def)
  with Some p show ?thesis by (simp add: query_generatePacket_def sizeof_igmpv3query_def shared_def)
qed

lemma list20E:
  assumes "length xs = 20"
  obtains a0 a1 a2 a3 a4 a5 a6 a7 a8 a9 b0 b1 b2 b3 b4 b5 b6 b7 b8 b9
  where "xs = [a0, a1, a2, a3, a4, a5, a6, a7, a8, a9, b0, b1, b2, b3, b4, b5, b6, b7, b8, b9]"
  using assms by (auto simp: numeral_eq_Suc length_Suc_conv)

lemma setIPHeader_ok:
  assumes "mem_ok mem" and "setIPHeader mem (Some p) dst = Inr q" and "plength p = 12"
  shows "pdata q = query_header dst @ pdata p" "\<not> shared q"
    "network_header q = Some (length (headroom_bytes q))"
proof -
  obtain r where r: "packet_push mem 20 p = Inr (Some r)"
    using assms(2) by (auto simp: setIPHeader_def sizeof_click_ip_def ebind_Inr_conv split: option.splits)
  obtain pre where pre: "length pre = 20" "pdata r = pre @ pdata p" and ns: "\<not> shared r"
    using packet_push_ok [OF assms(1) r] by blast
  obtain a0 a1 a2 a3 a4 a5 a6 a7 a8 a9 b0 b1 b2 b3 b4 b5 b6 b7 b8 b9
    where x: "pre = [a0, a1, a2, a3, a4, a5, a6, a7, a8, a9, b0, b1, b2, b3, b4, b5, b6, b7, b8, b9]"
    using pre(1) by (rule list20E)
  have z: "bytes32 0 = [0, 0, 0, 0]" "bytes16 0 = [0, 0]" by (simp_all add: bytes32_def bytes16_def)
  have h: "query_ip_header dst = [0x45, 0, 0, 0, 0, 0, 0, 0, 1, 2] @
      bytes16 (click_in_cksum ([0x45, 0, 0, 0, 0, 0, 0, 0, 1, 2, 0, 0, 0, 0, 0, 0] @ bytes32 dst)) @ [0, 0, 0, 0] @ bytes32 dst"
    by (simp add: query_ip_header_def z)
  have "setIPHeader mem (Some p) dst =
      set_network_header (length (headroom_bytes r)) 20 (r\<lparr> pdata := query_header dst @ pdata p \<rparr>)"
    using assms(3) by (simp add: setIPHeader_def sizeof_click_ip_def r pre(2) x h write_bytes_def query_header_def
        bytes16_def bytes32_def)
  with assms(2) ns show "pdata q = query_header dst @ pdata p" "\<not> shared q"
    "network_header q = Some (length (headroom_bytes q))"
    by (auto simp: set_network_header_def shared_def split: if_splits)
qed

lemma setIPHeader_total:
  assumes "has_memory mem" and "plength p = 12"
  shows "\<exists>q. setIPHeader mem (Some p) dst = Inr q"
proof -
  obtain r where r: "packet_push mem 20 p = Inr (Some r)" using packet_push_has_memory [OF assms(1)] by blast
  obtain pre where pre: "length pre = 20" "pdata r = pre @ pdata p"
    using packet_push_ok(1) [of mem 20 p r] assms(1) r by (auto simp: has_memory_def)
  with assms(2) show ?thesis
    by (simp add: setIPHeader_def sizeof_click_ip_def r write_bytes_def query_ip_header_def set_network_header_def buffer_def)
qed

text \<open>
  With memory available both generators return a packet that holds the query of the group behind its
  header, and the header pointer is at its start.
\<close>

lemma query_with_header:
  assumes "has_memory mem"
  shows "\<exists>p. ebind (query_generatePacket mem ma) (\<lambda>p. setIPHeader mem p dst) = Inr p \<and>
     pdata p = query_header dst @ query_bytes ma (click_in_cksum (query_bytes ma 0)) \<and> \<not> shared p \<and>
     network_header p = Some (length (headroom_bytes p))"
proof -
  have m: "mem_ok mem" using assms by (simp add: has_memory_def)
  obtain q where q: "query_generatePacket mem ma = Inr q"
      "\<And>p. q = Some p \<Longrightarrow> pdata p = query_bytes ma (click_in_cksum (query_bytes ma 0))"
    using query_generatePacket_ok [OF m, of ma] by blast
  moreover have "q \<noteq> None"
    using q(1) packet_make_has_memory [OF assms, of 0 None 12 0]
    by (auto simp: query_generatePacket_def sizeof_igmpv3query_def ebind_Inr_conv)
  ultimately obtain p where g: "query_generatePacket mem ma = Inr (Some p)"
    and p: "pdata p = query_bytes ma (click_in_cksum (query_bytes ma 0))" by auto
  have l: "plength p = 12" by (simp add: p)
  obtain q where "setIPHeader mem (Some p) dst = Inr q"
    using setIPHeader_total [OF assms l] by blast
  with setIPHeader_ok [OF m this l] p g show ?thesis by simp
qed

lemma query_groupQuery_ok:
  "has_memory mem \<Longrightarrow> \<exists>p. query_groupQuery mem ma = Inr p \<and>
     pdata p = query_header ma @ query_bytes ma (click_in_cksum (query_bytes ma 0)) \<and> \<not> shared p \<and>
     network_header p = Some (length (headroom_bytes p))"
  unfolding query_groupQuery_def by (rule query_with_header)

lemma query_generalQuery_ok:
  "has_memory mem \<Longrightarrow> \<exists>p. query_generalQuery mem = Inr p \<and>
     pdata p = query_header (ip_quad 224 0 0 1) @ query_bytes 0 (click_in_cksum (query_bytes 0 0)) \<and> \<not> shared p \<and>
     network_header p = Some (length (headroom_bytes p))"
  unfolding query_generalQuery_def IPAddress_zero IPAddress_all_hosts by (rule query_with_header)

section \<open>Reading a query back\<close>

lemma query_bytes_split:
  "query_bytes ma c = 0x11 # 0x64 # bytes16 c @ (bytes32 ma @ [0x02, 0x7d, 0, 0])"
  by (simp add: query_bytes_def)

lemma process_query_ok:
  assumes "has_memory mem" and "sole_handle p"
    and "framed p iph (query_bytes ma (click_in_cksum (query_bytes ma 0)))"
  shows "\<exists>q c. process_query mem pq p = Inr (None, \<lparr> pq_type = 0x11, pq_max_response_code = 100, pq_checksum = c,
       pq_group_address = ma, pq_resv_and_s_and_qrv = 2, pq_qqic = 125, pq_sources = pq_sources pq,
       pq_verifiedChecksum = True \<rparr>, q) \<and> framed q iph (query_bytes ma 0)"
proof -
  let ?c = "click_in_cksum (query_bytes ma 0)"
  have z: "0x11 # 0x64 # 0 # 0 # bytes32 ma @ [0x02, 0x7d, 0, 0] = query_bytes ma 0"
    by (simp add: query_bytes_def bytes16_def)
  obtain q t d where v: "verifyChecksum mem p = Inr (True, q)" and fq: "framed q iph (query_bytes ma 0)"
    and fv: "format_view p q = Inr (query_bytes ma d @ t)"
    using verifyChecksum_ok [OF assms(1,2) assms(3) [unfolded query_bytes_split [of ma ?c]]]
    unfolding z by (auto simp: query_bytes_split)
  have z16: "le16 0 0 = 0" by (simp add: le16_def)
  have h: "read16 (query_bytes ma d @ t) 2 = Inr d" "read8 (query_bytes ma d @ t) 0 = Inr 0x11"
    "read8 (query_bytes ma d @ t) (Suc 0) = Inr 100" "read32 (query_bytes ma d @ t) 4 = Inr ma"
    "read8 (query_bytes ma d @ t) 8 = Inr 2" "read8 (query_bytes ma d @ t) 9 = Inr 125"
    "read16 (query_bytes ma d @ t) 10 = Inr 0"
    by (simp_all add: query_bytes_def read8_def read16_def read32_def bytes16_def bytes32_def z16)
  have "process_query mem pq p = Inr (None, \<lparr> pq_type = 0x11, pq_max_response_code = 100, pq_checksum = d,
       pq_group_address = ma, pq_resv_and_s_and_qrv = 2, pq_qqic = 125, pq_sources = pq_sources pq,
       pq_verifiedChecksum = True \<rparr>, q)"
    unfolding process_query_def v by (simp add: fv h Let_def)
  with fq show ?thesis by blast
qed

text \<open>A packet that fails the checksum leaves every member but the checksum and its flag alone.\<close>

lemma process_bad_checksum:
  assumes "verifyChecksum mem p = Inr (False, q)"
  shows "process_query mem pq p = Inr (n, pq', q') \<Longrightarrow>
      n = Some (- 1) \<and> q' = q \<and> (\<exists>c. pq' = pq\<lparr> pq_verifiedChecksum := False, pq_checksum := c \<rparr>)"
    and "process_report mem pr p = Inr (m, pr', q') \<Longrightarrow>
      m = - 1 \<and> q' = q \<and> (\<exists>c. pr' = pr\<lparr> pr_verifiedChecksum := False, pr_checksum := c \<rparr>)"
  using assms by (auto simp: process_query_def process_report_def ebind_Inr_conv Let_def)

lemma bad_checksum_total:
  assumes "has_memory mem" and "sole_handle p" and "framed p iph (a # b # bytes16 c @ rest)"
    and "click_in_cksum (a # b # 0 # 0 # rest) \<noteq> c"
  shows "\<exists>q d. verifyChecksum mem p = Inr (False, q) \<and> framed q iph (a # b # 0 # 0 # rest) \<and>
      process_query mem pq p = Inr (Some (- 1), pq\<lparr> pq_verifiedChecksum := False, pq_checksum := d \<rparr>, q) \<and>
      process_report mem pr p = Inr (- 1, pr\<lparr> pr_verifiedChecksum := False, pr_checksum := d \<rparr>, q)"
proof -
  obtain q t d where v: "verifyChecksum mem p = Inr (False, q)" "framed q iph (a # b # 0 # 0 # rest)"
    and fv: "format_view p q = Inr (a # b # bytes16 d @ rest @ t)"
    using verifyChecksum_ok [OF assms(1-3)] assms(4) by auto
  have "read16 (a # b # bytes16 d @ rest @ t) 2 = Inr d" by (simp add: read16_def bytes16_def)
  with v fv show ?thesis by (auto simp: process_query_def process_report_def Let_def)
qed

section \<open>Properties\<close>

text \<open>
  C7. Queries survive the wire: the packet \<open>groupQuery\<close> makes for a group is read back by \<open>process\<close> as a
  verified query for that group, with response code 100, robustness 2 and interval 125, and classified as
  a group query; the one \<open>generalQuery\<close> makes is read back and classified as a general query.
\<close>

theorem query_roundtrip:
  assumes "has_memory mem" and "pq_sources pq = []"
  shows "(\<exists>p q pq'. query_groupQuery mem ma = Inr p \<and> process_query mem pq p = Inr (None, pq', q) \<and>
       pq_verifiedChecksum pq' \<and> pq_group_address pq' = ma \<and> pq_max_response_code pq' = 100 \<and>
       pq_resv_and_s_and_qrv pq' = 2 \<and> pq_qqic pq' = 125 \<and> (isGroupQuery pq' \<longleftrightarrow> ma \<noteq> 0)) \<and>
     (\<exists>p q pq'. query_generalQuery mem = Inr p \<and> process_query mem pq p = Inr (None, pq', q) \<and>
       pq_verifiedChecksum pq' \<and> isGeneralQuery pq' \<and> \<not> isGroupQuery pq')"
proof
  obtain p where p: "query_groupQuery mem ma = Inr p" "framed p (query_header ma) (query_bytes ma (click_in_cksum (query_bytes ma 0)))"
    "\<not> shared p" using query_groupQuery_ok [OF assms(1), of ma] by (auto simp: framed_def)
  with process_query_ok [OF assms(1) sole_handle_unshared [OF p(3)] p(2), of pq] assms(2)
  show "\<exists>p q pq'. query_groupQuery mem ma = Inr p \<and> process_query mem pq p = Inr (None, pq', q) \<and>
       pq_verifiedChecksum pq' \<and> pq_group_address pq' = ma \<and> pq_max_response_code pq' = 100 \<and>
       pq_resv_and_s_and_qrv pq' = 2 \<and> pq_qqic pq' = 125 \<and> (isGroupQuery pq' \<longleftrightarrow> ma \<noteq> 0)"
    by (fastforce simp: isGroupQuery_def)
next
  obtain p where p: "query_generalQuery mem = Inr p"
    "framed p (query_header (ip_quad 224 0 0 1)) (query_bytes 0 (click_in_cksum (query_bytes 0 0)))"
    "\<not> shared p" using query_generalQuery_ok [OF assms(1)] by (auto simp: framed_def)
  with process_query_ok [OF assms(1) sole_handle_unshared [OF p(3)] p(2), of pq] assms(2)
  show "\<exists>p q pq'. query_generalQuery mem = Inr p \<and> process_query mem pq p = Inr (None, pq', q) \<and>
       pq_verifiedChecksum pq' \<and> isGeneralQuery pq' \<and> \<not> isGroupQuery pq'"
    by (fastforce simp: isGroupQuery_def isGeneralQuery_def)
qed

definition ex_pq :: ProcessQuery where
  "ex_pq = \<lparr> pq_type = 0, pq_max_response_code = 50, pq_checksum = 0, pq_group_address = 0,
     pq_resv_and_s_and_qrv = 0, pq_qqic = 0, pq_sources = [], pq_verifiedChecksum = False \<rparr>"

theorem query_roundtrip_witness:
  "\<exists>p q pq'. query_groupQuery ex_mem 7 = Inr p \<and> process_query ex_mem ex_pq p = Inr (None, pq', q) \<and>
     pq_group_address pq' = 7 \<and> isGroupQuery pq'"
  using query_roundtrip [OF ex_mem_ok, of ex_pq 7] by (fastforce simp: ex_pq_def)

end
