(* ===== verification/IGMP_Client.thy ===== *)
theory IGMP_Client
  imports IGMP_Query
begin

text \<open>
  The IGMP client element (\<^verbatim>\<open>elements/IGMPClient.cc\<close>): the two write handlers by which an application
  joins and leaves a group, the reaction to queries, the timers that send each report several times,
  and the helpers on configuration strings and vectors.

  Arguments that stand for the environment: \<open>mem\<close>, the packet allocator; \<open>now\<close>, the clock in
  milliseconds; \<open>draw\<close>, where \<open>draw n\<close> is the value of \<^verbatim>\<open>(int)(((double) n / RAND_MAX) * rand())\<close>;
  \<open>parse_args\<close>, the \<^verbatim>\<open>Args\<close> parser of a handler's string, which gives the texts of \<open>M\<close> and \<open>S\<close>;
  \<open>query_ip\<close>, the name service behind \<^verbatim>\<open>IPAddress\<close>. Packets pushed to output 0 are returned as a list.
\<close>

section \<open>State\<close>

text \<open>\<^verbatim>\<open>SendReportTimerData\<close>; at any time one pending timer points to it, so the timer carries it.\<close>

record timer_data =
  td_report :: "packet option"
  timesTosend :: int
  timeToWait :: int

record client =
  c_db :: client_db
  c_ipAddress :: ipaddr
  unsolicited_report_interval :: int
  robustness_variable :: int
  c_timers :: "(int \<times> timer_data) list"

definition client_new :: "ipaddr \<Rightarrow> client_db \<Rightarrow> client" where
  "client_new addr db = \<lparr> c_db = db, c_ipAddress = addr, unsolicited_report_interval = 1,
                          robustness_variable = 2, c_timers = [] \<rparr>"

text \<open>\<open>configure\<close>: \<open>kparse\<close> stands for \<^verbatim>\<open>cp_va_kparse\<close> and gives the address and the database, or fails.\<close>

definition client_configure :: "(ipaddr \<times> client_db) option \<Rightarrow> client \<Rightarrow> int \<times> client" where
  "client_configure kparse c =
     (case kparse of
        None \<Rightarrow> (- 1, c)
      | Some (addr, tempDb) \<Rightarrow> (0, c\<lparr> c_ipAddress := addr, c_db := tempDb \<rparr>))"

section \<open>Sending reports\<close>

definition client_push_report :: "packet \<Rightarrow> bool exec" where
  "client_push_report p = ebind (read8 (data_view p) 0) (\<lambda>t. Inr (t = 0x22))"

text \<open>The timer that \<open>new Timer\<close>, \<open>initialize\<close> and \<open>schedule_after_msec\<close> leave pending.\<close>

definition schedule_report :: "int \<Rightarrow> int \<Rightarrow> packet option \<Rightarrow> client \<Rightarrow> client" where
  "schedule_report now reschedule report c =
     c\<lparr> c_timers := c_timers c @
          [(now + reschedule, \<lparr> td_report = report, timesTosend = robustness_variable c, timeToWait = reschedule \<rparr>)] \<rparr>"

definition includeWithExclude ::
  "allocator \<Rightarrow> (int \<Rightarrow> int) \<Rightarrow> int \<Rightarrow> client \<Rightarrow> ipaddr \<Rightarrow> ipaddr list \<Rightarrow> client exec" where
  "includeWithExclude mem draw now c ma srcs =
     (let c = c\<lparr> c_db := snd (setMode (c_db c) ma EXCLUDE) \<rparr>;
          reschedule = draw (unsolicited_report_interval c * 1000 + 1)
      in ebind (report_toEX mem ma srcs) (\<lambda>report. Inr (schedule_report now reschedule report c)))"

definition excludeWithInclude ::
  "allocator \<Rightarrow> (int \<Rightarrow> int) \<Rightarrow> int \<Rightarrow> client \<Rightarrow> ipaddr \<Rightarrow> ipaddr list \<Rightarrow> client exec" where
  "excludeWithInclude mem draw now c ma srcs =
     (let c = c\<lparr> c_db := snd (setMode (c_db c) ma INCLUDE) \<rparr>;
          reschedule = draw (unsolicited_report_interval c * 1000 + 1)
      in ebind (report_toIN mem ma srcs) (\<lambda>report. Inr (schedule_report now reschedule report c)))"

text \<open>\<open>includeWithInclude\<close> and \<open>excludeWithExclude\<close> only print.\<close>

definition includeWithInclude :: "client \<Rightarrow> ipaddr \<Rightarrow> ipaddr list \<Rightarrow> client" where
  "includeWithInclude c ma srcs = c"

definition excludeWithExclude :: "client \<Rightarrow> ipaddr \<Rightarrow> ipaddr list \<Rightarrow> client" where
  "excludeWithExclude c ma srcs = c"

definition client_generalQuery ::
  "allocator \<Rightarrow> (int \<Rightarrow> int) \<Rightarrow> int \<Rightarrow> client \<Rightarrow> ProcessQuery \<Rightarrow> client exec" where
  "client_generalQuery mem draw now c pq =
     (let max_response_time = uint (pq_max_response_code pq);
          reschedule = draw (max_response_time * 100 + 1)
      in ebind (report_isINCLUDEOrEXCLUDE mem (getMulticastFiltermodeTable (c_db c)))
           (\<lambda>report. Inr (schedule_report now reschedule report c)))"

definition client_groupQuery ::
  "allocator \<Rightarrow> (int \<Rightarrow> int) \<Rightarrow> int \<Rightarrow> client \<Rightarrow> ProcessQuery \<Rightarrow> client exec" where
  "client_groupQuery mem draw now c pq =
     (let max_response_time = uint (pq_max_response_code pq);
          reschedule = draw (max_response_time * 100 + 1)
      in ebind (report_isINCLUDEOrEXCLUDE mem (getMulticastFiltermodeTable (c_db c)))
           (\<lambda>report. Inr (schedule_report now reschedule report c)))"

definition client_groupAndSourceQuery :: "client \<Rightarrow> ProcessQuery \<Rightarrow> client" where
  "client_groupAndSourceQuery c pq = c"

text \<open>
  \<open>proccessQuery\<close>: \<open>pq0\<close> is the freshly constructed \<^verbatim>\<open>ProcessQuery\<close>, whose uninitialised members
  hold anything. The result of \<open>process\<close> is not looked at. \<open>isGroupAndSourceQuery\<close> has no value, and
  whichever way its test goes the client is unchanged.
\<close>

definition proccessQuery ::
  "allocator \<Rightarrow> (int \<Rightarrow> int) \<Rightarrow> int \<Rightarrow> ProcessQuery \<Rightarrow> client \<Rightarrow> packet \<Rightarrow> client exec" where
  "proccessQuery mem draw now pq0 c p =
     ebind (ip_p p) (\<lambda>proto.
       if proto \<noteq> 2 then Inr c
       else ebind (process_query mem pq0 p) (\<lambda>(_, pq, _).
         if isGeneralQuery pq then client_generalQuery mem draw now c pq
         else if isGroupQuery pq then client_groupQuery mem draw now c pq
         else Inr (client_groupAndSourceQuery c pq)))"

definition client_push ::
  "allocator \<Rightarrow> (int \<Rightarrow> int) \<Rightarrow> int \<Rightarrow> ProcessQuery \<Rightarrow> client \<Rightarrow> packet option \<Rightarrow> (client \<times> packet list) exec" where
  "client_push mem draw now pq0 c p =
     (case p of
        None \<Rightarrow> Inr (c, [])
      | Some p \<Rightarrow>
          ebind (client_push_report p) (\<lambda>is_report.
            if is_report then Inr (c, [p])
            else ebind (read8 (data_view p) (sizeof_click_ip + q_type)) (\<lambda>t.
              if t = 0x11 then ebind (proccessQuery mem draw now pq0 c p) (\<lambda>c. Inr (c, []))
              else Inr (c, []))))"

text \<open>
  \<open>handleSendReportTimer\<close>, run on the data of an expired timer: the timer it starts in turn, if any, and
  the packet it pushes into the client's own \<open>push\<close>.
\<close>

definition handleSendReportTimer :: "int \<Rightarrow> timer_data \<Rightarrow> ((int \<times> timer_data) option \<times> packet option) exec" where
  "handleSendReportTimer now td =
     (if timesTosend td > 1
      then (case td_report td of
              None \<Rightarrow> Inl Null_deref
            | Some r \<Rightarrow>
                (let (sendable, r') = clone r;
                     td' = td\<lparr> timesTosend := timesTosend td - 1, td_report := Some r' \<rparr>
                 in Inr (Some (now + timeToWait td', td'), Some sendable)))
      else Inr (None, td_report td))"

text \<open>The \<open>i\<close>-th pending timer expires.\<close>

definition client_fire ::
  "allocator \<Rightarrow> (int \<Rightarrow> int) \<Rightarrow> ProcessQuery \<Rightarrow> client \<Rightarrow> nat \<Rightarrow> (client \<times> packet list) exec" where
  "client_fire mem draw pq0 c i =
     (if i < length (c_timers c)
      then (case c_timers c ! i of (due, td) \<Rightarrow>
              ebind (handleSendReportTimer due td) (\<lambda>(next, p).
                client_push mem draw due pq0
                  (c\<lparr> c_timers := list_erase i (c_timers c) @ (case next of None \<Rightarrow> [] | Some t \<Rightarrow> [t]) \<rparr>) p))
      else Inr (c, []))"

section \<open>Handlers\<close>

text \<open>The loop of \<open>ConfigParse::sources\<close> over the string, with the address text so far.\<close>

fun sources_loop :: "(string \<Rightarrow> ipaddr option) \<Rightarrow> string \<Rightarrow> string \<Rightarrow> ipaddr list \<Rightarrow> ipaddr list" where
  "sources_loop query_ip acc [] out = out"
| "sources_loop query_ip acc (ch # cs) out =
     (let (acc, out) = (if ch = CHR ''+'' then ([], out @ [IPAddress query_ip acc]) else (acc @ [ch], out))
      in sources_loop query_ip acc cs (if cs = [] then out @ [IPAddress query_ip acc] else out))"

definition config_sources ::
  "(string \<Rightarrow> (string \<times> string) option) \<Rightarrow> (string \<Rightarrow> ipaddr option) \<Rightarrow> string \<Rightarrow> ipaddr list exec" where
  "config_sources parse_args query_ip conf =
     (case parse_args conf of
        None \<Rightarrow> Inl Assert_failed
      | Some (m, s) \<Rightarrow> Inr (sources_loop query_ip [] s []))"

definition config_multicastAddress ::
  "(string \<Rightarrow> (string \<times> string) option) \<Rightarrow> (string \<Rightarrow> ipaddr option) \<Rightarrow> string \<Rightarrow> ipaddr exec" where
  "config_multicastAddress parse_args query_ip conf =
     (case parse_args conf of
        None \<Rightarrow> Inl Assert_failed
      | Some (m, s) \<Rightarrow> Inr (IPAddress query_ip m))"

definition includeSourcesHandler ::
  "(string \<Rightarrow> (string \<times> string) option) \<Rightarrow> (string \<Rightarrow> ipaddr option) \<Rightarrow> allocator \<Rightarrow> (int \<Rightarrow> int) \<Rightarrow> int \<Rightarrow>
     client \<Rightarrow> string \<Rightarrow> (int \<times> client) exec" where
  "includeSourcesHandler parse_args query_ip mem draw now me conf =
     (let srcs = [] in
      ebind (config_multicastAddress parse_args query_ip conf) (\<lambda>ma.
        if \<not> recordExists (c_db me) ma
        then (let me = me\<lparr> c_db := addRecord (c_db me) ma srcs INCLUDE \<rparr>
              in ebind (excludeWithInclude mem draw now me ma srcs) (\<lambda>me. Inr (0, me)))
        else ebind (getMode (c_db me) ma) (\<lambda>mode.
          if mode = INCLUDE then Inr (0, includeWithInclude me ma srcs)
          else ebind (excludeWithInclude mem draw now me ma srcs) (\<lambda>me. Inr (0, me)))))"

definition excludeSourcesHandler ::
  "(string \<Rightarrow> (string \<times> string) option) \<Rightarrow> (string \<Rightarrow> ipaddr option) \<Rightarrow> allocator \<Rightarrow> (int \<Rightarrow> int) \<Rightarrow> int \<Rightarrow>
     client \<Rightarrow> string \<Rightarrow> (int \<times> client) exec" where
  "excludeSourcesHandler parse_args query_ip mem draw now me conf =
     (let srcs = [] in
      ebind (config_multicastAddress parse_args query_ip conf) (\<lambda>ma.
        if \<not> recordExists (c_db me) ma
        then (let me = me\<lparr> c_db := addRecord (c_db me) ma srcs EXCLUDE \<rparr>
              in ebind (includeWithExclude mem draw now me ma srcs) (\<lambda>me. Inr (0, me)))
        else ebind (getMode (c_db me) ma) (\<lambda>mode.
          if mode = INCLUDE then ebind (includeWithExclude mem draw now me ma srcs) (\<lambda>me. Inr (0, me))
          else Inr (0, excludeWithExclude me ma srcs))))"

definition client_getDBHandler :: "client \<Rightarrow> string" where
  "client_getDBHandler me = cdb_toString (c_db me)"

section \<open>Vector operations\<close>

text \<open>\<open>if (std::find(out.begin(), out.end(), x) == out.end()) out.insert(out.end(), x);\<close>\<close>

definition insert_new :: "ipaddr \<Rightarrow> ipaddr list \<Rightarrow> ipaddr list" where
  "insert_new x out = (if x \<in> set out then out else out @ [x])"

definition vectorsUnion :: "ipaddr list \<Rightarrow> ipaddr list \<Rightarrow> ipaddr list" where
  "vectorsUnion a b = fold insert_new b (fold insert_new a [])"

text \<open>The inner loop of \<open>vectorsIntersection\<close>: it stops at the first match only if that match is inserted.\<close>

fun intersection_inner :: "ipaddr \<Rightarrow> ipaddr list \<Rightarrow> ipaddr list \<Rightarrow> ipaddr list" where
  "intersection_inner x [] out = out"
| "intersection_inner x (y # ys) out =
     (if x = y then if x \<notin> set out then out @ [y] else intersection_inner x ys out
      else intersection_inner x ys out)"

definition vectorsIntersection :: "ipaddr list \<Rightarrow> ipaddr list \<Rightarrow> ipaddr list" where
  "vectorsIntersection a b = fold (\<lambda>x out. intersection_inner x b out) a []"

definition vectorsMinus :: "ipaddr list \<Rightarrow> ipaddr list \<Rightarrow> ipaddr list" where
  "vectorsMinus a b =
     fold (\<lambda>x out. let matched = x \<in> set b in if \<not> matched then insert_new x out else out) a []"

section \<open>The vector operations are set operations\<close>

lemma fold_insert_new:
  "distinct out \<Longrightarrow> distinct (fold insert_new xs out) \<and> set (fold insert_new xs out) = set out \<union> set xs"
  by (induction xs arbitrary: out) (auto simp: insert_new_def)

lemma intersection_inner_eq:
  "intersection_inner x ys out = (if x \<in> set ys then insert_new x out else out)"
  by (induction x ys out rule: intersection_inner.induct) (auto simp: insert_new_def)

lemma fold_selected:
  assumes "\<And>x out. f x out = (if P x then insert_new x out else out)"
  shows "distinct out \<Longrightarrow> distinct (fold f xs out) \<and> set (fold f xs out) = set out \<union> {x \<in> set xs. P x}"
  by (induction xs arbitrary: out) (auto simp: assms insert_new_def)

lemma vectorsUnion_set: "set (vectorsUnion a b) = set a \<union> set b" "distinct (vectorsUnion a b)"
  using fold_insert_new [of "[]" a] fold_insert_new [of "fold insert_new a []" b]
  by (simp_all add: vectorsUnion_def)

lemma vectorsIntersection_set: "set (vectorsIntersection a b) = set a \<inter> set b" "distinct (vectorsIntersection a b)"
  using fold_selected [of "\<lambda>x out. intersection_inner x b out" "\<lambda>x. x \<in> set b" "[]" a]
  by (auto simp: vectorsIntersection_def intersection_inner_eq)

lemma vectorsMinus_set: "set (vectorsMinus a b) = set a - set b" "distinct (vectorsMinus a b)"
  using fold_selected [of "\<lambda>x out. let matched = x \<in> set b in if \<not> matched then insert_new x out else out"
      "\<lambda>x. x \<notin> set b" "[]" a]
  by (auto simp: vectorsMinus_def)

section \<open>The source list of a configuration string\<close>

fun join_plus :: "string list \<Rightarrow> string" where
  "join_plus [] = []"
| "join_plus [w] = w"
| "join_plus (w # w' # ws) = w @ CHR ''+'' # join_plus (w' # ws)"

lemma sources_loop_token:
  "CHR ''+'' \<notin> set w \<Longrightarrow> rest \<noteq> [] \<Longrightarrow>
     sources_loop q acc (w @ rest) out = sources_loop q (acc @ w) rest out"
  by (induction w arbitrary: acc) auto

lemma sources_loop_last:
  "CHR ''+'' \<notin> set w \<Longrightarrow> w \<noteq> [] \<Longrightarrow> sources_loop q acc w out = out @ [IPAddress q (acc @ w)]"
proof (induction w arbitrary: acc)
  case (Cons c w)
  then show ?case by (cases "w = []") auto
qed simp

lemma join_plus_Nil: "join_plus (w # ws) = [] \<longleftrightarrow> w = [] \<and> ws = []"
  by (cases ws) auto

lemma sources_loop_join:
  "ws \<noteq> [] \<Longrightarrow> \<forall>w \<in> set ws. CHR ''+'' \<notin> set w \<Longrightarrow> join_plus ws \<noteq> [] \<Longrightarrow>
     sources_loop q [] (join_plus ws) out = out @ map (IPAddress q) ws"
proof (induction ws arbitrary: out rule: join_plus.induct)
  case (2 w)
  then show ?case by (simp add: sources_loop_last)
next
  case (3 w w' ws)
  show ?case
  proof (cases "join_plus (w' # ws) = []")
    case True
    with 3 show ?thesis by (simp add: join_plus_Nil sources_loop_token)
  next
    case False
    with 3 show ?thesis by (simp add: sources_loop_token)
  qed
qed simp

lemma digit_char_plus: "d < 10 \<Longrightarrow> digit_char d \<noteq> CHR ''+''"
  using digit_facts(1) [of d] by (auto simp: isdigit_def)

lemma dec_string_no_plus: "CHR ''+'' \<notin> set (dec_string n)"
proof (induction n rule: dec_string.induct)
  case (1 n)
  have "CHR ''+'' \<noteq> digit_char (n mod 10)" using digit_char_plus [of "n mod 10"] by auto
  moreover have "n < 10 \<Longrightarrow> CHR ''+'' \<noteq> digit_char n" using digit_char_plus [of n] by auto
  ultimately show ?case using 1 by (subst dec_string.simps) auto
qed

lemma ip_unparse_no_plus: "CHR ''+'' \<notin> set (ip_unparse a)" "ip_unparse a \<noteq> []"
  by (auto simp: ip_unparse_def Let_def dec_string_no_plus)

text \<open>A list of printed addresses joined with plus signs is read back as the list.\<close>

lemma sources_roundtrip:
  "as \<noteq> [] \<Longrightarrow> sources_loop q [] (join_plus (map ip_unparse as)) [] = as"
proof -
  assume "as \<noteq> []"
  then have "join_plus (map ip_unparse as) \<noteq> []" by (cases as) (auto simp: join_plus_Nil ip_unparse_no_plus)
  with \<open>as \<noteq> []\<close> have "sources_loop q [] (join_plus (map ip_unparse as)) [] = map (IPAddress q) (map ip_unparse as)"
    by (subst sources_loop_join) (auto simp: ip_unparse_no_plus)
  moreover have "IPAddress q (ip_unparse a) = a" for a by (simp add: IPAddress_def ip_parse_unparse)
  ultimately show ?thesis by (simp add: map_idI)
qed

section \<open>What joining and leaving do\<close>

text \<open>A pending report that carries the given records, to be sent as often as the client repeats.\<close>

definition carries :: "packet option \<Rightarrow> grouprecord list \<Rightarrow> bool" where
  "carries q rs \<longleftrightarrow> (\<exists>p. q = Some p \<and> pdata p = report_bytes rs (click_in_cksum (report_bytes rs 0)) \<and> \<not> shared p)"

lemma report_carries:
  assumes "has_memory mem"
  shows "\<exists>q. report_generatePacket mem rs = Inr q \<and> carries q rs"
proof -
  have "mem_ok mem" using assms by (simp add: has_memory_def)
  from report_generatePacket_ok [OF this, of rs] obtain q where q: "report_generatePacket mem rs = Inr q"
    "\<forall>p. q = Some p \<longrightarrow> pdata p = report_bytes rs (click_in_cksum (report_bytes rs 0)) \<and> \<not> shared p"
    by blast
  moreover have "q \<noteq> None"
    using q(1) packet_make_has_memory [OF assms, of 0 None
        "sizeof_igmpv3report + fold (\<lambda>r n. n + calculateGrouprecordSize r) rs 0" 0]
    by (auto simp: report_generatePacket_def Let_def ebind_Inr_conv)
  ultimately show ?thesis by (auto simp: carries_def)
qed

text \<open>The record of a group after a join or leave: its old sources, if any, and the new mode.\<close>

abbreviation switched :: "client_db \<Rightarrow> ipaddr \<Rightarrow> filtermode \<Rightarrow> Record" where
  "switched db ma m \<equiv> \<lparr> multicast_address = ma,
     sources = (case getRecord db ma of None \<Rightarrow> [] | Some r \<Rightarrow> sources r), filter_mode = m \<rparr>"

lemma switch_db:
  "getRecord (snd (setMode (if recordExists db ma then db else addRecord db ma [] m0) ma m)) =
     (getRecord db)(ma \<mapsto> switched db ma m)"
  "cdb_inv db \<Longrightarrow> cdb_inv (snd (setMode (if recordExists db ma then db else addRecord db ma [] m0) ma m))"
  by (rule cdb.switch_lookup) (rule cdb.switch_invar)

lemma switched_same:
  "getRecord db ma = Some r \<Longrightarrow> filter_mode r = m \<Longrightarrow> (getRecord db)(ma \<mapsto> switched db ma m) = getRecord db"
  using getRecord_group [of db ma r] by (auto simp: fun_eq_iff)

lemma excludeSourcesHandler_spec:
  assumes "has_memory mem" and "cdb_inv (c_db c)"
    and "parse_args conf = Some (m, s)" and "IPAddress query_ip m = ma"
  shows "\<exists>c'. excludeSourcesHandler parse_args query_ip mem draw now c conf = Inr (0, c') \<and> cdb_inv (c_db c') \<and>
     getRecord (c_db c') = (getRecord (c_db c))(ma \<mapsto> switched (c_db c) ma EXCLUDE) \<and>
     (if map_option filter_mode (getRecord (c_db c) ma) = Some EXCLUDE then c' = c
      else \<exists>td. c_timers c' = c_timers c @ [(now + draw (unsolicited_report_interval c * 1000 + 1), td)] \<and>
             timesTosend td = robustness_variable c \<and> carries (td_report td) [generateRecord 4 ma []])"
proof -
  obtain q where q: "report_generatePacket mem [generateRecord 4 ma []] = Inr q" "carries q [generateRecord 4 ma []]"
    using report_carries [OF assms(1)] by blast
  show ?thesis
  proof (cases "getRecord (c_db c) ma")
    case None
    then have "\<not> recordExists (c_db c) ma" by (simp add: recordExists_iff)
    with None switch_db [of "c_db c" ma EXCLUDE EXCLUDE] assms q show ?thesis
      by (simp add: excludeSourcesHandler_def config_multicastAddress_def includeWithExclude_def
          report_toEX_def schedule_report_def Let_def)
  next
    case (Some r)
    then have "recordExists (c_db c) ma" by (simp add: recordExists_iff)
    with Some switch_db [of "c_db c" ma EXCLUDE EXCLUDE] switched_same [OF Some] assms q show ?thesis
      by (cases "filter_mode r")
         (simp_all add: excludeSourcesHandler_def config_multicastAddress_def includeWithExclude_def
          excludeWithExclude_def report_toEX_def schedule_report_def Let_def getMode_def)
  qed
qed

lemma includeSourcesHandler_spec:
  assumes "has_memory mem" and "cdb_inv (c_db c)"
    and "parse_args conf = Some (m, s)" and "IPAddress query_ip m = ma"
  shows "\<exists>c'. includeSourcesHandler parse_args query_ip mem draw now c conf = Inr (0, c') \<and> cdb_inv (c_db c') \<and>
     getRecord (c_db c') = (getRecord (c_db c))(ma \<mapsto> switched (c_db c) ma INCLUDE) \<and>
     (if map_option filter_mode (getRecord (c_db c) ma) = Some INCLUDE then c' = c
      else \<exists>td. c_timers c' = c_timers c @ [(now + draw (unsolicited_report_interval c * 1000 + 1), td)] \<and>
             timesTosend td = robustness_variable c \<and> carries (td_report td) [generateRecord 3 ma []])"
proof -
  obtain q where q: "report_generatePacket mem [generateRecord 3 ma []] = Inr q" "carries q [generateRecord 3 ma []]"
    using report_carries [OF assms(1)] by blast
  show ?thesis
  proof (cases "getRecord (c_db c) ma")
    case None
    then have "\<not> recordExists (c_db c) ma" by (simp add: recordExists_iff)
    with None switch_db [of "c_db c" ma INCLUDE INCLUDE] assms q show ?thesis
      by (simp add: includeSourcesHandler_def config_multicastAddress_def excludeWithInclude_def
          report_toIN_def schedule_report_def Let_def)
  next
    case (Some r)
    then have "recordExists (c_db c) ma" by (simp add: recordExists_iff)
    with Some switch_db [of "c_db c" ma INCLUDE INCLUDE] switched_same [OF Some] assms q show ?thesis
      by (cases "filter_mode r")
         (simp_all add: includeSourcesHandler_def config_multicastAddress_def excludeWithInclude_def
          includeWithInclude_def report_toIN_def schedule_report_def Let_def getMode_def)
  qed
qed

section \<open>How often a report is sent\<close>

text \<open>
  The timers started from one report, each firing when it is due: what is pushed and when. The first
  argument bounds the number of firings followed.
\<close>

fun report_chain :: "nat \<Rightarrow> int \<Rightarrow> timer_data \<Rightarrow> (int \<times> byte list) list exec" where
  "report_chain 0 due td = Inr []"
| "report_chain (Suc n) due td =
     ebind (handleSendReportTimer due td) (\<lambda>(next, p).
       (let here = (case p of None \<Rightarrow> [] | Some p \<Rightarrow> [(due, pdata p)])
        in case next of
             None \<Rightarrow> Inr here
           | Some (due', td') \<Rightarrow> ebind (report_chain n due' td') (\<lambda>later. Inr (here @ later))))"

lemma report_chain_times:
  assumes "td_report td = Some p" and "timesTosend td = int (Suc k)" and "Suc k \<le> n"
  shows "report_chain n due td = Inr (map (\<lambda>i. (due + int i * timeToWait td, pdata p)) [0..<Suc k])"
  using assms
proof (induction k arbitrary: n due td p)
  case 0
  then show ?case by (cases n) (simp_all add: handleSendReportTimer_def)
next
  case (Suc k)
  then obtain n' where n: "n = Suc n'" "Suc k \<le> n'" by (cases n) auto
  let ?td = "td\<lparr> timesTosend := timesTosend td - 1, td_report := Some (snd (clone p)) \<rparr>"
  have "report_chain n' (due + timeToWait td) ?td =
      Inr (map (\<lambda>i. (due + timeToWait td + int i * timeToWait ?td, pdata (snd (clone p)))) [0..<Suc k])"
    using Suc.prems n by (intro Suc.IH) simp_all
  then have "report_chain n due td = Inr ((due, pdata p) #
      map (\<lambda>i. (due + timeToWait td + int i * timeToWait td, pdata p)) [0..<Suc k])"
    using Suc.prems n by (simp add: handleSendReportTimer_def clone_def Let_def del: upt_Suc)
  moreover have "map (\<lambda>i. (due + int i * timeToWait td, pdata p)) [0..<Suc (Suc k)] =
      (due, pdata p) # map (\<lambda>i. (due + timeToWait td + int i * timeToWait td, pdata p)) [0..<Suc k]"
    by (subst upt_conv_Cons, simp, subst map_Suc_upt [symmetric]) (simp add: algebra_simps del: upt_Suc)
  ultimately show ?case by simp
qed

section \<open>The answer to a query\<close>

text \<open>The record a current-state report has for a group of the database.\<close>

definition state_record :: "Record \<Rightarrow> grouprecord" where
  "state_record r = generateRecord (if filter_mode r = INCLUDE then 1 else 2) (multicast_address r) []"

definition table_records :: "(ipaddr, filtermode) hashtable \<Rightarrow> grouprecord list" where
  "table_records t =
     map (\<lambda>(ma, m). if m = INCLUDE then generateRecord 0x01 ma [] else generateRecord 0x02 ma [])
       (ht_entries (ht_clone t))"

text \<open>The report lists every group of the database once, in the order of the hash table.\<close>

lemma table_records_of_db:
  assumes "cdb_inv db"
  shows "set (table_records (getMulticastFiltermodeTable db)) = state_record ` set db"
    "distinct (map gr_multicast_address (table_records (getMulticastFiltermodeTable db)))"
proof -
  let ?t = "getMulticastFiltermodeTable db"
  have inv: "ht_inv ip_hashcode ?t" using table_lookup_general [of db] by simp
  have clone: "ht_entries (ht_clone ?t) = ht_entries ?t"
    using ht_clone_facts [OF inv] inv by (simp add: ht_entries_concat [of ip_hashcode])
  have ent: "set (ht_entries ?t) = (\<lambda>r. (multicast_address r, filter_mode r)) ` set db"
  proof -
    have "(ma, m) \<in> set (ht_entries ?t) \<longleftrightarrow> (\<exists>r. getRecord db ma = Some r \<and> filter_mode r = m)" for ma m
      using ht.entries_iff [OF inv] table_lookup [OF assms] by (auto simp: map_option_case split: option.splits)
    moreover have "getRecord db ma = Some r \<longleftrightarrow> r \<in> set db \<and> multicast_address r = ma" for ma r
      using getRecord_group getRecord_mem [OF assms] by blast
    ultimately show ?thesis by (auto simp: image_iff)
  qed
  show "set (table_records ?t) = state_record ` set db"
    by (auto simp: table_records_def clone ent state_record_def image_image)
  have "map gr_multicast_address (table_records ?t) = map fst (ht_entries ?t)"
    by (auto simp: table_records_def clone generateRecord_def split: prod.split)
  then show "distinct (map gr_multicast_address (table_records ?t))"
    using ht.entries_distinct [OF inv] by simp
qed

lemma isINCLUDEOrEXCLUDE_carries:
  "has_memory mem \<Longrightarrow> \<exists>q. report_isINCLUDEOrEXCLUDE mem t = Inr q \<and> carries q (table_records t)"
  unfolding report_isINCLUDEOrEXCLUDE_def table_records_def by (rule report_carries)

text \<open>The \<^verbatim>\<open>ProcessQuery\<close> a query starts from: address 0.0.0.0 and no sources.\<close>

definition pq_fresh :: "ProcessQuery \<Rightarrow> bool" where
  "pq_fresh pq \<longleftrightarrow> pq_group_address pq = 0 \<and> pq_sources pq = []"

text \<open>A packet as the client's input gets it: readable, framed, protocol IGMP, and not itself a bare report.\<close>

definition igmp_framed :: "packet \<Rightarrow> byte list \<Rightarrow> byte list \<Rightarrow> bool" where
  "igmp_framed p iph body \<longleftrightarrow> sole_handle p \<and> framed p iph body \<and> iph ! 9 = 2 \<and> iph ! 0 \<noteq> 0x22"

lemma igmp_framed_facts:
  assumes "igmp_framed p iph body"
  shows "sole_handle p" "framed p iph body" "ip_p p = Inr 2" "client_push_report p = Inr False"
    "body \<noteq> [] \<Longrightarrow> read8 (data_view p) 20 = Inr (body ! 0)"
  using assms framed_fields [of p iph body] by (simp_all add: igmp_framed_def client_push_report_def)

lemma schedule_report_simps [simp]:
  "c_db (schedule_report now d r c) = c_db c"
  "c_timers (schedule_report now d r c) =
     c_timers c @ [(now + d, \<lparr> td_report = r, timesTosend = robustness_variable c, timeToWait = d \<rparr>)]"
  by (simp_all add: schedule_report_def)

lemma query_answer:
  assumes "has_memory mem"
  shows "\<exists>q. client_generalQuery mem draw now c pq =
        Inr (schedule_report now (draw (uint (pq_max_response_code pq) * 100 + 1)) q c) \<and>
      client_groupQuery mem draw now c pq =
        Inr (schedule_report now (draw (uint (pq_max_response_code pq) * 100 + 1)) q c) \<and>
      carries q (table_records (getMulticastFiltermodeTable (c_db c)))"
  using isINCLUDEOrEXCLUDE_carries [OF assms, of "getMulticastFiltermodeTable (c_db c)"]
  by (auto simp: client_generalQuery_def client_groupQuery_def Let_def)

lemma client_push_query_ok:
  assumes "has_memory mem" and "pq_fresh pq0"
    and "igmp_framed p iph (query_bytes ma (click_in_cksum (query_bytes ma 0)))"
  shows "\<exists>q. client_push mem draw now pq0 c (Some p) = Inr (schedule_report now (draw 10001) q c, []) \<and>
     carries q (table_records (getMulticastFiltermodeTable (c_db c)))"
proof -
  note f = igmp_framed_facts [OF assms(3)]
  obtain p' d where pr: "process_query mem pq0 p = Inr (None, \<lparr> pq_type = 0x11, pq_max_response_code = 100,
      pq_checksum = d, pq_group_address = ma, pq_resv_and_s_and_qrv = 2, pq_qqic = 125,
      pq_sources = pq_sources pq0, pq_verifiedChecksum = True \<rparr>, p')" (is "_ = Inr (_, ?pq, _)")
    using process_query_ok [OF assms(1) f(1,2)] by blast
  have t: "read8 (data_view p) 20 = Inr 0x11" using f(5) by (simp add: query_bytes_def)
  obtain q where q: "client_generalQuery mem draw now c ?pq = Inr (schedule_report now (draw 10001) q c)"
    "client_groupQuery mem draw now c ?pq = Inr (schedule_report now (draw 10001) q c)"
    "carries q (table_records (getMulticastFiltermodeTable (c_db c)))"
    using query_answer [OF assms(1), of draw now c ?pq] by auto
  then have "client_push mem draw now pq0 c (Some p) = Inr (schedule_report now (draw 10001) q c, [])"
    using assms(2) f(3,4) t pr
    by (cases "ma = 0")
       (simp_all add: client_push_def proccessQuery_def sizeof_click_ip_def isGeneralQuery_def isGroupQuery_def pq_fresh_def)
  with q(3) show ?thesis by blast
qed

text \<open>
  A query with a wrong checksum is answered as a general query, with a delay computed from the
  member that was never initialised.
\<close>

lemma client_push_bad_checksum:
  assumes "has_memory mem" and "pq_fresh pq0" and "igmp_framed p iph (0x11 # b # bytes16 d @ rest)"
    and "click_in_cksum (0x11 # b # 0 # 0 # rest) \<noteq> d"
  shows "\<exists>q. client_push mem draw now pq0 c (Some p) =
       Inr (schedule_report now (draw (uint (pq_max_response_code pq0) * 100 + 1)) q c, []) \<and>
     carries q (table_records (getMulticastFiltermodeTable (c_db c)))"
proof -
  note f = igmp_framed_facts [OF assms(3)]
  obtain p' e where pr: "process_query mem pq0 p =
      Inr (Some (- 1), pq0\<lparr> pq_verifiedChecksum := False, pq_checksum := e \<rparr>, p')" (is "_ = Inr (_, ?pq, _)")
    using bad_checksum_total [OF assms(1) f(1,2) assms(4)] by blast
  have t: "read8 (data_view p) 20 = Inr 0x11" using f(5) by simp
  obtain q where q: "client_generalQuery mem draw now c ?pq =
      Inr (schedule_report now (draw (uint (pq_max_response_code pq0) * 100 + 1)) q c)"
    "carries q (table_records (getMulticastFiltermodeTable (c_db c)))"
    using query_answer [OF assms(1), of draw now c ?pq] by auto
  moreover have "isGeneralQuery ?pq" using assms(2) by (simp add: isGeneralQuery_def pq_fresh_def)
  ultimately have "client_push mem draw now pq0 c (Some p) =
      Inr (schedule_report now (draw (uint (pq_max_response_code pq0) * 100 + 1)) q c, [])"
    using f(3,4) t pr by (simp add: client_push_def proccessQuery_def sizeof_click_ip_def)
  with q(2) show ?thesis by blast
qed

section \<open>Properties\<close>




lemma ex_pq_fresh: "pq_fresh ex_pq"
  by (simp add: pq_fresh_def ex_pq_def)

text \<open>A received IGMP message behind a 20-byte IP header.\<close>

definition ex_igmp :: "byte list \<Rightarrow> packet" where
  "ex_igmp body = ex_packet\<lparr> pdata := ([0x45, 0, 0, 0, 0, 0, 0, 0, 1, 2] @ replicate 10 0) @ body, data_packet := None \<rparr>"

lemma ex_igmp_framed: "igmp_framed (ex_igmp body) ([0x45, 0, 0, 0, 0, 0, 0, 0, 1, 2] @ replicate 10 0) body"
  by (simp add: igmp_framed_def ex_igmp_def framed_def sole_handle_def ex_packet_def)


text \<open>
  A query with a wrong checksum is answered all the same: the result of \<open>process\<close> is ignored, the members
  still look like those of a general query, and the delay comes from a response code that was never read.
\<close>

lemma bad_query_answered:
  assumes "has_memory mem" and "pq_fresh pq0" and "igmp_framed p iph (0x11 # b # bytes16 d @ rest)"
    and "click_in_cksum (0x11 # b # 0 # 0 # rest) \<noteq> d"
  shows "\<exists>q. client_push mem draw now pq0 c (Some p) =
       Inr (schedule_report now (draw (uint (pq_max_response_code pq0) * 100 + 1)) q c, []) \<and>
     carries q (table_records (getMulticastFiltermodeTable (c_db c)))"
  by (rule client_push_bad_checksum [OF assms])

theorem bad_query_answered_witness:
  "\<exists>q. client_push ex_mem (\<lambda>n. n) 0 ex_pq (client_new 0 []) (Some (ex_igmp (0x11 # 0 # bytes16 0 @ []))) =
     Inr (schedule_report 0 5001 q (client_new 0 []), [])"
proof -
  have "click_in_cksum [0x11, 0, 0, 0] \<noteq> 0"
    by (simp add: click_in_cksum_zero_iff le16_def)
  then show ?thesis
    using bad_query_answered [OF ex_mem_ok ex_pq_fresh ex_igmp_framed, of 0 "[]" 0 "\<lambda>n. n" 0 "client_new 0 []"]
    by (fastforce simp: ex_pq_def)
qed

text \<open>
  The handlers are idempotent: joining a group a second time, or leaving it a second time, changes neither the
  database nor the pending reports.
\<close>

lemma handlers_idempotent:
  assumes "has_memory mem" and "cdb_inv (c_db c)" and "parse_args conf = Some (m, s)"
  shows "(\<exists>c'. excludeSourcesHandler parse_args query_ip mem draw now c conf = Inr (0, c') \<and>
       excludeSourcesHandler parse_args query_ip mem draw later c' conf = Inr (0, c')) \<and>
     (\<exists>c'. includeSourcesHandler parse_args query_ip mem draw now c conf = Inr (0, c') \<and>
       includeSourcesHandler parse_args query_ip mem draw later c' conf = Inr (0, c'))"
proof
  obtain c' where c': "excludeSourcesHandler parse_args query_ip mem draw now c conf = Inr (0, c')" "cdb_inv (c_db c')"
    "getRecord (c_db c') = (getRecord (c_db c))(IPAddress query_ip m \<mapsto> switched (c_db c) (IPAddress query_ip m) EXCLUDE)"
    using excludeSourcesHandler_spec [of mem c parse_args conf m s query_ip _ draw now, OF assms refl] by blast
  with excludeSourcesHandler_spec [of mem c' parse_args conf m s query_ip _ draw later, OF assms(1) c'(2) assms(3) refl]
  show "\<exists>c'. excludeSourcesHandler parse_args query_ip mem draw now c conf = Inr (0, c') \<and>
       excludeSourcesHandler parse_args query_ip mem draw later c' conf = Inr (0, c')"
    by auto
next
  obtain c' where c': "includeSourcesHandler parse_args query_ip mem draw now c conf = Inr (0, c')" "cdb_inv (c_db c')"
    "getRecord (c_db c') = (getRecord (c_db c))(IPAddress query_ip m \<mapsto> switched (c_db c) (IPAddress query_ip m) INCLUDE)"
    using includeSourcesHandler_spec [of mem c parse_args conf m s query_ip _ draw now, OF assms refl] by blast
  with includeSourcesHandler_spec [of mem c' parse_args conf m s query_ip _ draw later, OF assms(1) c'(2) assms(3) refl]
  show "\<exists>c'. includeSourcesHandler parse_args query_ip mem draw now c conf = Inr (0, c') \<and>
       includeSourcesHandler parse_args query_ip mem draw later c' conf = Inr (0, c')"
    by auto
qed

theorem handlers_idempotent_witness:
  "\<exists>c'. excludeSourcesHandler (\<lambda>s. Some (s, [])) no_names ex_mem (\<lambda>n. 0) 0 (client_new 0 []) ''239.0.0.0'' = Inr (0, c') \<and>
     excludeSourcesHandler (\<lambda>s. Some (s, [])) no_names ex_mem (\<lambda>n. 0) 9 c' ''239.0.0.0'' = Inr (0, c')"
  using handlers_idempotent [OF ex_mem_ok, of "client_new 0 []" "\<lambda>s. Some (s, [])" "''239.0.0.0''"]
  by (simp add: client_new_def cdb_inv_def)

text \<open>
  The source list of a handler argument round-trips: addresses printed and joined with plus signs
  are read back in order.
\<close>

lemma config_sources_roundtrip:
  assumes "parse_args conf = Some (m, join_plus (map ip_unparse as))" and "as \<noteq> []"
  shows "config_sources parse_args query_ip conf = Inr as"
  using assms sources_roundtrip by (simp add: config_sources_def)

theorem config_sources_roundtrip_witness:
  "config_sources (\<lambda>s. Some ([], join_plus (map ip_unparse [ip_quad 10 0 0 1, ip_quad 10 0 0 2]))) no_names [] =
     Inr [ip_quad 10 0 0 1, ip_quad 10 0 0 2]"
  by (rule config_sources_roundtrip) simp_all

text \<open>
  The helpers on source vectors compute union, intersection and difference of the elements, each
  without duplicates.
\<close>

lemma vector_set_operations:
  "set (vectorsUnion a b) = set a \<union> set b \<and> set (vectorsIntersection a b) = set a \<inter> set b \<and>
   set (vectorsMinus a b) = set a - set b \<and>
   distinct (vectorsUnion a b) \<and> distinct (vectorsIntersection a b) \<and> distinct (vectorsMinus a b)"
  by (simp add: vectorsUnion_set vectorsIntersection_set vectorsMinus_set)

end
