(* ===== verification/IGMP_RouterDB.thy ===== *)
theory IGMP_RouterDB
  imports IGMP_ClientDB
begin

text \<open>
  The router database (\<^verbatim>\<open>elements/IGMPRouterDB.cc\<close>): a hash table from client addresses to client
  databases, each owned by this table. \<open>getDb\<close> returns a pointer; \<open>on_db\<close> is the assignment through
  it. Iterating a table moves its cached first bucket (a \<^verbatim>\<open>mutable\<close> member), which \<open>ht_begin_inv\<close> shows
  to leave the contents alone, so the queries below return only their answers. The theory ends with
  the interface \<open>multicast_db\<close> that the forwarding elements rely on.
\<close>

type_synonym router_db = "(ipaddr, client_db) hashtable"

section \<open>Operations\<close>

definition rdb_toString :: "router_db \<Rightarrow> string" where
  "rdb_toString db =
     concat (map (\<lambda>(client, cdb).
        ''============================'' @ newline @ ''Client '' @ ip_unparse client @ newline @
        ''============================'' @ newline @ cdb_toString cdb) (ht_entries db))"

definition dbExists :: "router_db \<Rightarrow> ipaddr \<Rightarrow> bool" where
  "dbExists db ca = (if ht_find ip_hashcode db ca = None then False else True)"

text \<open>\<open>dbs.get\<close> returns the stored pointer, or the default pointer value, null (\<open>None\<close>), for an absent key.\<close>

definition getDb :: "router_db \<Rightarrow> ipaddr \<Rightarrow> client_db option" where
  "getDb db ca = ht_find ip_hashcode db ca"

text \<open>Assigning to the client database \<open>getDb\<close> points to: the table's own value at that key.\<close>

definition on_db :: "router_db \<Rightarrow> ipaddr \<Rightarrow> client_db \<Rightarrow> router_db" where
  "on_db db ca cdb = snd (ht_set ip_hashcode ca cdb db)"

definition addDb :: "router_db \<Rightarrow> ipaddr \<Rightarrow> int \<times> router_db" where
  "addDb db ca = (if dbExists db ca then (- 1, db) else (0, snd (ht_set ip_hashcode ca [] db)))"

fun accept_loop :: "(ipaddr \<times> client_db) list \<Rightarrow> ipaddr \<Rightarrow> ipaddr \<Rightarrow> ipaddr list \<Rightarrow> ipaddr list" where
  "accept_loop [] ma src accepted = accepted"
| "accept_loop ((client, clientDb) # es) ma src accepted =
     accept_loop es ma src (if cdb_acceptFromSource clientDb ma src then accepted @ [client] else accepted)"

definition rdb_acceptFromSource :: "router_db \<Rightarrow> ipaddr \<Rightarrow> ipaddr \<Rightarrow> ipaddr list" where
  "rdb_acceptFromSource db ma src = accept_loop (ht_entries db) ma src []"

fun accept_client_loop ::
  "(ipaddr \<times> client_db) list \<Rightarrow> ipaddr \<Rightarrow> ipaddr \<Rightarrow> ipaddr \<Rightarrow> ipaddr \<Rightarrow> bool" where
  "accept_client_loop [] ma src ca msk = False"
| "accept_client_loop ((client, clientDb) # es) ma src ca msk =
     (if matches_prefix client ca msk = False then accept_client_loop es ma src ca msk
      else if cdb_acceptFromSource clientDb ma src then True
      else accept_client_loop es ma src ca msk)"

definition acceptFromSourceAsClient :: "router_db \<Rightarrow> ipaddr \<Rightarrow> ipaddr \<Rightarrow> ipaddr \<Rightarrow> ipaddr \<Rightarrow> bool" where
  "acceptFromSourceAsClient db ma src ca msk = accept_client_loop (ht_entries db) ma src ca msk"

section \<open>Invariant and answers\<close>

definition rdb_inv :: "router_db \<Rightarrow> bool" where
  "rdb_inv db \<longleftrightarrow> ht_inv ip_hashcode db \<and> (\<forall>e \<in> set (ht_entries db). cdb_inv (snd e))"

text \<open>The abstract state: for each client, the sources it accepts for each group.\<close>

definition member :: "router_db \<Rightarrow> ipaddr \<Rightarrow> ipaddr \<Rightarrow> ipaddr \<Rightarrow> bool" where
  "member db client ma src \<longleftrightarrow>
     (case getDb db client of None \<Rightarrow> False | Some cdb \<Rightarrow> cdb_acceptFromSource cdb ma src)"

lemma accept_loop_filter:
  "accept_loop es ma src acc = acc @ map fst (filter (\<lambda>e. cdb_acceptFromSource (snd e) ma src) es)"
  by (induction es ma src acc rule: accept_loop.induct) auto

lemma accept_client_loop_iff:
  "accept_client_loop es ma src ca msk \<longleftrightarrow>
     (\<exists>e \<in> set es. matches_prefix (fst e) ca msk \<and> cdb_acceptFromSource (snd e) ma src)"
  by (induction es ma src ca msk rule: accept_client_loop.induct) auto

lemma rdb_inv_alt:
  "rdb_inv db \<longleftrightarrow> ht_inv ip_hashcode db \<and> (\<forall>ca cdb. getDb db ca = Some cdb \<longrightarrow> cdb_inv cdb)"
  unfolding rdb_inv_def getDb_def
  using ht.ex_entry [of ip_hashcode db "\<lambda>_ cdb. \<not> cdb_inv cdb"] by auto

lemma rdb_inv_empty: "rdb_inv ht_empty"
  by (simp add: rdb_inv_alt ht_inv_empty getDb_def ht_find_empty)

lemma getDb_addDb:
  "rdb_inv db \<Longrightarrow> getDb (snd (addDb db ca)) = (if dbExists db ca then getDb db else (getDb db)(ca \<mapsto> []))"
  by (auto simp: addDb_def getDb_def rdb_inv_def ht.lookup_put fun_eq_iff)

lemma addDb_inv: "rdb_inv db \<Longrightarrow> rdb_inv (snd (addDb db ca))"
  unfolding rdb_inv_alt
  by (auto simp: addDb_def getDb_def ht.invar_put ht.lookup_put cdb_inv_def)

lemma getDb_on_db: "rdb_inv db \<Longrightarrow> getDb (on_db db ca cdb) = (getDb db)(ca \<mapsto> cdb)"
  by (auto simp: on_db_def getDb_def rdb_inv_def ht.lookup_put)

lemma on_db_inv: "rdb_inv db \<Longrightarrow> cdb_inv cdb \<Longrightarrow> rdb_inv (on_db db ca cdb)"
  unfolding rdb_inv_alt
  by (auto simp: on_db_def getDb_def ht.invar_put ht.lookup_put)

lemma dbExists_iff: "dbExists db ca \<longleftrightarrow> getDb db ca \<noteq> None"
  by (simp add: dbExists_def getDb_def)

lemma acceptFromSource_set:
  "rdb_inv db \<Longrightarrow> set (rdb_acceptFromSource db ma src) = {c. member db c ma src}"
proof -
  assume "rdb_inv db"
  then have "ht_inv ip_hashcode db" by (simp add: rdb_inv_def)
  then have "set (rdb_acceptFromSource db ma src) =
      {c. \<exists>cdb. ht_find ip_hashcode db c = Some cdb \<and> cdb_acceptFromSource cdb ma src}"
    using ht.selected_keys [of ip_hashcode db "\<lambda>_ cdb. cdb_acceptFromSource cdb ma src"]
    by (simp add: rdb_acceptFromSource_def accept_loop_filter)
  then show ?thesis by (auto simp: member_def getDb_def split: option.splits)
qed

lemma acceptFromSource_distinct:
  "rdb_inv db \<Longrightarrow> distinct (rdb_acceptFromSource db ma src)"
  using ht.entries_distinct [of ip_hashcode db]
  by (simp add: rdb_inv_def rdb_acceptFromSource_def accept_loop_filter distinct_map_filter)

lemma acceptAsClient_iff:
  "rdb_inv db \<Longrightarrow> acceptFromSourceAsClient db ma src ca msk \<longleftrightarrow>
     (\<exists>c. matches_prefix c ca msk \<and> member db c ma src)"
proof -
  assume "rdb_inv db"
  then have "ht_inv ip_hashcode db" by (simp add: rdb_inv_def)
  then show ?thesis
    using ht.ex_entry [of ip_hashcode db "\<lambda>c cdb. matches_prefix c ca msk \<and> cdb_acceptFromSource cdb ma src"]
    by (auto simp: acceptFromSourceAsClient_def accept_client_loop_iff member_def getDb_def
        split: option.splits)
qed

section \<open>The interface of the forwarding elements\<close>

text \<open>
  The classifier asks whether any client wants a packet, the senders whether a client in their subnet
  does. What they rely on is that both answers come from one membership relation.
\<close>

locale multicast_db =
  fixes invar :: "'db \<Rightarrow> bool"
    and mem :: "'db \<Rightarrow> ipaddr \<Rightarrow> ipaddr \<Rightarrow> ipaddr \<Rightarrow> bool"
    and acceptors :: "'db \<Rightarrow> ipaddr \<Rightarrow> ipaddr \<Rightarrow> ipaddr list"
    and subnet_accepts :: "'db \<Rightarrow> ipaddr \<Rightarrow> ipaddr \<Rightarrow> ipaddr \<Rightarrow> ipaddr \<Rightarrow> bool"
  assumes acceptors_set: "invar db \<Longrightarrow> set (acceptors db ma src) = {c. mem db c ma src}"
    and acceptors_distinct: "invar db \<Longrightarrow> distinct (acceptors db ma src)"
    and subnet_iff: "invar db \<Longrightarrow> subnet_accepts db ma src ca msk \<longleftrightarrow>
          (\<exists>c. matches_prefix c ca msk \<and> mem db c ma src)"
begin

lemma acceptors_empty_iff: "invar db \<Longrightarrow> acceptors db ma src = [] \<longleftrightarrow> (\<forall>c. \<not> mem db c ma src)"
  by (simp add: acceptors_set flip: set_empty)

lemma subnet_needs_acceptor: "invar db \<Longrightarrow> subnet_accepts db ma src ca msk \<Longrightarrow> acceptors db ma src \<noteq> []"
  by (auto simp: acceptors_empty_iff subnet_iff)

text \<open>The zero mask is the whole address space, so its subnet accepts what anyone accepts.\<close>

lemma subnet_all: "invar db \<Longrightarrow> subnet_accepts db ma src ca 0 \<longleftrightarrow> acceptors db ma src \<noteq> []"
  by (auto simp: acceptors_empty_iff subnet_iff matches_prefix_def)

end

interpretation rdb: multicast_db rdb_inv member rdb_acceptFromSource acceptFromSourceAsClient
  by unfold_locales (simp_all add: acceptFromSource_set acceptFromSource_distinct acceptAsClient_iff)

section \<open>Properties\<close>

text \<open>
  C11. The two questions the forwarding elements ask are answered exactly: \<open>acceptFromSource\<close> lists each
  client that is a member of the group for the source once and no other, and \<open>acceptFromSourceAsClient\<close> says
  whether one of them is in the subnet.
\<close>

theorem routerdb_acceptance:
  assumes "rdb_inv db"
  shows "set (rdb_acceptFromSource db ma src) = {c. member db c ma src} \<and>
     distinct (rdb_acceptFromSource db ma src) \<and>
     (acceptFromSourceAsClient db ma src addr msk \<longleftrightarrow>
        (\<exists>c \<in> set (rdb_acceptFromSource db ma src). matches_prefix c addr msk))"
  using rdb.acceptors_set [OF assms] rdb.acceptors_distinct [OF assms] rdb.subnet_iff [OF assms] by auto

theorem routerdb_acceptance_witness:
  "set (rdb_acceptFromSource (snd (addDb ht_empty 9)) 7 1) = {c. member (snd (addDb ht_empty 9)) c 7 1}"
  using routerdb_acceptance [OF addDb_inv [OF rdb_inv_empty]] by blast

end
