(* ===== verification/IGMP_Router.thy ===== *)
theory IGMP_Router
  imports IGMP_RouterDB IGMP_Query
begin

text \<open>
  The IGMP router element (\<^verbatim>\<open>elements/IGMPRouter.cc\<close>): it applies reports to the router database, sends a
  general query every \<open>query_interval\<close> seconds and schedules group queries when a client leaves.
  The database is an element of its own that the forwarding elements read; here it is part of
  the router's state. \<open>mem\<close> is the packet allocator, \<open>now\<close> the clock in milliseconds, \<open>pr0\<close> the
  freshly constructed \<^verbatim>\<open>ProcessReport\<close>. Packets pushed to output 0 are returned as a list.
\<close>

section \<open>State\<close>

text \<open>The members of the class with their initialisers; integer division as in C (all operands positive).\<close>

record router =
  r_db :: router_db
  groupQuerysSheduled :: "ipaddr list"
  query_timers :: "(int \<times> packet) list"
  general_timer :: "int option"
  r_robustness_variable :: int
  query_interval :: int
  query_response_interval :: int
  group_memberschip_interval :: int
  other_querier_interval :: int
  startup_query_interval :: int
  startup_query_count :: int
  last_member_query_interval :: int
  last_member_query_count :: int
  last_member_query_time :: int
  max_response_time :: int

definition router_new :: "router_db \<Rightarrow> router" where
  "router_new db =
     (let robustness = 2; interval = 125; response = 100; last_interval = 10; last_count = robustness
      in \<lparr> r_db = db, groupQuerysSheduled = [], query_timers = [], general_timer = None,
           r_robustness_variable = robustness, query_interval = interval, query_response_interval = response,
           group_memberschip_interval = robustness * interval * response,
           other_querier_interval = robustness * response + 1 div 2 * response,
           startup_query_interval = 1 div 4 * interval,
           startup_query_count = robustness,
           last_member_query_interval = last_interval, last_member_query_count = last_count,
           last_member_query_time = last_interval * last_count, max_response_time = 100 \<rparr>)"

text \<open>\<open>configure\<close>: the timer is started before the arguments are parsed; \<open>kparse\<close> is the parser's result.\<close>

definition router_configure :: "int \<Rightarrow> int + router_db \<Rightarrow> router \<Rightarrow> int \<times> router" where
  "router_configure now kparse r =
     (let r = r\<lparr> general_timer := Some (now + query_interval r * 1000) \<rparr>
      in case kparse of Inl res \<Rightarrow> (res, r) | Inr tempDb \<Rightarrow> (0, r\<lparr> r_db := tempDb \<rparr>))"

section \<open>Group queries\<close>

text \<open>\<open>for (i = 0; i < robustness_variable; i++)\<close>: each round makes a query packet and a timer of 2 ms.\<close>

fun schedule_queries :: "allocator \<Rightarrow> int \<Rightarrow> ipaddr \<Rightarrow> nat \<Rightarrow> router \<Rightarrow> router exec" where
  "schedule_queries mem now ma 0 r = Inr r"
| "schedule_queries mem now ma (Suc n) r =
     ebind (query_groupQuery mem ma) (\<lambda>q.
       schedule_queries mem now ma n (r\<lparr> query_timers := query_timers r @ [(now + 2, q)] \<rparr>))"

definition sendGroupQuery :: "allocator \<Rightarrow> int \<Rightarrow> router \<Rightarrow> ipaddr \<Rightarrow> router exec" where
  "sendGroupQuery mem now r ma =
     (if ma \<in> set (groupQuerysSheduled r) then Inr r
      else ebind (schedule_queries mem now ma (nat (r_robustness_variable r)) r) (\<lambda>r.
        Inr (r\<lparr> groupQuerysSheduled := groupQuerysSheduled r @ [ma] \<rparr>)))"

section \<open>Applying reports\<close>

definition router_isINCLUDE :: "router \<Rightarrow> ipaddr \<Rightarrow> ipaddr \<Rightarrow> int \<times> router" where
  "router_isINCLUDE r ca ma = (0, r)"

definition router_isEXCLUDE :: "router \<Rightarrow> ipaddr \<Rightarrow> ipaddr \<Rightarrow> int \<times> router" where
  "router_isEXCLUDE r ca ma = (0, r)"

definition router_toEX :: "router \<Rightarrow> ipaddr \<Rightarrow> ipaddr \<Rightarrow> ipaddr list \<Rightarrow> (int \<times> router) exec" where
  "router_toEX r ca ma srcs =
     (let db = (if dbExists (r_db r) ca = False then snd (addDb (r_db r) ca) else r_db r)
      in case getDb db ca of
           None \<Rightarrow> Inl Null_deref
         | Some cdb \<Rightarrow>
             (let cdb = (if recordExists cdb ma = False then addRecord cdb ma [] INCLUDE else cdb);
                  cdb = snd (setMode cdb ma EXCLUDE)
              in Inr (0, r\<lparr> r_db := on_db db ca cdb \<rparr>)))"

definition router_toIN :: "allocator \<Rightarrow> int \<Rightarrow> router \<Rightarrow> ipaddr \<Rightarrow> ipaddr \<Rightarrow> ipaddr list \<Rightarrow> (int \<times> router) exec" where
  "router_toIN mem now r ca ma srcs =
     (let db = (if dbExists (r_db r) ca = False then snd (addDb (r_db r) ca) else r_db r)
      in case getDb db ca of
           None \<Rightarrow> Inl Null_deref
         | Some cdb \<Rightarrow>
             (let cdb = (if recordExists cdb ma = False then addRecord cdb ma [] INCLUDE else cdb);
                  cdb = snd (setMode cdb ma INCLUDE)
              in ebind (sendGroupQuery mem now (r\<lparr> r_db := on_db db ca cdb \<rparr>) ma) (\<lambda>r. Inr (0, r))))"

definition router_block :: "router \<Rightarrow> ipaddr \<Rightarrow> ipaddr \<Rightarrow> ipaddr list \<Rightarrow> int \<times> router" where
  "router_block r ca ma srcs = (0, r)"

definition router_allow :: "router \<Rightarrow> ipaddr \<Rightarrow> ipaddr \<Rightarrow> ipaddr list \<Rightarrow> int \<times> router" where
  "router_allow r ca ma srcs = (0, r)"

text \<open>One round of the loop over the records of a report.\<close>

definition apply_record :: "allocator \<Rightarrow> int \<Rightarrow> ipaddr \<Rightarrow> grouprecord \<Rightarrow> router \<Rightarrow> router exec" where
  "apply_record mem now ca rec r =
     (let t = gr_type rec; ma = gr_multicast_address rec; srcs = gr_sources rec in
      if t = 0x01 then Inr (snd (router_isINCLUDE r ca ma))
      else if t = 0x02 then Inr (snd (router_isEXCLUDE r ca ma))
      else if t = 0x03 then ebind (router_toIN mem now r ca ma srcs) (\<lambda>x. Inr (snd x))
      else if t = 0x04 then ebind (router_toEX r ca ma srcs) (\<lambda>x. Inr (snd x))
      else if t = 0x05 then Inr (snd (router_allow r ca ma srcs))
      else if t = 0x06 then Inr (snd (router_block r ca ma srcs))
      else Inr r)"

fun apply_records :: "allocator \<Rightarrow> int \<Rightarrow> ipaddr \<Rightarrow> grouprecord list \<Rightarrow> router \<Rightarrow> router exec" where
  "apply_records mem now ca [] r = Inr r"
| "apply_records mem now ca (rec # recs) r =
     ebind (apply_record mem now ca rec r) (\<lambda>r. apply_records mem now ca recs r)"

text \<open>\<open>processReport\<close> ignores what \<open>process\<close> returns and has no return statement of its own.\<close>

definition router_processReport :: "allocator \<Rightarrow> int \<Rightarrow> ProcessReport \<Rightarrow> router \<Rightarrow> packet \<Rightarrow> router exec" where
  "router_processReport mem now pr0 r p =
     ebind (process_report mem pr0 p) (\<lambda>(_, pr, p).
     ebind (ip_src p) (\<lambda>client. apply_records mem now client (pr_records pr) r))"

definition router_push ::
  "allocator \<Rightarrow> int \<Rightarrow> ProcessReport \<Rightarrow> router \<Rightarrow> packet option \<Rightarrow> (router \<times> packet list) exec" where
  "router_push mem now pr0 r p =
     (case p of
        None \<Rightarrow> Inr (r, [])
      | Some p \<Rightarrow>
          ebind (read8 (data_view p) (sizeof_click_ip + r_type)) (\<lambda>t.
            if t = 0x22 then ebind (router_processReport mem now pr0 r p) (\<lambda>r. Inr (r, []))
            else ebind (read8 (data_view p) (sizeof_click_ip + q_type)) (\<lambda>t.
              if t = 0x11 then Inr (r, [p]) else Inr (r, []))))"

definition router_run_timer :: "allocator \<Rightarrow> int \<Rightarrow> ProcessReport \<Rightarrow> router \<Rightarrow> (router \<times> packet list) exec" where
  "router_run_timer mem now pr0 r =
     ebind (query_generalQuery mem) (\<lambda>q.
     ebind (router_push mem now pr0 r (Some q)) (\<lambda>(r, out).
     Inr (r\<lparr> general_timer := Some (now + query_interval r * 1000) \<rparr>, out)))"

definition handleSendGroupQuery :: "allocator \<Rightarrow> ProcessReport \<Rightarrow> router \<Rightarrow> nat \<Rightarrow> (router \<times> packet list) exec" where
  "handleSendGroupQuery mem pr0 r i =
     (if i < length (query_timers r)
      then (case query_timers r ! i of (due, q) \<Rightarrow>
              router_push mem due pr0 (r\<lparr> query_timers := list_erase i (query_timers r) \<rparr>) (Some q))
      else Inr (r, []))"

definition router_getDBHandler :: "router \<Rightarrow> string" where
  "router_getDBHandler me = rdb_toString (r_db me)"

section \<open>What a state change does to the membership relation\<close>

text \<open>The record of a client and group, if there is one.\<close>

definition group_record :: "router_db \<Rightarrow> ipaddr \<Rightarrow> ipaddr \<Rightarrow> Record option" where
  "group_record db ca ma = (case getDb db ca of None \<Rightarrow> None | Some cdb \<Rightarrow> getRecord cdb ma)"

lemma member_group_record:
  "member db ca ma src \<longleftrightarrow> (\<exists>r. group_record db ca ma = Some r \<and> src \<in> accepted_sources r)"
  by (auto simp: member_def group_record_def accept_iff split: option.split)

text \<open>The database both changes compute: the client and the group are added if they are missing.\<close>

definition switch_group :: "filtermode \<Rightarrow> ipaddr \<Rightarrow> ipaddr \<Rightarrow> router_db \<Rightarrow> router_db" where
  "switch_group m ca ma db =
     (let db' = (if dbExists db ca then db else snd (addDb db ca));
          cdb = (case getDb db' ca of None \<Rightarrow> [] | Some cdb \<Rightarrow> cdb)
      in on_db db' ca (snd (setMode (if recordExists cdb ma then cdb else addRecord cdb ma [] INCLUDE) ma m)))"

lemma getDb_after_add:
  "rdb_inv db \<Longrightarrow> \<exists>cdb. getDb (if dbExists db ca then db else snd (addDb db ca)) ca = Some cdb"
  by (auto simp: getDb_addDb dbExists_iff)

lemma toEX_switch: "rdb_inv (r_db r) \<Longrightarrow> router_toEX r ca ma srcs = Inr (0, r\<lparr> r_db := switch_group EXCLUDE ca ma (r_db r) \<rparr>)"
  using getDb_after_add [of "r_db r" ca]
  by (cases "dbExists (r_db r) ca") (auto simp: router_toEX_def switch_group_def Let_def)

lemma toIN_switch:
  "rdb_inv (r_db r) \<Longrightarrow> router_toIN mem now r ca ma srcs =
     ebind (sendGroupQuery mem now (r\<lparr> r_db := switch_group INCLUDE ca ma (r_db r) \<rparr>) ma) (\<lambda>r. Inr (0, r))"
  using getDb_after_add [of "r_db r" ca]
  by (cases "dbExists (r_db r) ca") (auto simp: router_toIN_def switch_group_def Let_def)

lemma switch_group_inv:
  assumes "rdb_inv db"
  shows "rdb_inv (switch_group m ca ma db)"
proof -
  let ?db = "if dbExists db ca then db else snd (addDb db ca)"
  have inv: "rdb_inv ?db" using assms by (simp add: addDb_inv)
  obtain cdb where "getDb ?db ca = Some cdb" using getDb_after_add [OF assms] by blast
  moreover from this inv have "cdb_inv cdb" unfolding rdb_inv_alt by blast
  ultimately show ?thesis
    unfolding switch_group_def Let_def by (simp only: option.case on_db_inv [OF inv] cdb.switch_invar)
qed

lemma switch_group_record:
  assumes "rdb_inv db"
  shows "group_record (switch_group m ca ma db) ca' ma' =
     (if ca' = ca \<and> ma' = ma
      then Some \<lparr> multicast_address = ma,
                  sources = (case group_record db ca ma of None \<Rightarrow> [] | Some r \<Rightarrow> sources r), filter_mode = m \<rparr>
      else group_record db ca' ma')"
proof -
  define db' where "db' = (if dbExists db ca then db else snd (addDb db ca))"
  define cdb where "cdb = (case getDb db' ca of None \<Rightarrow> [] | Some cdb \<Rightarrow> cdb)"
  have inv: "rdb_inv db'" using assms by (simp add: db'_def addDb_inv)
  have g: "getDb (switch_group m ca ma db) =
      (getDb db')(ca \<mapsto> snd (setMode (if recordExists cdb ma then cdb else addRecord cdb ma [] INCLUDE) ma m))"
    using getDb_on_db [OF inv] by (simp add: switch_group_def Let_def db'_def cdb_def)
  have c: "getRecord cdb = group_record db ca"
    using assms by (auto simp: cdb_def db'_def group_record_def fun_eq_iff getDb_addDb dbExists_iff split: option.split)
  have o: "getDb db' ca' = getDb db ca'" if "ca' \<noteq> ca"
    using assms that by (auto simp: db'_def getDb_addDb)
  show ?thesis
    using o by (simp add: group_record_def [of "switch_group m ca ma db"] g cdb.switch_lookup c)
      (simp add: group_record_def)
qed

lemma switch_group_member:
  assumes "rdb_inv db"
  shows "member (switch_group EXCLUDE ca ma db) ca' ma' src \<longleftrightarrow>
      (if ca' = ca \<and> ma' = ma then src \<notin> set (case group_record db ca ma of None \<Rightarrow> [] | Some r \<Rightarrow> sources r)
       else member db ca' ma' src)"
    and "member (switch_group INCLUDE ca ma db) ca' ma' src \<longleftrightarrow>
      (if ca' = ca \<and> ma' = ma then src \<in> set (case group_record db ca ma of None \<Rightarrow> [] | Some r \<Rightarrow> sources r)
       else member db ca' ma' src)"
  by (simp_all add: member_group_record switch_group_record [OF assms] accepted_sources_def)

section \<open>Scheduling of group queries\<close>

lemma schedule_queries_keeps:
  "schedule_queries mem now ma n r = Inr r' \<Longrightarrow>
     r_db r' = r_db r \<and> groupQuerysSheduled r' = groupQuerysSheduled r"
  by (induction mem now ma n r rule: schedule_queries.induct) (fastforce simp: ebind_Inr_conv)+

lemma schedule_queries_ok:
  assumes "has_memory mem"
  shows "\<exists>qs. schedule_queries mem now ma n r = Inr (r\<lparr> query_timers := query_timers r @ map (Pair (now + 2)) qs \<rparr>) \<and>
     length qs = n \<and>
     (\<forall>q \<in> set qs. pdata q = query_header ma @ query_bytes ma (click_in_cksum (query_bytes ma 0)))"
proof (induction n arbitrary: r)
  case 0
  show ?case by (rule exI [of _ "[]"]) simp
next
  case (Suc n)
  obtain q where q: "query_groupQuery mem ma = Inr q"
    "pdata q = query_header ma @ query_bytes ma (click_in_cksum (query_bytes ma 0))"
    using query_groupQuery_ok [OF assms] by blast
  from Suc [of "r\<lparr> query_timers := query_timers r @ [(now + 2, q)] \<rparr>"] obtain qs where
    "schedule_queries mem now ma n (r\<lparr> query_timers := query_timers r @ [(now + 2, q)] \<rparr>) =
       Inr (r\<lparr> query_timers := query_timers r @ [(now + 2, q)] @ map (Pair (now + 2)) qs \<rparr>)"
    "length qs = n" "\<forall>q \<in> set qs. pdata q = query_header ma @ query_bytes ma (click_in_cksum (query_bytes ma 0))"
    by auto
  with q show ?case by (intro exI [of _ "q # qs"]) simp
qed

lemma sendGroupQuery_keeps_db: "sendGroupQuery mem now r ma = Inr r' \<Longrightarrow> r_db r' = r_db r"
  by (auto simp: sendGroupQuery_def ebind_Inr_conv dest: schedule_queries_keeps split: if_splits)

text \<open>
  The first leave of a group schedules one query per round of the robustness variable, all due in 2 ms;
  every later one schedules nothing, since the group stays in \<open>groupQuerysSheduled\<close>.
\<close>

lemma sendGroupQuery_ok:
  assumes "has_memory mem"
  shows "\<exists>qs. sendGroupQuery mem now r ma = Inr (r\<lparr> query_timers := query_timers r @ map (Pair (now + 2)) qs,
       groupQuerysSheduled := (if ma \<in> set (groupQuerysSheduled r) then groupQuerysSheduled r
                               else groupQuerysSheduled r @ [ma]) \<rparr>) \<and>
     length qs = (if ma \<in> set (groupQuerysSheduled r) then 0 else nat (r_robustness_variable r)) \<and>
     (\<forall>q \<in> set qs. pdata q = query_header ma @ query_bytes ma (click_in_cksum (query_bytes ma 0)))"
proof (cases "ma \<in> set (groupQuerysSheduled r)")
  case True
  then show ?thesis by (intro exI [of _ "[]"]) (simp add: sendGroupQuery_def)
next
  case False
  from schedule_queries_ok [OF assms, of now ma "nat (r_robustness_variable r)" r] obtain qs where
    "schedule_queries mem now ma (nat (r_robustness_variable r)) r =
       Inr (r\<lparr> query_timers := query_timers r @ map (Pair (now + 2)) qs \<rparr>)"
    "length qs = nat (r_robustness_variable r)"
    "\<forall>q \<in> set qs. pdata q = query_header ma @ query_bytes ma (click_in_cksum (query_bytes ma 0))"
    by blast
  with False show ?thesis by (intro exI [of _ qs]) (simp add: sendGroupQuery_def)
qed

section \<open>Reports and the database\<close>

text \<open>The effect of a record on the database: only the two state changes have one.\<close>

definition record_effect :: "ipaddr \<Rightarrow> grouprecord \<Rightarrow> router_db \<Rightarrow> router_db" where
  "record_effect ca rec db =
     (if gr_type rec = 3 then switch_group INCLUDE ca (gr_multicast_address rec) db
      else if gr_type rec = 4 then switch_group EXCLUDE ca (gr_multicast_address rec) db
      else db)"

lemma record_effect_inv: "rdb_inv db \<Longrightarrow> rdb_inv (record_effect ca rec db)"
  by (simp add: record_effect_def switch_group_inv)

lemmas no_effect_defs = router_isINCLUDE_def router_isEXCLUDE_def router_allow_def router_block_def

lemma apply_record_db:
  assumes "rdb_inv (r_db r)" and "apply_record mem now ca rec r = Inr r'"
  shows "r_db r' = record_effect ca rec (r_db r)"
  using assms by (auto simp: apply_record_def record_effect_def Let_def no_effect_defs toEX_switch toIN_switch
      ebind_Inr_conv dest!: sendGroupQuery_keeps_db split: if_splits)

lemma apply_record_total:
  assumes "has_memory mem" and "rdb_inv (r_db r)"
  shows "\<exists>r'. apply_record mem now ca rec r = Inr r'"
  using sendGroupQuery_ok [OF assms(1), of now "r\<lparr> r_db := switch_group INCLUDE ca (gr_multicast_address rec) (r_db r) \<rparr>"
      "gr_multicast_address rec"] assms(2)
  by (auto simp: apply_record_def Let_def no_effect_defs toEX_switch toIN_switch)

lemma apply_records_db:
  "rdb_inv (r_db r) \<Longrightarrow> apply_records mem now ca recs r = Inr r' \<Longrightarrow>
     r_db r' = fold (record_effect ca) recs (r_db r) \<and> rdb_inv (r_db r')"
proof (induction recs arbitrary: r)
  case (Cons rec recs)
  from Cons.prems(2) obtain r1 where r1: "apply_record mem now ca rec r = Inr r1"
    "apply_records mem now ca recs r1 = Inr r'" by (auto simp: ebind_Inr_conv)
  have "r_db r1 = record_effect ca rec (r_db r)" by (rule apply_record_db [OF Cons.prems(1) r1(1)])
  moreover from this have "rdb_inv (r_db r1)" by (simp add: record_effect_inv Cons.prems(1))
  ultimately show ?case using Cons.IH [of r1] r1(2) by auto
qed simp

lemma apply_records_total:
  "has_memory mem \<Longrightarrow> rdb_inv (r_db r) \<Longrightarrow> \<exists>r'. apply_records mem now ca recs r = Inr r'"
proof (induction recs arbitrary: r)
  case (Cons rec recs)
  obtain r1 where r1: "apply_record mem now ca rec r = Inr r1"
    using apply_record_total [OF Cons.prems] by blast
  have "rdb_inv (r_db r1)" using apply_record_db [OF Cons.prems(2) r1] record_effect_inv [OF Cons.prems(2)] by simp
  with Cons.IH [OF Cons.prems(1)] r1 show ?case by simp
qed simp

text \<open>No packet whatever breaks the invariant of the database.\<close>

lemma processReport_inv:
  "rdb_inv (r_db r) \<Longrightarrow> router_processReport mem now pr0 r p = Inr r' \<Longrightarrow> rdb_inv (r_db r')"
  by (auto simp: router_processReport_def ebind_Inr_conv dest: apply_records_db)

lemma router_push_inv:
  "rdb_inv (r_db r) \<Longrightarrow> router_push mem now pr0 r p = Inr (r', out) \<Longrightarrow> rdb_inv (r_db r')"
  by (auto simp: router_push_def ebind_Inr_conv processReport_inv split: option.splits if_splits)

text \<open>A report whose checksum is wrong changes nothing: no record of it is applied.\<close>

lemma processReport_bad_checksum:
  assumes "verifyChecksum mem p = Inr (False, q)" and "pr_records pr0 = []"
    and "router_processReport mem now pr0 r p = Inr r'"
  shows "r' = r"
  using assms process_bad_checksum(2) [OF assms(1), of pr0]
  by (fastforce simp: router_processReport_def ebind_Inr_conv)

text \<open>A report read without error is applied record by record for the address it came from.\<close>

lemma router_push_report:
  assumes "has_memory mem" and "rdb_inv (r_db r)" and "pr_records pr0 = []" and "sole_handle p"
    and "framed p iph (report_bytes rs (click_in_cksum (report_bytes rs 0)))" and "read32 iph 12 = Inr ca"
    and "length rs < 65536" and "\<forall>g \<in> set rs. length (gr_sources g) < 65536"
  shows "\<exists>r'. router_push mem now pr0 r (Some p) = Inr (r', []) \<and>
     apply_records mem now ca rs r = Inr r' \<and> r_db r' = fold (record_effect ca) rs (r_db r) \<and> rdb_inv (r_db r')"
proof -
  obtain r' where r': "apply_records mem now ca rs r = Inr r'" using apply_records_total [OF assms(1,2)] by blast
  obtain q c where pr: "process_report mem pr0 p = Inr (0, \<lparr> pr_type = 0x22, pr_checksum = c,
       pr_no_of_grouprecords = length rs, pr_records = pr_records pr0 @ rs, pr_verifiedChecksum = True \<rparr>, q)"
    and q: "framed q iph (report_bytes rs 0)"
    using process_report_ok [OF assms(1,4,5,7,8)] by blast
  have t: "read8 (data_view p) 20 = Inr 0x22"
    using framed_fields(5) [OF assms(5)] by (simp add: report_bytes_def)
  have "router_push mem now pr0 r (Some p) = Inr (r', [])"
    using t pr assms(3,6) framed_fields(2) [OF q] r'
    by (simp add: router_push_def router_processReport_def sizeof_click_ip_def)
  with r' apply_records_db [OF assms(2) r'] show ?thesis by blast
qed

section \<open>The router as a state machine\<close>

text \<open>
  The element's events: a packet at its input, the timer of the general queries, and one of the pending group
  query timers. Memory may be short, but what is allocated has the size asked for; the \<^verbatim>\<open>ProcessReport\<close> on
  the stack starts without records.
\<close>

inductive router_step :: "router \<Rightarrow> packet list \<Rightarrow> router \<Rightarrow> bool" where
  packet_in: "mem_ok mem \<Longrightarrow> router_push mem now pr0 r p = Inr (r', out) \<Longrightarrow> router_step r out r'"
| general_timer: "mem_ok mem \<Longrightarrow> router_run_timer mem now pr0 r = Inr (r', out) \<Longrightarrow> router_step r out r'"
| group_timer: "mem_ok mem \<Longrightarrow> handleSendGroupQuery mem pr0 r i = Inr (r', out) \<Longrightarrow> router_step r out r'"

inductive router_reach :: "router \<Rightarrow> bool" where
  start: "router_reach (router_new ht_empty)"
| step: "router_reach r \<Longrightarrow> router_step r out r' \<Longrightarrow> router_reach r'"

inductive_cases router_stepE: "router_step r out r'"

text \<open>The query of a group as it waits for its timer.\<close>

definition group_query :: "ipaddr \<Rightarrow> packet \<Rightarrow> bool" where
  "group_query ma q \<longleftrightarrow> pdata q = query_header ma @ query_bytes ma (click_in_cksum (query_bytes ma 0)) \<and> \<not> shared q"

text \<open>
  The invariant: the database is well formed, no group is in the list of queried groups twice, and every
  pending query is the query of a group in that list, at most as many as the robustness
  variable allows per group.
\<close>

definition router_inv :: "router \<Rightarrow> bool" where
  "router_inv r \<longleftrightarrow> rdb_inv (r_db r) \<and> distinct (groupQuerysSheduled r) \<and>
     (\<forall>(due, q) \<in> set (query_timers r). \<exists>ma \<in> set (groupQuerysSheduled r). group_query ma q) \<and>
     length (query_timers r) \<le> nat (r_robustness_variable r) * length (groupQuerysSheduled r)"

lemma query_groupQuery_sound:
  assumes "mem_ok mem" and "query_groupQuery mem ma = Inr q"
  shows "group_query ma q"
proof -
  obtain g where g: "query_generatePacket mem ma = Inr g"
      "\<And>p. g = Some p \<Longrightarrow> pdata p = query_bytes ma (click_in_cksum (query_bytes ma 0))"
    using query_generatePacket_ok [OF assms(1), of ma] by blast
  then obtain p where p: "setIPHeader mem (Some p) ma = Inr q"
      "pdata p = query_bytes ma (click_in_cksum (query_bytes ma 0))"
    using assms(2) by (cases g) (auto simp: query_groupQuery_def setIPHeader_def)
  have "plength p = 12" by (simp add: p(2))
  with setIPHeader_ok(1,2) [OF assms(1) p(1)] p(2) show ?thesis by (simp add: group_query_def)
qed

lemma schedule_queries_sound:
  assumes "mem_ok mem"
  shows "schedule_queries mem now ma n r = Inr r' \<Longrightarrow>
     \<exists>qs. r' = r\<lparr> query_timers := query_timers r @ map (Pair (now + 2)) qs \<rparr> \<and> length qs = n \<and> (\<forall>q \<in> set qs. group_query ma q)"
proof (induction n arbitrary: r)
  case 0
  then show ?case by (intro exI [of _ "[]"]) simp
next
  case (Suc n)
  then obtain q where q: "query_groupQuery mem ma = Inr q"
    "schedule_queries mem now ma n (r\<lparr> query_timers := query_timers r @ [(now + 2, q)] \<rparr>) = Inr r'"
    by (auto simp: ebind_Inr_conv)
  from Suc.IH [OF q(2)] obtain qs where
    "r' = r\<lparr> query_timers := query_timers r @ [(now + 2, q)] @ map (Pair (now + 2)) qs \<rparr>" "length qs = n"
    "\<forall>q \<in> set qs. group_query ma q" by auto
  with query_groupQuery_sound [OF assms q(1)] show ?case by (intro exI [of _ "q # qs"]) simp
qed

lemma sendGroupQuery_inv:
  assumes "mem_ok mem" and "router_inv r" and "sendGroupQuery mem now r ma = Inr r'"
  shows "router_inv r' \<and> r_robustness_variable r' = r_robustness_variable r"
proof (cases "ma \<in> set (groupQuerysSheduled r)")
  case False
  then obtain qs where r': "r' = r\<lparr> query_timers := query_timers r @ map (Pair (now + 2)) qs,
      groupQuerysSheduled := groupQuerysSheduled r @ [ma] \<rparr>"
    and qs: "length qs = nat (r_robustness_variable r)" "\<forall>q \<in> set qs. group_query ma q"
    using assms(3) schedule_queries_sound [OF assms(1)] by (fastforce simp: sendGroupQuery_def ebind_Inr_conv)
  then show ?thesis using assms(2) False by (fastforce simp: router_inv_def)
next
  case True
  with assms show ?thesis by (simp add: sendGroupQuery_def)
qed

lemma router_inv_db: "router_inv r \<Longrightarrow> rdb_inv db \<Longrightarrow> router_inv (r\<lparr> r_db := db \<rparr>)"
  by (simp add: router_inv_def)

lemma apply_record_inv:
  assumes "mem_ok mem" and "router_inv r" and "apply_record mem now ca rec r = Inr r'"
  shows "router_inv r' \<and> r_robustness_variable r' = r_robustness_variable r"
proof -
  have d: "rdb_inv (r_db r)" using assms(2) by (simp add: router_inv_def)
  then have s: "router_inv (r\<lparr> r_db := switch_group m ca ma (r_db r) \<rparr>)" for m ma
    using assms(2) by (simp add: router_inv_db switch_group_inv)
  from assms(3) have "r' = r \<or> (\<exists>ma. r' = r\<lparr> r_db := switch_group EXCLUDE ca ma (r_db r) \<rparr>) \<or>
      (\<exists>ma. sendGroupQuery mem now (r\<lparr> r_db := switch_group INCLUDE ca ma (r_db r) \<rparr>) ma = Inr r')"
    using d by (auto simp: apply_record_def Let_def no_effect_defs toEX_switch toIN_switch ebind_Inr_conv split: if_splits)
  then show ?thesis using s sendGroupQuery_inv [OF assms(1) s] assms(2) by fastforce
qed

lemma apply_records_inv:
  "mem_ok mem \<Longrightarrow> router_inv r \<Longrightarrow> apply_records mem now ca recs r = Inr r' \<Longrightarrow>
     router_inv r' \<and> r_robustness_variable r' = r_robustness_variable r"
  by (induction recs arbitrary: r) (fastforce simp: ebind_Inr_conv dest: apply_record_inv)+

text \<open>What is a query: the type byte behind a 20-byte IP header.\<close>

definition is_query :: "packet \<Rightarrow> bool" where
  "is_query p \<longleftrightarrow> read8 (data_view p) 20 = Inr 0x11"

lemma router_push_sound:
  assumes "mem_ok mem" and "router_inv r" and "router_push mem now pr0 r p = Inr (r', out)"
  shows "router_inv r' \<and> r_robustness_variable r' = r_robustness_variable r \<and> (\<forall>q \<in> set out. is_query q)"
  using assms
  by (auto simp: router_push_def router_processReport_def ebind_Inr_conv is_query_def sizeof_click_ip_def
      dest!: apply_records_inv [OF assms(1,2)] split: option.splits if_splits)

lemma router_step_sound:
  assumes "router_step r out r'" and "router_inv r"
  shows "router_inv r' \<and> r_robustness_variable r' = r_robustness_variable r \<and> (\<forall>q \<in> set out. is_query q)"
  using assms(1)
proof (cases rule: router_step.cases)
  case (packet_in mem now pr0 p)
  then show ?thesis using router_push_sound assms(2) by blast
next
  case (general_timer mem now pr0)
  then obtain q r1 where "router_push mem now pr0 r (Some q) = Inr (r1, out)"
    "r' = r1\<lparr> general_timer := Some (now + query_interval r1 * 1000) \<rparr>"
    by (auto simp: router_run_timer_def ebind_Inr_conv)
  with router_push_sound [OF general_timer(1) assms(2)] show ?thesis by (fastforce simp: router_inv_def)
next
  case (group_timer mem pr0 i)
  let ?r = "r\<lparr> query_timers := list_erase i (query_timers r) \<rparr>"
  have "router_inv ?r"
    using assms(2) length_list_erase [of i "query_timers r"] set_take_subset [of i "query_timers r"]
      set_drop_subset [of "Suc i" "query_timers r"]
    by (fastforce simp: router_inv_def list_erase_def split: if_splits)
  then show ?thesis
    using group_timer assms(2) router_push_sound [OF group_timer(1), of ?r]
    by (fastforce simp: handleSendGroupQuery_def split: if_splits prod.splits)
qed

section \<open>Properties\<close>



text \<open>
  C37. A report whose checksum is wrong changes nothing: the router keeps its database, its queries and
  its timers, and sends nothing.
\<close>

theorem bad_report_ignored:
  assumes "has_memory mem" and "pr_records pr0 = []" and "sole_handle p"
    and "framed p iph (0x22 # b # bytes16 c @ rest)" and "click_in_cksum (0x22 # b # 0 # 0 # rest) \<noteq> c"
  shows "router_push mem now pr0 r (Some p) = Inr (r, [])"
proof -
  obtain q d where q: "process_report mem pr0 p = Inr (- 1, pr0\<lparr> pr_verifiedChecksum := False, pr_checksum := d \<rparr>, q)"
    "framed q iph (0x22 # b # 0 # 0 # rest)"
    using bad_checksum_total [OF assms(1,3,4,5)] by blast
  have "length iph = 20" using q(2) by (simp add: framed_def)
  then obtain ca where "read32 iph 12 = Inr ca" by (simp add: read32_def)
  with q assms(2) framed_fields(2) [OF q(2)] framed_fields(5) [OF assms(4)] show ?thesis
    by (simp add: router_push_def router_processReport_def sizeof_click_ip_def)
qed

theorem bad_report_ignored_witness:
  "router_push ex_mem 0 \<lparr> pr_type = 0, pr_checksum = 0, pr_no_of_grouprecords = 0, pr_records = [], pr_verifiedChecksum = False \<rparr>
     (router_new ht_empty)
     (Some (ex_packet\<lparr> pdata := replicate 20 0 @ (0x22 # 0 # bytes16 0 @ [0, 0, 0, 0]), data_packet := None \<rparr>)) =
   Inr (router_new ht_empty, [])"
proof -
  have "click_in_cksum [0x22, 0, 0, 0, 0, 0, 0, 0] \<noteq> 0" by (simp add: click_in_cksum_zero_iff le16_def)
  then show ?thesis
    by (intro bad_report_ignored [OF ex_mem_ok, where iph = "replicate 20 0"])
       (simp_all add: sole_handle_def framed_def ex_packet_def)
qed

text \<open>
  A second leave goes unqueried. The list of queried groups is never emptied: once a group has
  been queried, a record that switches any client back to INCLUDE mode for it is applied but schedules no
  further query.
\<close>

lemma second_leave_unqueried:
  assumes "rdb_inv (r_db r)" and "gr_type rec = 3" and "gr_multicast_address rec \<in> set (groupQuerysSheduled r)"
  shows "apply_record mem now ca rec r =
     Inr (r\<lparr> r_db := switch_group INCLUDE ca (gr_multicast_address rec) (r_db r) \<rparr>)"
  using assms by (simp add: apply_record_def toIN_switch sendGroupQuery_def Let_def)

theorem second_leave_unqueried_witness:
  "apply_record ex_mem 0 1 \<lparr> gr_type = 3, gr_multicast_address = 7, gr_sources = [] \<rparr>
     (router_new ht_empty\<lparr> groupQuerysSheduled := [7] \<rparr>) =
   Inr (router_new ht_empty\<lparr> groupQuerysSheduled := [7], r_db := switch_group INCLUDE 1 7 ht_empty \<rparr>)"
  using second_leave_unqueried [of "router_new ht_empty\<lparr> groupQuerysSheduled := [7] \<rparr>"
      "\<lparr> gr_type = 3, gr_multicast_address = 7, gr_sources = [] \<rparr>" ex_mem 0 1]
  by (simp add: router_new_def Let_def rdb_inv_empty)

end
