(* ===== verification/IGMP_Elements.thy ===== *)
theory IGMP_Elements
  imports IGMP_Router
begin

text \<open>
  The four forwarding elements: \<^verbatim>\<open>elements/IGMPRouterClassifier.cc\<close>, \<^verbatim>\<open>elements/IGMPRouterSender.cc\<close>,
  \<^verbatim>\<open>elements/IGMPClassifier.cc\<close> and \<^verbatim>\<open>elements/SetIPSrc.cc\<close>. Each \<open>push\<close> returns the pushes it makes
  as pairs of output port and packet, in order; a killed packet is in none.
\<close>

section \<open>Configuration\<close>

text \<open>The results of \<^verbatim>\<open>cp_va_kparse\<close> are arguments: \<open>Inl\<close> an error code, \<open>Inr\<close> the parsed values.\<close>

definition db_configure :: "int + 'db \<Rightarrow> 'db option \<Rightarrow> int \<times> 'db option" where
  "db_configure kparse old = (case kparse of Inl res \<Rightarrow> (res, old) | Inr tempDb \<Rightarrow> (0, Some tempDb))"

record sender =
  subnetAddress :: ipaddr
  subnetMask :: ipaddr

definition sender_configure :: "int + (ipaddr \<times> ipaddr) \<Rightarrow> sender \<Rightarrow> int \<times> sender" where
  "sender_configure kparse s =
     (case kparse of
        Inl res \<Rightarrow> (- 1, s)
      | Inr (addr, msk) \<Rightarrow> (0, s\<lparr> subnetAddress := addr, subnetMask := msk \<rparr>))"

definition setipsrc_configure :: "int + ipaddr \<Rightarrow> ipaddr \<Rightarrow> int \<times> ipaddr" where
  "setipsrc_configure kparse old = (case kparse of Inl res \<Rightarrow> (- 1, old) | Inr addr \<Rightarrow> (0, addr))"

section \<open>Packets\<close>

definition router_classifier_push :: "router_db \<Rightarrow> packet \<Rightarrow> (nat \<times> packet) list exec" where
  "router_classifier_push db p =
     ebind (ip_dst p) (\<lambda>destination.
     ebind (ip_src p) (\<lambda>source.
     ebind (ip_p p) (\<lambda>proto.
       if proto = 2 then Inr [(2, p)]
       else (let multicastAcceptors = rdb_acceptFromSource db destination source
             in if length multicastAcceptors > 0 then Inr [(1, p)] else Inr [(0, p)]))))"

definition sender_push :: "router_db \<Rightarrow> sender \<Rightarrow> packet \<Rightarrow> (nat \<times> packet) list exec" where
  "sender_push db s p =
     ebind (ip_dst p) (\<lambda>destination.
     ebind (ip_src p) (\<lambda>source.
       if mask_to_prefix_len (subnetMask s) = - 1 then Inr []
       else if acceptFromSourceAsClient db destination source (subnetAddress s) (subnetMask s)
       then Inr [(0, p)] else Inr []))"

text \<open>
  \<^verbatim>\<open>IGMPClassifier\<close> does not return after pushing a query to output 2, so the same packet is then pushed
  to output 1 or 0 as well.
\<close>

definition classifier_push :: "client_db \<Rightarrow> packet \<Rightarrow> (nat \<times> packet) list exec" where
  "classifier_push db p =
     ebind (ip_dst p) (\<lambda>destination.
     ebind (ip_src p) (\<lambda>source.
     ebind (ip_p p) (\<lambda>proto.
     ebind (if proto = 2
            then ebind (read8 (data_view p) (sizeof_click_ip + q_type)) (\<lambda>t.
                   if t = 0x11 then Inr [(2, p)] else Inr [])
            else Inr []) (\<lambda>pushed.
       if cdb_acceptFromSource db destination source then Inr (pushed @ [(1, p)])
       else Inr (pushed @ [(0, p)])))))"

definition setipsrc_push :: "allocator \<Rightarrow> ipaddr \<Rightarrow> packet \<Rightarrow> (nat \<times> packet) list exec" where
  "setipsrc_push mem addr p =
     ebind (uniqueify mem p) (\<lambda>q. case q of
        None \<Rightarrow> Inl Null_deref
      | Some q \<Rightarrow>
          ebind (write32 (data_view q) ip_src_off addr) (\<lambda>v.
          ebind (set_network_header (length (headroom_bytes q)) sizeof_click_ip
                  (q\<lparr> pdata := take (plength q) v, tailroom_bytes := drop (plength q) v \<rparr>)) (\<lambda>q.
          Inr [(0, q)])))"

section \<open>Where packets go\<close>

text \<open>A packet whose network header pointer is at a complete IP header with the given fields.\<close>

definition ip_fields :: "packet \<Rightarrow> u8 \<Rightarrow> ipaddr \<Rightarrow> ipaddr \<Rightarrow> bool" where
  "ip_fields p proto src dst \<longleftrightarrow> ip_p p = Inr proto \<and> ip_src p = Inr src \<and> ip_dst p = Inr dst"

lemma router_classifier_spec:
  assumes "rdb_inv db" and "ip_fields p proto src dst"
  shows "router_classifier_push db p =
     Inr [(if proto = 2 then 2 else if \<exists>c. member db c dst src then 1 else 0, p)]"
  using assms rdb.acceptors_empty_iff [OF assms(1), of dst src]
  by (auto simp: router_classifier_push_def ip_fields_def Let_def)

lemma sender_spec:
  assumes "rdb_inv db" and "ip_fields p proto src dst" and "mask_to_prefix_len (subnetMask s) = int n"
  shows "sender_push db s p =
     Inr (if \<exists>c. matches_prefix c (subnetAddress s) (subnetMask s) \<and> member db c dst src then [(0, p)] else [])"
  using assms rdb.subnet_iff [OF assms(1), of dst src "subnetAddress s" "subnetMask s"]
  by (auto simp: sender_push_def ip_fields_def)

lemma sender_bad_mask:
  "ip_fields p proto src dst \<Longrightarrow> mask_to_prefix_len (subnetMask s) = - 1 \<Longrightarrow> sender_push db s p = Inr []"
  by (simp add: sender_push_def ip_fields_def)

lemma uniqueify_data:
  assumes "has_memory mem"
  shows "\<exists>q. uniqueify mem p = Inr (Some q) \<and> pdata q = pdata p \<and> \<not> shared q"
proof (cases "shared p")
  case True
  obtain q where q: "expensive_uniqueify mem (int 0) (int 0) p = Inr (Some q)"
    using uniqueify_has_memory(1) [OF assms] by blast
  with True expensive_uniqueify_ok(1,2) [OF _ q] assms show ?thesis by (simp add: uniqueify_def has_memory_def)
qed (simp add: uniqueify_def)

text \<open>
  \<^verbatim>\<open>SetIPSrc\<close> writes the address into the header at the front of the data, of its own copy when the
  packet is shared, and points the header pointers at it.
\<close>

lemma setipsrc_ok:
  assumes "has_memory mem" and "20 \<le> plength p"
  shows "\<exists>q. setipsrc_push mem addr p = Inr [(0, q)] \<and> \<not> shared q \<and>
     framed q (take 12 (pdata p) @ bytes32 addr @ take 4 (drop 16 (pdata p))) (drop 20 (pdata p))"
proof -
  obtain q where u: "uniqueify mem p = Inr (Some q)" "pdata q = pdata p" "\<not> shared q"
    using uniqueify_data [OF assms(1)] by blast
  have d: "drop 16 (pdata p) = take 4 (drop 16 (pdata p)) @ drop 20 (pdata p)"
    using append_take_drop_id [of 4 "drop 16 (pdata p)"] by simp
  have w: "write32 (data_view q) 12 addr =
      Inr ((take 12 (pdata p) @ bytes32 addr @ drop 16 (pdata p)) @ tailroom_bytes q)"
    using assms(2) u(2) by (simp add: write_bytes_def data_view_def)
  let ?q = "q\<lparr> pdata := take 12 (pdata p) @ bytes32 addr @ drop 16 (pdata p),
     network_header := Some (length (headroom_bytes q)), transport_header := Some (length (headroom_bytes q) + 20) \<rparr>"
  have "setipsrc_push mem addr p = Inr [(0, ?q)]"
    using assms(2) u w by (simp add: setipsrc_push_def set_network_header_def buffer_def sizeof_click_ip_def)
  moreover have "framed ?q (take 12 (pdata p) @ bytes32 addr @ take 4 (drop 16 (pdata p))) (drop 20 (pdata p))"
    using assms(2) d by (simp add: framed_def)
  moreover have "\<not> shared ?q" using u(3) by (simp add: shared_def)
  ultimately show ?thesis by blast
qed

text \<open>A query is pushed to output 2 and, the function not returning there, to a second output.\<close>

lemma classifier_query:
  assumes "ip_fields p 2 src dst" and "read8 (data_view p) 20 = Inr 0x11"
  shows "classifier_push db p = Inr [(2, p), (if cdb_acceptFromSource db dst src then 1 else 0, p)]"
  using assms by (simp add: classifier_push_def ip_fields_def sizeof_click_ip_def)

lemma classifier_traffic:
  assumes "ip_fields p proto src dst" and "proto \<noteq> 2"
  shows "classifier_push db p = Inr [(if cdb_acceptFromSource db dst src then 1 else 0, p)]"
  using assms by (simp add: classifier_push_def ip_fields_def)

section \<open>Properties\<close>

text \<open>
  \<^verbatim>\<open>IGMPClassifier\<close> pushes a query twice: to output 2, and then, the function not returning
  there, the same packet to output 1 or 0 as if it were traffic, after the first push has given it away.
\<close>

lemma classifier_pushes_query_twice:
  assumes "ip_fields p 2 src dst" and "read8 (data_view p) 20 = Inr 0x11"
  shows "classifier_push db p = Inr [(2, p), (if cdb_acceptFromSource db dst src then 1 else 0, p)]"
  by (rule classifier_query [OF assms])

theorem classifier_pushes_query_twice_witness:
  "\<exists>p. classifier_push [] p = Inr [(2, p), (0, p)]"
proof -
  let ?p = "ex_packet\<lparr> pdata := [0x45, 0, 0, 0, 0, 0, 0, 0, 1, 2] @ replicate 10 0 @ [0x11] \<rparr>"
  have "ip_fields ?p 2 (le32 0 0 0 0) (le32 0 0 0 0)" "read8 (data_view ?p) 20 = Inr 0x11"
    by (simp_all add: ip_fields_def ip_p_def ip_src_def ip_dst_def nh_view_def buffer_def ex_packet_def read8_def
        read32_def data_view_def numeral_eq_Suc)
  with classifier_pushes_query_twice [of ?p _ _ "[]"] show ?thesis by (auto simp: cdb_acceptFromSource_def)
qed

text \<open>
  \<^verbatim>\<open>SetIPSrc\<close> replaces the source address of the header at the front of the packet and nothing else, in
  a copy of its own when the packet is shared, and leaves the header pointer at that header. (The
  checksum is left to \<^verbatim>\<open>SetIPChecksum\<close> behind it.)
\<close>

lemma setipsrc_correct:
  assumes "has_memory mem" and "20 \<le> plength p"
  shows "\<exists>q h. setipsrc_push mem addr p = Inr [(0, q)] \<and> \<not> shared q \<and> framed q h (drop 20 (pdata p)) \<and>
     read32 h 12 = Inr addr \<and> take 12 h = take 12 (pdata p) \<and> drop 16 h = take 4 (drop 16 (pdata p))"
proof -
  let ?h = "take 12 (pdata p) @ bytes32 addr @ take 4 (drop 16 (pdata p))"
  have l: "length (take 12 (pdata p)) = 12" using assms(2) by simp
  have "read32 ?h 12 = Inr addr" using l by (simp add: read32_def nth_append bytes32_def)
  with setipsrc_ok [OF assms, of addr] l show ?thesis by fastforce
qed

theorem setipsrc_correct_witness:
  "\<exists>q h. setipsrc_push ex_mem 7 (ex_packet\<lparr> pdata := replicate 20 0 \<rparr>) = Inr [(0, q)] \<and> framed q h [] \<and> read32 h 12 = Inr 7"
  using setipsrc_correct [OF ex_mem_ok, of "ex_packet\<lparr> pdata := replicate 20 0 \<rparr>" 7] by fastforce

end
