(* ===== verification/Click_IPElements.thy ===== *)
theory Click_IPElements
  imports Click_Packet Click_Checksum
begin

text \<open>
  The Click elements on the path of IGMP and multicast packets: \<^verbatim>\<open>CheckIPHeader\<close>, \<^verbatim>\<open>SetIPChecksum\<close>,
  \<^verbatim>\<open>DecIPTTL\<close>, \<^verbatim>\<open>FixIPSrc\<close> and \<^verbatim>\<open>IPEncap\<close> (\<^verbatim>\<open>click/elements/ip\<close>), \<^verbatim>\<open>EtherEncap\<close> and \<^verbatim>\<open>HostEtherFilter\<close>
  (\<^verbatim>\<open>click/elements/ethernet\<close>), \<^verbatim>\<open>DropBroadcasts\<close>, \<^verbatim>\<open>Strip\<close>, \<^verbatim>\<open>Tee\<close>, \<^verbatim>\<open>Paint\<close> and \<^verbatim>\<open>PaintTee\<close>
  (\<^verbatim>\<open>click/elements/standard\<close>). A \<open>simple_action\<close> returns the packet it passes on, if any; where it
  pushes to other outputs these pushes are returned as pairs of port and packet. Configuration
  values are the fields of a record or arguments; parsing them is not modelled.
\<close>

section \<open>Writing through the network header pointer\<close>

definition set_buffer :: "byte list \<Rightarrow> packet \<Rightarrow> packet" where
  "set_buffer bs p =
     (let h = length (headroom_bytes p); d = plength p
      in p\<lparr> headroom_bytes := take h bs, pdata := take d (drop h bs), tailroom_bytes := drop (h + d) bs \<rparr>)"

definition on_nh :: "(byte list \<Rightarrow> byte list exec) \<Rightarrow> packet \<Rightarrow> packet exec" where
  "on_nh f p =
     (case network_header p of
        None \<Rightarrow> Inl Null_deref
      | Some off \<Rightarrow> ebind (f (drop off (buffer p))) (\<lambda>v. Inr (set_buffer (take off (buffer p) @ v) p)))"

text \<open>The bit fields \<open>ip_v\<close> and \<open>ip_hl\<close> of the first byte of a header.\<close>

definition ip_v :: "byte \<Rightarrow> nat" where
  "ip_v b = unat (drop_bit 4 b)"

definition ip_hl :: "byte \<Rightarrow> nat" where
  "ip_hl b = unat (b AND 0xF)"

text \<open>The flags and the offset in \<open>ip_off\<close>, and the option types (\<^verbatim>\<open>clicknet/ip.h\<close>).\<close>

abbreviation (input) IP_DF :: u16 where "IP_DF \<equiv> 0x4000"
abbreviation (input) IP_MF :: u16 where "IP_MF \<equiv> 0x2000"
abbreviation (input) IP_OFFMASK :: u16 where "IP_OFFMASK \<equiv> 0x1FFF"

abbreviation (input) IPOPT_EOL :: byte where "IPOPT_EOL \<equiv> 0"
abbreviation (input) IPOPT_NOP :: byte where "IPOPT_NOP \<equiv> 1"
abbreviation (input) IPOPT_RR :: byte where "IPOPT_RR \<equiv> 7"
abbreviation (input) IPOPT_TS :: byte where "IPOPT_TS \<equiv> 68"
abbreviation (input) IPOPT_LSRR :: byte where "IPOPT_LSRR \<equiv> 131"
abbreviation (input) IPOPT_SSRR :: byte where "IPOPT_SSRR \<equiv> 137"

section \<open>\<^verbatim>\<open>CheckIPHeader\<close>\<close>

datatype reason =
    MINISCULE_PACKET
  | BAD_VERSION
  | BAD_HLEN
  | BAD_IP_LEN
  | BAD_CHECKSUM
  | BAD_SADDR

record check_ip_header =
  ck_offset :: nat
  ck_checksum :: bool
  bad_src :: "ipaddr list"
  good_dst :: "ipaddr list"
  ck_drops :: nat
  ck_noutputs :: nat

definition checkip_drop ::
  "reason \<Rightarrow> check_ip_header \<Rightarrow> packet \<Rightarrow> check_ip_header \<times> packet option \<times> (nat \<times> packet) list" where
  "checkip_drop reason e p =
     (e\<lparr> ck_drops := ck_drops e + 1 \<rparr>, None, if ck_noutputs e = 2 then [(1, p)] else [])"

definition checkip_simple_action ::
  "check_ip_header \<Rightarrow> packet \<Rightarrow> (check_ip_header \<times> packet option \<times> (nat \<times> packet) list) exec" where
  "checkip_simple_action e p =
     (let ip = drop (ck_offset e) (data_view p); plen = int (plength p) - int (ck_offset e) in
      if plen < 20 then Inr (checkip_drop MINISCULE_PACKET e p)
      else ebind (read8 ip ip_vhl_off) (\<lambda>vhl.
        if ip_v vhl \<noteq> 4 then Inr (checkip_drop BAD_VERSION e p)
        else let hlen = ip_hl vhl * 4 in
        if hlen < 20 then Inr (checkip_drop BAD_HLEN e p)
        else ebind (read16 ip ip_len_off) (\<lambda>l. let len = unat (ntohs l) in
        if int len > plen \<or> len < hlen then Inr (checkip_drop BAD_IP_LEN e p)
        else if ck_checksum e \<and> click_in_cksum (take hlen ip) \<noteq> 0 then Inr (checkip_drop BAD_CHECKSUM e p)
        else ebind (read32 ip ip_src_off) (\<lambda>src.
             ebind (read32 ip ip_dst_off) (\<lambda>dst.
        if src \<in> set (bad_src e) \<and> dst \<notin> set (good_dst e) then Inr (checkip_drop BAD_SADDR e p)
        else ebind (set_network_header (length (headroom_bytes p) + ck_offset e) hlen p) (\<lambda>p.
             let p = (if plen > int len then packet_take (nat (plen - int len)) p else p)
             in Inr (e, Some (p\<lparr> dst_ip_anno := dst \<rparr>), [])))))))"

section \<open>\<^verbatim>\<open>SetIPChecksum\<close>, \<^verbatim>\<open>DecIPTTL\<close>, \<^verbatim>\<open>FixIPSrc\<close>\<close>

definition network_length :: "packet \<Rightarrow> int" where
  "network_length p = (case network_header p of None \<Rightarrow> 0
     | Some off \<Rightarrow> int (length (headroom_bytes p) + plength p) - int off)"

text \<open>\<open>ip->ip_sum = 0; ip->ip_sum = click_in_cksum(ip, hlen);\<close>\<close>

definition fill_checksum :: "nat \<Rightarrow> byte list \<Rightarrow> byte list exec" where
  "fill_checksum hlen ip =
     ebind (write16 ip ip_sum_off 0) (\<lambda>ip. write16 ip ip_sum_off (click_in_cksum (take hlen ip)))"

definition setipchecksum_simple_action :: "allocator \<Rightarrow> packet \<Rightarrow> packet option exec" where
  "setipchecksum_simple_action mem p_in =
     ebind (uniqueify mem p_in) (\<lambda>q. case q of
        None \<Rightarrow> Inr None
      | Some p \<Rightarrow>
          if network_header p = None then Inr None
          else let plen = network_length p in
            if plen < 20 then Inr None
            else ebind (nh_view p) (\<lambda>ip. ebind (read8 ip ip_vhl_off) (\<lambda>vhl.
              let hlen = ip_hl vhl * 4 in
              if hlen < 20 \<or> int hlen > plen then Inr None
              else ebind (on_nh (fill_checksum hlen) p) (\<lambda>p. Inr (Some p)))))"

record dec_ip_ttl =
  ttl_active :: bool
  ttl_multicast :: bool
  ttl_drops :: nat
  ttl_noutputs :: nat

text \<open>The incremental update: \<open>sum = (~ntohs(ip_sum) & 0xFFFF) + 0xFEFF; ip_sum = ~htons(sum + (sum >> 16))\<close>.\<close>

definition ttl_checksum :: "u16 \<Rightarrow> u16" where
  "ttl_checksum c = (let s = ucast (NOT (ntohs c)) + (0xFEFF :: u32) in NOT (htons (ucast (s + drop_bit 16 s))))"

definition decrement_ttl :: "byte list \<Rightarrow> byte list exec" where
  "decrement_ttl ip =
     ebind (read8 ip ip_ttl_off) (\<lambda>ttl.
     ebind (write8 ip ip_ttl_off (ttl - 1)) (\<lambda>ip.
     ebind (read16 ip ip_sum_off) (\<lambda>c. write16 ip ip_sum_off (ttl_checksum c))))"

definition decipttl_simple_action ::
  "allocator \<Rightarrow> dec_ip_ttl \<Rightarrow> packet \<Rightarrow> (dec_ip_ttl \<times> packet option \<times> (nat \<times> packet) list) exec" where
  "decipttl_simple_action mem e p =
     (if network_header p = None then Inl Assert_failed
      else if \<not> ttl_active e then Inr (e, Some p, [])
      else ebind (nh_view p) (\<lambda>ip.
        ebind (if ttl_multicast e then Inr False
               else ebind (read32 ip ip_dst_off) (\<lambda>dst. Inr (is_multicast dst))) (\<lambda>skip.
        if skip then Inr (e, Some p, [])
        else ebind (read8 ip ip_ttl_off) (\<lambda>ttl.
        if ttl \<le> 1
        then Inr (e\<lparr> ttl_drops := ttl_drops e + 1 \<rparr>, None, if ttl_noutputs e > 1 then [(1, p)] else [])
        else ebind (uniqueify mem p) (\<lambda>q. case q of
               None \<Rightarrow> Inr (e, None, [])
             | Some q \<Rightarrow> ebind (on_nh decrement_ttl q) (\<lambda>q. Inr (e, Some q, [])))))))"

definition fix_it :: "allocator \<Rightarrow> ipaddr \<Rightarrow> packet \<Rightarrow> packet exec" where
  "fix_it mem my_ip p_in =
     ebind (uniqueify mem p_in) (\<lambda>q. case q of
        None \<Rightarrow> Inl Null_deref
      | Some p \<Rightarrow>
          on_nh (\<lambda>ip. ebind (write32 ip ip_src_off my_ip) (\<lambda>ip. ebind (read8 ip ip_vhl_off) (\<lambda>vhl.
                   fill_checksum (ip_hl vhl * 4) ip)))
            (p\<lparr> fix_ip_src_anno := False \<rparr>))"

definition fixipsrc_simple_action :: "allocator \<Rightarrow> ipaddr \<Rightarrow> packet \<Rightarrow> packet exec" where
  "fixipsrc_simple_action mem my_ip p =
     (if fix_ip_src_anno p \<and> network_header p \<noteq> None then fix_it mem my_ip p else Inr p)"

section \<open>\<^verbatim>\<open>IPEncap\<close>\<close>

text \<open>The element's state: the header template, whether the destination comes from the annotation, and the next id.\<close>

record ip_encap =
  ie_src :: ipaddr
  ie_dst :: ipaddr
  ie_proto :: u8
  ie_tos :: u8
  ie_ttl :: u8
  ie_df :: bool
  ie_use_dst_anno :: bool
  ie_id :: u32

definition ipencap_header :: "ip_encap \<Rightarrow> u16 \<Rightarrow> u16 \<Rightarrow> u16 \<Rightarrow> ipaddr \<Rightarrow> byte list" where
  "ipencap_header e len ident c dst =
     [0x45, ie_tos e] @ bytes16 len @ bytes16 ident @ bytes16 (if ie_df e then htons 0x4000 else 0) @
     [ie_ttl e, ie_proto e] @ bytes16 c @ bytes32 (ie_src e) @ bytes32 dst"

text \<open>What \<open>configure\<close> stores: its checksum counts length and id as 0, and the length field is a flag.\<close>

definition ipencap_template :: "ip_encap \<Rightarrow> byte list" where
  "ipencap_template e =
     (let dst = (if ie_use_dst_anno e then 0 else ie_dst e)
      in ipencap_header e (if ie_use_dst_anno e then 1 else 0) 0 (click_in_cksum (ipencap_header e 0 0 0 dst)) dst)"

definition update_cksum :: "nat \<Rightarrow> byte list \<Rightarrow> byte list exec" where
  "update_cksum off ip =
     ebind (read16 ip off) (\<lambda>w. ebind (read16 ip ip_sum_off) (\<lambda>c.
       write16 ip ip_sum_off (click_update_in_cksum c 0 w)))"

definition ipencap_simple_action :: "allocator \<Rightarrow> ip_encap \<Rightarrow> packet \<Rightarrow> (ip_encap \<times> packet option) exec" where
  "ipencap_simple_action mem e p_in =
     ebind (packet_push mem 20 p_in) (\<lambda>q. case q of
        None \<Rightarrow> Inr (e, None)
      | Some p \<Rightarrow>
          ebind (write_bytes (pdata p) 0 (ipencap_template e)) (\<lambda>ip.
          ebind (read16 ip ip_len_off) (\<lambda>flag.
          ebind (if flag \<noteq> 0
                 then ebind (write32 ip ip_dst_off (dst_ip_anno p)) (\<lambda>ip.
                      ebind (update_cksum 16 ip) (\<lambda>ip.
                      ebind (update_cksum 18 ip) (\<lambda>ip. Inr (ip, dst_ip_anno p))))
                 else ebind (read32 ip ip_dst_off) (\<lambda>dst. Inr (ip, dst))) (\<lambda>(ip, anno).
          ebind (write16 ip ip_len_off (htons (of_nat (plength p)))) (\<lambda>ip.
          ebind (write16 ip ip_id_off (htons (ucast (ie_id e)))) (\<lambda>ip.
          ebind (update_cksum 2 ip) (\<lambda>ip.
          ebind (update_cksum 4 ip) (\<lambda>ip.
          ebind (set_network_header (length (headroom_bytes p)) 20 (p\<lparr> pdata := ip, dst_ip_anno := anno \<rparr>)) (\<lambda>p.
          Inr (e\<lparr> ie_id := ie_id e + 1 \<rparr>, Some p))))))))))"

section \<open>Ethernet and standard elements\<close>

type_synonym ethaddr = "byte list"

text \<open>\<open>EtherEncap\<close> with the 14-byte header \<open>ethh\<close>: destination, source, type.\<close>

definition etherencap_smaction :: "allocator \<Rightarrow> byte list \<Rightarrow> packet \<Rightarrow> packet option exec" where
  "etherencap_smaction mem ethh p =
     ebind (push_mac_header mem 14 p) (\<lambda>q. case q of
        None \<Rightarrow> Inr None
      | Some q \<Rightarrow> ebind (write_bytes (pdata q) 0 ethh) (\<lambda>d. Inr (Some (q\<lparr> pdata := d \<rparr>))))"

abbreviation (input) HOST :: nat where "HOST \<equiv> 0"
abbreviation (input) BROADCAST :: nat where "BROADCAST \<equiv> 1"
abbreviation (input) MULTICAST :: nat where "MULTICAST \<equiv> 2"
abbreviation (input) OTHERHOST :: nat where "OTHERHOST \<equiv> 3"

record host_ether_filter =
  hef_addr :: ethaddr
  hef_offset :: nat
  hef_drop_own :: bool
  hef_drop_other :: bool
  hef_noutputs :: nat

definition hostetherfilter_simple_action ::
  "host_ether_filter \<Rightarrow> packet \<Rightarrow> (packet option \<times> (nat \<times> packet) list) exec" where
  "hostetherfilter_simple_action e p =
     (let eth = drop (hef_offset e) (data_view p); dhost = take 6 eth; shost = take 6 (drop 6 eth);
          other = (\<lambda>p. if hef_noutputs e > 1 then [(1, p)] else [])
      in if length eth < 14 then Inl Out_of_bounds
         else if hef_drop_own e \<and> shost = hef_addr e then Inr (None, other p)
         else if dhost = hef_addr e then Inr (Some (p\<lparr> packet_type_anno := HOST \<rparr>), [])
         else if dhost = replicate 6 0xFF then Inr (Some (p\<lparr> packet_type_anno := BROADCAST \<rparr>), [])
         else if (dhost ! 0) AND 0x01 \<noteq> 0 then Inr (Some (p\<lparr> packet_type_anno := MULTICAST \<rparr>), [])
         else (let p = p\<lparr> packet_type_anno := OTHERHOST \<rparr>
               in if hef_drop_other e then Inr (None, other p) else Inr (Some p, [])))"

definition dropbroadcasts_simple_action :: "nat \<Rightarrow> nat \<Rightarrow> packet \<Rightarrow> nat \<times> packet option \<times> (nat \<times> packet) list" where
  "dropbroadcasts_simple_action noutputs drops p =
     (if packet_type_anno p = BROADCAST \<or> packet_type_anno p = MULTICAST
      then (drops + 1, None, if noutputs = 2 then [(1, p)] else [])
      else (drops, Some p, []))"

definition strip_simple_action :: "nat \<Rightarrow> packet \<Rightarrow> packet" where
  "strip_simple_action nbytes p = packet_pull nbytes p"

definition paint_simple_action :: "u8 \<Rightarrow> packet \<Rightarrow> packet" where
  "paint_simple_action color p = p\<lparr> paint_anno := color \<rparr>"

definition painttee_simple_action :: "u8 \<Rightarrow> packet \<Rightarrow> packet \<times> (nat \<times> packet) list" where
  "painttee_simple_action color p =
     (if paint_anno p = color then (let (q, p) = clone p in (p, [(1, q)])) else (p, []))"

text \<open>\<open>for (i = 0; i < n - 1; i++) output(i).push(p->clone()); output(n - 1).push(p);\<close>\<close>

fun tee_loop :: "nat \<Rightarrow> nat \<Rightarrow> packet \<Rightarrow> (nat \<times> packet) list" where
  "tee_loop i 0 p = [(i, p)]"
| "tee_loop i (Suc k) p = (let (q, p) = clone p in (i, q) # tee_loop (i + 1) k p)"

definition tee_push :: "nat \<Rightarrow> packet \<Rightarrow> (nat \<times> packet) list" where
  "tee_push n p = tee_loop 0 (n - 1) p"

section \<open>Valid headers\<close>

text \<open>A header of five words that verifies.\<close>

definition valid_header :: "byte list \<Rightarrow> bool" where
  "valid_header h \<longleftrightarrow> length h = 20 \<and> h ! 0 = 0x45 \<and> click_in_cksum h = 0"

lemma list20_cases:
  assumes "length xs = 20"
  obtains a0 a1 a2 a3 a4 a5 a6 a7 a8 a9 b0 b1 b2 b3 b4 b5 b6 b7 b8 b9
  where "xs = [a0, a1, a2, a3, a4, a5, a6, a7, a8, a9, b0, b1, b2, b3, b4, b5, b6, b7, b8, b9]"
  using assms by (auto simp: numeral_eq_Suc length_Suc_conv)

lemma header_fields [simp]: "ip_v 0x45 = 4" "ip_hl 0x45 = 5"
  by (simp_all add: ip_v_def ip_hl_def)

lemma ip_hl_le: "ip_hl b \<le> 15"
proof -
  have "b AND 0xF = take_bit 4 b" by (simp add: take_bit_eq_mask mask_eq_exp_minus_1)
  then have "ip_hl b = take_bit 4 (unat b)" by (simp add: ip_hl_def unsigned_take_bit_eq)
  then show ?thesis using take_bit_nat_less_exp [of 4 "unat b"] by simp
qed

lemma valid_header_wsum:
  "length h = 20 \<Longrightarrow> h ! 0 = 0x45 \<Longrightarrow> valid_header h \<longleftrightarrow> wsum h mod 65535 = 0"
proof -
  assume h: "length h = 20" "h ! 0 = 0x45"
  then obtain b t where "h = 0x45 # b # t" by (cases h rule: wsum.cases) auto
  then have "wsum h \<noteq> 0" by (simp add: unat_le16)
  with h show ?thesis by (simp add: valid_header_def click_in_cksum_zero_iff)
qed

text \<open>A packet of a valid header and a body of the announced length passes the check.\<close>

lemma checkip_pass:
  assumes "pdata p = h @ body" and "valid_header h" and "read16 h 2 = Inr (htons (of_nat (plength p)))"
    and "plength p < 65536" and "read32 h 16 = Inr dst" and "ck_offset e = 0"
    and "read32 h 12 = Inr src" and "src \<notin> set (bad_src e)"
  shows "checkip_simple_action e p = Inr (e, Some (p\<lparr> network_header := Some (length (headroom_bytes p)),
     transport_header := Some (length (headroom_bytes p) + 20), dst_ip_anno := dst \<rparr>), [])"
proof -
  have h: "length h = 20" "h ! 0 = 0x45" "click_in_cksum h = 0" using assms(2) by (simp_all add: valid_header_def)
  have v: "data_view p = h @ body @ tailroom_bytes p" using assms(1) by (simp add: data_view_def)
  have r: "read8 (data_view p) 0 = Inr 0x45" "read16 (data_view p) 2 = Inr (htons (of_nat (plength p)))"
    "read32 (data_view p) 12 = Inr src" "read32 (data_view p) 16 = Inr dst"
    using h assms(3,5,7) by (simp_all add: v read_append_left read8_def nth_append)
  have n: "unat (of_nat (plength p) :: u16) = plength p" using assms(4) by (simp add: unat_of_nat)
  have t: "take 20 (data_view p) = h" using h by (simp add: v)
  have l: "20 \<le> plength p" using assms(1) h by simp
  show ?thesis
    using assms(6,8) l h(3)
    by (simp add: checkip_simple_action_def Let_def r n t set_network_header_def buffer_def)
qed

section \<open>Checksums the elements write\<close>

lemma fill_checksum_ok:
  assumes "length h = 20" and "h ! 0 = 0x45"
  shows "\<exists>h'. fill_checksum 20 (h @ rest) = Inr (h' @ rest) \<and> valid_header h' \<and>
     take 10 h' = take 10 h \<and> drop 12 h' = drop 12 h"
proof -
  obtain a0 a1 a2 a3 a4 a5 a6 a7 a8 a9 b0 b1 b2 b3 b4 b5 b6 b7 b8 b9
    where h: "h = [a0, a1, a2, a3, a4, a5, a6, a7, a8, a9, b0, b1, b2, b3, b4, b5, b6, b7, b8, b9]"
    using assms(1) by (rule list20_cases)
  let ?a = "[a0, a1, a2, a3, a4, a5, a6, a7, a8, a9]" and ?b = "[b2, b3, b4, b5, b6, b7, b8, b9]"
  let ?c = "click_in_cksum (?a @ [0, 0] @ ?b)"
  have z: "bytes16 0 = [0, 0]" by (simp add: bytes16_def)
  have "fill_checksum 20 (h @ rest) = Inr ((?a @ bytes16 ?c @ ?b) @ rest)"
    by (simp add: fill_checksum_def write_bytes_def h z)
  moreover have "click_in_cksum (?a @ bytes16 ?c @ ?b) = 0"
    by (rule in_cksum_fill) simp_all
  then have "valid_header (?a @ bytes16 ?c @ ?b)" using assms(2) by (simp add: valid_header_def h)
  moreover have "take 10 (?a @ bytes16 ?c @ ?b) = take 10 h" "drop 12 (?a @ bytes16 ?c @ ?b) = drop 12 h"
    by (simp_all add: h)
  ultimately show ?thesis by blast
qed

text \<open>On a little-endian host the byte swap multiplies by 256 in one's complement arithmetic.\<close>

lemma unat_htons_mod: "unat (htons w) mod 65535 = 256 * unat w mod 65535"
proof -
  obtain a b where w: "w = le16 a b" by (metis le16_bytes)
  have "256 * unat w = unat (htons w) + unat b * 65535"
    by (simp add: w htons_le16 unat_le16)
  then show ?thesis by (simp only: mod_mult_self1)
qed

lemma ttl_checksum_mod: "unat (ttl_checksum c) mod 65535 = (unat c + 1) mod 65535"
proof -
  have lt: "unat w < 65536" for w :: u16 by (rule less_le_trans [OF unsigned_less]) simp
  define n where "n = unat (ntohs c)"
  define s :: u32 where "s = ucast (NOT (ntohs c)) + 0xFEFF"
  define v :: u16 where "v = ucast (s + drop_bit 16 s)"
  have n: "n < 65536" using lt by (simp add: n_def)
  have "unat (ucast (NOT (ntohs c)) :: u32) = 65535 - n"
    using lt [of "NOT (ntohs c)"] by (simp add: unsigned_ucast_eq take_bit_nat_eq_self unat_not16 n_def)
  then have S: "unat s = 130814 - n" using n by (simp add: s_def unat_word_ariths)
  have "unat (drop_bit 16 s) = unat s div 65536" by (simp add: drop_bit_eq_div unat_div)
  then have V: "unat v = (unat s + unat s div 65536) mod 65536"
    using S by (simp add: v_def unsigned_ucast_eq take_bit_eq_mod unat_word_ariths mod_mod_cancel)
  have vn: "unat v + n = 130814 \<or> unat v + n = 65279"
  proof (cases "n \<le> 65278")
    case True
    then have "unat s div 65536 = 1" "unat s + 1 - 65536 < 65536" "65536 \<le> unat s + 1" using S by simp_all
    then have "unat v = unat s + 1 - 65536" by (simp add: V le_mod_geq)
    with True S show ?thesis by simp
  next
    case False
    with S n show ?thesis by (simp add: V)
  qed
  have m: "(256 * m + 1) mod 65535 = 0" if "m = 130814 \<or> m = 65279" for m :: nat using that by auto
  have c: "unat c mod 65535 = 256 * n mod 65535" using unat_htons_mod [of "ntohs c"] by (simp add: n_def)
  have "(unat (htons v) + (unat c + 1)) mod 65535 = (256 * unat v + (256 * n + 1)) mod 65535"
    by (rule mod_add_cong [OF unat_htons_mod mod_add_cong [OF c refl]])
  also have "\<dots> = (256 * (unat v + n) + 1) mod 65535" by (simp add: algebra_simps)
  also have "\<dots> = 0" using vn by (rule m)
  finally have "(unat (htons v) + (unat c + 1)) mod 65535 = 0" .
  moreover have "unat (ttl_checksum c) + (unat (htons v) + (unat c + 1)) = 65535 + (unat c + 1)"
    using lt [of "htons v"] by (simp add: ttl_checksum_def Let_def s_def [symmetric] v_def [symmetric] unat_not16)
  ultimately obtain k where "unat (ttl_checksum c) + 65535 * k = unat c + 1 + 65535" by (metis mod_eq_0_iff_dvd dvdE add.commute)
  then have "(unat (ttl_checksum c) + 65535 * k) mod 65535 = (unat c + 1 + 65535) mod 65535" by (rule arg_cong)
  then show ?thesis by (simp only: mod_mult_self2 mod_add_self2)
qed

lemma mod_cancel_zero: "(w + k) mod m = (0 + k) mod m \<Longrightarrow> w mod m = (0 :: nat)"
  using mod_eq_dvd_iff_nat [of k "w + k" m] by simp

text \<open>Decrementing the TTL with the incremental update keeps a valid header valid.\<close>

lemma decrement_ttl_valid:
  assumes "valid_header h" and "h ! 8 > 1"
  shows "\<exists>h'. decrement_ttl (h @ rest) = Inr (h' @ rest) \<and> valid_header h' \<and> h' ! 8 = h ! 8 - 1 \<and>
     take 8 h' = take 8 h \<and> h' ! 9 = h ! 9 \<and> drop 12 h' = drop 12 h"
proof -
  have l: "length h = 20" "h ! 0 = 0x45" using assms(1) by (simp_all add: valid_header_def)
  then obtain a0 a1 a2 a3 a4 a5 a6 a7 t p c0 c1 b2 b3 b4 b5 b6 b7 b8 b9
    where h: "h = [a0, a1, a2, a3, a4, a5, a6, a7, t, p, c0, c1, b2, b3, b4, b5, b6, b7, b8, b9]"
    by (auto elim: list20_cases)
  let ?c = "le16 c0 c1"
  let ?h = "[a0, a1, a2, a3, a4, a5, a6, a7, t - 1, p] @ bytes16 (ttl_checksum ?c) @ [b2, b3, b4, b5, b6, b7, b8, b9]"
  have "decrement_ttl (h @ rest) = Inr (?h @ rest)"
    by (simp add: decrement_ttl_def h read8_def read16_def write_bytes_def bytes16_def)
  moreover have "valid_header ?h"
  proof -
    have "1 \<le> t" using assms(2) h by (simp add: word_le_nat_alt word_less_nat_alt)
    then have t: "unat (t - 1) + 1 = unat t" by (simp add: unat_sub word_le_nat_alt)
    have w: "wsum ?h + unat ?c + 1 = wsum h + unat (ttl_checksum ?c)"
      using t by (simp add: h bytes16_def unat_le16)
    have "wsum h mod 65535 = 0" using assms(1) l valid_header_wsum by blast
    have "(wsum ?h + (unat ?c + 1)) mod 65535 = (wsum h + unat (ttl_checksum ?c)) mod 65535"
      using arg_cong [OF w, of "\<lambda>n. n mod 65535"] by (simp only: add.assoc)
    also have "\<dots> = unat (ttl_checksum ?c) mod 65535"
      using \<open>wsum h mod 65535 = 0\<close> by (metis add.left_neutral mod_add_left_eq)
    finally have "(wsum ?h + (unat ?c + 1)) mod 65535 = (0 + (unat ?c + 1)) mod 65535"
      by (simp add: ttl_checksum_mod)
    then have "wsum ?h mod 65535 = 0" by (rule mod_cancel_zero)
    then show ?thesis using l valid_header_wsum [of ?h] by (simp add: h)
  qed
  ultimately show ?thesis by (intro exI [of _ ?h]) (simp add: h)
qed

section \<open>The elements on framed packets\<close>

lemma on_nh_framed:
  assumes "framed p h body" and "f (h @ body @ tailroom_bytes p) = Inr (h' @ body @ tailroom_bytes p)" and "length h' = 20"
  shows "on_nh f p = Inr (p\<lparr> pdata := h' @ body \<rparr>)"
  using assms by (simp add: on_nh_def framed_def buffer_def set_buffer_def Let_def)

lemma framed_update: "framed p h body \<Longrightarrow> length h' = 20 \<Longrightarrow> framed (p\<lparr> pdata := h' @ body' \<rparr>) h' body'"
  by (simp add: framed_def)

text \<open>\<open>SetIPChecksum\<close> repairs the checksum of any five-word header.\<close>

lemma setipchecksum_ok:
  assumes "\<not> shared p" and "framed p h body" and "h ! 0 = 0x45"
  shows "\<exists>h'. setipchecksum_simple_action mem p = Inr (Some (p\<lparr> pdata := h' @ body \<rparr>)) \<and>
     valid_header h' \<and> take 10 h' = take 10 h \<and> drop 12 h' = drop 12 h"
proof -
  have l: "length h = 20" using assms(2) by (simp add: framed_def)
  from fill_checksum_ok [OF l assms(3), of "body @ tailroom_bytes p"] obtain h'
    where f: "fill_checksum 20 (h @ body @ tailroom_bytes p) = Inr (h' @ body @ tailroom_bytes p)"
    and v: "valid_header h'" "take 10 h' = take 10 h" "drop 12 h' = drop 12 h" by blast
  have "on_nh (fill_checksum 20) p = Inr (p\<lparr> pdata := h' @ body \<rparr>)"
    using assms(2) f v(1) by (intro on_nh_framed) (simp_all add: valid_header_def)
  moreover have "network_length p = int (20 + length body)" "network_header p \<noteq> None"
    using assms(2) by (simp_all add: network_length_def framed_def)
  moreover have "ebind (nh_view p) (\<lambda>ip. read8 ip 0) = Inr 0x45"
    using assms l by (cases h) (simp_all add: nh_view_def framed_def buffer_def read8_def nth_append)
  then have "\<exists>ip. nh_view p = Inr ip \<and> read8 ip 0 = Inr 0x45" by (auto simp: ebind_Inr_conv)
  ultimately have "setipchecksum_simple_action mem p = Inr (Some (p\<lparr> pdata := h' @ body \<rparr>))"
    using assms(1) by (auto simp: setipchecksum_simple_action_def uniqueify_unshared Let_def)
  with v show ?thesis by blast
qed

text \<open>\<open>DecIPTTL\<close> lowers the TTL of a valid header by one and keeps it valid, or lets the packet expire.\<close>

lemma decipttl_ok:
  assumes "\<not> shared p" and "framed p h body" and "valid_header h" and "ttl_active e" and "ttl_multicast e"
  shows "h ! 8 \<le> 1 \<Longrightarrow> decipttl_simple_action mem e p =
       Inr (e\<lparr> ttl_drops := ttl_drops e + 1 \<rparr>, None, if ttl_noutputs e > 1 then [(1, p)] else [])"
    and "h ! 8 > 1 \<Longrightarrow> \<exists>h'. decipttl_simple_action mem e p = Inr (e, Some (p\<lparr> pdata := h' @ body \<rparr>), []) \<and>
       valid_header h' \<and> h' ! 8 = h ! 8 - 1 \<and> take 8 h' = take 8 h \<and> h' ! 9 = h ! 9 \<and> drop 12 h' = drop 12 h"
proof -
  have l: "length h = 20" using assms(2) by (simp add: framed_def)
  obtain ip where ip: "nh_view p = Inr ip" "read8 ip 8 = Inr (h ! 8)" "network_header p \<noteq> None"
    using assms(2) l by (auto simp: nh_view_def framed_def buffer_def read8_def nth_append)
  show "h ! 8 \<le> 1 \<Longrightarrow> decipttl_simple_action mem e p =
       Inr (e\<lparr> ttl_drops := ttl_drops e + 1 \<rparr>, None, if ttl_noutputs e > 1 then [(1, p)] else [])"
    using assms(4,5) ip by (simp add: decipttl_simple_action_def)
  assume t: "h ! 8 > 1"
  from decrement_ttl_valid [OF assms(3) t, of "body @ tailroom_bytes p"] obtain h'
    where d: "decrement_ttl (h @ body @ tailroom_bytes p) = Inr (h' @ body @ tailroom_bytes p)"
    and v: "valid_header h'" "h' ! 8 = h ! 8 - 1" "take 8 h' = take 8 h" "h' ! 9 = h ! 9" "drop 12 h' = drop 12 h"
    by blast
  have "on_nh decrement_ttl p = Inr (p\<lparr> pdata := h' @ body \<rparr>)"
    using assms(2) d v(1) by (intro on_nh_framed) (simp_all add: valid_header_def)
  then have "decipttl_simple_action mem e p = Inr (e, Some (p\<lparr> pdata := h' @ body \<rparr>), [])"
    using assms(1,4,5) ip t by (simp add: decipttl_simple_action_def uniqueify_unshared not_le [symmetric] del: not_le)
  with v show "\<exists>h'. decipttl_simple_action mem e p = Inr (e, Some (p\<lparr> pdata := h' @ body \<rparr>), []) \<and>
       valid_header h' \<and> h' ! 8 = h ! 8 - 1 \<and> take 8 h' = take 8 h \<and> h' ! 9 = h ! 9 \<and> drop 12 h' = drop 12 h"
    by blast
qed

text \<open>What \<open>EtherEncap\<close> puts in front, \<open>Strip(14)\<close> takes away.\<close>

lemma etherencap_strip:
  assumes "has_memory mem" and "length ethh = 14"
  shows "\<exists>q. etherencap_smaction mem ethh p = Inr (Some q) \<and> pdata q = ethh @ pdata p \<and>
     pdata (strip_simple_action 14 q) = pdata p"
proof -
  obtain q where q: "packet_push mem 14 p = Inr (Some q)" using packet_push_has_memory [OF assms(1)] by blast
  obtain pre where pre: "length pre = 14" "pdata q = pre @ pdata p"
    using packet_push_ok(1) [OF _ q] assms(1) by (auto simp: has_memory_def)
  have m: "set_mac_header (length (headroom_bytes q)) 14 q =
      Inr (q\<lparr> mac_header := Some (length (headroom_bytes q)), network_header := Some (length (headroom_bytes q) + 14) \<rparr>)"
    using pre by (simp add: set_mac_header_def buffer_def)
  show ?thesis
    using pre assms(2) q m
    by (simp add: etherencap_smaction_def push_mac_header_def write_bytes_def strip_simple_action_def
        packet_pull_def Let_def)
qed

lemma etherencap_unshared:
  "mem_ok mem \<Longrightarrow> etherencap_smaction mem ethh p = Inr (Some q) \<Longrightarrow> \<not> shared q"
  by (auto simp: etherencap_smaction_def push_mac_header_def set_mac_header_def shared_def ebind_Inr_conv
      split: option.splits if_splits dest!: packet_push_ok(2))

section \<open>\<^verbatim>\<open>IPEncap\<close> writes valid headers\<close>

text \<open>The sum of a template header, with its variable fields counted apart.\<close>

lemma wsum_ipencap_header:
  "wsum (ipencap_header e l i c d) =
     wsum (ipencap_header e 0 0 0 0) + unat l + unat i + unat c + unat (ucast d :: u16) + unat (ucast (drop_bit 16 d) :: u16)"
proof -
  have w: "wsum (bytes32 d) = unat (ucast d :: u16) + unat (ucast (drop_bit 16 d) :: u16)" for d
  proof -
    have "bytes32 d = bytes16 (ucast d) @ bytes16 (ucast (drop_bit 16 d))"
      by (auto simp: bytes32_def bytes16_def intro!: bit_word_eqI simp: bit_simps)
    then show ?thesis by simp
  qed
  have s32: "wsum (bytes32 d @ xs) = wsum (bytes32 d) + wsum xs" for d xs by (simp add: wsum_append)
  show ?thesis
    unfolding ipencap_header_def by (simp add: s32 w)
qed

lemma update_cksum_step:
  "(unat (click_update_in_cksum c 0 w) + unat w + n) mod 65535 = (unat c + n) mod 65535"
  by (rule mod_add_cong [OF _ refl]) (use click_update_in_cksum_mod [of c 0 w] in simp)

lemma ipencap_header_length [simp]: "length (ipencap_header e l i c d) = 20"
  by (simp add: ipencap_header_def)

lemma ipencap_header_first: "ipencap_header e l i c d ! 0 = 0x45"
  by (simp add: ipencap_header_def)

lemma ipencap_header_reads:
  "read16 (ipencap_header e l i c d @ r) 2 = Inr l" "read16 (ipencap_header e l i c d @ r) 4 = Inr i"
  "read16 (ipencap_header e l i c d @ r) 10 = Inr c" "read32 (ipencap_header e l i c d @ r) 16 = Inr d"
  "read16 (ipencap_header e l i c d @ r) 16 = Inr (ucast d)"
  "read16 (ipencap_header e l i c d @ r) 18 = Inr (ucast (drop_bit 16 d))"
  "read32 (ipencap_header e l i c d @ r) 12 = Inr (ie_src e)"
proof -
  have u: "le16 (ucast d) (ucast (drop_bit 8 d)) = ucast d" for d :: u32
    unfolding le16_def by (rule bit_word_eqI) (auto simp: bit_simps)
  show "read16 (ipencap_header e l i c d @ r) 2 = Inr l" "read16 (ipencap_header e l i c d @ r) 4 = Inr i"
    "read16 (ipencap_header e l i c d @ r) 10 = Inr c" "read32 (ipencap_header e l i c d @ r) 16 = Inr d"
    "read16 (ipencap_header e l i c d @ r) 16 = Inr (ucast d)" "read32 (ipencap_header e l i c d @ r) 12 = Inr (ie_src e)"
    by (simp_all add: ipencap_header_def read16_def read32_def bytes16_def bytes32_def nth_append u)
  show "read16 (ipencap_header e l i c d @ r) 18 = Inr (ucast (drop_bit 16 d))"
    using u [of "drop_bit 16 d"]
    by (simp add: ipencap_header_def read16_def bytes16_def bytes32_def nth_append)
qed

lemma ipencap_header_writes:
  "write16 (ipencap_header e l i c d @ r) 2 v = Inr (ipencap_header e v i c d @ r)"
  "write16 (ipencap_header e l i c d @ r) 4 v = Inr (ipencap_header e l v c d @ r)"
  "write16 (ipencap_header e l i c d @ r) 10 v = Inr (ipencap_header e l i v d @ r)"
  "write32 (ipencap_header e l i c d @ r) 16 w = Inr (ipencap_header e l i c w @ r)"
  by (simp_all add: ipencap_header_def write_bytes_def bytes16_def bytes32_def)

lemma update_cksum_header:
  "update_cksum 2 (ipencap_header e l i c d @ r) = Inr (ipencap_header e l i (click_update_in_cksum c 0 l) d @ r)"
  "update_cksum 4 (ipencap_header e l i c d @ r) = Inr (ipencap_header e l i (click_update_in_cksum c 0 i) d @ r)"
  "update_cksum 16 (ipencap_header e l i c d @ r) =
     Inr (ipencap_header e l i (click_update_in_cksum c 0 (ucast d)) d @ r)"
  "update_cksum 18 (ipencap_header e l i c d @ r) =
     Inr (ipencap_header e l i (click_update_in_cksum c 0 (ucast (drop_bit 16 d))) d @ r)"
  by (simp_all add: update_cksum_def ipencap_header_reads ipencap_header_writes)

lemma ipencap_header_valid:
  assumes "(unat c + (unat (ucast d :: u16) + unat (ucast (drop_bit 16 d) :: u16) + wsum (ipencap_header e 0 0 0 0))) mod 65535 = 0"
  shows "valid_header (ipencap_header e l i (click_update_in_cksum (click_update_in_cksum c 0 l) 0 i) d)"
proof -
  let ?cl = "click_update_in_cksum c 0 l" and ?w = "wsum (ipencap_header e 0 0 0 0)"
  let ?d = "unat (ucast d :: u16) + unat (ucast (drop_bit 16 d) :: u16)"
  have "wsum (ipencap_header e l i (click_update_in_cksum ?cl 0 i) d) =
      unat (click_update_in_cksum ?cl 0 i) + unat i + (unat l + (?d + ?w))"
    by (simp add: wsum_ipencap_header [of e l i])
  then have "wsum (ipencap_header e l i (click_update_in_cksum ?cl 0 i) d) mod 65535 =
      (unat ?cl + (unat l + (?d + ?w))) mod 65535" by (simp only: update_cksum_step)
  also have "\<dots> = (unat ?cl + unat l + (?d + ?w)) mod 65535" by (simp only: add.assoc)
  also have "\<dots> = 0" using assms by (simp only: update_cksum_step)
  finally show ?thesis by (intro iffD2 [OF valid_header_wsum]) (simp_all add: ipencap_header_first)
qed

lemma template_sum:
  "(unat (click_in_cksum (ipencap_header e 0 0 0 d)) +
     (unat (ucast d :: u16) + unat (ucast (drop_bit 16 d) :: u16) + wsum (ipencap_header e 0 0 0 0))) mod 65535 = 0"
  using click_in_cksum_complement [of "ipencap_header e 0 0 0 d"] wsum_ipencap_header [of e 0 0 0 d]
  by (simp add: add.commute add.left_commute)

text \<open>
  The packet \<open>IPEncap\<close> passes on: a valid header with the configured addresses, the total length and
  the next id in front of the old data, the header pointer at its start. In the mode that takes the
  destination from the annotation the checksum is updated for the address as well.
\<close>

lemma ipencap_ok:
  assumes "has_memory mem"
  shows "\<exists>q c. ipencap_simple_action mem e p = Inr (e\<lparr> ie_id := ie_id e + 1 \<rparr>, Some q) \<and>
     (let dst = (if ie_use_dst_anno e then dst_ip_anno p else ie_dst e);
          h = ipencap_header e (htons (of_nat (plength p + 20))) (htons (ucast (ie_id e))) c dst
      in framed q h (pdata p) \<and> valid_header h \<and> dst_ip_anno q = dst) \<and> \<not> shared q"
proof -
  obtain q where q: "packet_push mem 20 p = Inr (Some q)" using packet_push_has_memory [OF assms] by blast
  note push = packet_push_ok [OF _ q]
  obtain pre where pre: "length pre = 20" "pdata q = pre @ pdata p" and ns: "\<not> shared q"
    and da: "dst_ip_anno q = dst_ip_anno p"
    using push assms by (auto simp: has_memory_def)
  let ?td = "if ie_use_dst_anno e then 0 else ie_dst e"
  let ?tc = "click_in_cksum (ipencap_header e 0 0 0 ?td)"
  let ?dst = "if ie_use_dst_anno e then dst_ip_anno p else ie_dst e"
  let ?len = "htons (of_nat (plength p + 20) :: u16)" and ?id = "htons (ucast (ie_id e))"
  define c1 where "c1 = (if ie_use_dst_anno e then
      click_update_in_cksum (click_update_in_cksum ?tc 0 (ucast ?dst)) 0 (ucast (drop_bit 16 ?dst)) else ?tc)"
  let ?c = "click_update_in_cksum (click_update_in_cksum c1 0 ?len) 0 ?id"
  let ?h = "ipencap_header e ?len ?id ?c ?dst"
  have t: "write_bytes (pdata q) 0 (ipencap_template e) =
      Inr (ipencap_header e (if ie_use_dst_anno e then 1 else 0) 0 ?tc ?td @ pdata p)"
    using pre by (simp add: write_bytes_def ipencap_template_def Let_def)
  have pl: "plength q = plength p + 20" using pre by simp
  have "ipencap_simple_action mem e p =
      ebind (set_network_header (length (headroom_bytes q)) 20 (q\<lparr> pdata := ?h @ pdata p, dst_ip_anno := ?dst \<rparr>))
        (\<lambda>p. Inr (e\<lparr> ie_id := ie_id e + 1 \<rparr>, Some p))"
    by (cases "ie_use_dst_anno e")
       (simp_all add: ipencap_simple_action_def q t pl ipencap_header_reads ipencap_header_writes
         update_cksum_header c1_def da)
  also have "\<dots> = Inr (e\<lparr> ie_id := ie_id e + 1 \<rparr>, Some (q\<lparr> pdata := ?h @ pdata p, dst_ip_anno := ?dst,
      network_header := Some (length (headroom_bytes q)), transport_header := Some (length (headroom_bytes q) + 20) \<rparr>))"
    (is "_ = Inr (_, Some ?q)")
    by (simp add: set_network_header_def buffer_def)
  finally have r: "ipencap_simple_action mem e p = Inr (e\<lparr> ie_id := ie_id e + 1 \<rparr>, Some ?q)" .
  have "(unat c1 + (unat (ucast ?dst :: u16) + unat (ucast (drop_bit 16 ?dst) :: u16) +
      wsum (ipencap_header e 0 0 0 0))) mod 65535 = 0"
  proof (cases "ie_use_dst_anno e")
    case True
    let ?c' = "click_update_in_cksum ?tc 0 (ucast (dst_ip_anno p))" and ?w = "wsum (ipencap_header e 0 0 0 0)"
    have "(unat (click_update_in_cksum ?c' 0 (ucast (drop_bit 16 (dst_ip_anno p)))) +
        unat (ucast (drop_bit 16 (dst_ip_anno p)) :: u16) + (unat (ucast (dst_ip_anno p) :: u16) + ?w)) mod 65535 =
        (unat ?c' + unat (ucast (dst_ip_anno p) :: u16) + ?w) mod 65535"
      by (subst update_cksum_step) (simp only: add.assoc)
    also have "\<dots> = 0" using True template_sum [of e 0] by (simp add: update_cksum_step)
    finally show ?thesis using True by (simp add: c1_def add.assoc add.left_commute add.commute)
  qed (use template_sum [of e "ie_dst e"] in \<open>simp add: c1_def\<close>)
  then have "valid_header ?h" by (rule ipencap_header_valid)
  with r ns pre show ?thesis
    by (intro exI [of _ ?q] exI [of _ ?c]) (simp add: framed_def shared_def Let_def)
qed

section \<open>Properties\<close>

text \<open>
  C31. Whatever \<^verbatim>\<open>CheckIPHeader\<close> lets through has an IPv4 header that fits in the data and verifies, a
  total length that covers the header and no more than the data, and no bad source address unless
  the destination is exempt; the packet that leaves is cut to that length and annotated with its
  destination.
\<close>

theorem checkip_sound:
  assumes "checkip_simple_action e p = Inr (e', Some q, outs)" and "ck_checksum e"
  shows "e' = e \<and> outs = [] \<and>
     (\<exists>vhl l src dst. let ip = drop (ck_offset e) (pdata p) in
        read8 ip 0 = Inr vhl \<and> ip_v vhl = 4 \<and> 5 \<le> ip_hl vhl \<and>
        read16 ip 2 = Inr l \<and> ip_hl vhl * 4 \<le> unat (ntohs l) \<and> unat (ntohs l) \<le> length ip \<and>
        click_in_cksum (take (ip_hl vhl * 4) ip) = 0 \<and>
        read32 ip 12 = Inr src \<and> read32 ip 16 = Inr dst \<and> (src \<in> set (bad_src e) \<longrightarrow> dst \<in> set (good_dst e)) \<and>
        pdata q = take (ck_offset e + unat (ntohs l)) (pdata p) \<and> dst_ip_anno q = dst \<and>
        network_header q = Some (length (headroom_bytes p) + ck_offset e))"
proof -
  define ip where "ip = drop (ck_offset e) (pdata p)"
  have len: "ck_offset e + 20 \<le> plength p"
    using assms(1) by (auto simp: checkip_simple_action_def checkip_drop_def Let_def split: if_splits)
  then have v: "drop (ck_offset e) (data_view p) = ip @ tailroom_bytes p" and l20: "20 \<le> length ip"
    by (simp_all add: ip_def data_view_def)
  have r: "read8 (ip @ tailroom_bytes p) 0 = read8 ip 0" "read16 (ip @ tailroom_bytes p) 2 = read16 ip 2"
    "read32 (ip @ tailroom_bytes p) 12 = read32 ip 12" "read32 (ip @ tailroom_bytes p) 16 = read32 ip 16"
    using l20 by (intro read_append_left; linarith)+
  have lp: "int (plength p) - int (ck_offset e) = int (length ip)" using len by (simp add: ip_def)
  note s = assms(1) [unfolded checkip_simple_action_def v Let_def r lp]
  from s assms(2) obtain vhl l src dst q' where h:
    "e' = e" "outs = []" "read8 ip 0 = Inr vhl" "ip_v vhl = 4" "20 \<le> ip_hl vhl * 4" "read16 ip 2 = Inr l"
    "ip_hl vhl * 4 \<le> unat (ntohs l)" "unat (ntohs l) \<le> length ip"
    "click_in_cksum (take (ip_hl vhl * 4) (ip @ tailroom_bytes p)) = 0"
    "read32 ip 12 = Inr src" "read32 ip 16 = Inr dst" "src \<in> set (bad_src e) \<longrightarrow> dst \<in> set (good_dst e)"
    "set_network_header (length (headroom_bytes p) + ck_offset e) (ip_hl vhl * 4) p = Inr q'"
    "q = (if length ip > unat (ntohs l) then packet_take (nat (int (length ip) - int (unat (ntohs l)))) q' else q')\<lparr> dst_ip_anno := dst \<rparr>"
    by (auto simp: ebind_Inr_conv checkip_drop_def not_less simp del: of_nat_unat take_append split: if_splits)
  have q': "pdata q' = pdata p" "network_header q' = Some (length (headroom_bytes p) + ck_offset e)"
    using h(13) by (auto simp: set_network_header_def split: if_splits)
  have nm: "nat (int (length ip) - int n) = length ip - n" for n by simp
  have "length ip = plength p - ck_offset e" by (simp add: ip_def)
  then have "pdata q = take (ck_offset e + unat (ntohs l)) (pdata p)"
    using h(8,14) [unfolded nm] q'(1) len by (auto simp: packet_take_def Let_def)
  moreover have "network_header q = Some (length (headroom_bytes p) + ck_offset e)" "dst_ip_anno q = dst"
    using h(14) q'(2) by (simp_all add: packet_take_keeps)
  ultimately show ?thesis using h by (auto simp: ip_def [symmetric] Let_def)
qed

definition ex_encap :: ip_encap where
  "ex_encap = \<lparr> ie_src = ip_quad 192 168 2 1, ie_dst = ip_quad 224 0 0 22, ie_proto = 2, ie_tos = 0, ie_ttl = 1,
                ie_df = False, ie_use_dst_anno = False, ie_id = 0 \<rparr>"

definition ex_check :: check_ip_header where
  "ex_check = \<lparr> ck_offset = 0, ck_checksum = True, bad_src = [], good_dst = [], ck_drops = 0, ck_noutputs = 1 \<rparr>"

text \<open>A valid header with the given TTL in front of three bytes.\<close>

definition ex_header :: "u8 \<Rightarrow> byte list" where
  "ex_header t = ipencap_header (ex_encap\<lparr> ie_ttl := t \<rparr>) (htons 23) (htons 0)
     (click_in_cksum (ipencap_header (ex_encap\<lparr> ie_ttl := t \<rparr>) (htons 23) (htons 0) 0 (ip_quad 224 0 0 22))) (ip_quad 224 0 0 22)"

definition ex_ip_packet :: "u8 \<Rightarrow> packet" where
  "ex_ip_packet t = ex_packet\<lparr> pdata := ex_header t @ [1, 2, 3], data_packet := None \<rparr>"

lemma ex_header_valid: "valid_header (ex_header t)" "ex_header t ! 8 = t"
proof -
  let ?e = "ex_encap\<lparr> ie_ttl := t \<rparr>" and ?d = "ip_quad 224 0 0 22"
  let ?xs = "[0x45, ie_tos ?e] @ bytes16 (htons 23) @ bytes16 (htons 0) @ bytes16 (if ie_df ?e then htons 0x4000 else 0) @
     [ie_ttl ?e, ie_proto ?e]"
  let ?ys = "bytes32 (ie_src ?e) @ bytes32 ?d"
  have z: "bytes16 0 = [0, 0]" by (simp add: bytes16_def)
  have s: "ipencap_header ?e (htons 23) (htons 0) c ?d = ?xs @ bytes16 c @ ?ys" for c by (simp add: ipencap_header_def)
  have "click_in_cksum (?xs @ bytes16 (click_in_cksum (?xs @ [0, 0] @ ?ys)) @ ?ys) = 0"
    by (rule in_cksum_fill) simp_all
  then have "click_in_cksum (ex_header t) = 0" unfolding ex_header_def s z .
  then show "valid_header (ex_header t)"
    by (simp add: valid_header_def ex_header_def ipencap_header_first)
  show "ex_header t ! 8 = t" by (simp add: ex_header_def ipencap_header_def bytes16_def nth_Cons')
qed

lemma ex_ip_packet_framed: "framed (ex_ip_packet t) (ex_header t) [1, 2, 3]" "\<not> shared (ex_ip_packet t)"
  by (simp_all add: framed_def ex_ip_packet_def ex_packet_def ex_header_def shared_def)

theorem checkip_sound_witness:
  "\<exists>q vhl. checkip_simple_action ex_check (ex_ip_packet 5) = Inr (ex_check, Some q, []) \<and>
     read8 (drop 0 (pdata (ex_ip_packet 5))) 0 = Inr vhl \<and> ip_v vhl = 4"
proof -
  have "read16 (ex_header 5) 2 = Inr (htons (of_nat (plength (ex_ip_packet 5))))"
    "read32 (ex_header 5) 16 = Inr (ip_quad 224 0 0 22)" "read32 (ex_header 5) 12 = Inr (ip_quad 192 168 2 1)"
    "plength (ex_ip_packet 5) < 65536" "pdata (ex_ip_packet 5) = ex_header 5 @ [1, 2, 3]"
    using ipencap_header_reads [of _ _ _ _ _ "[]"]
    by (simp_all add: ex_header_def ex_ip_packet_def ex_encap_def)
  moreover have "ck_offset ex_check = 0" "ip_quad 192 168 2 1 \<notin> set (bad_src ex_check)" "ck_checksum ex_check"
    by (simp_all add: ex_check_def)
  ultimately obtain q where q: "checkip_simple_action ex_check (ex_ip_packet 5) = Inr (ex_check, Some q, [])"
    using checkip_pass [OF _ ex_header_valid(1)] by blast
  from checkip_sound [OF q] have "\<exists>vhl. read8 (drop 0 (pdata (ex_ip_packet 5))) 0 = Inr vhl \<and> ip_v vhl = 4"
    by (auto simp: Let_def ex_check_def)
  with q show ?thesis by blast
qed



text \<open>
  \<^verbatim>\<open>DecIPTTL\<close> drops a packet whose TTL is 1 or less, and otherwise lowers it by one and repairs the
  checksum incrementally: the header still verifies and no other field changes.
\<close>

lemma decipttl_correct:
  assumes "\<not> shared p" and "framed p h body" and "valid_header h" and "ttl_active e" and "ttl_multicast e"
  shows "if h ! 8 \<le> 1
     then decipttl_simple_action mem e p =
       Inr (e\<lparr> ttl_drops := ttl_drops e + 1 \<rparr>, None, if ttl_noutputs e > 1 then [(1, p)] else [])
     else \<exists>h'. decipttl_simple_action mem e p = Inr (e, Some (p\<lparr> pdata := h' @ body \<rparr>), []) \<and>
       valid_header h' \<and> h' ! 8 = h ! 8 - 1 \<and> take 8 h' = take 8 h \<and> h' ! 9 = h ! 9 \<and> drop 12 h' = drop 12 h"
  using decipttl_ok [OF assms] by (simp add: not_le)

theorem decipttl_correct_witness:
  "\<exists>h'. decipttl_simple_action ex_mem \<lparr> ttl_active = True, ttl_multicast = True, ttl_drops = 0, ttl_noutputs = 1 \<rparr> (ex_ip_packet 5) =
       Inr (\<lparr> ttl_active = True, ttl_multicast = True, ttl_drops = 0, ttl_noutputs = 1 \<rparr>,
            Some (ex_ip_packet 5\<lparr> pdata := h' @ [1, 2, 3] \<rparr>), []) \<and> valid_header h' \<and> h' ! 8 = 4"
proof -
  let ?e = "\<lparr> ttl_active = True, ttl_multicast = True, ttl_drops = 0, ttl_noutputs = 1 \<rparr>"
  have t: "\<not> ex_header 5 ! 8 \<le> 1" "ex_header 5 ! 8 - 1 = 4" by (simp_all add: ex_header_valid(2) word_le_nat_alt)
  have a: "ttl_active ?e" "ttl_multicast ?e" by simp_all
  show ?thesis
    using decipttl_correct [OF ex_ip_packet_framed(2,1) ex_header_valid(1) a, of 5 ex_mem]
    unfolding if_not_P [OF t(1)] t(2) by blast
qed

text \<open>
  \<^verbatim>\<open>SetIPChecksum\<close> makes any header of five words verify and changes nothing but the checksum field.
\<close>

lemma setipchecksum_correct:
  assumes "\<not> shared p" and "framed p h body" and "h ! 0 = 0x45"
  shows "\<exists>h'. setipchecksum_simple_action mem p = Inr (Some (p\<lparr> pdata := h' @ body \<rparr>)) \<and>
     valid_header h' \<and> take 10 h' = take 10 h \<and> drop 12 h' = drop 12 h"
  by (rule setipchecksum_ok [OF assms])

theorem setipchecksum_correct_witness:
  "\<exists>h'. setipchecksum_simple_action ex_mem (ex_ip_packet 5) = Inr (Some (ex_ip_packet 5\<lparr> pdata := h' @ [1, 2, 3] \<rparr>)) \<and>
     valid_header h'"
  using setipchecksum_correct [OF ex_ip_packet_framed(2,1), of 5] ex_header_valid(1) [of 5]
  by (auto simp: valid_header_def)

end
