(* ===== verification/Click_RouteTable.thy ===== *)
theory Click_RouteTable
  imports Click_Packet
begin

text \<open>
  The routing table of the client and router configurations: \<^verbatim>\<open>StaticIPLookup\<close>
  (\<^verbatim>\<open>click/elements/ip/lookupiproute.cc\<close>), which is \<^verbatim>\<open>LinearIPLookup\<close>
  (\<^verbatim>\<open>click/elements/ip/lineariplookup.cc\<close>) with changes refused once the router runs, and the superclass
  \<^verbatim>\<open>IPRouteTable\<close> (\<^verbatim>\<open>click/elements/ip/iproutetable.cc\<close>, \<^verbatim>\<open>iproutetable.hh\<close>). A route that has been removed
  stays in the vector, killed. Each route has in \<open>extra\<close> the index from which on routes it contains may
  follow. The parsers of prefixes, addresses and numbers are arguments. An error reported to the
  error handler is its return value.
\<close>

section \<open>Routes\<close>

record iproute =
  rt_addr :: ipaddr
  rt_mask :: ipaddr
  rt_gw :: ipaddr
  rt_port :: int
  rt_extra :: int

definition rt_real :: "iproute \<Rightarrow> bool" where
  "rt_real r \<longleftrightarrow> rt_port r > - 0x80000000"

definition rt_kill :: "iproute \<Rightarrow> iproute" where
  "rt_kill r = r\<lparr> rt_addr := 0, rt_mask := 0xFFFFFFFF, rt_port := - 0x80000000 \<rparr>"

definition rt_contains :: "iproute \<Rightarrow> ipaddr \<Rightarrow> bool" where
  "rt_contains r a = matches_prefix a (rt_addr r) (rt_mask r)"

definition rt_contains_route :: "iproute \<Rightarrow> iproute \<Rightarrow> bool" where
  "rt_contains_route r s \<longleftrightarrow>
     matches_prefix (rt_addr s) (rt_addr r) (rt_mask r) \<and> mask_as_specific (rt_mask s) (rt_mask r)"

definition rt_match :: "iproute \<Rightarrow> iproute \<Rightarrow> bool" where
  "rt_match r s \<longleftrightarrow> rt_addr r = rt_addr s \<and> rt_mask r = rt_mask s \<and>
     (rt_port r < 0 \<or> (rt_gw r = rt_gw s \<and> rt_port r = rt_port s))"

text \<open>
  \<open>cp_ip_route\<close> on the words of its argument. A word missing is the empty string; \<open>junk\<close> is the
  uninitialised member \<open>extra\<close>.
\<close>

definition shift_word :: "string list \<Rightarrow> string \<times> string list" where
  "shift_word s = (case s of [] \<Rightarrow> ([], []) | w # ws \<Rightarrow> (w, ws))"

definition cp_ip_route ::
  "(string \<Rightarrow> (ipaddr \<times> ipaddr) option) \<Rightarrow> (string \<Rightarrow> ipaddr option) \<Rightarrow> (string \<Rightarrow> int option) \<Rightarrow> int \<Rightarrow>
     string list \<Rightarrow> bool \<Rightarrow> iproute option" where
  "cp_ip_route parse_prefix parse_addr parse_int junk s remove_route =
     (case parse_prefix (fst (shift_word s)) of
        None \<Rightarrow> None
      | Some (addr, msk) \<Rightarrow>
          (let s = snd (shift_word s);
               word = fst (shift_word s);
               s' = snd (shift_word s);
               (gw, word, s) =
                 (if word = ''-'' then (0, fst (shift_word s'), snd (shift_word s'))
                  else case parse_addr word of
                         Some g \<Rightarrow> (g, fst (shift_word s'), snd (shift_word s'))
                       | None \<Rightarrow> (0, word, s'));
               r = \<lparr> rt_addr = addr AND msk, rt_mask = msk, rt_gw = gw, rt_port = - 1, rt_extra = junk \<rparr>;
               parsed = (case parse_int word of
                           Some k \<Rightarrow> Some (r\<lparr> rt_port := k \<rparr>)
                         | None \<Rightarrow> if word = [] \<and> remove_route then Some r else None)
           in if fst (shift_word s) = [] then parsed else None))"

section \<open>The table\<close>

record rtable =
  rt_t :: "iproute list"
  zero_route :: int
  last_addr :: ipaddr
  last_entry :: int
  last_addr2 :: ipaddr
  last_entry2 :: int

definition EEXIST :: int where
  "EEXIST = 17"

definition ENOENT :: int where
  "ENOENT = 2"

definition EINVAL :: int where
  "EINVAL = 22"

text \<open>The entries are what the cache members hold before they are first set.\<close>

definition rt_new :: "int \<Rightarrow> int \<Rightarrow> rtable" where
  "rt_new e e2 = \<lparr> rt_t = [], zero_route = - 1, last_addr = 0, last_entry = e, last_addr2 = 0, last_entry2 = e2 \<rparr>"

definition rt_initialize :: "rtable \<Rightarrow> rtable" where
  "rt_initialize t = t\<lparr> last_addr := 0, last_addr2 := 0 \<rparr>"

text \<open>
  The scan of \<open>add_route\<close>: \<open>Inl\<close> the index of a real route for the same prefix, or \<open>Inr\<close> the first
  killed slot, if any.
\<close>

fun scan_slots :: "iproute \<Rightarrow> iproute list \<Rightarrow> nat \<Rightarrow> nat option \<Rightarrow> nat + nat option" where
  "scan_slots r [] i found = Inr found"
| "scan_slots r (x # xs) i found =
     (if \<not> rt_real x then scan_slots r xs (i + 1) (if found = None then Some i else found)
      else if rt_addr x = rt_addr r \<and> rt_mask x = rt_mask r then Inl i
      else scan_slots r xs (i + 1) found)"

definition patch_before :: "iproute \<Rightarrow> nat \<Rightarrow> iproute list \<Rightarrow> iproute list" where
  "patch_before r found ts =
     fold (\<lambda>i ts. if rt_contains_route (ts ! i) r \<and> rt_extra (ts ! i) > int found
                  then ts[i := (ts ! i)\<lparr> rt_extra := int found \<rparr>] else ts) (rev [0..<found]) ts"

definition patch_next :: "iproute \<Rightarrow> nat \<Rightarrow> iproute list \<Rightarrow> iproute list" where
  "patch_next r found ts =
     (case List.find (\<lambda>i. rt_contains_route r (ts ! i) \<and> rt_real (ts ! i)) [found + 1..<length ts] of
        None \<Rightarrow> ts
      | Some i \<Rightarrow> ts[found := (ts ! found)\<lparr> rt_extra := int i \<rparr>])"

definition place_route :: "iproute \<Rightarrow> nat \<Rightarrow> iproute list \<Rightarrow> iproute list" where
  "place_route r found ts =
     (let ts = (if found = length ts then ts @ [r] else ts[found := r]);
          ts = ts[found := (ts ! found)\<lparr> rt_extra := 0x7FFFFFFF \<rparr>]
      in patch_next r found (patch_before r found ts))"

definition add_route :: "rtable \<Rightarrow> iproute \<Rightarrow> bool \<Rightarrow> int \<times> iproute option \<times> rtable" where
  "add_route t r allow_replace =
     (case scan_slots r (rt_t t) 0 None of
        Inl i \<Rightarrow>
          if \<not> allow_replace then (- EEXIST, Some (rt_t t ! i), t)
          else (0, Some (rt_t t ! i),
                t\<lparr> rt_t := (rt_t t)[i := (rt_t t ! i)\<lparr> rt_gw := rt_gw r, rt_port := rt_port r \<rparr>] \<rparr>)
      | Inr slot \<Rightarrow>
          (let found = (case slot of None \<Rightarrow> length (rt_t t) | Some i \<Rightarrow> i)
           in (0, None,
               t\<lparr> rt_t := place_route r found (rt_t t),
                  zero_route := (if rt_addr r = 0 \<and> rt_mask r = 0xFFFFFFFF then int found else zero_route t),
                  last_addr := 0, last_addr2 := 0 \<rparr>)))"

text \<open>\<open>remove_route\<close>. Moving the zero route ends in an assertion that the new \<open>add_route\<close> succeeds.\<close>

definition remove_route :: "rtable \<Rightarrow> iproute \<Rightarrow> (int \<times> iproute option \<times> rtable) exec" where
  "remove_route t route =
     (case List.find (\<lambda>i. rt_match route (rt_t t ! i)) [0..<length (rt_t t)] of
        None \<Rightarrow> Inr (- ENOENT, None, t)
      | Some i \<Rightarrow>
          (let old = rt_t t ! i;
               t1 = t\<lparr> rt_t := (rt_t t)[i := rt_kill old] \<rparr>
           in ebind (if int i = zero_route t then Inr (t1\<lparr> zero_route := - 1 \<rparr>)
                     else if int i < zero_route t
                     then (let z = nat (zero_route t); zero = rt_t t1 ! z;
                               (r, _, t2) = add_route (t1\<lparr> rt_t := (rt_t t1)[z := rt_kill zero] \<rparr>) zero False
                           in if r \<ge> 0 then Inr t2 else Inl Assert_failed)
                     else Inr t1)
                (\<lambda>t. Inr (0, Some old, t\<lparr> last_addr := 0, last_addr2 := 0 \<rparr>))))"

text \<open>The two loops of \<open>lookup_entry\<close>.\<close>

fun best_from :: "ipaddr \<Rightarrow> iproute list \<Rightarrow> nat list \<Rightarrow> nat \<Rightarrow> nat" where
  "best_from a ts [] found = found"
| "best_from a ts (j # js) found =
     best_from a ts js
       (if rt_contains (ts ! j) a \<and> mask_as_specific (rt_mask (ts ! j)) (rt_mask (ts ! found)) then j else found)"

definition lookup_entry :: "iproute list \<Rightarrow> ipaddr \<Rightarrow> int" where
  "lookup_entry ts a =
     (case List.find (\<lambda>i. rt_contains (ts ! i) a) [0..<length ts] of
        None \<Rightarrow> - 1
      | Some i \<Rightarrow> int (best_from a ts [nat (rt_extra (ts ! i))..<length ts] i))"

text \<open>\<open>lookup_route\<close>: the port and, when there is a route, its gateway.\<close>

definition lookup_route :: "rtable \<Rightarrow> ipaddr \<Rightarrow> int \<times> ipaddr option" where
  "lookup_route t a =
     (let ei = lookup_entry (rt_t t) a
      in if ei \<ge> 0 then (rt_port (rt_t t ! nat ei), Some (rt_gw (rt_t t ! nat ei))) else (- 1, None))"

text \<open>\<open>push\<close> with its two-entry cache; an output port out of range fails an assertion of the framework.\<close>

definition rt_push :: "nat \<Rightarrow> rtable \<Rightarrow> packet \<Rightarrow> (rtable \<times> (nat \<times> packet) list) exec" where
  "rt_push noutputs t p =
     (let a = dst_ip_anno p;
          (ei, t) =
            (if a \<noteq> 0 \<and> a = last_addr t then (last_entry t, t)
             else if a \<noteq> 0 \<and> a = last_addr2 t then (last_entry2 t, t)
             else (let ei = lookup_entry (rt_t t) a
                   in if ei \<ge> 0
                      then (ei, t\<lparr> last_addr2 := last_addr t, last_entry2 := last_entry t,
                                   last_addr := a, last_entry := ei \<rparr>)
                      else (- 1, t)))
      in if ei < 0 then Inr (t, [])
         else let e = rt_t t ! nat ei; p = (if rt_gw e \<noteq> 0 then p\<lparr> dst_ip_anno := rt_gw e \<rparr> else p)
              in if 0 \<le> rt_port e \<and> rt_port e < int noutputs then Inr (t, [(nat (rt_port e), p)])
                 else Inl Assert_failed)"

text \<open>One round of \<open>IPRouteTable::configure\<close>: the result so far, the number of replaced routes, the table.\<close>

definition configure_route :: "nat \<Rightarrow> iproute option \<Rightarrow> int \<times> nat \<times> rtable \<Rightarrow> int \<times> nat \<times> rtable" where
  "configure_route noutputs parsed st =
     (case st of (r, eexist, t) \<Rightarrow>
        case parsed of
          None \<Rightarrow> (- EINVAL, eexist, t)
        | Some route \<Rightarrow>
            if rt_port route < 0 \<or> rt_port route \<ge> int noutputs then (- EINVAL, eexist, t)
            else (case add_route t route False of (r1, _, t) \<Rightarrow>
                    if r1 < 0 then (if r1 = - EEXIST then (r, eexist + 1, t) else (r1, eexist, t))
                    else (r, eexist, t)))"

definition rt_configure :: "nat \<Rightarrow> iproute option list \<Rightarrow> rtable \<Rightarrow> int \<times> rtable" where
  "rt_configure noutputs parsed t =
     (case fold (configure_route noutputs) parsed (0, 0, t) of (r, _, t) \<Rightarrow> (r, t))"

text \<open>\<^verbatim>\<open>StaticIPLookup\<close> refuses changes to an initialised router with an error.\<close>

definition static_add_route :: "bool \<Rightarrow> rtable \<Rightarrow> iproute \<Rightarrow> bool \<Rightarrow> int \<times> iproute option \<times> rtable" where
  "static_add_route initialized t r replacing = (if initialized then (- EINVAL, None, t) else add_route t r replacing)"

definition static_remove_route :: "bool \<Rightarrow> rtable \<Rightarrow> iproute \<Rightarrow> (int \<times> iproute option \<times> rtable) exec" where
  "static_remove_route initialized t r = (if initialized then Inr (- EINVAL, None, t) else remove_route t r)"

section \<open>Prefixes\<close>

definition is_prefix_mask :: "ipaddr \<Rightarrow> bool" where
  "is_prefix_mask m \<longleftrightarrow> (\<exists>n. make_prefix n = Inr m)"

lemma mask_as_specific_bits: "mask_as_specific a m \<longleftrightarrow> (\<forall>i. bit m i \<longrightarrow> bit a i)"
  using bit_imp_le_length [of m] by (auto simp: mask_as_specific_def bit_eq_iff bit_simps)

lemma matches_prefix_bits: "matches_prefix a p m \<longleftrightarrow> (\<forall>i. bit m i \<longrightarrow> bit a i = bit p i)"
  using bit_imp_le_length [of m] by (auto simp: matches_prefix_def bit_eq_iff bit_simps)

lemma mask_as_specific_refl [simp]: "mask_as_specific m m"
  by (simp add: mask_as_specific_bits)

lemma mask_as_specific_trans: "mask_as_specific a b \<Longrightarrow> mask_as_specific b c \<Longrightarrow> mask_as_specific a c"
  by (simp add: mask_as_specific_bits)

lemma mask_as_specific_antisym: "mask_as_specific a b \<Longrightarrow> mask_as_specific b a \<Longrightarrow> a = b"
  by (auto simp: mask_as_specific_bits bit_eq_iff)

lemma prefix_masks_comparable:
  assumes "is_prefix_mask a" and "is_prefix_mask b"
  shows "mask_as_specific a b \<or> mask_as_specific b a"
proof -
  have chain: "\<exists>k. k \<le> 32 \<and> m = htonl (push_bit k 0xFFFFFFFF)" if pm: "is_prefix_mask m" for m :: ipaddr
  proof -
    obtain n where mp: "make_prefix n = Inr m" using pm by (auto simp: is_prefix_mask_def)
    then have n: "0 \<le> n" "n \<le> 32" by (simp_all add: make_prefix_def split: if_splits)
    have m: "m = htonl (if n > 0 then push_bit (nat (32 - n)) 0xFFFFFFFF else 0)"
      using mp n unfolding make_prefix_def by simp
    show ?thesis
    proof (cases "n > 0")
      case True
      with m n show ?thesis by (intro exI [of _ "nat (32 - n)"]) simp
    next
      case False
      have z: "push_bit 32 (0xFFFFFFFF :: u32) = 0"
        by (rule bit_eqI) (simp only: bit_push_ones bit_0_eq bot_apply, simp)
      from False have "m = 0" using m by simp
      then show ?thesis by (intro exI [of _ 32]) (simp only: z htonl_zero, simp)
    qed
  qed
  obtain j k where a: "a = htonl (push_bit j 0xFFFFFFFF)" and b: "b = htonl (push_bit k 0xFFFFFFFF)"
    using chain assms by blast
  have "push_bit x 0xFFFFFFFF AND push_bit y 0xFFFFFFFF = (push_bit y 0xFFFFFFFF :: u32)" if "x \<le> y" for x y
    using that by (auto simp: bit_eq_iff bit_and_iff bit_push_ones)
  then have "mask_as_specific (htonl (push_bit x 0xFFFFFFFF)) (htonl (push_bit y 0xFFFFFFFF))" if "x \<le> y" for x y
    unfolding mask_as_specific_def htonl_distrib(1) [symmetric] using that by simp
  then show ?thesis unfolding a b using nat_le_linear [of j k] by blast
qed

lemma contains_nested:
  "rt_contains r a \<Longrightarrow> rt_contains s a \<Longrightarrow> mask_as_specific (rt_mask s) (rt_mask r) \<Longrightarrow> rt_contains_route r s"
  by (auto simp: rt_contains_def rt_contains_route_def matches_prefix_bits mask_as_specific_bits)

section \<open>The longest prefix\<close>

text \<open>
  The invariant of the vector: real routes have prefix masks and no two of them the same prefix, and a
  later route contained in an earlier one is at or behind the index the earlier one points to.
\<close>

definition routes_inv :: "iproute list \<Rightarrow> bool" where
  "routes_inv ts \<longleftrightarrow>
     (\<forall>r \<in> set ts. rt_real r \<longrightarrow> is_prefix_mask (rt_mask r)) \<and>
     (\<forall>i j. i < j \<and> j < length ts \<and> rt_real (ts ! i) \<and> rt_real (ts ! j) \<longrightarrow>
        (rt_addr (ts ! i), rt_mask (ts ! i)) \<noteq> (rt_addr (ts ! j), rt_mask (ts ! j)) \<and>
        (rt_contains_route (ts ! i) (ts ! j) \<longrightarrow> rt_extra (ts ! i) \<le> int j))"

text \<open>A killed route matches the address 0.0.0.0 only.\<close>

definition killed_ok :: "iproute list \<Rightarrow> bool" where
  "killed_ok ts \<longleftrightarrow> (\<forall>r \<in> set ts. \<not> rt_real r \<longrightarrow> rt_addr r = 0 \<and> rt_mask r = 0xFFFFFFFF)"

lemma ones_matches: "matches_prefix a p 0xFFFFFFFF \<longleftrightarrow> a = p"
proof -
  have "bit (0xFFFFFFFF :: u32) i \<longleftrightarrow> i < 32" for i using bit_push_ones [of 0 i] by simp
  then show ?thesis by (auto simp: matches_prefix_bits bit_eq_iff dest: bit_imp_le_length)
qed

lemma ones_specific: "mask_as_specific 0xFFFFFFFF k"
proof -
  have "bit (0xFFFFFFFF :: u32) i \<longleftrightarrow> i < 32" for i using bit_push_ones [of 0 i] by simp
  then show ?thesis using bit_imp_le_length [of k] by (auto simp: mask_as_specific_bits)
qed

lemma contains_real: "killed_ok ts \<Longrightarrow> r \<in> set ts \<Longrightarrow> a \<noteq> 0 \<Longrightarrow> rt_contains r a \<Longrightarrow> rt_real r"
  by (auto simp: killed_ok_def rt_contains_def ones_matches)

lemma best_from_max:
  assumes "\<forall>k \<in> set js \<union> {found}. is_prefix_mask (rt_mask (ts ! k)) \<or> \<not> rt_contains (ts ! k) a"
    and "rt_contains (ts ! found) a"
  shows "best_from a ts js found \<in> set js \<union> {found} \<and> rt_contains (ts ! best_from a ts js found) a \<and>
     (\<forall>k \<in> set js \<union> {found}. rt_contains (ts ! k) a \<longrightarrow>
        mask_as_specific (rt_mask (ts ! best_from a ts js found)) (rt_mask (ts ! k)))"
  using assms
proof (induction a ts js found rule: best_from.induct)
  case (2 a ts j js found)
  let ?n = "if rt_contains (ts ! j) a \<and> mask_as_specific (rt_mask (ts ! j)) (rt_mask (ts ! found)) then j else found"
  let ?b = "best_from a ts js ?n"
  have n: "rt_contains (ts ! ?n) a" using "2.prems"(2) by simp
  have p: "\<forall>k \<in> set js \<union> {?n}. is_prefix_mask (rt_mask (ts ! k)) \<or> \<not> rt_contains (ts ! k) a"
    using "2.prems"(1) by auto
  have ih: "?b \<in> set js \<union> {?n}" "rt_contains (ts ! ?b) a"
    "\<And>k. k \<in> set js \<union> {?n} \<Longrightarrow> rt_contains (ts ! k) a \<Longrightarrow> mask_as_specific (rt_mask (ts ! ?b)) (rt_mask (ts ! k))"
    using "2.IH" [OF p n] by blast+
  have nk: "mask_as_specific (rt_mask (ts ! ?n)) (rt_mask (ts ! k))" if "k \<in> {j, found}" "rt_contains (ts ! k) a" for k
    using that prefix_masks_comparable [of "rt_mask (ts ! j)" "rt_mask (ts ! found)"] "2.prems" by auto
  have "mask_as_specific (rt_mask (ts ! ?b)) (rt_mask (ts ! k))"
    if k: "k \<in> set (j # js) \<union> {found}" "rt_contains (ts ! k) a" for k
  proof (cases "k \<in> set js")
    case True
    then show ?thesis using ih(3) k(2) by simp
  next
    case False
    then have "k \<in> {j, found}" using k(1) by auto
    then have "mask_as_specific (rt_mask (ts ! ?n)) (rt_mask (ts ! k))" using nk k(2) by blast
    with ih(3) [of ?n] n show ?thesis using mask_as_specific_trans by blast
  qed
  moreover have "?b \<in> set (j # js) \<union> {found}" using ih(1) by (auto split: if_splits)
  ultimately show ?case using ih(2) by simp
qed simp

lemma find_upt: "List.find P [0..<n] = Some i \<longleftrightarrow> i < n \<and> P i \<and> (\<forall>j < i. \<not> P j)"
  by (auto simp: find_Some_iff)

lemma routes_inv_prefix: "routes_inv ts \<Longrightarrow> i < length ts \<Longrightarrow> rt_real (ts ! i) \<Longrightarrow> is_prefix_mask (rt_mask (ts ! i))"
  by (simp add: routes_inv_def)

lemma routes_inv_next:
  "routes_inv ts \<Longrightarrow> i < j \<Longrightarrow> j < length ts \<Longrightarrow> rt_real (ts ! i) \<Longrightarrow> rt_real (ts ! j) \<Longrightarrow>
     rt_contains_route (ts ! i) (ts ! j) \<Longrightarrow> rt_extra (ts ! i) \<le> int j"
  by (simp add: routes_inv_def)

lemma lookup_entry_best:
  assumes "routes_inv ts" and "killed_ok ts" and "a \<noteq> 0"
  shows "(lookup_entry ts a = - 1 \<and> (\<forall>k < length ts. \<not> rt_contains (ts ! k) a)) \<or>
     (\<exists>b < length ts. lookup_entry ts a = int b \<and> rt_real (ts ! b) \<and> rt_contains (ts ! b) a \<and>
        (\<forall>k < length ts. rt_contains (ts ! k) a \<longrightarrow> mask_as_specific (rt_mask (ts ! b)) (rt_mask (ts ! k))))"
proof (cases "List.find (\<lambda>i. rt_contains (ts ! i) a) [0..<length ts]")
  case None
  then have "lookup_entry ts a = - 1" by (simp add: lookup_entry_def)
  then show ?thesis using None by (auto simp: find_None_iff)
next
  case (Some i)
  then have i: "i < length ts" "rt_contains (ts ! i) a" "\<And>j. j < i \<Longrightarrow> \<not> rt_contains (ts ! j) a"
    by (auto simp: find_upt)
  have real: "rt_real (ts ! k)" if "k < length ts" "rt_contains (ts ! k) a" for k
    using contains_real [OF assms(2) nth_mem [OF that(1)] assms(3) that(2)] .
  let ?js = "[nat (rt_extra (ts ! i))..<length ts]"
  define b where "b = best_from a ts ?js i"
  have "\<forall>k \<in> set ?js \<union> {i}. is_prefix_mask (rt_mask (ts ! k)) \<or> \<not> rt_contains (ts ! k) a"
    using real routes_inv_prefix [OF assms(1)] i(1) by auto
  from best_from_max [OF this i(2)] have b: "b \<in> set ?js \<union> {i}" "rt_contains (ts ! b) a"
    "\<And>k. k \<in> set ?js \<union> {i} \<Longrightarrow> rt_contains (ts ! k) a \<Longrightarrow> mask_as_specific (rt_mask (ts ! b)) (rt_mask (ts ! k))"
    unfolding b_def by blast+
  have bl: "b < length ts" using b(1) i(1) by auto
  have "mask_as_specific (rt_mask (ts ! b)) (rt_mask (ts ! k))" if k: "k < length ts" "rt_contains (ts ! k) a" for k
  proof (cases "k \<in> set ?js \<union> {i}")
    case True
    then show ?thesis using b(3) k(2) by blast
  next
    case False
    then have "k \<noteq> i" "k < nat (rt_extra (ts ! i))" using k by auto
    then have ki: "i < k" "int k < rt_extra (ts ! i)" using k i(3) [of k] by linarith+
    have "\<not> rt_contains_route (ts ! i) (ts ! k)"
      using routes_inv_next [OF assms(1) ki(1) k(1) real [OF i(1,2)] real [OF k]] ki(2) by auto
    then have "\<not> mask_as_specific (rt_mask (ts ! k)) (rt_mask (ts ! i))"
      using contains_nested [OF i(2) k(2)] by blast
    then have "mask_as_specific (rt_mask (ts ! i)) (rt_mask (ts ! k))"
      using prefix_masks_comparable routes_inv_prefix [OF assms(1)] real i k by blast
    with b(3) [of i] i(2) show ?thesis using mask_as_specific_trans by blast
  qed
  with bl b(2) real [OF bl b(2)] Some show ?thesis by (auto simp: lookup_entry_def b_def)
qed

section \<open>Adding and removing routes\<close>

lemma fold_update_nth:
  "distinct ks \<Longrightarrow> \<forall>i \<in> set ks. i < length ts \<Longrightarrow>
     length (fold (\<lambda>i ts. if P (ts ! i) then ts[i := g (ts ! i)] else ts) ks ts) = length ts \<and>
     (\<forall>k < length ts. fold (\<lambda>i ts. if P (ts ! i) then ts[i := g (ts ! i)] else ts) ks ts ! k =
        (if k \<in> set ks \<and> P (ts ! k) then g (ts ! k) else ts ! k))"
  by (induction ks arbitrary: ts) (auto simp: nth_list_update)

lemma patch_before_nth:
  assumes "found \<le> length ts"
  shows "length (patch_before r found ts) = length ts"
    and "k < length ts \<Longrightarrow> patch_before r found ts ! k =
      (if k < found \<and> rt_contains_route (ts ! k) r \<and> rt_extra (ts ! k) > int found
       then (ts ! k)\<lparr> rt_extra := int found \<rparr> else ts ! k)"
  using fold_update_nth [of "rev [0..<found]" ts "\<lambda>x. rt_contains_route x r \<and> rt_extra x > int found"
      "\<lambda>x. x\<lparr> rt_extra := int found \<rparr>"] assms
  by (auto simp: patch_before_def)

lemma rt_extra_irrelevant [simp]:
  "rt_contains (x\<lparr> rt_extra := e \<rparr>) a = rt_contains x a" "rt_real (x\<lparr> rt_extra := e \<rparr>) = rt_real x"
  "rt_contains_route (x\<lparr> rt_extra := e \<rparr>) y = rt_contains_route x y"
  "rt_contains_route y (x\<lparr> rt_extra := e \<rparr>) = rt_contains_route y x"
  by (simp_all add: rt_contains_def rt_real_def rt_contains_route_def)

text \<open>What the vector holds once a route is placed, slot by slot.\<close>

lemma place_route_nth:
  assumes "found \<le> length ts"
  shows "\<exists>e. length (place_route r found ts) = max (length ts) (Suc found) \<and>
     place_route r found ts ! found = r\<lparr> rt_extra := e \<rparr> \<and>
     (\<forall>j. found < j \<and> j < length ts \<and> rt_contains_route r (ts ! j) \<and> rt_real (ts ! j) \<longrightarrow> e \<le> int j) \<and>
     (\<forall>k < length ts. k \<noteq> found \<longrightarrow> place_route r found ts ! k =
        (if k < found \<and> rt_contains_route (ts ! k) r \<and> rt_extra (ts ! k) > int found
         then (ts ! k)\<lparr> rt_extra := int found \<rparr> else ts ! k))"
proof -
  define us where "us = (if found = length ts then ts @ [r] else ts[found := r])[found := r\<lparr> rt_extra := 0x7FFFFFFF \<rparr>]"
  have us: "length us = max (length ts) (Suc found)" "us ! found = r\<lparr> rt_extra := 0x7FFFFFFF \<rparr>"
    "\<And>k. k < length ts \<Longrightarrow> k \<noteq> found \<Longrightarrow> us ! k = ts ! k"
    using assms by (auto simp: us_def nth_append)
  define ps where "ps = patch_before r found us"
  have fl: "found < length us" using us(1) by simp
  have ps: "length ps = length us" "ps ! found = r\<lparr> rt_extra := 0x7FFFFFFF \<rparr>"
    "\<And>k. k < length ts \<Longrightarrow> k \<noteq> found \<Longrightarrow> ps ! k =
        (if k < found \<and> rt_contains_route (ts ! k) r \<and> rt_extra (ts ! k) > int found
         then (ts ! k)\<lparr> rt_extra := int found \<rparr> else ts ! k)"
    using patch_before_nth [of found us] us fl by (auto simp: ps_def)
  have pl: "place_route r found ts = patch_next r found ps"
    using assms by (auto simp: place_route_def us_def ps_def Let_def nth_append)
  define hit where "hit = List.find (\<lambda>i. rt_contains_route r (ps ! i) \<and> rt_real (ps ! i)) [found + 1..<length ps]"
  define e where "e = (case hit of None \<Rightarrow> 0x7FFFFFFF | Some i \<Rightarrow> int i)"
  have n: "patch_next r found ps = ps[found := r\<lparr> rt_extra := e \<rparr>]"
  proof (cases hit)
    case None
    then show ?thesis using ps(2) list_update_id [of ps found] unfolding patch_next_def hit_def [symmetric] e_def by simp
  next
    case (Some i)
    then show ?thesis using ps(2) unfolding patch_next_def hit_def [symmetric] e_def by simp
  qed
  have "e \<le> int j" if j: "found < j" "j < length ts" "rt_contains_route r (ts ! j)" "rt_real (ts ! j)" for j
  proof -
    have c: "rt_contains_route r (ps ! j)" "rt_real (ps ! j)" using ps(3) [of j] j by auto
    show ?thesis
    proof (cases hit)
      case None
      then show ?thesis using c j us(1) ps(1) by (auto simp: hit_def find_None_iff)
    next
      case (Some i)
      then obtain k where k: "k < length [found + 1..<length ps]" "i = [found + 1..<length ps] ! k"
        "\<forall>l < k. \<not> (rt_contains_route r (ps ! ([found + 1..<length ps] ! l)) \<and> rt_real (ps ! ([found + 1..<length ps] ! l)))"
        unfolding hit_def find_Some_iff by blast
      have "\<not> j - (found + 1) < k"
      proof
        assume "j - (found + 1) < k"
        with k c j show False by (auto dest!: spec [of _ "j - (found + 1)"])
      qed
      with k j Some show ?thesis by (simp add: e_def)
    qed
  qed
  then show ?thesis
    unfolding pl n using ps us(1) fl by (intro exI [of _ e]) auto
qed

definition route_key :: "iproute \<Rightarrow> ipaddr \<times> ipaddr" where
  "route_key r = (rt_addr r, rt_mask r)"

definition route_val :: "iproute \<Rightarrow> ipaddr \<times> int" where
  "route_val r = (rt_gw r, rt_port r)"

text \<open>The abstract table: the gateway and port of each prefix that has a real route.\<close>

definition rt_routes :: "iproute list \<Rightarrow> ipaddr \<times> ipaddr \<Rightarrow> (ipaddr \<times> int) option" where
  "rt_routes ts k = map_option route_val (List.find (\<lambda>r. rt_real r \<and> route_key r = k) ts)"

lemma route_key_extra [simp]: "route_key (x\<lparr> rt_extra := e \<rparr>) = route_key x" "route_val (x\<lparr> rt_extra := e \<rparr>) = route_val x"
  by (simp_all add: route_key_def route_val_def)

lemma routes_inv_unique:
  "routes_inv ts \<Longrightarrow> i < length ts \<Longrightarrow> j < length ts \<Longrightarrow> rt_real (ts ! i) \<Longrightarrow> rt_real (ts ! j) \<Longrightarrow>
     route_key (ts ! i) = route_key (ts ! j) \<Longrightarrow> i = j"
  unfolding routes_inv_def route_key_def by (metis linorder_neqE_nat)

lemma rt_routes_iff:
  assumes "routes_inv ts"
  shows "rt_routes ts k = Some v \<longleftrightarrow>
     (\<exists>i < length ts. rt_real (ts ! i) \<and> route_key (ts ! i) = k \<and> route_val (ts ! i) = v)"
proof
  assume "rt_routes ts k = Some v"
  then show "\<exists>i < length ts. rt_real (ts ! i) \<and> route_key (ts ! i) = k \<and> route_val (ts ! i) = v"
    by (auto simp: rt_routes_def find_Some_iff)
next
  assume "\<exists>i < length ts. rt_real (ts ! i) \<and> route_key (ts ! i) = k \<and> route_val (ts ! i) = v"
  then obtain i where i: "i < length ts" "rt_real (ts ! i)" "route_key (ts ! i) = k" "route_val (ts ! i) = v" by blast
  have "List.find (\<lambda>r. rt_real r \<and> route_key r = k) ts \<noteq> None"
    using i nth_mem [OF i(1)] by (auto simp: find_None_iff)
  then obtain x where x: "List.find (\<lambda>r. rt_real r \<and> route_key r = k) ts = Some x" by blast
  then obtain j where j: "j < length ts" "rt_real (ts ! j)" "route_key (ts ! j) = k" "x = ts ! j"
    by (auto simp: find_Some_iff)
  then have "i = j" using routes_inv_unique [OF assms i(1) j(1) i(2) j(2)] i(3) by simp
  with i j x show "rt_routes ts k = Some v" by (simp add: rt_routes_def)
qed

lemma rt_routes_None: "rt_routes ts k = None \<longleftrightarrow> (\<forall>r \<in> set ts. rt_real r \<longrightarrow> route_key r \<noteq> k)"
  by (auto simp: rt_routes_def find_None_iff)

text \<open>A route that may be added: its mask is a prefix and its port one the route is known by.\<close>

definition route_ok :: "iproute \<Rightarrow> bool" where
  "route_ok r \<longleftrightarrow> is_prefix_mask (rt_mask r) \<and> rt_port r \<ge> 0"

lemma place_route_cases:
  assumes "found \<le> length ts"
  obtains e where "length (place_route r found ts) = max (length ts) (Suc found)"
    "place_route r found ts ! found = r\<lparr> rt_extra := e \<rparr>"
    "\<And>j. found < j \<Longrightarrow> j < length ts \<Longrightarrow> rt_contains_route r (ts ! j) \<Longrightarrow> rt_real (ts ! j) \<Longrightarrow> e \<le> int j"
    "\<And>k. k < length ts \<Longrightarrow> k \<noteq> found \<Longrightarrow> \<exists>x \<le> rt_extra (ts ! k). place_route r found ts ! k = (ts ! k)\<lparr> rt_extra := x \<rparr> \<and>
        (k < found \<and> rt_contains_route (ts ! k) r \<longrightarrow> x \<le> int found)"
proof -
  obtain e where e: "length (place_route r found ts) = max (length ts) (Suc found)"
    "place_route r found ts ! found = r\<lparr> rt_extra := e \<rparr>"
    "\<And>j. found < j \<Longrightarrow> j < length ts \<Longrightarrow> rt_contains_route r (ts ! j) \<Longrightarrow> rt_real (ts ! j) \<Longrightarrow> e \<le> int j"
    "\<And>k. k < length ts \<Longrightarrow> k \<noteq> found \<Longrightarrow> place_route r found ts ! k =
        (if k < found \<and> rt_contains_route (ts ! k) r \<and> rt_extra (ts ! k) > int found
         then (ts ! k)\<lparr> rt_extra := int found \<rparr> else ts ! k)"
    using place_route_nth [OF assms, of r] by blast
  have "\<exists>x \<le> rt_extra (ts ! k). place_route r found ts ! k = (ts ! k)\<lparr> rt_extra := x \<rparr> \<and>
        (k < found \<and> rt_contains_route (ts ! k) r \<longrightarrow> x \<le> int found)" if "k < length ts" "k \<noteq> found" for k
    using e(4) [OF that]
    by (intro exI [of _ "if k < found \<and> rt_contains_route (ts ! k) r \<and> rt_extra (ts ! k) > int found
                         then int found else rt_extra (ts ! k)"]) auto
  with e(1-3) show thesis using that by blast
qed

lemma place_route_inv:
  assumes inv: "routes_inv ts" and le: "found \<le> length ts" and slot: "found < length ts \<Longrightarrow> \<not> rt_real (ts ! found)"
    and ok: "route_ok r" and new: "rt_routes ts (route_key r) = None"
  shows "routes_inv (place_route r found ts)"
    and "rt_routes (place_route r found ts) = (rt_routes ts)(route_key r \<mapsto> route_val r)"
    and "killed_ok ts \<Longrightarrow> killed_ok (place_route r found ts)"
proof -
  obtain e where u: "length (place_route r found ts) = max (length ts) (Suc found)"
    "place_route r found ts ! found = r\<lparr> rt_extra := e \<rparr>"
    "\<And>j. found < j \<Longrightarrow> j < length ts \<Longrightarrow> rt_contains_route r (ts ! j) \<Longrightarrow> rt_real (ts ! j) \<Longrightarrow> e \<le> int j"
    "\<And>k. k < length ts \<Longrightarrow> k \<noteq> found \<Longrightarrow> \<exists>x \<le> rt_extra (ts ! k). place_route r found ts ! k = (ts ! k)\<lparr> rt_extra := x \<rparr> \<and>
        (k < found \<and> rt_contains_route (ts ! k) r \<longrightarrow> x \<le> int found)"
    using place_route_cases [OF le, of r] by blast
  let ?u = "place_route r found ts"
  have lk: "k < length ts" if "k < length ?u" "k \<noteq> found" for k using that le u(1) by auto
  have real: "rt_real r" using ok by (simp add: route_ok_def rt_real_def)
  have core: "rt_real (?u ! k) = rt_real (ts ! k)" "route_key (?u ! k) = route_key (ts ! k)"
      "route_val (?u ! k) = route_val (ts ! k)" "rt_extra (?u ! k) \<le> rt_extra (ts ! k)"
      "\<And>y. rt_contains_route (?u ! k) y = rt_contains_route (ts ! k) y"
      "\<And>y. rt_contains_route y (?u ! k) = rt_contains_route y (ts ! k)"
      "k < found \<Longrightarrow> rt_contains_route (ts ! k) r \<Longrightarrow> rt_extra (?u ! k) \<le> int found"
    if "k < length ?u" "k \<noteq> found" for k
    using u(4) [OF lk [OF that] that(2)] by auto
  have fresh: "route_key (ts ! k) \<noteq> route_key r" if "k < length ts" "rt_real (ts ! k)" for k
    using new that by (auto simp: rt_routes_None)
  have mask: "is_prefix_mask (rt_mask (?u ! k))" if "k < length ?u" "rt_real (?u ! k)" for k
    using that core(1,2) [of k] routes_inv_prefix [OF inv lk] ok u(2)
    by (cases "k = found") (auto simp: route_ok_def route_key_def)
  have pair: "route_key (?u ! i) \<noteq> route_key (?u ! j) \<and> (rt_contains_route (?u ! i) (?u ! j) \<longrightarrow> rt_extra (?u ! i) \<le> int j)"
    if ij: "i < j" "j < length ?u" "rt_real (?u ! i)" "rt_real (?u ! j)" for i j
  proof -
    have il: "i < length ?u" using ij by simp
    consider "i = found" "j \<noteq> found" | "j = found" "i \<noteq> found" | "i \<noteq> found" "j \<noteq> found" using ij(1) by blast
    then show ?thesis
    proof cases
      case 1
      with ij core [OF ij(2)] lk [OF ij(2)] fresh [of j] u(2,3) show ?thesis by auto
    next
      case 2
      with ij core [OF il] lk [OF il] fresh [of i] u(2) show ?thesis by auto
    next
      case 3
      with ij core [OF il] core [OF ij(2)] lk [OF ij(2)] routes_inv_unique [OF inv, of i j] routes_inv_next [OF inv, of i j]
      show ?thesis by fastforce
    qed
  qed
  show i': "routes_inv ?u"
    unfolding routes_inv_def using mask pair by (auto simp: all_set_conv_all_nth route_key_def)
  have fu: "found < length ?u" using u(1) by simp
  have "rt_routes ?u k = Some v \<longleftrightarrow> ((rt_routes ts)(route_key r \<mapsto> route_val r)) k = Some v" for k v
  proof -
    have "rt_routes ?u k = Some v \<longleftrightarrow>
        (\<exists>i < length ?u. rt_real (?u ! i) \<and> route_key (?u ! i) = k \<and> route_val (?u ! i) = v)" by (rule rt_routes_iff [OF i'])
    also have "\<dots> \<longleftrightarrow> (route_key r = k \<and> route_val r = v) \<or>
        (\<exists>i < length ?u. i \<noteq> found \<and> rt_real (?u ! i) \<and> route_key (?u ! i) = k \<and> route_val (?u ! i) = v)"
      using fu u(2) real by (metis rt_extra_irrelevant(2) route_key_extra)
    also have "\<dots> \<longleftrightarrow> (route_key r = k \<and> route_val r = v) \<or>
        (\<exists>i < length ts. i \<noteq> found \<and> rt_real (ts ! i) \<and> route_key (ts ! i) = k \<and> route_val (ts ! i) = v)"
    proof -
      have "i < length ?u \<and> i \<noteq> found \<longleftrightarrow> i < length ts \<and> i \<noteq> found" for i using lk u(1) by auto
      then show ?thesis using core(1-3) by (metis (no_types, lifting))
    qed
    also have "\<dots> \<longleftrightarrow> (route_key r = k \<and> route_val r = v) \<or> rt_routes ts k = Some v"
      unfolding rt_routes_iff [OF inv] using slot by blast
    finally show ?thesis using new by (cases "k = route_key r") auto
  qed
  then show "rt_routes ?u = (rt_routes ts)(route_key r \<mapsto> route_val r)"
    by (intro ext) (metis not_None_eq)
  show "killed_ok ?u" if "killed_ok ts"
    unfolding killed_ok_def all_set_conv_all_nth
  proof (intro allI impI)
    fix k assume k: "k < length ?u" "\<not> rt_real (?u ! k)"
    then have "k \<noteq> found" using u(2) real by auto
    with k core(1,2) [of k] lk [of k] that show "rt_addr (?u ! k) = 0 \<and> rt_mask (?u ! k) = 0xFFFFFFFF"
      by (auto simp: killed_ok_def all_set_conv_all_nth route_key_def)
  qed
qed

lemma scan_slots_Inl:
  "scan_slots r xs i found = Inl j \<Longrightarrow> \<exists>k < length xs. j = i + k \<and> rt_real (xs ! k) \<and> route_key (xs ! k) = route_key r"
proof (induction r xs i found rule: scan_slots.induct)
  case (2 r x xs i found)
  show ?case
  proof (cases "rt_real x \<and> route_key x = route_key r")
    case True
    with "2.prems" show ?thesis by (intro exI [of _ 0]) (auto simp: route_key_def)
  next
    case False
    with 2 obtain k where "k < length xs" "j = i + 1 + k" "rt_real (xs ! k)" "route_key (xs ! k) = route_key r"
      by (auto simp: route_key_def split: if_splits)
    then show ?thesis by (intro exI [of _ "Suc k"]) simp
  qed
qed simp

lemma scan_slots_Inr:
  "scan_slots r xs i found = Inr slot \<Longrightarrow> (\<forall>x \<in> set xs. rt_real x \<longrightarrow> route_key x \<noteq> route_key r) \<and>
     (\<forall>j. slot = Some j \<longrightarrow> found = Some j \<or> (\<exists>k < length xs. j = i + k \<and> \<not> rt_real (xs ! k)))"
proof (induction r xs i found rule: scan_slots.induct)
  case (2 r x xs i found)
  let ?f = "if rt_real x then found else if found = None then Some i else found"
  have "scan_slots r xs (i + 1) ?f = Inr slot" "rt_real x \<longrightarrow> route_key x \<noteq> route_key r"
    using "2.prems" by (auto simp: route_key_def split: if_splits)
  moreover from this have "(\<forall>x \<in> set xs. rt_real x \<longrightarrow> route_key x \<noteq> route_key r) \<and>
     (\<forall>j. slot = Some j \<longrightarrow> ?f = Some j \<or> (\<exists>k < length xs. j = i + 1 + k \<and> \<not> rt_real (xs ! k)))"
    using "2.IH" by (cases "rt_real x") (auto simp: route_key_def)
  ultimately show ?case
    by (auto split: if_splits intro: exI [of _ 0])
qed simp

text \<open>
  The invariant of the table: the vector is in order, its real routes were fit to be added, \<open>zero_route\<close> points
  to the route for 0.0.0.0/32 if to any, and the cache, where it holds an address, agrees with a lookup.
\<close>

definition stored_ok :: "iproute list \<Rightarrow> bool" where
  "stored_ok ts \<longleftrightarrow> (\<forall>r \<in> set ts. rt_real r \<longrightarrow> route_ok r)"

definition zero_ok :: "int \<Rightarrow> iproute list \<Rightarrow> bool" where
  "zero_ok z ts \<longleftrightarrow> - 1 \<le> z \<and>
     (0 \<le> z \<longrightarrow> nat z < length ts \<and> rt_real (ts ! nat z) \<and> route_key (ts ! nat z) = (0, 0xFFFFFFFF))"

definition rt_inv :: "rtable \<Rightarrow> bool" where
  "rt_inv t \<longleftrightarrow> routes_inv (rt_t t) \<and> killed_ok (rt_t t) \<and> stored_ok (rt_t t) \<and> zero_ok (zero_route t) (rt_t t) \<and>
     (last_addr t \<noteq> 0 \<longrightarrow> last_entry t \<ge> 0 \<and> lookup_entry (rt_t t) (last_addr t) = last_entry t) \<and>
     (last_addr2 t \<noteq> 0 \<longrightarrow> last_entry2 t \<ge> 0 \<and> lookup_entry (rt_t t) (last_addr2 t) = last_entry2 t)"

lemma rt_inv_new: "rt_inv (rt_new e e2)"
  by (simp add: rt_inv_def rt_new_def routes_inv_def killed_ok_def stored_ok_def zero_ok_def)

text \<open>Gateways and ports do not matter to \<open>lookup_entry\<close>.\<close>

lemma lookup_entry_cong:
  assumes "map (\<lambda>r. (rt_addr r, rt_mask r, rt_extra r)) us = map (\<lambda>r. (rt_addr r, rt_mask r, rt_extra r)) ts"
  shows "lookup_entry us a = lookup_entry ts a"
proof -
  have l: "length us = length ts" using arg_cong [OF assms, of length] by simp
  have e: "rt_addr (us ! k) = rt_addr (ts ! k)" "rt_mask (us ! k) = rt_mask (ts ! k)" "rt_extra (us ! k) = rt_extra (ts ! k)"
    if "k < length ts" for k
    using arg_cong [OF assms, of "\<lambda>xs. xs ! k"] that l by simp_all
  have f: "List.find (\<lambda>i. rt_contains (us ! i) a) [0..<length us] = List.find (\<lambda>i. rt_contains (ts ! i) a) [0..<length ts]"
    unfolding l by (rule find_cong) (simp_all add: rt_contains_def e)
  have b: "best_from a us js f = best_from a ts js f" if "\<forall>j \<in> set js. j < length ts" "f < length ts" for js f
    using that by (induction js arbitrary: f) (simp_all add: rt_contains_def e)
  show ?thesis
  proof (cases "List.find (\<lambda>i. rt_contains (ts ! i) a) [0..<length ts]")
    case None
    then show ?thesis unfolding lookup_entry_def f by simp
  next
    case (Some i)
    then have "i < length ts" by (simp add: find_upt)
    then show ?thesis using Some f by (simp add: lookup_entry_def l e b)
  qed
qed

lemma contains_route_key:
  "rt_contains_route r s \<longleftrightarrow> matches_prefix (fst (route_key s)) (fst (route_key r)) (snd (route_key r)) \<and>
     mask_as_specific (snd (route_key s)) (snd (route_key r))"
  by (simp add: rt_contains_route_def route_key_def)

lemma inv_same_shape:
  assumes "length us = length ts"
    and same: "\<And>k. k < length ts \<Longrightarrow> rt_real (us ! k) = rt_real (ts ! k)" "\<And>k. k < length ts \<Longrightarrow> route_key (us ! k) = route_key (ts ! k)"
      "\<And>k. k < length ts \<Longrightarrow> rt_extra (us ! k) = rt_extra (ts ! k)"
  shows "routes_inv ts \<Longrightarrow> routes_inv us" "killed_ok ts \<Longrightarrow> killed_ok us"
    "lookup_entry us a = lookup_entry ts a"
proof -
  have k: "rt_addr (us ! k) = rt_addr (ts ! k)" "rt_mask (us ! k) = rt_mask (ts ! k)" if "k < length ts" for k
    using same(2) [OF that] by (simp_all add: route_key_def)
  show "routes_inv us" if "routes_inv ts"
    unfolding routes_inv_def all_set_conv_all_nth assms(1)
  proof (intro conjI allI impI)
    show "is_prefix_mask (rt_mask (us ! i))" if "i < length ts" "rt_real (us ! i)" for i
      using routes_inv_prefix [OF \<open>routes_inv ts\<close>] that same(1) k(2) by simp
    fix i j assume ij: "i < j \<and> j < length ts \<and> rt_real (us ! i) \<and> rt_real (us ! j)"
    then have l: "i < length ts" "j < length ts" "rt_real (ts ! i)" "rt_real (ts ! j)" using same(1) by auto
    show "(rt_addr (us ! i), rt_mask (us ! i)) \<noteq> (rt_addr (us ! j), rt_mask (us ! j))"
      using routes_inv_unique [OF \<open>routes_inv ts\<close> l] ij k l by (auto simp: route_key_def)
    show "rt_extra (us ! i) \<le> int j" if "rt_contains_route (us ! i) (us ! j)"
      using that routes_inv_next [OF \<open>routes_inv ts\<close> _ l(2-4)] ij l(1,2) same(2,3) by (simp add: contains_route_key)
  qed
  show "killed_ok us" if "killed_ok ts"
    using that same(1) k by (simp add: killed_ok_def all_set_conv_all_nth assms(1))
  show "lookup_entry us a = lookup_entry ts a"
    using assms(1) same(3) k by (intro lookup_entry_cong nth_equalityI) simp_all
qed

lemma place_route_facts:
  assumes "found \<le> length ts" and "found < length ts \<Longrightarrow> \<not> rt_real (ts ! found)" and "route_ok r"
  shows "stored_ok ts \<Longrightarrow> stored_ok (place_route r found ts)"
    and "zero_ok z ts \<Longrightarrow> zero_ok (if rt_addr r = 0 \<and> rt_mask r = 0xFFFFFFFF then int found else z) (place_route r found ts)"
proof -
  obtain e where u: "length (place_route r found ts) = max (length ts) (Suc found)"
    "place_route r found ts ! found = r\<lparr> rt_extra := e \<rparr>"
    "\<And>k. k < length ts \<Longrightarrow> k \<noteq> found \<Longrightarrow> \<exists>x \<le> rt_extra (ts ! k). place_route r found ts ! k = (ts ! k)\<lparr> rt_extra := x \<rparr> \<and>
        (k < found \<and> rt_contains_route (ts ! k) r \<longrightarrow> x \<le> int found)"
    using place_route_cases [OF assms(1), of r] by blast
  have real: "rt_real r" using assms(3) by (simp add: route_ok_def rt_real_def)
  have rk: "route_ok (y\<lparr> rt_extra := x \<rparr>) = route_ok y" for y x by (simp add: route_ok_def)
  show "stored_ok (place_route r found ts)" if "stored_ok ts"
    unfolding stored_ok_def all_set_conv_all_nth
  proof (intro allI impI)
    fix k assume k: "k < length (place_route r found ts)" "rt_real (place_route r found ts ! k)"
    show "route_ok (place_route r found ts ! k)"
    proof (cases "k = found")
      case False
      then have l: "k < length ts" using k(1) u(1) assms(1) by auto
      with u(3) [OF l False] k(2) that show ?thesis by (auto simp: stored_ok_def rk)
    qed (simp add: u(2) rk assms(3))
  qed
  show "zero_ok (if rt_addr r = 0 \<and> rt_mask r = 0xFFFFFFFF then int found else z) (place_route r found ts)" if "zero_ok z ts"
  proof (cases "rt_addr r = 0 \<and> rt_mask r = 0xFFFFFFFF")
    case True
    then show ?thesis using u(1,2) real by (simp add: zero_ok_def route_key_def)
  next
    case False
    have "nat z \<noteq> found" if "0 \<le> z" using \<open>zero_ok z ts\<close> that assms(2) by (auto simp: zero_ok_def)
    then show ?thesis using False that u(3) [of "nat z"] u(1) by (auto simp: zero_ok_def)
  qed
qed

lemma add_route_new:
  assumes "rt_inv t" and "route_ok r" and "rt_routes (rt_t t) (route_key r) = None"
  shows "\<exists>t'. add_route t r allow = (0, None, t') \<and> rt_inv t' \<and>
     rt_routes (rt_t t') = (rt_routes (rt_t t))(route_key r \<mapsto> route_val r)"
proof -
  have inv: "routes_inv (rt_t t)" "killed_ok (rt_t t)" using assms(1) by (simp_all add: rt_inv_def)
  have no: "\<forall>x \<in> set (rt_t t). rt_real x \<longrightarrow> route_key x \<noteq> route_key r" using assms(3) by (simp add: rt_routes_None)
  obtain slot where s: "scan_slots r (rt_t t) 0 None = Inr slot"
    using scan_slots_Inl [of r "rt_t t" 0 None] no by (cases "scan_slots r (rt_t t) 0 None") fastforce+
  define found where "found = (case slot of None \<Rightarrow> length (rt_t t) | Some i \<Rightarrow> i)"
  have f: "found \<le> length (rt_t t)" "found < length (rt_t t) \<Longrightarrow> \<not> rt_real (rt_t t ! found)"
    using scan_slots_Inr [OF s] by (auto simp: found_def split: option.splits)
  note p = place_route_inv [OF inv(1) f assms(2,3)] place_route_facts [OF f assms(2)]
  have "stored_ok (rt_t t)" "zero_ok (zero_route t) (rt_t t)" using assms(1) by (simp_all add: rt_inv_def)
  then show ?thesis using s p inv(2) by (simp add: add_route_def found_def [symmetric] rt_inv_def)
qed

lemma map_eqI: "(\<And>k v. f k = Some v \<longleftrightarrow> g k = Some v) \<Longrightarrow> f = (g :: 'k \<Rightarrow> 'v option)"
  by (rule ext) (metis not_None_eq)

text \<open>Replacing gateway and port of a route in place.\<close>

lemma replace_route_inv:
  fixes ts r i
  defines "us \<equiv> ts[i := (ts ! i)\<lparr> rt_gw := rt_gw r, rt_port := rt_port r \<rparr>]"
  assumes inv: "routes_inv ts" and i: "i < length ts" "rt_real (ts ! i)" "route_key (ts ! i) = route_key r" and ok: "route_ok r"
  shows "routes_inv us" "killed_ok ts \<Longrightarrow> killed_ok us" "lookup_entry us a = lookup_entry ts a"
    "rt_routes us = (rt_routes ts)(route_key r \<mapsto> route_val r)"
    "stored_ok ts \<Longrightarrow> stored_ok us" "zero_ok z ts \<Longrightarrow> zero_ok z us"
proof -
  define x where "x = (ts ! i)\<lparr> rt_gw := rt_gw r, rt_port := rt_port r \<rparr>"
  have x: "rt_real x" "route_key x = route_key r" "route_val x = route_val r" "rt_extra x = rt_extra (ts ! i)"
    using ok i(3) by (simp_all add: x_def rt_real_def route_ok_def route_key_def route_val_def)
  have u: "us ! k = (if k = i then x else ts ! k)" if "k < length ts" for k
    using that i(1) by (simp add: us_def x_def)
  have l: "length us = length ts" by (simp add: us_def)
  have core: "rt_real (us ! k) = rt_real (ts ! k)" "route_key (us ! k) = route_key (ts ! k)" "rt_extra (us ! k) = rt_extra (ts ! k)"
    if "k < length ts" for k
    using u [OF that] x i by simp_all
  note sh = inv_same_shape [OF l core]
  show iu: "routes_inv us" by (rule sh(1)) (simp_all add: inv)
  show "killed_ok us" if "killed_ok ts" by (rule sh(2)) (simp_all add: that)
  show "lookup_entry us a = lookup_entry ts a" by (rule sh(3))
  have "rt_routes us k = Some w \<longleftrightarrow> (if k = route_key r then w = route_val r else rt_routes ts k = Some w)" for k w
  proof -
    have "rt_routes us k = Some w \<longleftrightarrow>
        (\<exists>j < length ts. rt_real (ts ! j) \<and> route_key (ts ! j) = k \<and> route_val (us ! j) = w)"
      unfolding rt_routes_iff [OF iu] l by (simp add: core(1,2) cong: conj_cong)
    also have "\<dots> \<longleftrightarrow> (if k = route_key r then w = route_val r else rt_routes ts k = Some w)"
    proof (cases "k = route_key r")
      case True
      have "j = i" if "j < length ts" "rt_real (ts ! j)" "route_key (ts ! j) = k" for j
        using routes_inv_unique [OF inv that(1) i(1) that(2) i(2)] that(3) i(3) True by simp
      moreover have "route_val (us ! i) = route_val r" using u [OF i(1)] x(3) by simp
      ultimately have "(\<exists>j < length ts. rt_real (ts ! j) \<and> route_key (ts ! j) = k \<and> route_val (us ! j) = w) \<longleftrightarrow> route_val r = w"
        using True i by metis
      then show ?thesis using True by auto
    next
      case False
      have "route_val (us ! j) = route_val (ts ! j)" if "j < length ts" "route_key (ts ! j) = k" for j
        using u [OF that(1)] that(2) i(3) False by (cases "j = i") simp_all
      then show ?thesis using False unfolding rt_routes_iff [OF inv] by (simp cong: conj_cong)
    qed
    finally show ?thesis .
  qed
  then show "rt_routes us = (rt_routes ts)(route_key r \<mapsto> route_val r)" by (intro map_eqI) auto
  have "route_ok x" using ok i(3) by (simp add: x_def route_ok_def route_key_def)
  then show "stored_ok us" if "stored_ok ts"
    unfolding stored_ok_def all_set_conv_all_nth l using u that nth_mem [of _ ts] core(1) by (auto simp: stored_ok_def)
  show "zero_ok z us" if "zero_ok z ts" using that core(1,2) [of "nat z"] l by (auto simp: zero_ok_def)
qed

lemma add_route_old:
  assumes "rt_inv t" and "route_ok r" and "rt_routes (rt_t t) (route_key r) = Some v"
  shows "\<exists>old. add_route t r False = (- EEXIST, Some old, t) \<and> route_val old = v"
    and "\<exists>old t'. add_route t r True = (0, Some old, t') \<and> route_val old = v \<and> rt_inv t' \<and>
      rt_routes (rt_t t') = (rt_routes (rt_t t))(route_key r \<mapsto> route_val r)"
proof -
  have inv: "routes_inv (rt_t t)" "killed_ok (rt_t t)" using assms(1) by (simp_all add: rt_inv_def)
  obtain n where n: "n < length (rt_t t)" "rt_real (rt_t t ! n)" "route_key (rt_t t ! n) = route_key r" "route_val (rt_t t ! n) = v"
    using assms(3) rt_routes_iff [OF inv(1)] by blast
  have "scan_slots r (rt_t t) 0 None \<noteq> Inr slot" for slot
    using scan_slots_Inr [of r "rt_t t" 0 None slot] n(2,3) nth_mem [OF n(1)] by blast
  then obtain i where s: "scan_slots r (rt_t t) 0 None = Inl i" using sum.exhaust by metis
  have i: "i < length (rt_t t)" "rt_real (rt_t t ! i)" "route_key (rt_t t ! i) = route_key r"
    using scan_slots_Inl [OF s] by auto
  have "i = n" using routes_inv_unique [OF inv(1) i(1) n(1) i(2) n(2)] i(3) n(3) by simp
  then have v: "route_val (rt_t t ! i) = v" using n by simp
  with s show "\<exists>old. add_route t r False = (- EEXIST, Some old, t) \<and> route_val old = v" by (simp add: add_route_def)
  let ?u = "(rt_t t)[i := (rt_t t ! i)\<lparr> rt_gw := rt_gw r, rt_port := rt_port r \<rparr>]"
  note p = replace_route_inv [OF inv(1) i assms(2)]
  have "add_route t r True = (0, Some (rt_t t ! i), t\<lparr> rt_t := ?u \<rparr>)" using s by (simp add: add_route_def)
  moreover have "rt_inv (t\<lparr> rt_t := ?u \<rparr>)" using assms(1) p(1-3,5,6) by (simp add: rt_inv_def)
  moreover have "rt_routes (rt_t (t\<lparr> rt_t := ?u \<rparr>)) = (rt_routes (rt_t t))(route_key r \<mapsto> route_val r)" using p(4) by simp
  ultimately show "\<exists>old t'. add_route t r True = (0, Some old, t') \<and> route_val old = v \<and> rt_inv t' \<and>
      rt_routes (rt_t t') = (rt_routes (rt_t t))(route_key r \<mapsto> route_val r)" using v by blast
qed

text \<open>Killing a route takes its prefix out of the table and nothing else.\<close>

lemma kill_facts [simp]: "\<not> rt_real (rt_kill r)" "route_key (rt_kill r) = (0, 0xFFFFFFFF)"
  by (simp_all add: rt_kill_def rt_real_def route_key_def)

lemma kill_route_inv:
  fixes ts i
  defines "us \<equiv> ts[i := rt_kill (ts ! i)]"
  assumes inv: "routes_inv ts" and i: "i < length ts" "rt_real (ts ! i)"
  shows "routes_inv us" "killed_ok ts \<Longrightarrow> killed_ok us" "stored_ok ts \<Longrightarrow> stored_ok us"
    "rt_routes us = (rt_routes ts)(route_key (ts ! i) := None)"
    "zero_ok z ts \<Longrightarrow> z \<noteq> int i \<Longrightarrow> zero_ok z us"
proof -
  have u: "us ! k = (if k = i then rt_kill (ts ! i) else ts ! k)" if "k < length ts" for k
    using that by (simp add: us_def nth_list_update)
  have l: "length us = length ts" by (simp add: us_def)
  have live: "k \<noteq> i \<and> rt_real (ts ! k) \<and> us ! k = ts ! k" if "k < length ts" "rt_real (us ! k)" for k
    using u [OF that(1)] that(2) by (auto split: if_splits)
  show iu: "routes_inv us"
    unfolding routes_inv_def all_set_conv_all_nth l
  proof (intro conjI allI impI)
    show "is_prefix_mask (rt_mask (us ! k))" if "k < length ts" "rt_real (us ! k)" for k
      using routes_inv_prefix [OF inv that(1)] live [OF that] by simp
    fix j k assume "j < k \<and> k < length ts \<and> rt_real (us ! j) \<and> rt_real (us ! k)"
    then have jk: "j < k" "j < length ts" "k < length ts" "rt_real (us ! j)" "rt_real (us ! k)" by simp_all
    note e = live [OF jk(2,4)] live [OF jk(3,5)]
    show "(rt_addr (us ! j), rt_mask (us ! j)) \<noteq> (rt_addr (us ! k), rt_mask (us ! k))"
      using routes_inv_unique [OF inv jk(2,3)] e jk(1) by (auto simp: route_key_def)
    show "rt_extra (us ! j) \<le> int k" if "rt_contains_route (us ! j) (us ! k)"
      using that routes_inv_next [OF inv jk(1,3)] e by simp
  qed
  show "killed_ok us" if "killed_ok ts"
    unfolding killed_ok_def all_set_conv_all_nth l using u that nth_mem [of _ ts] by (auto simp: killed_ok_def rt_kill_def)
  show "stored_ok us" if "stored_ok ts"
    unfolding stored_ok_def all_set_conv_all_nth l using live that nth_mem [of _ ts] unfolding stored_ok_def by metis
  have "rt_routes us k = Some v \<longleftrightarrow> (k \<noteq> route_key (ts ! i) \<and> rt_routes ts k = Some v)" for k v
  proof -
    have "rt_routes us k = Some v \<longleftrightarrow>
        (\<exists>j < length ts. j \<noteq> i \<and> rt_real (ts ! j) \<and> route_key (ts ! j) = k \<and> route_val (ts ! j) = v)"
      unfolding rt_routes_iff [OF iu] l using live u by (metis (no_types, lifting))
    also have "\<dots> \<longleftrightarrow> (k \<noteq> route_key (ts ! i) \<and> rt_routes ts k = Some v)"
      unfolding rt_routes_iff [OF inv] using routes_inv_unique [OF inv i(1) _ i(2)] by (metis (no_types, lifting))
    finally show ?thesis .
  qed
  then show "rt_routes us = (rt_routes ts)(route_key (ts ! i) := None)" by (intro map_eqI) auto
  show "zero_ok z us" if "zero_ok z ts" "z \<noteq> int i"
    using that u [of "nat z"] l by (auto simp: zero_ok_def)
qed

text \<open>A route that is not the one for 0.0.0.0/32 matches real routes only.\<close>

lemma match_real:
  assumes "killed_ok ts" and "k < length ts" and "rt_match r (ts ! k)" and "route_key r \<noteq> (0, 0xFFFFFFFF)"
  shows "rt_real (ts ! k)" "route_key (ts ! k) = route_key r"
  using assms nth_mem [OF assms(2)] by (auto simp: rt_match_def killed_ok_def route_key_def)

text \<open>Adding the zero route does not depend on the caches or on where the zero route was before.\<close>

lemma add_zero_route:
  assumes "rt_addr r = 0 \<and> rt_mask r = 0xFFFFFFFF" and "rt_routes (rt_t t) (route_key r) = None"
  shows "add_route (t\<lparr> zero_route := z, last_addr := a, last_addr2 := b \<rparr>) r allow = add_route t r allow"
proof (cases "scan_slots r (rt_t t) 0 None")
  case (Inl i)
  then show ?thesis using scan_slots_Inl [OF Inl] assms(2) nth_mem by (fastforce simp: rt_routes_None)
next
  case (Inr slot)
  then show ?thesis using assms(1) by (cases slot) (simp_all add: add_route_def Let_def)
qed

lemma remove_route_ok:
  assumes "rt_inv t" and "route_key route \<noteq> (0, 0xFFFFFFFF)"
    and "rt_routes (rt_t t) (route_key route) = Some v" and "rt_port route < 0 \<or> route_val route = v"
  shows "\<exists>old t'. remove_route t route = Inr (0, Some old, t') \<and> route_val old = v \<and> rt_inv t' \<and>
     rt_routes (rt_t t') = (rt_routes (rt_t t))(route_key route := None)"
proof -
  let ?ts = "rt_t t"
  have inv: "routes_inv ?ts" "killed_ok ?ts" "stored_ok ?ts" "zero_ok (zero_route t) ?ts"
    using assms(1) by (simp_all add: rt_inv_def)
  obtain n where n: "n < length ?ts" "rt_real (?ts ! n)" "route_key (?ts ! n) = route_key route" "route_val (?ts ! n) = v"
    using assms(3) rt_routes_iff [OF inv(1)] by blast
  have "rt_match route (?ts ! n)" using n assms(4) by (auto simp: rt_match_def route_key_def route_val_def)
  then obtain i where f: "List.find (\<lambda>i. rt_match route (?ts ! i)) [0..<length ?ts] = Some i"
    using n(1) by (cases "List.find (\<lambda>i. rt_match route (?ts ! i)) [0..<length ?ts]") (auto simp: find_None_iff)
  have i: "i < length ?ts" "rt_match route (?ts ! i)" using f by (simp_all add: find_upt)
  note r = match_real [OF inv(2) i assms(2)]
  have "i = n" using routes_inv_unique [OF inv(1) i(1) n(1) r(1) n(2)] r(2) n(3) by simp
  then have v: "route_val (?ts ! i) = v" using n(4) by simp
  let ?t1 = "t\<lparr> rt_t := ?ts[i := rt_kill (?ts ! i)] \<rparr>"
  note k = kill_route_inv [OF inv(1) i(1) r(1)]
  have zi: "zero_route t \<noteq> int i" using inv(4) r(2) assms(2) by (auto simp: zero_ok_def)
  note z1 = k(5) [OF inv(4) zi]
  show ?thesis
  proof (cases "int i < zero_route t")
    case False
    then have "remove_route t route = Inr (0, Some (?ts ! i), ?t1\<lparr> last_addr := 0, last_addr2 := 0 \<rparr>)"
      using f zi by (simp add: remove_route_def Let_def)
    with v k(1-4) inv z1 r(2) show ?thesis by (simp add: rt_inv_def)
  next
    case True
    define z where "z = nat (zero_route t)"
    let ?us = "?ts[i := rt_kill (?ts ! i)]"
    have z: "z < length ?us" "rt_real (?us ! z)" "route_key (?us ! z) = (0, 0xFFFFFFFF)"
      using z1 True by (auto simp: zero_ok_def z_def)
    note k2 = kill_route_inv [OF k(1) z(1,2)]
    let ?t2 = "?t1\<lparr> rt_t := ?us[z := rt_kill (?us ! z)] \<rparr>"
    have ok: "route_ok (?us ! z)" using k(3) [OF inv(3)] z nth_mem [OF z(1)] by (auto simp: stored_ok_def)
    have zero: "rt_addr (?us ! z) = 0 \<and> rt_mask (?us ! z) = 0xFFFFFFFF" using z(3) by (simp add: route_key_def)
    have none: "rt_routes (rt_t ?t2) (route_key (?us ! z)) = None" using k2(4) by simp
    have i2: "rt_inv (?t2\<lparr> zero_route := - 1, last_addr := 0, last_addr2 := 0 \<rparr>)"
      using k2(1-3) k(2,3) inv by (simp add: rt_inv_def zero_ok_def)
    have none': "rt_routes (rt_t (?t2\<lparr> zero_route := - 1, last_addr := 0, last_addr2 := 0 \<rparr>)) (route_key (?us ! z)) = None"
      using none by simp
    from add_route_new [OF i2 ok none', of False] obtain t' where
      a: "add_route (?t2\<lparr> zero_route := - 1, last_addr := 0, last_addr2 := 0 \<rparr>) (?us ! z) False = (0, None, t')"
      and t': "rt_inv t'" "rt_routes (rt_t t') = (rt_routes (rt_t ?t2))(route_key (?us ! z) \<mapsto> route_val (?us ! z))"
      by auto
    have same: "add_route ?t2 (?us ! z) False = (0, None, t')"
      using a add_zero_route [OF zero none] by simp
    have "remove_route t route = Inr (0, Some (?ts ! i), t'\<lparr> last_addr := 0, last_addr2 := 0 \<rparr>)"
      using f zi True same by (simp add: remove_route_def z_def Let_def)
    moreover have "rt_routes (rt_t t') = (rt_routes ?ts)(route_key route := None)"
    proof -
      have "rt_routes ?us (route_key (?us ! z)) = Some (route_val (?us ! z))"
        using rt_routes_iff [OF k(1)] z by blast
      then have "rt_routes (rt_t t') = rt_routes ?us" using t'(2) k2(4) by (auto simp: fun_eq_iff)
      then show ?thesis using k(4) r(2) by simp
    qed
    moreover have "rt_inv (t'\<lparr> last_addr := 0, last_addr2 := 0 \<rparr>)" using t'(1) by (simp add: rt_inv_def)
    ultimately show ?thesis using v by auto
  qed
qed

lemma remove_route_missing:
  assumes "rt_inv t" and "route_key route \<noteq> (0, 0xFFFFFFFF)"
    and "\<And>v. rt_routes (rt_t t) (route_key route) = Some v \<Longrightarrow> 0 \<le> rt_port route \<and> route_val route \<noteq> v"
  shows "remove_route t route = Inr (- ENOENT, None, t)"
proof -
  have inv: "routes_inv (rt_t t)" "killed_ok (rt_t t)" using assms(1) by (simp_all add: rt_inv_def)
  have "\<not> rt_match route (rt_t t ! k)" if k: "k < length (rt_t t)" for k
  proof
    assume m: "rt_match route (rt_t t ! k)"
    note r = match_real [OF inv(2) k m assms(2)]
    have "rt_routes (rt_t t) (route_key route) = Some (route_val (rt_t t ! k))"
      using rt_routes_iff [OF inv(1)] k r by blast
    from assms(3) [OF this] m show False by (auto simp: rt_match_def route_val_def)
  qed
  then have "List.find (\<lambda>i. rt_match route (rt_t t ! i)) [0..<length (rt_t t)] = None" by (simp add: find_None_iff)
  then show ?thesis by (simp add: remove_route_def)
qed

section \<open>What a routing table promises\<close>

text \<open>
  The contract of a table of prefix routes: the routes as a map from prefixes to gateway and port, and a lookup
  that finds a route of a longest matching prefix. Address 0.0.0.0 is left out, since it matches killed
  routes too.
\<close>

locale route_map =
  fixes invar :: "'t \<Rightarrow> bool"
    and routes :: "'t \<Rightarrow> ipaddr \<times> ipaddr \<Rightarrow> (ipaddr \<times> int) option"
    and look :: "'t \<Rightarrow> ipaddr \<Rightarrow> (ipaddr \<times> int) option"
    and add :: "'t \<Rightarrow> iproute \<Rightarrow> 't"
  assumes invar_add: "invar t \<Longrightarrow> route_ok r \<Longrightarrow> invar (add t r)"
    and routes_add: "invar t \<Longrightarrow> route_ok r \<Longrightarrow> routes (add t r) =
          (if routes t (route_key r) = None then (routes t)(route_key r \<mapsto> route_val r) else routes t)"
    and look_best: "invar t \<Longrightarrow> a \<noteq> 0 \<Longrightarrow> look t a = Some v \<Longrightarrow>
          \<exists>p m. routes t (p, m) = Some v \<and> matches_prefix a p m \<and>
            (\<forall>p' m' v'. routes t (p', m') = Some v' \<and> matches_prefix a p' m' \<longrightarrow> mask_as_specific m m')"
    and look_none: "invar t \<Longrightarrow> a \<noteq> 0 \<Longrightarrow> look t a = None \<longleftrightarrow>
          (\<forall>p m v. routes t (p, m) = Some v \<longrightarrow> \<not> matches_prefix a p m)"
begin

lemma host_route:
  assumes "invar t" and "a \<noteq> 0" and "routes t (a, 0xFFFFFFFF) = Some v"
  shows "look t a = Some v"
proof -
  have m: "matches_prefix a a 0xFFFFFFFF" by (simp add: ones_matches)
  then obtain w where w: "look t a = Some w" using look_none [OF assms(1,2)] assms(3) by (cases "look t a") blast+
  from look_best [OF assms(1,2) w] obtain p k where p: "routes t (p, k) = Some w" "matches_prefix a p k"
    "mask_as_specific k 0xFFFFFFFF" using assms(3) m by blast
  have "k = 0xFFFFFFFF" using p(3) ones_specific mask_as_specific_antisym by blast
  with p(1,2) have "p = a" by (simp add: ones_matches)
  with p(1) w assms(3) \<open>k = 0xFFFFFFFF\<close> show ?thesis by simp
qed

lemma only_route:
  assumes "invar t" and "a \<noteq> 0" and "routes t (p, m) = Some v" and "matches_prefix a p m"
    and "\<And>p' m' v'. routes t (p', m') = Some v' \<Longrightarrow> matches_prefix a p' m' \<Longrightarrow> v' = v"
  shows "look t a = Some v"
proof -
  obtain w where w: "look t a = Some w" using look_none [OF assms(1,2)] assms(3,4) by (cases "look t a") blast+
  with look_best [OF assms(1,2) w] assms(5) show ?thesis by blast
qed

lemma fold_add:
  "invar t \<Longrightarrow> \<forall>r \<in> set rs. route_ok r \<Longrightarrow> invar (fold (\<lambda>r t. add t r) rs t) \<and>
     routes (fold (\<lambda>r t. add t r) rs t) = map_of (map (\<lambda>r. (route_key r, route_val r)) rs) ++ routes t"
proof (induction rs arbitrary: t)
  case (Cons r rs)
  have i: "invar (add t r)" using Cons.prems invar_add by simp
  have "invar (fold (\<lambda>r t. add t r) rs (add t r)) \<and>
     routes (fold (\<lambda>r t. add t r) rs (add t r)) = map_of (map (\<lambda>r. (route_key r, route_val r)) rs) ++ routes (add t r)"
    using Cons.IH [OF i] Cons.prems by simp
  moreover have "map_of (map (\<lambda>r. (route_key r, route_val r)) rs) ++ routes (add t r) =
      map_of (map (\<lambda>r. (route_key r, route_val r)) (r # rs)) ++ routes t"
    using routes_add [OF Cons.prems(1), of r] Cons.prems(2) by (auto simp: fun_eq_iff map_add_def split: option.splits)
  ultimately show ?case by (simp add: fun_upd_def)
qed simp

end

definition rt_look :: "rtable \<Rightarrow> ipaddr \<Rightarrow> (ipaddr \<times> int) option" where
  "rt_look t a = (case lookup_route t a of (port, gw) \<Rightarrow> map_option (\<lambda>gw. (gw, port)) gw)"

lemma rt_look_entry:
  "rt_look t a = (if lookup_entry (rt_t t) a \<ge> 0 then Some (route_val (rt_t t ! nat (lookup_entry (rt_t t) a))) else None)"
  by (simp add: rt_look_def lookup_route_def route_val_def Let_def)

lemma rt_look_best:
  assumes "rt_inv t" and "a \<noteq> 0"
  shows "rt_look t a = Some v \<Longrightarrow> \<exists>p m. rt_routes (rt_t t) (p, m) = Some v \<and> matches_prefix a p m \<and>
            (\<forall>p' m' v'. rt_routes (rt_t t) (p', m') = Some v' \<and> matches_prefix a p' m' \<longrightarrow> mask_as_specific m m')"
    and "rt_look t a = None \<longleftrightarrow> (\<forall>p m v. rt_routes (rt_t t) (p, m) = Some v \<longrightarrow> \<not> matches_prefix a p m)"
proof -
  let ?ts = "rt_t t"
  have inv: "routes_inv ?ts" "killed_ok ?ts" using assms(1) by (simp_all add: rt_inv_def)
  have hit: "rt_routes ?ts (p, m) = Some w \<and> matches_prefix a p m \<longleftrightarrow>
      (\<exists>k < length ?ts. rt_real (?ts ! k) \<and> route_key (?ts ! k) = (p, m) \<and> route_val (?ts ! k) = w \<and> rt_contains (?ts ! k) a)" for p m w
    unfolding rt_routes_iff [OF inv(1)] by (auto simp: rt_contains_def route_key_def)
  have real: "rt_real (?ts ! k)" if "k < length ?ts" "rt_contains (?ts ! k) a" for k
    using contains_real [OF inv(2) nth_mem [OF that(1)] assms(2) that(2)] .
  have "(lookup_entry ?ts a = - 1 \<and> (\<forall>k < length ?ts. \<not> rt_contains (?ts ! k) a)) \<or>
     (\<exists>b < length ?ts. lookup_entry ?ts a = int b \<and> rt_real (?ts ! b) \<and> rt_contains (?ts ! b) a \<and>
        (\<forall>k < length ?ts. rt_contains (?ts ! k) a \<longrightarrow> mask_as_specific (rt_mask (?ts ! b)) (rt_mask (?ts ! k))))"
    by (rule lookup_entry_best [OF inv assms(2)])
  then show "\<exists>p m. rt_routes ?ts (p, m) = Some v \<and> matches_prefix a p m \<and>
      (\<forall>p' m' v'. rt_routes ?ts (p', m') = Some v' \<and> matches_prefix a p' m' \<longrightarrow> mask_as_specific m m')" if "rt_look t a = Some v"
  proof
    assume "\<exists>b < length ?ts. lookup_entry ?ts a = int b \<and> rt_real (?ts ! b) \<and> rt_contains (?ts ! b) a \<and>
        (\<forall>k < length ?ts. rt_contains (?ts ! k) a \<longrightarrow> mask_as_specific (rt_mask (?ts ! b)) (rt_mask (?ts ! k)))"
    then obtain b where b: "b < length ?ts" "lookup_entry ?ts a = int b" "rt_real (?ts ! b)" "rt_contains (?ts ! b) a"
      "\<And>k. k < length ?ts \<Longrightarrow> rt_contains (?ts ! k) a \<Longrightarrow> mask_as_specific (rt_mask (?ts ! b)) (rt_mask (?ts ! k))" by blast
    have v: "v = route_val (?ts ! b)" using that b(2) by (simp add: rt_look_entry)
    have key: "route_key (?ts ! b) = (rt_addr (?ts ! b), rt_mask (?ts ! b))" by (simp add: route_key_def)
    show ?thesis
    proof (intro exI conjI allI impI)
      show "rt_routes ?ts (rt_addr (?ts ! b), rt_mask (?ts ! b)) = Some v" "matches_prefix a (rt_addr (?ts ! b)) (rt_mask (?ts ! b))"
        using hit [of "rt_addr (?ts ! b)" "rt_mask (?ts ! b)" v] b v key by blast+
      fix p' m' v' assume "rt_routes ?ts (p', m') = Some v' \<and> matches_prefix a p' m'"
      then obtain k where "k < length ?ts" "route_key (?ts ! k) = (p', m')" "rt_contains (?ts ! k) a"
        unfolding hit by blast
      with b(5) show "mask_as_specific (rt_mask (?ts ! b)) m'" by (auto simp: route_key_def)
    qed
  next
    assume "lookup_entry ?ts a = - 1 \<and> (\<forall>k < length ?ts. \<not> rt_contains (?ts ! k) a)"
    with that show ?thesis by (simp add: rt_look_entry)
  qed
  have "rt_look t a = None \<longleftrightarrow> (\<forall>k < length ?ts. \<not> rt_contains (?ts ! k) a)"
    using lookup_entry_best [OF inv assms(2)] by (auto simp: rt_look_entry)
  also have "\<dots> \<longleftrightarrow> (\<forall>p m w. \<not> (rt_routes ?ts (p, m) = Some w \<and> matches_prefix a p m))"
    unfolding hit using real by (metis prod.collapse)
  finally show "rt_look t a = None \<longleftrightarrow> (\<forall>p m v. rt_routes ?ts (p, m) = Some v \<longrightarrow> \<not> matches_prefix a p m)" by blast
qed

lemma add_route_False:
  assumes "rt_inv t" and "route_ok r"
  shows "rt_inv (snd (snd (add_route t r False)))"
    and "rt_routes (rt_t (snd (snd (add_route t r False)))) =
      (if rt_routes (rt_t t) (route_key r) = None then (rt_routes (rt_t t))(route_key r \<mapsto> route_val r) else rt_routes (rt_t t))"
    and "fst (add_route t r False) = (if rt_routes (rt_t t) (route_key r) = None then 0 else - EEXIST)"
  using add_route_new [OF assms, of False] add_route_old(1) [OF assms] assms(1)
  by (cases "rt_routes (rt_t t) (route_key r)"; auto)+

interpretation rt: route_map rt_inv "\<lambda>t. rt_routes (rt_t t)" rt_look "\<lambda>t r. snd (snd (add_route t r False))"
  by unfold_locales (fact add_route_False(1) add_route_False(2) rt_look_best(1) rt_look_best(2))+

section \<open>Pushing packets and configuring the table\<close>

text \<open>Every port of the table is an output of the element.\<close>

definition ports_below :: "nat \<Rightarrow> rtable \<Rightarrow> bool" where
  "ports_below n t \<longleftrightarrow> (\<forall>k v. rt_routes (rt_t t) k = Some v \<longrightarrow> snd v < int n)"

text \<open>Where a packet goes: nowhere without a route, else out of the route's port, with its gateway as annotation.\<close>

definition routed :: "(ipaddr \<times> int) option \<Rightarrow> packet \<Rightarrow> (nat \<times> packet) list" where
  "routed v p = (case v of
      None \<Rightarrow> []
    | Some (gw, port) \<Rightarrow> [(nat port, if gw \<noteq> 0 then p\<lparr> dst_ip_anno := gw \<rparr> else p)])"

lemma rt_look_port:
  assumes "rt_inv t" and "a \<noteq> 0" and "ports_below n t" and "rt_look t a = Some (gw, port)"
  shows "0 \<le> port \<and> port < int n"
proof -
  from rt_look_best(1) [OF assms(1,2,4)] obtain p m where r: "rt_routes (rt_t t) (p, m) = Some (gw, port)" by blast
  have inv: "routes_inv (rt_t t)" "stored_ok (rt_t t)" using assms(1) by (simp_all add: rt_inv_def)
  obtain i where "i < length (rt_t t)" "rt_real (rt_t t ! i)" "route_val (rt_t t ! i) = (gw, port)"
    using r rt_routes_iff [OF inv(1)] by blast
  then have "0 \<le> port" using inv(2) nth_mem [of i "rt_t t"] by (auto simp: stored_ok_def route_ok_def route_val_def)
  then show ?thesis using assms(3) r by (auto simp: ports_below_def)
qed

lemma rt_push_spec:
  assumes "rt_inv t" and "dst_ip_anno p \<noteq> 0" and "ports_below n t"
  shows "\<exists>t'. rt_push n t p = Inr (t', routed (rt_look t (dst_ip_anno p)) p) \<and> rt_inv t' \<and> rt_t t' = rt_t t"
proof -
  let ?a = "dst_ip_anno p"
  define ei where "ei = lookup_entry (rt_t t) ?a"
  define t' where "t' = (if ?a = last_addr t \<or> ?a = last_addr2 t \<or> ei < 0 then t
     else t\<lparr> last_addr2 := last_addr t, last_entry2 := last_entry t, last_addr := ?a, last_entry := ei \<rparr>)"
  have c: "?a = last_addr t \<Longrightarrow> last_entry t = ei \<and> 0 \<le> ei" "?a = last_addr2 t \<Longrightarrow> last_entry2 t = ei \<and> 0 \<le> ei"
    using assms(1,2) by (auto simp: rt_inv_def ei_def)
  have t': "rt_inv t'" "rt_t t' = rt_t t"
    using assms(1) by (auto simp: t'_def rt_inv_def ei_def)
  have look: "rt_look t ?a = (if 0 \<le> ei then Some (route_val (rt_t t ! nat ei)) else None)"
    by (simp add: rt_look_entry ei_def)
  have port: "0 \<le> rt_port (rt_t t ! nat ei) \<and> rt_port (rt_t t ! nat ei) < int n" if "0 \<le> ei"
    using rt_look_port [OF assms(1,2,3)] look that by (simp add: route_val_def)
  have "rt_push n t p = Inr (t', routed (rt_look t ?a) p)"
  proof (cases "0 \<le> ei")
    case True
    then show ?thesis
      using port [OF True] c assms(2) look
      by (auto simp: rt_push_def Let_def t'_def ei_def [symmetric] routed_def route_val_def)
  next
    case False
    then show ?thesis using c assms(2) look
      by (auto simp: rt_push_def Let_def t'_def ei_def [symmetric] routed_def)
  qed
  with t' show ?thesis by blast
qed

lemma configure_route_ok:
  "rt_inv t \<Longrightarrow> route_ok r \<Longrightarrow> rt_port r < int n \<Longrightarrow>
     \<exists>e'. configure_route n (Some r) (k, e, t) = (k, e', snd (snd (add_route t r False)))"
  using add_route_False(3) [of t r]
  by (auto simp: configure_route_def route_ok_def EEXIST_def split: prod.split if_splits)

lemma configure_fold:
  "rt_inv t \<Longrightarrow> \<forall>r \<in> set rs. route_ok r \<and> rt_port r < int n \<Longrightarrow>
     \<exists>e'. fold (configure_route n) (map Some rs) (k, e, t) = (k, e', fold (\<lambda>r t. snd (snd (add_route t r False))) rs t)"
proof (induction rs arbitrary: t e)
  case (Cons r rs)
  have ok: "route_ok r" "rt_port r < int n" using Cons.prems(2) by simp_all
  obtain e1 where e1: "configure_route n (Some r) (k, e, t) = (k, e1, snd (snd (add_route t r False)))"
    using configure_route_ok [OF Cons.prems(1) ok] by blast
  have "rt_inv (snd (snd (add_route t r False)))" by (rule add_route_False(1) [OF Cons.prems(1) ok(1)])
  from Cons.IH [OF this, of e1] Cons.prems(2) e1 show ?case by auto
qed simp

lemma rt_configure_spec:
  assumes "\<forall>r \<in> set rs. route_ok r \<and> rt_port r < int n"
  shows "\<exists>t. rt_configure n (map Some rs) (rt_new e e2) = (0, t) \<and> rt_inv t \<and> ports_below n t \<and>
     rt_routes (rt_t t) = map_of (map (\<lambda>r. (route_key r, route_val r)) rs)"
proof -
  let ?t = "fold (\<lambda>r t. snd (snd (add_route t r False))) rs (rt_new e e2)"
  have "rt_routes (rt_t (rt_new e e2)) = Map.empty" by (simp add: fun_eq_iff rt_routes_def rt_new_def)
  then have f: "rt_inv ?t" "rt_routes (rt_t ?t) = map_of (map (\<lambda>r. (route_key r, route_val r)) rs)"
    using rt.fold_add [OF rt_inv_new, of rs e e2] assms by simp_all
  have "ports_below n ?t"
    unfolding ports_below_def f(2) using assms by (auto dest!: map_of_SomeD simp: route_val_def)
  with f configure_fold [OF rt_inv_new assms, of 0 0 e e2] show ?thesis by (auto simp: rt_configure_def)
qed

section \<open>Properties\<close>


definition ex_route :: "ipaddr \<Rightarrow> ipaddr \<Rightarrow> ipaddr \<Rightarrow> int \<Rightarrow> iproute" where
  "ex_route a m g k = \<lparr> rt_addr = a, rt_mask = m, rt_gw = g, rt_port = k, rt_extra = 0 \<rparr>"

lemma prefix_mask_ends [simp]: "is_prefix_mask 0" "is_prefix_mask 0xFFFFFFFF"
proof -
  have "htonl 0xFFFFFFFF = 0xFFFFFFFF" by code_simp
  then have "make_prefix 0 = Inr 0" "make_prefix 32 = Inr 0xFFFFFFFF" by (simp_all add: make_prefix_def)
  then show "is_prefix_mask 0" "is_prefix_mask 0xFFFFFFFF" unfolding is_prefix_mask_def by blast+
qed

lemma ex_table:
  "\<exists>t. rt_configure 2 [Some (ex_route 0 0 9 1), Some (ex_route 7 0xFFFFFFFF 0 0)] (rt_new 0 0) = (0, t) \<and> rt_inv t \<and> ports_below 2 t \<and>
     rt_routes (rt_t t) = [(0, 0) \<mapsto> (9, 1), (7, 0xFFFFFFFF) \<mapsto> (0, 0)]"
  using rt_configure_spec [of "[ex_route 0 0 9 1, ex_route 7 0xFFFFFFFF 0 0]" 2 0 0]
  by (auto simp: ex_route_def route_ok_def route_key_def route_val_def fun_eq_iff)


text \<open>
  C9. The vector of routes refines a map from prefixes to gateway and port: \<open>add_route\<close> adds a new prefix, refuses one
  that is there unless told to replace it, and \<open>remove_route\<close> takes out exactly the prefix asked for,
  reporting the old route, or reports that it is missing; each keeps the table in order. (Removal of
  0.0.0.0/32, the prefix killed routes carry, is left out.)
\<close>

theorem route_table_refines_map:
  assumes "rt_inv t" and "route_ok r" and "route_key r \<noteq> (0, 0xFFFFFFFF)"
  shows "case rt_routes (rt_t t) (route_key r) of
       None \<Rightarrow> (\<exists>t'. add_route t r allow = (0, None, t') \<and> rt_inv t' \<and>
                   rt_routes (rt_t t') = (rt_routes (rt_t t))(route_key r \<mapsto> route_val r)) \<and>
               remove_route t r = Inr (- ENOENT, None, t)
     | Some v \<Rightarrow> (\<exists>old. add_route t r False = (- EEXIST, Some old, t) \<and> route_val old = v) \<and>
               (\<exists>old t'. add_route t r True = (0, Some old, t') \<and> route_val old = v \<and> rt_inv t' \<and>
                   rt_routes (rt_t t') = (rt_routes (rt_t t))(route_key r \<mapsto> route_val r)) \<and>
               (if route_val r = v
                then \<exists>old t'. remove_route t r = Inr (0, Some old, t') \<and> route_val old = v \<and> rt_inv t' \<and>
                   rt_routes (rt_t t') = (rt_routes (rt_t t))(route_key r := None)
                else remove_route t r = Inr (- ENOENT, None, t))"
proof (cases "rt_routes (rt_t t) (route_key r)")
  case None
  with add_route_new [OF assms(1,2) None, of allow] remove_route_missing [OF assms(1,3)] show ?thesis by simp
next
  case (Some v)
  have "0 \<le> rt_port r" using assms(2) by (simp add: route_ok_def)
  with Some add_route_old [OF assms(1,2) Some] remove_route_ok [OF assms(1,3) Some] remove_route_missing [OF assms(1,3)]
  show ?thesis by auto
qed

theorem route_table_refines_map_witness:
  "remove_route (rt_new 0 0) (ex_route 5 0 0 1) = Inr (- ENOENT, None, rt_new 0 0)"
  using route_table_refines_map [OF rt_inv_new, of "ex_route 5 0 0 1" 0 0 False]
  by (simp add: ex_route_def route_ok_def route_key_def rt_routes_def rt_new_def)

text \<open>
  Configuration keeps the first route for a prefix: from valid arguments \<open>configure\<close> returns success and a table in order
  whose routes are the arguments, an earlier argument winning over a later one for the same prefix,
  although its warning says that routes were replaced by later versions.
\<close>

lemma route_configure_first_wins:
  assumes "\<forall>r \<in> set rs. route_ok r \<and> rt_port r < int n"
  shows "\<exists>t. rt_configure n (map Some rs) (rt_new e e2) = (0, t) \<and> rt_inv t \<and>
     rt_routes (rt_t t) = map_of (map (\<lambda>r. (route_key r, route_val r)) rs)"
  using rt_configure_spec [OF assms] by blast

theorem route_configure_first_wins_witness:
  "\<exists>t. rt_configure 2 [Some (ex_route 0 0 9 1), Some (ex_route 0 0 8 0)] (rt_new 0 0) = (0, t) \<and>
     rt_routes (rt_t t) (0, 0) = Some (9, 1)"
  using route_configure_first_wins [of "[ex_route 0 0 9 1, ex_route 0 0 8 0]" 2 0 0]
  by (auto simp: ex_route_def route_ok_def route_key_def route_val_def)

end
