(* ===== verification/Click_RouteControl.thy ===== *)
theory Click_RouteControl
  imports Click_RouteTable
begin

text \<open>
  The handlers of \<^verbatim>\<open>IPRouteTable\<close> (\<^verbatim>\<open>click/elements/ip/iproutetable.cc\<close>) over \<^verbatim>\<open>LinearIPLookup\<close>: \<^verbatim>\<open>add\<close>, \<^verbatim>\<open>set\<close>, \<^verbatim>\<open>remove\<close>, the
  transactions of \<^verbatim>\<open>ctrl\<close> with their rollback, and the handlers that print routes. The parser of a route's words is an argument
  (\<open>cp_ip_route\<close> with its parsers of prefixes, addresses and numbers), as is what splits a line into words. The loop of
  \<^verbatim>\<open>ctrl\<close> is a partial function, since it need not end.
\<close>

section \<open>Commands\<close>

definition CMD_ADD :: int where "CMD_ADD = 0"

definition CMD_SET :: int where "CMD_SET = 1"

definition CMD_REMOVE :: int where "CMD_REMOVE = 2"

type_synonym route_parser = "string list \<Rightarrow> bool \<Rightarrow> iproute option"

text \<open>
  \<open>run_command\<close>: the result, what a transaction saves to undo the command, and the table. The old route, when the table has not set
  it, has the port -1 of a new \<^verbatim>\<open>IPRoute\<close>.
\<close>

definition run_command :: "route_parser \<Rightarrow> nat \<Rightarrow> int \<Rightarrow> string list \<Rightarrow> rtable \<Rightarrow> (int \<times> iproute option \<times> rtable) exec" where
  "run_command cp noutputs command str t =
     (case cp str (command = CMD_REMOVE) of
        None \<Rightarrow> Inr (- EINVAL, None, t)
      | Some route \<Rightarrow>
          if rt_port route < (if command = CMD_REMOVE then - 1 else 0) \<or> rt_port route \<ge> int noutputs then Inr (- EINVAL, None, t)
          else ebind (if command = CMD_ADD then Inr (add_route t route False)
                      else if command = CMD_SET then Inr (add_route t route True)
                      else remove_route t route) (\<lambda>(r, old, t).
            let port = (case old of None \<Rightarrow> - 1 | Some x \<Rightarrow> rt_port x) in
            Inr (r, if r < 0 then None
                    else if port < 0 then Some (route\<lparr> rt_extra := CMD_ADD \<rparr>)
                    else map_option (\<lambda>x. x\<lparr> rt_extra := command \<rparr>) old, t)))"

definition add_route_handler :: "route_parser \<Rightarrow> nat \<Rightarrow> bool \<Rightarrow> string list \<Rightarrow> rtable \<Rightarrow> (int \<times> rtable) exec" where
  "add_route_handler cp noutputs thunk conf t =
     ebind (run_command cp noutputs (if thunk then CMD_SET else CMD_ADD) conf t) (\<lambda>(r, _, t). Inr (r, t))"

definition remove_route_handler :: "route_parser \<Rightarrow> nat \<Rightarrow> string list \<Rightarrow> rtable \<Rightarrow> (int \<times> rtable) exec" where
  "remove_route_handler cp noutputs conf t = ebind (run_command cp noutputs CMD_REMOVE conf t) (\<lambda>(r, _, t). Inr (r, t))"

section \<open>Transactions\<close>

text \<open>The loop under the label \<^verbatim>\<open>rollback\<close>, over the saved routes from the last to the first.\<close>

definition undo_command :: "iproute \<Rightarrow> rtable \<Rightarrow> rtable exec" where
  "undo_command rt t =
     (if rt_extra rt = CMD_REMOVE then Inr (snd (snd (add_route t rt False)))
      else if rt_extra rt = CMD_ADD then ebind (remove_route t rt) (\<lambda>(_, _, t). Inr t)
      else Inr (snd (snd (add_route t rt True))))"

fun rollback :: "iproute list \<Rightarrow> rtable \<Rightarrow> rtable exec" where
  "rollback [] t = Inr t"
| "rollback (rt # rts) t = ebind (undo_command rt t) (rollback rts)"

definition command_of :: "string \<Rightarrow> int option" where
  "command_of w = (if w = ''add'' then Some CMD_ADD else if w = ''remove'' then Some CMD_REMOVE else if w = ''set'' then Some CMD_SET else None)"

definition first_line :: "string \<Rightarrow> string" where
  "first_line s = takeWhile (\<lambda>c. c \<noteq> CHR 0x0A) s"

partial_function (option) ctrl_loop ::
  "route_parser \<Rightarrow> (string \<Rightarrow> string list) \<Rightarrow> nat \<Rightarrow> string \<Rightarrow> iproute list \<Rightarrow> rtable \<Rightarrow> (int \<times> rtable) run" where
  "ctrl_loop cp words noutputs s old_routes t =
     (if s = [] then Some (Inr (0, t))
      else (let line = words (first_line s); first_word = fst (shift_word line) in
        case command_of first_word of
          None \<Rightarrow>
            if first_word = [] then ctrl_loop cp words noutputs s old_routes t
            else Some (ebind (rollback (rev old_routes) t) (\<lambda>t. Inr (- EINVAL, t)))
        | Some command \<Rightarrow>
            dbind (run_command cp noutputs command (snd (shift_word line)) t) (\<lambda>(r, saved, t).
              if r < 0 then Some (ebind (rollback (rev old_routes) t) (\<lambda>t. Inr (r, t)))
              else ctrl_loop cp words noutputs (drop (Suc (length (first_line s))) s)
                     (old_routes @ (case saved of None \<Rightarrow> [] | Some rt \<Rightarrow> [rt])) t)))"

definition ctrl_handler :: "route_parser \<Rightarrow> (string \<Rightarrow> string list) \<Rightarrow> nat \<Rightarrow> string \<Rightarrow> rtable \<Rightarrow> (int \<times> rtable) run" where
  "ctrl_handler cp words noutputs conf t = ctrl_loop cp words noutputs conf [] t"

section \<open>Printing\<close>

definition int_string :: "int \<Rightarrow> string" where
  "int_string k = (if k < 0 then ''-'' @ dec_string (nat (- k)) else dec_string (nat k))"

definition unparse_mask :: "ipaddr \<Rightarrow> string" where
  "unparse_mask m = (if mask_to_prefix_len m \<ge> 0 then int_string (mask_to_prefix_len m) else ip_unparse m)"

definition unparse_with_mask :: "ipaddr \<Rightarrow> ipaddr \<Rightarrow> string" where
  "unparse_with_mask a m = ip_unparse a @ ''/'' @ unparse_mask m"

definition padded :: "nat \<Rightarrow> bool \<Rightarrow> string \<Rightarrow> string" where
  "padded n tabs s = (let s = s @ [if tabs then CHR 0x09 else CHR '' '']
     in if length s < n \<and> tabs then s @ [CHR 0x09] else s)"

definition rt_unparse :: "bool \<Rightarrow> iproute \<Rightarrow> string" where
  "rt_unparse tabs r = padded 17 tabs (unparse_with_mask (rt_addr r) (rt_mask r)) @
     padded 9 tabs (if rt_gw r \<noteq> 0 then ip_unparse (rt_gw r) else ''-'') @
     (if rt_real r then int_string (rt_port r) else ''-1'')"

definition dump_routes :: "rtable \<Rightarrow> string" where
  "dump_routes t = concat (map (\<lambda>r. rt_unparse True r @ [CHR 0x0A]) (filter rt_real (rt_t t)))"

definition lookup_handler :: "(string \<Rightarrow> ipaddr option) \<Rightarrow> string \<Rightarrow> rtable \<Rightarrow> int \<times> string" where
  "lookup_handler parse_addr s t = (case parse_addr s of
      None \<Rightarrow> (- EINVAL, s)
    | Some a \<Rightarrow> (case lookup_route t a of (port, gw) \<Rightarrow>
        (0, if gw \<noteq> None \<and> gw \<noteq> Some 0 then int_string port @ '' '' @ ip_unparse (the gw) else int_string port)))"

section \<open>What a command does to the map of routes\<close>

type_synonym route_table = "ipaddr \<times> ipaddr \<Rightarrow> (ipaddr \<times> int) option"

definition map_command :: "int \<Rightarrow> iproute \<Rightarrow> route_table \<Rightarrow> route_table option" where
  "map_command command r m =
     (let k = route_key r in
      if command = CMD_ADD then (if m k = None then Some (m(k \<mapsto> route_val r)) else None)
      else if command = CMD_SET then Some (m(k \<mapsto> route_val r))
      else (case m k of None \<Rightarrow> None | Some v \<Rightarrow> if rt_port r < 0 \<or> route_val r = v then Some (m(k := None)) else None))"

text \<open>What undoing a saved route does, and when it can be undone.\<close>

definition map_undo :: "iproute \<Rightarrow> route_table \<Rightarrow> route_table" where
  "map_undo e m = (if rt_extra e = CMD_ADD then m(route_key e := None) else m(route_key e \<mapsto> route_val e))"

definition can_undo :: "iproute \<Rightarrow> route_table \<Rightarrow> bool" where
  "can_undo e m \<longleftrightarrow> route_ok e \<and> route_key e \<noteq> (0, 0xFFFFFFFF) \<and>
     (if rt_extra e = CMD_REMOVE then m (route_key e) = None
      else if rt_extra e = CMD_ADD then m (route_key e) = Some (route_val e)
      else m (route_key e) \<noteq> None)"

fun undoable :: "iproute list \<Rightarrow> route_table \<Rightarrow> route_table \<Rightarrow> bool" where
  "undoable [] m m0 \<longleftrightarrow> m = m0"
| "undoable (e # es) m m0 \<longleftrightarrow> can_undo e m \<and> undoable es (map_undo e m) m0"

lemma undo_command_ok:
  assumes "rt_inv t" "can_undo e (rt_routes (rt_t t))"
  shows "\<exists>t'. undo_command e t = Inr t' \<and> rt_inv t' \<and> rt_routes (rt_t t') = map_undo e (rt_routes (rt_t t))"
proof -
  have e: "route_ok e" "route_key e \<noteq> (0, 0xFFFFFFFF)" using assms(2) by (simp_all add: can_undo_def)
  consider "rt_extra e = CMD_REMOVE" "rt_routes (rt_t t) (route_key e) = None"
    | "rt_extra e = CMD_ADD" "rt_routes (rt_t t) (route_key e) = Some (route_val e)"
    | v where "rt_extra e \<noteq> CMD_REMOVE" "rt_extra e \<noteq> CMD_ADD" "rt_routes (rt_t t) (route_key e) = Some v"
    using assms(2) by (auto simp: can_undo_def split: if_splits)
  then show ?thesis
  proof cases
    case 1
    with add_route_new [OF assms(1) e(1) 1(2), of False] show ?thesis by (auto simp: undo_command_def map_undo_def CMD_ADD_def CMD_REMOVE_def)
  next
    case 2
    with remove_route_ok [OF assms(1) e(2) 2(2)] show ?thesis by (auto simp: undo_command_def map_undo_def CMD_ADD_def CMD_REMOVE_def)
  next
    case 3
    with add_route_old(2) [OF assms(1) e(1) 3(3)] show ?thesis by (auto simp: undo_command_def map_undo_def)
  qed
qed

lemma rollback_ok:
  "rt_inv t \<Longrightarrow> undoable es (rt_routes (rt_t t)) m0 \<Longrightarrow> \<exists>t'. rollback es t = Inr t' \<and> rt_inv t' \<and> rt_routes (rt_t t') = m0"
proof (induction es arbitrary: t)
  case (Cons e es)
  from undo_command_ok [OF Cons.prems(1), of e] Cons.prems(2) obtain t1 where
    "undo_command e t = Inr t1" "rt_inv t1" "rt_routes (rt_t t1) = map_undo e (rt_routes (rt_t t))" by auto
  with Cons.IH [of t1] Cons.prems(2) show ?case by simp
qed simp

text \<open>The old route that the table reports is a real route of the same prefix.\<close>

lemma add_route_reports:
  assumes "rt_inv t" "add_route t r allow = (c, Some old, t')"
  shows "route_ok old" "route_key old = route_key r"
proof -
  obtain i where s: "scan_slots r (rt_t t) 0 None = Inl i" "old = rt_t t ! i"
    using assms(2) by (auto simp: add_route_def Let_def split: sum.splits if_splits)
  from scan_slots_Inl [OF s(1)] have i: "i < length (rt_t t)" "rt_real old" "route_key old = route_key r" by (auto simp: s(2))
  then show "route_ok old" "route_key old = route_key r"
    using assms(1) nth_mem [OF i(1)] s(2) by (auto simp: rt_inv_def stored_ok_def)
qed

lemma remove_route_reports:
  assumes "rt_inv t" "route_key r \<noteq> (0, 0xFFFFFFFF)" "remove_route t r = Inr (c, Some old, t')"
  shows "route_ok old" "route_key old = route_key r"
proof -
  obtain i where f: "List.find (\<lambda>i. rt_match r (rt_t t ! i)) [0..<length (rt_t t)] = Some i" "old = rt_t t ! i"
    using assms(3) by (auto simp: remove_route_def Let_def ebind_def split: option.splits sum.splits if_splits prod.splits)
  then have i: "i < length (rt_t t)" "rt_match r (rt_t t ! i)" by (simp_all add: find_upt)
  have "killed_ok (rt_t t)" "stored_ok (rt_t t)" using assms(1) by (simp_all add: rt_inv_def)
  with match_real [OF _ i assms(2)] nth_mem [OF i(1)] show "route_ok old" "route_key old = route_key r" by (auto simp: f(2) stored_ok_def)
qed

text \<open>The commands that are understood: a route that parses, for a prefix other than 0.0.0.0/32, with an output of the element.\<close>

definition parsed_command :: "route_parser \<Rightarrow> nat \<Rightarrow> int \<Rightarrow> string list \<Rightarrow> iproute option" where
  "parsed_command cp n command str = (case cp str (command = CMD_REMOVE) of
      None \<Rightarrow> None
    | Some r \<Rightarrow> if rt_port r < (if command = CMD_REMOVE then - 1 else 0) \<or> rt_port r \<ge> int n then None else Some r)"

definition prefixes_parsed :: "route_parser \<Rightarrow> bool" where
  "prefixes_parsed cp \<longleftrightarrow> (\<forall>str b r. cp str b = Some r \<longrightarrow> is_prefix_mask (rt_mask r) \<and> route_key r \<noteq> (0, 0xFFFFFFFF))"

text \<open>\<open>cp_ip_route\<close> is such a parser when its parser of prefixes is.\<close>

lemma cp_ip_route_prefixes:
  assumes "\<And>w a m. parse_prefix w = Some (a, m) \<Longrightarrow> is_prefix_mask m \<and> (a AND m, m) \<noteq> (0, 0xFFFFFFFF)"
  shows "prefixes_parsed (cp_ip_route parse_prefix parse_addr parse_int junk)"
proof -
  have "\<exists>a m. parse_prefix (fst (shift_word str)) = Some (a, m) \<and> rt_addr r = a AND m \<and> rt_mask r = m"
    if "cp_ip_route parse_prefix parse_addr parse_int junk str b = Some r" for str b r
    using that by (auto simp: cp_ip_route_def Let_def split: option.splits prod.splits if_splits)
  then show ?thesis using assms unfolding prefixes_parsed_def route_key_def by metis
qed

definition command_result :: "route_parser \<Rightarrow> nat \<Rightarrow> int \<Rightarrow> string list \<Rightarrow> route_table \<Rightarrow> route_table option" where
  "command_result cp n command str m = Option.bind (parsed_command cp n command str) (\<lambda>r. map_command command r m)"

lemma route_ok_extra [simp]: "route_ok (x\<lparr> rt_extra := k \<rparr>) = route_ok x"
  by (simp add: route_ok_def)

lemma run_command_parsed:
  assumes "parsed_command cp n command str = Some r"
  shows "run_command cp n command str t =
    ebind (if command = CMD_ADD then Inr (add_route t r False) else if command = CMD_SET then Inr (add_route t r True) else remove_route t r) (\<lambda>(c, old, t).
      let port = (case old of None \<Rightarrow> - 1 | Some x \<Rightarrow> rt_port x) in
      Inr (c, if c < 0 then None else if port < 0 then Some (r\<lparr> rt_extra := CMD_ADD \<rparr>) else map_option (\<lambda>x. x\<lparr> rt_extra := command \<rparr>) old, t))"
  using assms by (auto simp: run_command_def parsed_command_def Let_def split: option.splits if_splits)

lemma parsed_command_route:
  assumes "prefixes_parsed cp" "parsed_command cp n command str = Some r"
  shows "is_prefix_mask (rt_mask r)" "route_key r \<noteq> (0, 0xFFFFFFFF)" "command \<noteq> CMD_REMOVE \<Longrightarrow> route_ok r"
  using assms by (auto simp: parsed_command_def prefixes_parsed_def route_ok_def split: option.splits if_splits)

lemma command_numbers [simp]: "CMD_ADD \<noteq> CMD_REMOVE" "CMD_SET \<noteq> CMD_REMOVE" "CMD_SET \<noteq> CMD_ADD" "CMD_REMOVE \<noteq> CMD_ADD" "CMD_REMOVE \<noteq> CMD_SET" "CMD_ADD \<noteq> CMD_SET"
  by (simp_all add: CMD_ADD_def CMD_SET_def CMD_REMOVE_def)

definition carried_out :: "route_parser \<Rightarrow> nat \<Rightarrow> int \<Rightarrow> string list \<Rightarrow> rtable \<Rightarrow> route_table \<Rightarrow> bool" where
  "carried_out cp n command str t m \<longleftrightarrow> (\<exists>e t'. run_command cp n command str t = Inr (0, Some e, t') \<and> rt_inv t' \<and> rt_routes (rt_t t') = m \<and>
     can_undo e m \<and> map_undo e m = rt_routes (rt_t t))"

lemma run_remove_ok:
  assumes "rt_inv t" "prefixes_parsed cp" "parsed_command cp n CMD_REMOVE str = Some r" "map_command CMD_REMOVE r (rt_routes (rt_t t)) = Some m"
  shows "carried_out cp n CMD_REMOVE str t m"
proof -
  let ?m = "rt_routes (rt_t t)"
  note k = parsed_command_route(2) [OF assms(2,3)]
  obtain v where v: "?m (route_key r) = Some v" "rt_port r < 0 \<or> route_val r = v" "m = ?m(route_key r := None)"
    using assms(4) by (auto simp: map_command_def Let_def split: option.splits if_splits)
  from remove_route_ok [OF assms(1) k v(1,2)] obtain old t' where
    rm: "remove_route t r = Inr (0, Some old, t')" "route_val old = v" "rt_inv t'" "rt_routes (rt_t t') = m" using v(3) by auto
  note old = remove_route_reports [OF assms(1) k rm(1)]
  have "run_command cp n CMD_REMOVE str t = Inr (0, Some (old\<lparr> rt_extra := CMD_REMOVE \<rparr>), t')"
    using run_command_parsed [OF assms(3), of t] rm(1) old(1) by (simp add: route_ok_def)
  moreover have "map_undo (old\<lparr> rt_extra := CMD_REMOVE \<rparr>) m = ?m" using old(2) rm(2) v(1,3) by (simp add: map_undo_def fun_upd_idem)
  moreover have "can_undo (old\<lparr> rt_extra := CMD_REMOVE \<rparr>) m" using old k v(3) by (simp add: can_undo_def)
  ultimately show ?thesis using rm(3,4) unfolding carried_out_def by blast
qed

lemma run_add_ok:
  assumes "rt_inv t" "prefixes_parsed cp" "command = CMD_ADD \<or> command = CMD_SET" "parsed_command cp n command str = Some r"
    and "map_command command r (rt_routes (rt_t t)) = Some m"
  shows "carried_out cp n command str t m"
proof -
  let ?m = "rt_routes (rt_t t)"
  note run = run_command_parsed [OF assms(4), of t]
  note k = parsed_command_route(2) [OF assms(2,4)]
  have ok: "route_ok r" using parsed_command_route(3) [OF assms(2,4)] assms(3) by auto
  have m: "m = ?m(route_key r \<mapsto> route_val r)" using assms(3,5) by (auto simp: map_command_def Let_def split: if_splits)
  show ?thesis
  proof (cases "?m (route_key r)")
    case None
    let ?e = "r\<lparr> rt_extra := CMD_ADD \<rparr>"
    obtain t' where t': "add_route t r (command = CMD_SET) = (0, None, t')" "rt_inv t'" "rt_routes (rt_t t') = m"
      using add_route_new [OF assms(1) ok None, of "command = CMD_SET"] m by blast
    have "run_command cp n command str t = Inr (0, Some ?e, t')"
      unfolding run using assms(3) t'(1) by (cases "command = CMD_SET") simp_all
    moreover have "can_undo ?e m" "map_undo ?e m = ?m" using ok k m None by (simp_all add: can_undo_def map_undo_def fun_upd_idem)
    ultimately show ?thesis using t'(2,3) unfolding carried_out_def by blast
  next
    case (Some v)
    then have c: "command = CMD_SET" using assms(3,5) by (auto simp: map_command_def Let_def split: if_splits)
    from add_route_old(2) [OF assms(1) ok Some] obtain old t' where
      a: "add_route t r True = (0, Some old, t')" "route_val old = v" "rt_inv t'" "rt_routes (rt_t t') = m" using m by auto
    note old = add_route_reports [OF assms(1) a(1)]
    have "run_command cp n command str t = Inr (0, Some (old\<lparr> rt_extra := CMD_SET \<rparr>), t')"
      using run c a(1) old(1) by (simp add: route_ok_def)
    moreover have "can_undo (old\<lparr> rt_extra := CMD_SET \<rparr>) m" "map_undo (old\<lparr> rt_extra := CMD_SET \<rparr>) m = ?m"
      using old a(2) k Some m by (simp_all add: can_undo_def map_undo_def fun_upd_idem)
    ultimately show ?thesis using a(3,4) unfolding carried_out_def by blast
  qed
qed

lemma run_command_ok:
  assumes "rt_inv t" "prefixes_parsed cp" "command \<in> {CMD_ADD, CMD_SET, CMD_REMOVE}" "command_result cp n command str (rt_routes (rt_t t)) = Some m"
  shows "carried_out cp n command str t m"
proof -
  obtain r where "parsed_command cp n command str = Some r" "map_command command r (rt_routes (rt_t t)) = Some m"
    using assms(4) by (auto simp: command_result_def bind_eq_Some_conv)
  then show ?thesis using run_remove_ok [OF assms(1,2)] run_add_ok [OF assms(1,2)] assms(3) by (cases "command = CMD_REMOVE") auto
qed

lemma run_command_refused:
  assumes "rt_inv t" "prefixes_parsed cp" "command \<in> {CMD_ADD, CMD_SET, CMD_REMOVE}" "command_result cp n command str (rt_routes (rt_t t)) = None"
  shows "\<exists>c. run_command cp n command str t = Inr (c, None, t) \<and> c < 0"
proof (cases "parsed_command cp n command str")
  case None
  then show ?thesis by (auto simp: run_command_def parsed_command_def EINVAL_def split: option.splits if_splits)
next
  case (Some r)
  note run = run_command_parsed [OF Some, of t] and k = parsed_command_route [OF assms(2) Some]
  have none: "map_command command r (rt_routes (rt_t t)) = None" using assms(4) Some by (simp add: command_result_def)
  show ?thesis
  proof (cases "command = CMD_REMOVE")
    case True
    have "remove_route t r = Inr (- ENOENT, None, t)"
      using none True by (intro remove_route_missing [OF assms(1) k(2)]) (auto simp: map_command_def Let_def split: if_splits)
    then show ?thesis using run True by (simp add: ENOENT_def)
  next
    case False
    then obtain v where v: "command = CMD_ADD" "rt_routes (rt_t t) (route_key r) = Some v"
      using none assms(3) by (auto simp: map_command_def Let_def split: if_splits)
    from add_route_old(1) [OF assms(1) k(3) [OF False] v(2)] obtain old where "add_route t r False = (- EEXIST, Some old, t)" by blast
    then show ?thesis using run v(1) by (simp add: EEXIST_def Let_def)
  qed
qed

section \<open>Transactions are atomic\<close>

function ctrl_lines :: "string \<Rightarrow> string list" where
  "ctrl_lines s = (if s = [] then [] else first_line s # ctrl_lines (drop (Suc (length (first_line s))) s))"
  by pat_completeness auto
termination by (relation "measure length") auto

declare ctrl_lines.simps [simp del]

definition blank :: "(string \<Rightarrow> string list) \<Rightarrow> string \<Rightarrow> bool" where
  "blank words line \<longleftrightarrow> fst (shift_word (words line)) = []"

definition line_result :: "route_parser \<Rightarrow> (string \<Rightarrow> string list) \<Rightarrow> nat \<Rightarrow> string \<Rightarrow> route_table \<Rightarrow> route_table option" where
  "line_result cp words n line m =
     Option.bind (command_of (fst (shift_word (words line)))) (\<lambda>c. command_result cp n c (snd (shift_word (words line))) m)"

text \<open>All the commands of a transaction, each on what the one before it left.\<close>

fun transaction :: "route_parser \<Rightarrow> (string \<Rightarrow> string list) \<Rightarrow> nat \<Rightarrow> string list \<Rightarrow> route_table \<Rightarrow> route_table option" where
  "transaction cp words n [] m = Some m"
| "transaction cp words n (line # ls) m = Option.bind (line_result cp words n line m) (transaction cp words n ls)"

lemma command_of_cases: "command_of w = Some c \<Longrightarrow> c \<in> {CMD_ADD, CMD_SET, CMD_REMOVE} \<and> w \<noteq> []"
  by (auto simp: command_of_def split: if_splits)

text \<open>A line that can be carried out leads to the rest of the text, with one more route saved.\<close>

lemma ctrl_loop_step:
  assumes "rt_inv t" "prefixes_parsed cp" "s \<noteq> []" "line_result cp words n (first_line s) (rt_routes (rt_t t)) = Some m"
    and "undoable (rev old) (rt_routes (rt_t t)) m0"
  shows "\<exists>e t'. ctrl_loop cp words n s old t = ctrl_loop cp words n (drop (Suc (length (first_line s))) s) (old @ [e]) t' \<and>
    rt_inv t' \<and> rt_routes (rt_t t') = m \<and> undoable (rev (old @ [e])) m m0"
proof -
  let ?line = "words (first_line s)"
  from assms(4) obtain c where c: "command_of (fst (shift_word ?line)) = Some c"
    "command_result cp n c (snd (shift_word ?line)) (rt_routes (rt_t t)) = Some m"
    by (auto simp: line_result_def bind_eq_Some_conv)
  from command_of_cases [OF c(1)] have "c \<in> {CMD_ADD, CMD_SET, CMD_REMOVE}" by simp
  from run_command_ok [OF assms(1,2) this c(2)] obtain e t' where
    r: "run_command cp n c (snd (shift_word ?line)) t = Inr (0, Some e, t')" "rt_inv t'" "rt_routes (rt_t t') = m" "can_undo e m"
      "map_undo e m = rt_routes (rt_t t)" unfolding carried_out_def by blast
  have "ctrl_loop cp words n s old t = ctrl_loop cp words n (drop (Suc (length (first_line s))) s) (old @ [e]) t'"
    using assms(3) c(1) r(1) by (subst ctrl_loop.simps) (simp add: Let_def)
  moreover have "undoable (rev (old @ [e])) m m0" using r(4,5) assms(5) by simp
  ultimately show ?thesis using r(2,3) by blast
qed

lemma ctrl_loop_refused:
  assumes "rt_inv t" "prefixes_parsed cp" "s \<noteq> []" "\<not> blank words (first_line s)" "line_result cp words n (first_line s) (rt_routes (rt_t t)) = None"
    and "undoable (rev old) (rt_routes (rt_t t)) m0"
  shows "\<exists>c t'. ctrl_loop cp words n s old t = Some (Inr (c, t')) \<and> c < 0 \<and> rt_inv t' \<and> rt_routes (rt_t t') = m0"
proof -
  let ?line = "words (first_line s)"
  from rollback_ok [OF assms(1,6)] obtain t' where
    t': "rollback (rev old) t = Inr t'" "rt_inv t'" "rt_routes (rt_t t') = m0" by blast
  show ?thesis
  proof (cases "command_of (fst (shift_word ?line))")
    case None
    with assms(3,4) t' show ?thesis by (subst ctrl_loop.simps) (simp add: Let_def blank_def EINVAL_def)
  next
    case (Some c)
    then have "command_result cp n c (snd (shift_word ?line)) (rt_routes (rt_t t)) = None" using assms(5) by (simp add: line_result_def)
    from run_command_refused [OF assms(1,2) _ this] command_of_cases [OF Some] obtain r where
      "run_command cp n c (snd (shift_word ?line)) t = Inr (r, None, t)" "r < 0" by blast
    with Some assms(3) t' show ?thesis by (subst ctrl_loop.simps) (simp add: Let_def)
  qed
qed

lemma ctrl_loop_ok:
  assumes "rt_inv t" "prefixes_parsed cp" "undoable (rev old) (rt_routes (rt_t t)) m0" "\<forall>line \<in> set (ctrl_lines s). \<not> blank words line"
  shows "\<exists>c t'. ctrl_loop cp words n s old t = Some (Inr (c, t')) \<and> rt_inv t' \<and>
    (case transaction cp words n (ctrl_lines s) (rt_routes (rt_t t)) of
       Some m \<Rightarrow> c = 0 \<and> rt_routes (rt_t t') = m | None \<Rightarrow> c < 0 \<and> rt_routes (rt_t t') = m0)"
  using assms(1,3,4)
proof (induction s arbitrary: old t rule: ctrl_lines.induct)
  case (1 s)
  show ?case
  proof (cases "s = []")
    case True
    then show ?thesis using "1.prems"(1) by (simp add: ctrl_loop.simps ctrl_lines.simps)
  next
    case False
    define rest where "rest = drop (Suc (length (first_line s))) s"
    have l: "ctrl_lines s = first_line s # ctrl_lines rest" using False by (subst ctrl_lines.simps) (simp add: rest_def)
    show ?thesis
    proof (cases "line_result cp words n (first_line s) (rt_routes (rt_t t))")
      case None
      then show ?thesis using ctrl_loop_refused [OF "1.prems"(1) assms(2) False _ None "1.prems"(2)] "1.prems"(3) l by auto
    next
      case (Some m)
      from ctrl_loop_step [OF "1.prems"(1) assms(2) False Some "1.prems"(2)] obtain e t' where
        e: "ctrl_loop cp words n s old t = ctrl_loop cp words n rest (old @ [e]) t'" "rt_inv t'" "rt_routes (rt_t t') = m" "undoable (rev (old @ [e])) m m0"
        by (auto simp: rest_def)
      from "1.IH" [OF False e(2), folded rest_def, of "old @ [e]"] e(3,4) "1.prems"(3) l
      show ?thesis unfolding e(1) by (simp add: Some)
    qed
  qed
qed


lemma ctrl_loop_blank:
  assumes "s \<noteq> []" "blank words (first_line s)"
  shows "ctrl_loop cp words n s old t = None"
proof (rule ccontr)
  assume "ctrl_loop cp words n s old t \<noteq> None"
  then obtain r where "ctrl_loop cp words n s old t = Some r" by blast
  then have "\<not> (s \<noteq> [] \<and> blank words (first_line s))"
    by (rule ctrl_loop.raw_induct [where P = "\<lambda>cp words n s old t r. \<not> (s \<noteq> [] \<and> blank words (first_line s))", rotated])
      (auto simp: blank_def Let_def command_of_def split: if_splits; fastforce)
  with assms show False by simp
qed

text \<open>
  A blank line. A \<^verbatim>\<open>ctrl\<close> write whose commands are followed by a blank line never ends, because the loop goes on with the same line.
\<close>

lemma ctrl_blank_diverges:
  assumes "rt_inv t" and "prefixes_parsed cp" and "ctrl_lines conf = ls @ line # ls'" and "blank words line"
    and "transaction cp words n ls (rt_routes (rt_t t)) \<noteq> None"
  shows "ctrl_handler cp words n conf t = None"
proof -
  have "ctrl_loop cp words n s old t = None"
    if "rt_inv t" "ctrl_lines s = ls @ line # ls'" "transaction cp words n ls (rt_routes (rt_t t)) \<noteq> None" "undoable (rev old) (rt_routes (rt_t t)) m0"
    for s old t m0
    using that
  proof (induction ls arbitrary: s old t)
    case Nil
    then have "s \<noteq> []" "first_line s = line" by (auto simp: ctrl_lines.simps [of s] split: if_splits)
    then show ?case using ctrl_loop_blank assms(4) by blast
  next
    case (Cons x ls)
    then have s: "s \<noteq> []" "first_line s = x" "ctrl_lines (drop (Suc (length (first_line s))) s) = ls @ line # ls'"
      by (auto simp: ctrl_lines.simps [of s] split: if_splits)
    from Cons.prems(3) obtain m where m: "line_result cp words n (first_line s) (rt_routes (rt_t t)) = Some m" "transaction cp words n ls m \<noteq> None"
      by (auto simp: s(2) bind_eq_Some_conv)
    from ctrl_loop_step [OF Cons.prems(1) assms(2) s(1) m(1) Cons.prems(4)] obtain e t' where
      "ctrl_loop cp words n s old t = ctrl_loop cp words n (drop (Suc (length (first_line s))) s) (old @ [e]) t'"
      "rt_inv t'" "rt_routes (rt_t t') = m" "undoable (rev (old @ [e])) m m0" by blast
    with Cons.IH [OF _ s(3), of t' "old @ [e]"] m(2) show ?case by simp
  qed
  from this [of t conf "[]" "rt_routes (rt_t t)"] show ?thesis using assms by (simp add: ctrl_handler_def)
qed

text \<open>The parser of routes over parsers that know the words of an example.\<close>

definition ex_cp :: route_parser where
  "ex_cp = cp_ip_route (\<lambda>w. if w = ''default'' then Some (0, 0) else None) (\<lambda>_. None) (\<lambda>w. if w = ''1'' then Some 1 else None) 0"

definition ex_words :: "string \<Rightarrow> string list" where
  "ex_words line = (if line = ''add default 1'' then [''add'', ''default'', ''1''] else if line = [] then [] else [line])"

lemma ex_cp_ok: "prefixes_parsed ex_cp"
  unfolding ex_cp_def by (rule cp_ip_route_prefixes) (simp split: if_splits)

lemma ex_add_line:
  "line_result ex_cp ex_words 2 ''add default 1'' m = (if m (0, 0) = None then Some (m((0, 0) \<mapsto> (0, 1))) else None)"
  by (simp add: line_result_def ex_words_def shift_word_def command_of_def command_result_def parsed_command_def ex_cp_def cp_ip_route_def
      Let_def map_command_def route_key_def route_val_def CMD_ADD_def CMD_REMOVE_def)


theorem ctrl_blank_diverges_witness:
  "ctrl_handler ex_cp ex_words 2 (''add default 1'' @ [CHR 0x0A, CHR 0x0A] @ ''add default 1'') (rt_new 0 0) = None"
proof -
  let ?c = "''add default 1'' @ [CHR 0x0A, CHR 0x0A] @ ''add default 1''"
  have l: "ctrl_lines ?c = [''add default 1''] @ [] # [''add default 1'']" by (simp add: ctrl_lines.simps first_line_def)
  have "transaction ex_cp ex_words 2 [''add default 1''] (rt_routes (rt_t (rt_new 0 0))) \<noteq> None"
    by (simp add: ex_add_line rt_new_def rt_routes_def)
  moreover have "blank ex_words []" by (simp add: blank_def ex_words_def shift_word_def)
  ultimately show ?thesis using ctrl_blank_diverges [OF rt_inv_new ex_cp_ok l] by blast
qed

section \<open>The table's own check\<close>

text \<open>\<open>check\<close>, which \<^verbatim>\<open>LinearIPLookup\<close> runs after every change; a failure is only logged.\<close>

definition rt_check :: "rtable \<Rightarrow> bool" where
  "rt_check t =
     (let ts = rt_t t; n = length ts in
      list_all (\<lambda>i. rt_real (ts ! i) \<longrightarrow> list_all (\<lambda>j. \<not> (rt_contains_route (ts ! i) (ts ! j) \<and> rt_real (ts ! j)))
          (filter (\<lambda>j. int j < rt_extra (ts ! i)) [Suc i..<n])) [0..<n] \<and>
      list_all (\<lambda>i. list_all (\<lambda>j. \<not> (rt_addr (ts ! i) = rt_addr (ts ! j) \<and> rt_mask (ts ! i) = rt_mask (ts ! j) \<and> rt_real (ts ! i) \<and> rt_real (ts ! j)))
          [Suc i..<n]) [0..<n] \<and>
      (last_addr t = 0 \<or> lookup_entry ts (last_addr t) = last_entry t) \<and>
      (last_addr2 t = 0 \<or> lookup_entry ts (last_addr2 t) = last_entry2 t))"

lemma rt_inv_check:
  assumes "rt_inv t"
  shows "rt_check t"
proof -
  let ?ts = "rt_t t"
  have inv: "routes_inv ?ts" using assms by (simp add: rt_inv_def)
  have "\<not> (rt_contains_route (?ts ! i) (?ts ! j) \<and> rt_real (?ts ! j))"
    if "rt_real (?ts ! i)" "j \<in> set (filter (\<lambda>j. int j < rt_extra (?ts ! i)) [Suc i..<length ?ts])" for i j
    using routes_inv_next [OF inv, of i j] that by auto
  moreover have "\<not> (rt_addr (?ts ! i) = rt_addr (?ts ! j) \<and> rt_mask (?ts ! i) = rt_mask (?ts ! j) \<and> rt_real (?ts ! i) \<and> rt_real (?ts ! j))"
    if "j \<in> set [Suc i..<length ?ts]" for i j
    using routes_inv_unique [OF inv, of i j] that by (auto simp: route_key_def)
  moreover have "last_addr t = 0 \<or> lookup_entry ?ts (last_addr t) = last_entry t" "last_addr2 t = 0 \<or> lookup_entry ?ts (last_addr2 t) = last_entry2 t"
    using assms by (auto simp: rt_inv_def)
  ultimately show ?thesis unfolding rt_check_def Let_def list_all_iff by blast
qed

end
