(* ===== verification/Click_TransportChecksum.thy ===== *)
theory Click_TransportChecksum
  imports Click_IPElements
begin

text \<open>
  The rest of the Internet checksum (\<^verbatim>\<open>click/lib/in_cksum.c\<close>, \<^verbatim>\<open>click/include/clicknet/ip.h\<close>): checksums with a pseudo-header, whose destination is
  the last address of a source route where the header has one, and the correction of an incremental update for data that is zero. The branch of
  \<open>click_in_cksum_pseudohdr_raw\<close> modelled is the one in C, for machines other than the i386.
\<close>

section \<open>Definitions\<close>

definition click_in_cksum_pseudohdr_raw :: "u32 \<Rightarrow> u32 \<Rightarrow> u32 \<Rightarrow> int \<Rightarrow> int \<Rightarrow> u16 exec" where
  "click_in_cksum_pseudohdr_raw csum src dst proto packet_len =
     (if csum > 0xFFFF then Inl Assert_failed
      else (let csum = NOT csum AND 0xFFFF;
                csum = csum + ((src AND 0xFFFF) + drop_bit 16 src);
                csum = csum + ((dst AND 0xFFFF) + drop_bit 16 dst);
                csum = csum + (ucast (htons (of_int packet_len)) + ucast (htons (of_int proto)))
            in Inr (NOT (fold_carries csum))))"

text \<open>The loop of \<open>click_in_cksum_pseudohdr_hard\<close> over the options: the destination it ends with.\<close>

function final_dst :: "byte list \<Rightarrow> nat \<Rightarrow> nat \<Rightarrow> u32 exec" where
  "final_dst iph pos stop =
     (if pos < stop then
        (case read8 iph pos of
           Inl e \<Rightarrow> Inl e
         | Inr ty \<Rightarrow>
             if ty = IPOPT_NOP then final_dst iph (pos + 1) stop
             else if ty = IPOPT_EOL \<or> pos + 1 \<ge> stop then read32 iph ip_dst_off
             else (case read8 iph (pos + 1) of
                     Inl e \<Rightarrow> Inl e
                   | Inr len \<Rightarrow>
                       if unat len < 2 \<or> pos + unat len > stop then read32 iph ip_dst_off
                       else if (ty = IPOPT_SSRR \<or> ty = IPOPT_LSRR) \<and> unat len \<ge> 7 then read32 iph (pos + unat len - 4)
                       else final_dst iph (pos + unat len) stop))
      else read32 iph ip_dst_off)"
  by pat_completeness auto
termination by (relation "measure (\<lambda>(_, pos, stop). stop - pos)") auto

declare final_dst.simps [simp del]

definition click_in_cksum_pseudohdr_hard :: "u32 \<Rightarrow> byte list \<Rightarrow> int \<Rightarrow> u16 exec" where
  "click_in_cksum_pseudohdr_hard csum iph packet_len =
     ebind (read8 iph ip_vhl_off) (\<lambda>vhl. ebind (final_dst iph 20 (ip_hl vhl * 4)) (\<lambda>dst.
     ebind (read32 iph ip_src_off) (\<lambda>src. ebind (read8 iph ip_p_off) (\<lambda>p.
     click_in_cksum_pseudohdr_raw csum src dst (uint p) packet_len))))"

definition click_in_cksum_pseudohdr :: "u32 \<Rightarrow> byte list \<Rightarrow> int \<Rightarrow> u16 exec" where
  "click_in_cksum_pseudohdr data_csum iph transport_len =
     ebind (read8 iph ip_vhl_off) (\<lambda>vhl.
     if ip_hl vhl = 5
     then ebind (read32 iph ip_src_off) (\<lambda>src. ebind (read32 iph ip_dst_off) (\<lambda>dst. ebind (read8 iph ip_p_off) (\<lambda>p.
            click_in_cksum_pseudohdr_raw data_csum src dst (uint p) transport_len)))
     else click_in_cksum_pseudohdr_hard data_csum iph transport_len)"

definition click_update_zero_in_cksum :: "u16 \<Rightarrow> byte list \<Rightarrow> u16" where
  "click_update_zero_in_cksum csum x = (if csum = 0 \<and> list_all (\<lambda>b. b = 0) x then NOT 0 else csum)"

section \<open>Pseudo-headers\<close>

definition pseudo_header :: "u32 \<Rightarrow> u32 \<Rightarrow> byte \<Rightarrow> u16 \<Rightarrow> byte list" where
  "pseudo_header src dst p len = bytes32 src @ bytes32 dst @ [0, p] @ bytes16 (htons len)"

lemma ones16_mod_if: "n \<noteq> 0 \<Longrightarrow> ones16 n = (if n mod 65535 = 0 then 65535 else n mod 65535)"
  by (cases n) (simp_all add: ones16_def mod_Suc)

lemma ones16_add: "ones16 (ones16 a + b) = ones16 (a + b)"
proof (cases "a = 0")
  case False
  then have "ones16 a + b \<noteq> 0" "a + b \<noteq> 0" by (simp_all add: ones16_def)
  moreover have "(ones16 a + b) mod 65535 = (a + b) mod 65535" by (metis mod_add_left_eq ones16_mod)
  ultimately show ?thesis by (simp add: ones16_mod_if)
qed (simp add: ones16_def)

lemma wsum_bytes32: "wsum (bytes32 w) = unat (w AND 0xFFFF) + unat (drop_bit 16 w)"
proof -
  have "le16 (ucast w) (ucast (drop_bit 8 w)) = ucast w" "le16 (ucast (drop_bit 16 w)) (ucast (drop_bit 24 w)) = ucast (drop_bit 16 w)" for w :: u32
    unfolding le16_def by (rule bit_word_eqI; auto simp: bit_simps bit_word_cat_iff dest: bit_imp_le_length)+
  moreover have "unat (ucast w :: u16) = unat (w AND 0xFFFF)"
  proof -
    have "w AND 0xFFFF = take_bit 16 w" by (simp add: take_bit_eq_mask mask_eq_exp_minus_1)
    then show ?thesis by (simp add: unsigned_ucast_eq unsigned_take_bit_eq)
  qed
  moreover have "unat (ucast (drop_bit 16 w) :: u16) = unat (drop_bit 16 w)"
  proof -
    have "unat w < 4294967296" by (rule less_le_trans [OF unsigned_less]) simp
    then have "unat (drop_bit 16 w) < 65536" by (simp add: drop_bit_eq_div unat_div less_mult_imp_div_less)
    then show ?thesis by (simp add: unsigned_ucast_eq take_bit_nat_eq_self)
  qed
  ultimately show ?thesis by (simp add: bytes32_def)
qed

lemma unat_u16: "unat (w :: u16) < 65536" "unat (ucast w :: u32) = unat w"
proof -
  show "unat w < 65536" by (rule less_le_trans [OF unsigned_less]) simp
  then show "unat (ucast w :: u32) = unat w" by (simp add: unsigned_ucast_eq take_bit_nat_eq_self)
qed

lemma wsum_pseudo: "wsum (pseudo_header src dst p len @ bs) =
    unat (src AND 0xFFFF) + unat (drop_bit 16 src) + (unat (dst AND 0xFFFF) + unat (drop_bit 16 dst)) + unat (htons (ucast p)) + unat (htons len) + wsum bs"
proof -
  have "le16 0 p = htons (ucast p)"
    unfolding le16_def htons_def by (rule bit_word_eqI) (auto simp: bit_simps bit_word_cat_iff dest: bit_imp_le_length)
  then have "wsum ([0, p] @ ys) = unat (htons (ucast p)) + wsum ys" for ys by simp
  then show ?thesis unfolding pseudo_header_def by (simp only: append_assoc wsum_append wsum_bytes32 wsum_bytes16 length_bytes even_numeral)
qed

lemma unat_halves: "unat (w AND 0xFFFF :: u32) \<le> 65535" "unat (drop_bit 16 (w :: u32)) \<le> 65535"
proof -
  have "w AND 0xFFFF \<le> 0xFFFF" by (simp add: word_and_le1)
  then show "unat (w AND 0xFFFF) \<le> 65535" by (simp add: word_le_nat_alt)
  have "unat w < 4294967296" by (rule less_le_trans [OF unsigned_less]) simp
  then show "unat (drop_bit 16 w) \<le> 65535" by (simp add: drop_bit_eq_div unat_div less_mult_imp_div_less less_Suc_eq_le [symmetric])
qed

lemma pseudohdr_raw_ok:
  assumes "length bs < 131060"
  shows "click_in_cksum_pseudohdr_raw (ucast (click_in_cksum bs)) src dst (uint p) (int len) =
    Inr (click_in_cksum (pseudo_header src dst p (of_nat len) @ bs))"
proof -
  define s where "s = unat (src AND 0xFFFF) + unat (drop_bit 16 src) + (unat (dst AND 0xFFFF) + unat (drop_bit 16 dst)) +
    unat (htons (ucast p)) + unat (htons (of_nat len))"
  have le: "s \<le> 6 * 65535" using unat_halves [of src] unat_halves [of dst] unat_u16(1) [of "htons (ucast p)"] unat_u16(1) [of "htons (of_nat len)"]
    by (simp add: s_def)
  define c where "c = (NOT (ucast (click_in_cksum bs)) AND 0xFFFF :: u32)"
  have c: "unat c = ones16 (wsum bs)"
  proof -
    have "c = ucast (NOT (click_in_cksum bs))"
    proof -
      have "c = take_bit 16 (NOT (ucast (click_in_cksum bs)))" by (simp add: c_def take_bit_eq_mask mask_eq_exp_minus_1)
      then show ?thesis by (auto intro!: bit_word_eqI simp: bit_simps)
    qed
    then show ?thesis using unat_click_in_cksum [of bs] assms ones16_le [of "wsum bs"] by (simp add: unat_u16(2) unat_not16)
  qed
  have "(of_int (uint p) :: u16) = ucast p" by simp
  then have "click_in_cksum_pseudohdr_raw (ucast (click_in_cksum bs)) src dst (uint p) (int len) = Inr (NOT (fold_carries
      (c + ((src AND 0xFFFF) + drop_bit 16 src) + ((dst AND 0xFFFF) + drop_bit 16 dst) + (ucast (htons (of_nat len)) + ucast (htons (ucast p))))))"
    using unat_u16(1) [of "click_in_cksum bs"] by (simp add: click_in_cksum_pseudohdr_raw_def c_def word_less_nat_alt unat_u16(2) Let_def)
  moreover have "unat (c + ((src AND 0xFFFF) + drop_bit 16 src) + ((dst AND 0xFFFF) + drop_bit 16 dst) +
      (ucast (htons (of_nat len)) + ucast (htons (ucast p)))) = ones16 (wsum bs) + s"
    using le ones16_le [of "wsum bs"] by (simp add: unat_word_ariths c unat_u16(2) s_def mod_simps)
  moreover have "unat (click_in_cksum (pseudo_header src dst p (of_nat len) @ bs)) = 65535 - ones16 (wsum bs + s)"
  proof -
    have "length (pseudo_header src dst p (of_nat len) @ bs) < 131072" using assms by (simp add: pseudo_header_def)
    moreover have "wsum (pseudo_header src dst p (of_nat len) @ bs) = wsum bs + s" unfolding wsum_pseudo s_def by simp
    ultimately show ?thesis by (simp only: unat_click_in_cksum)
  qed
  ultimately show ?thesis by (simp add: word_unat_eq_iff unat_not16 unat_fold_carries ones16_add)
qed

section \<open>Options\<close>

text \<open>The loop never reads beyond the header, and without a source route it ends with the destination of the header.\<close>

lemma final_dst_ok:
  assumes "stop \<le> length iph" "20 \<le> length iph" "20 \<le> pos"
  shows "\<exists>dst. final_dst iph pos stop = Inr dst"
  using assms
proof (induction iph pos stop rule: final_dst.induct)
  case (1 iph pos stop)
  have r8: "read8 iph i = Inr (iph ! i)" if "i < stop" for i using that "1.prems"(1) by (simp add: read8_def)
  have r32: "\<exists>d. read32 iph i = Inr d" if "i + 3 < length iph" for i using that by (simp add: read32_def)
  show ?case
  proof (cases "pos < stop")
    case True
    define len where "len = unat (iph ! (pos + 1))"
    consider "iph ! pos = IPOPT_NOP" | "iph ! pos \<noteq> IPOPT_NOP" "iph ! pos = IPOPT_EOL \<or> pos + 1 \<ge> stop"
      | "iph ! pos \<noteq> IPOPT_NOP" "iph ! pos \<noteq> IPOPT_EOL" "pos + 1 < stop" by linarith
    then show ?thesis
    proof cases
      case 1
      then show ?thesis using "1.IH"(1) [OF True r8 [OF True]] "1.prems" True r8 [OF True] by (subst final_dst.simps) simp
    next
      case 2
      then show ?thesis using True r8 [OF True] r32 [of ip_dst_off] "1.prems"(2) by (subst final_dst.simps) auto
    next
      case 3
      note reads = r8 [OF True] r8 [OF 3(3)]
      show ?thesis
      proof (cases "len < 2 \<or> pos + len > stop")
        case True
        then show ?thesis using \<open>pos < stop\<close> 3 reads r32 [of ip_dst_off] "1.prems"(2) by (subst final_dst.simps) (auto simp: len_def)
      next
        case ok: False
        show ?thesis
        proof (cases "(iph ! pos = IPOPT_SSRR \<or> iph ! pos = IPOPT_LSRR) \<and> len \<ge> 7")
          case True
          then show ?thesis using ok \<open>pos < stop\<close> 3 reads r32 [of "pos + len - 4"] "1.prems"(1) by (subst final_dst.simps) (auto simp: len_def)
        next
          case False
          have "\<exists>dst. final_dst iph (pos + len) stop = Inr dst"
            using "1.IH"(2) [OF \<open>pos < stop\<close> reads(1) _ _ reads(2)] ok 3 False "1.prems" by (simp add: len_def)
          then show ?thesis using ok \<open>pos < stop\<close> 3 reads False by (subst final_dst.simps) (auto simp: len_def)
        qed
      qed
    qed
  next
    case False
    then show ?thesis using r32 [of ip_dst_off] "1.prems"(2) by (subst final_dst.simps) simp
  qed
qed

section \<open>Properties\<close>

text \<open>
  Checksums over a pseudo-header. From the checksum of the data alone \<open>click_in_cksum_pseudohdr\<close> computes the checksum of the pseudo-header and the data
  together, without reading beyond the header. The destination is that of the header, or the last address of the first source route among its options.
\<close>

lemma pseudohdr_checksum:
  assumes "20 \<le> length iph" and "5 \<le> ip_hl (iph ! 0)" and "ip_hl (iph ! 0) * 4 \<le> length iph" and "length bs < 131060"
  shows "\<exists>src dst. read32 iph ip_src_off = Inr src \<and> final_dst iph 20 (ip_hl (iph ! 0) * 4) = Inr dst \<and>
    click_in_cksum_pseudohdr (ucast (click_in_cksum bs)) iph (int len) = Inr (click_in_cksum (pseudo_header src dst (iph ! 9) (of_nat len) @ bs))"
proof -
  obtain dst where d: "final_dst iph 20 (ip_hl (iph ! 0) * 4) = Inr dst" using final_dst_ok [OF assms(3,1)] by blast
  obtain src where s: "read32 iph ip_src_off = Inr src" using assms(1) by (simp add: read32_def)
  have r: "read8 iph ip_vhl_off = Inr (iph ! 0)" "read8 iph ip_p_off = Inr (iph ! 9)" using assms(1) by (auto simp: read8_def)
  have five: "read32 iph ip_dst_off = Inr dst" if "ip_hl (iph ! 0) = 5" using d that by (simp add: final_dst.simps)
  have "click_in_cksum_pseudohdr (ucast (click_in_cksum bs)) iph (int len) =
      click_in_cksum_pseudohdr_raw (ucast (click_in_cksum bs)) src dst (uint (iph ! 9)) (int len)"
    using d s r five by (cases "ip_hl (iph ! 0) = 5") (simp_all add: click_in_cksum_pseudohdr_def click_in_cksum_pseudohdr_hard_def)
  with d s pseudohdr_raw_ok [OF assms(4)] show ?thesis by simp
qed

theorem pseudohdr_checksum_witness:
  "\<exists>src dst. read32 (0x45 # replicate 19 0) ip_src_off = Inr src \<and>
     click_in_cksum_pseudohdr (ucast (click_in_cksum [1])) (0x45 # replicate 19 0) (int 1) = Inr (click_in_cksum (pseudo_header src dst 0 (of_nat 1) @ [1]))"
proof -
  have "ip_hl 0x45 = 5" by (simp add: ip_hl_def)
  then show ?thesis using pseudohdr_checksum [of "0x45 # replicate 19 0" "[1]" 1] by auto
qed

text \<open>A source route in front: its last four bytes are the destination.\<close>

lemma source_route_dst:
  assumes "iph ! 20 = IPOPT_SSRR \<or> iph ! 20 = IPOPT_LSRR" "7 \<le> unat (iph ! 21)" "20 + unat (iph ! 21) \<le> stop" "stop \<le> length iph"
  shows "final_dst iph 20 stop = read32 iph (16 + unat (iph ! 21))"
  using assms by (subst final_dst.simps) (auto simp: read8_def)

lemma wsum_zero: "wsum bs = 0 \<longleftrightarrow> list_all (\<lambda>b. b = 0) bs"
proof (induction bs rule: wsum.induct)
  case (1 a b bs)
  have "unat (le16 a b) = 0 \<longleftrightarrow> a = 0 \<and> b = 0" by (simp add: unat_le16 unsigned_eq_0_iff)
  with 1 show ?case by simp
qed (simp_all add: unsigned_eq_0_iff)

lemma mod_add_cancel: "(a + c) mod m = (b + c) mod m \<Longrightarrow> a mod m = b mod (m :: nat)"
proof -
  assume "(a + c) mod m = (b + c) mod m"
  then have "(int a + int c) mod int m = (int b + int c) mod int m" by (metis of_nat_add of_nat_mod)
  then have "int a mod int m = int b mod int m" by (simp add: mod_eq_dvd_iff)
  then show ?thesis by (simp flip: of_nat_mod)
qed

text \<open>
  C35. Incremental updates are exact. When a half-word of checksummed data changes, \<open>click_update_in_cksum\<close> followed by \<open>click_update_zero_in_cksum\<close> on the new data
  gives the very checksum that \<open>click_in_cksum\<close> computes from the new data, also where the data is all zero and the update alone ends at the other zero.
\<close>

theorem checksum_update_exact:
  assumes "even (length xs)" and "length xs + length ys < 131070"
  shows "click_update_zero_in_cksum (click_update_in_cksum (click_in_cksum (xs @ bytes16 old @ ys)) old new) (xs @ bytes16 new @ ys) =
    click_in_cksum (xs @ bytes16 new @ ys)"
proof -
  define s where "s = wsum xs + wsum ys"
  have w: "wsum (xs @ bytes16 v @ ys) = unat v + s" for v using assms(1) by (simp add: wsum_append s_def)
  have c: "unat (click_in_cksum (xs @ bytes16 v @ ys)) = 65535 - ones16 (unat v + s)" for v
    using unat_click_in_cksum [of "xs @ bytes16 v @ ys"] assms(2) w by simp
  define u where "u = click_update_in_cksum (click_in_cksum (xs @ bytes16 old @ ys)) old new"
  define n where "n = ones16 (unat old + s) + (65535 - unat old) + unat new"
  have u: "unat u = 65535 - ones16 n"
    using c [of old] ones16_le [of "unat old + s"] by (simp add: u_def unat_click_update_in_cksum n_def)
  have nz: "n \<noteq> 0" using unat_u16(1) [of old] by (auto simp: n_def ones16_def)
  have "n + unat old = ones16 (unat old + s) + (65535 + unat new)" using unat_u16(1) [of old] by (simp add: n_def)
  then have "(n + unat old) mod 65535 = (unat old + s + (65535 + unat new)) mod 65535" by (metis mod_add_left_eq ones16_mod)
  moreover have "unat old + s + (65535 + unat new) = (unat new + s + unat old) + 65535" by simp
  ultimately have "(n + unat old) mod 65535 = (unat new + s + unat old) mod 65535" by (metis mod_add_self2)
  then have m: "n mod 65535 = (unat new + s) mod 65535" by (rule mod_add_cancel)
  have "unat (click_update_zero_in_cksum u (xs @ bytes16 new @ ys)) = unat (click_in_cksum (xs @ bytes16 new @ ys))"
  proof (cases "unat new + s = 0")
    case True
    then have "list_all (\<lambda>b. b = 0) (xs @ bytes16 new @ ys)" using w [of new] wsum_zero by metis
    moreover have "u = 0" using u ones16_mod_if [OF nz] m True by (simp add: unat_eq_0 [symmetric])
    moreover have "unat (NOT 0 :: u16) = 65535" unfolding unat_not16 by simp
    ultimately show ?thesis using c [of new] True unfolding click_update_zero_in_cksum_def by (simp add: ones16_def del: bit.compl_zero)
  next
    case False
    then have "\<not> list_all (\<lambda>b. b = 0) (xs @ bytes16 new @ ys)" using w [of new] wsum_zero by metis
    moreover have "ones16 n = ones16 (unat new + s)" using ones16_mod_if [OF nz] ones16_mod_if [OF False] m by simp
    ultimately show ?thesis using c [of new] u by (auto simp: click_update_zero_in_cksum_def)
  qed
  then show ?thesis by (simp add: u_def word_unat_eq_iff)
qed

theorem checksum_update_exact_witness:
  "click_update_zero_in_cksum (click_update_in_cksum (click_in_cksum ([] @ bytes16 7 @ [0])) 7 0) ([] @ bytes16 0 @ [0]) = click_in_cksum ([] @ bytes16 0 @ [0])"
  by (rule checksum_update_exact) simp_all

end
