(* ===== verification/Click_ICMP.thy ===== *)
theory Click_ICMP
  imports Click_IPElements
begin

text \<open>
  The elements of the forwarding path that deal with header options and errors: \<^verbatim>\<open>IPGWOptions\<close>
  (\<^verbatim>\<open>click/elements/ip/ipgwoptions.cc\<close>), which handles the Record Route and Timestamp options, and
  \<^verbatim>\<open>ICMPError\<close> (\<^verbatim>\<open>click/elements/icmp/icmperror.cc\<close>), which answers a packet with an ICMP error. The
  time of day and the function-local packet counter of \<^verbatim>\<open>ICMPError\<close> are arguments.
\<close>

section \<open>\<^verbatim>\<open>IPGWOptions\<close>\<close>

record ip_gw_options =
  gw_drops :: nat
  preferred_addr :: ipaddr
  my_addrs :: "ipaddr list"
  gw_noutputs :: nat

text \<open>\<open>woa[i] += n;\<close>\<close>

definition add8 :: "byte list \<Rightarrow> nat \<Rightarrow> byte \<Rightarrow> byte list exec" where
  "add8 h i n = ebind (read8 h i) (\<lambda>b. write8 h i (b + n))"

text \<open>
  What handling an option results in: \<open>Inr\<close> the header, or \<open>Inl\<close> the offset of the error and the header.
\<close>

type_synonym gw_step = "nat \<times> byte list + byte list"

definition record_route :: "ipaddr \<Rightarrow> byte list \<Rightarrow> nat \<Rightarrow> nat \<Rightarrow> gw_step exec" where
  "record_route addr h oi xlen =
     ebind (read8 h (oi + 2)) (\<lambda>ptr.
     let p = uint ptr - 1 in
     if p \<ge> 3 \<and> p + 4 \<le> int xlen
     then ebind (write32 h (oi + nat p) addr) (\<lambda>h. ebind (add8 h (oi + 2) 4) (\<lambda>h. Inr (Inr h)))
     else if p \<noteq> int xlen then Inr (Inl (oi + 2, h))
     else Inr (Inr h))"

definition time_stamp :: "ip_gw_options \<Rightarrow> u32 \<Rightarrow> byte list \<Rightarrow> nat \<Rightarrow> nat \<Rightarrow> gw_step exec" where
  "time_stamp e ms h oi xlen =
     ebind (read8 h (oi + 2)) (\<lambda>ptr.
     ebind (read8 h (oi + 3)) (\<lambda>b.
     let p = uint ptr - 1; oflw = drop_bit 4 b; flg = b AND 0xF;
         overflowed = (\<lambda>h. if oflw < 15 then ebind (write8 h (oi + 3) (push_bit 4 (oflw + 1) OR flg)) (\<lambda>h. Inr (Inr h))
                           else Inr (Inl (oi + 3, h)))
     in if p < 4 then Inr (Inl (oi + 2, h))
        else if flg = 0
        then if p + 4 \<le> int xlen
             then ebind (write32 h (oi + nat p) ms) (\<lambda>h. ebind (add8 h (oi + 2) 4) (\<lambda>h. Inr (Inr h)))
             else overflowed h
        else if flg = 1
        then if p + 8 \<le> int xlen
             then ebind (write32 h (oi + nat p) (preferred_addr e)) (\<lambda>h.
                  ebind (write32 h (oi + nat p + 4) ms) (\<lambda>h. ebind (add8 h (oi + 2) 8) (\<lambda>h. Inr (Inr h))))
             else overflowed h
        else if flg = 3 \<and> p + 8 \<le> int xlen
        then ebind (read32 h (oi + nat p)) (\<lambda>addr.
             if addr \<in> set (my_addrs e)
             then ebind (write32 h (oi + nat p + 4) ms) (\<lambda>h. ebind (add8 h (oi + 2) 8) (\<lambda>h. Inr (Inr h)))
             else Inr (Inr h))
        else Inr (Inl (oi + 3, h))))"

text \<open>
  The loop over the options. \<open>wr\<close> tells whether a writable packet has been made. \<open>writable\<close> is the
  outcome of \<open>uniqueify\<close>: without memory it returns 0 and the function with it (\<open>None\<close>).
\<close>

function gw_loop ::
  "ip_gw_options \<Rightarrow> u32 \<Rightarrow> bool \<Rightarrow> nat \<Rightarrow> nat \<Rightarrow> byte list \<Rightarrow> bool \<Rightarrow> (gw_step \<times> bool) option exec" where
  "gw_loop e ms writable hlen oi h wr =
     (if oi < hlen
      then ebind (read8 h oi) (\<lambda>type.
             if type = IPOPT_NOP then gw_loop e ms writable hlen (oi + 1) h wr
             else if type = IPOPT_EOL then Inr (Some (Inr h, wr))
             else ebind (read8 h (oi + 1)) (\<lambda>l.
               let xlen = unat l in
               if xlen < 2 \<or> oi + xlen > hlen then Inr (Some (Inl (oi + 1, h), wr))
               else if type \<noteq> IPOPT_RR \<and> type \<noteq> IPOPT_TS then gw_loop e ms writable hlen (oi + xlen) h wr
               else if \<not> wr \<and> \<not> writable then Inr None
               else ebind (if type = IPOPT_RR then record_route (preferred_addr e) h oi xlen
                           else time_stamp e ms h oi xlen) (\<lambda>s. case s of
                      Inl err \<Rightarrow> Inr (Some (Inl err, True))
                    | Inr h \<Rightarrow> gw_loop e ms writable hlen (oi + xlen) h True)))
      else Inr (Some (Inr h, wr)))"
  by pat_completeness auto
termination
  by (relation "measure (\<lambda>(e, ms, writable, hlen, oi, h, wr). hlen - oi)") auto

declare gw_loop.simps [simp del]
declare gw_loop.simps [code]

text \<open>
  \<open>handle_options\<close> of a packet whose header reaches from its network to its transport header. Once the
  packet has been made writable the code still uses the packet it was given, for the checksum and to report
  an error; for a shared packet that one has been given away by \<open>uniqueify\<close>.
\<close>

definition handle_options ::
  "allocator \<Rightarrow> u32 \<Rightarrow> ip_gw_options \<Rightarrow> packet \<Rightarrow> (ip_gw_options \<times> packet option \<times> (nat \<times> packet) list) exec" where
  "handle_options mem ms e p =
     (case (network_header p, transport_header p) of
        (Some nh, Some th) \<Rightarrow>
          (let hlen = th - nh; view = drop nh (buffer p);
               send_error = (\<lambda>oi p. (e\<lparr> gw_drops := gw_drops e + 1 \<rparr>, None,
                  if gw_noutputs e > 1 then [(1, p\<lparr> icmp_paramprob_anno := of_nat oi \<rparr>)] else []));
               put = (\<lambda>h. set_buffer (take nh (buffer p) @ h) p)
           in ebind (uniqueify mem p) (\<lambda>q.
              ebind (gw_loop e ms (q \<noteq> None) hlen 20 view False) (\<lambda>r. case r of
                None \<Rightarrow> Inr (e, None, [])
              | Some (s, wr) \<Rightarrow>
                  if wr \<and> shared p then Inl Stale_packet
                  else (case s of
                          Inl (oi, h) \<Rightarrow> Inr (send_error oi (put h))
                        | Inr h \<Rightarrow> if wr then ebind (fill_checksum hlen h) (\<lambda>h. Inr (e, Some (put h), []))
                                   else Inr (e, Some p, [])))))
      | _ \<Rightarrow> Inl Null_deref)"

definition ipgw_simple_action ::
  "allocator \<Rightarrow> u32 \<Rightarrow> ip_gw_options \<Rightarrow> packet \<Rightarrow> (ip_gw_options \<times> packet option \<times> (nat \<times> packet) list) exec" where
  "ipgw_simple_action mem ms e p =
     (if network_header p = None then Inl Assert_failed
      else ebind (nh_view p) (\<lambda>ip. ebind (read8 ip ip_vhl_off) (\<lambda>vhl.
        if ip_hl vhl * 4 \<le> 20 then Inr (e, Some p, []) else handle_options mem ms e p)))"

section \<open>\<^verbatim>\<open>ICMPError\<close>\<close>

abbreviation (input) ICMP_UNREACH :: int where "ICMP_UNREACH \<equiv> 3"
abbreviation (input) ICMP_SOURCEQUENCH :: int where "ICMP_SOURCEQUENCH \<equiv> 4"
abbreviation (input) ICMP_REDIRECT :: int where "ICMP_REDIRECT \<equiv> 5"
abbreviation (input) ICMP_TIMXCEED :: int where "ICMP_TIMXCEED \<equiv> 11"
abbreviation (input) ICMP_PARAMPROB :: int where "ICMP_PARAMPROB \<equiv> 12"
abbreviation (input) IP_PROTO_ICMP :: u8 where "IP_PROTO_ICMP \<equiv> 1"

record icmp_error =
  ic_src_ip :: ipaddr
  ic_type :: int
  ic_code :: int
  ic_bad_addrs :: "ipaddr list"
  ic_mtu :: nat
  ic_pmtu :: nat
  ic_use_fix_anno :: bool

definition is_error_type :: "int \<Rightarrow> bool" where
  "is_error_type type \<longleftrightarrow> type = ICMP_UNREACH \<or> type = ICMP_SOURCEQUENCH \<or> type = ICMP_REDIRECT \<or>
     type = ICMP_TIMXCEED \<or> type = ICMP_PARAMPROB"

text \<open>\<open>configure\<close> behind the argument parser; the code is what looking up its name gives.\<close>

definition icmperror_configure ::
  "(int \<Rightarrow> string \<Rightarrow> int option) \<Rightarrow> ipaddr \<Rightarrow> int \<Rightarrow> string \<Rightarrow> ipaddr list \<Rightarrow> nat \<Rightarrow> nat \<Rightarrow> bool \<Rightarrow> icmp_error option" where
  "icmperror_configure query_code src_ip type code_str bad_addrs mtu pmtu use_fix_anno =
     (if type < 0 \<or> type > 255 then None
      else if \<not> is_error_type type then None
      else case query_code type code_str of
             None \<Rightarrow> None
           | Some code \<Rightarrow>
               if code < 0 \<or> code > 255 then None
               else Some \<lparr> ic_src_ip = src_ip, ic_type = type, ic_code = code, ic_bad_addrs = bad_addrs,
                            ic_mtu = mtu, ic_pmtu = pmtu, ic_use_fix_anno = use_fix_anno \<rparr>)"

definition unicast :: "icmp_error \<Rightarrow> ipaddr \<Rightarrow> bool" where
  "unicast e a =
     (let ha = ntohl a
      in if ha = 0xFFFFFFFF then False
         else if ha AND 0xF0000000 = 0xE0000000 then False
         else if a \<in> set (ic_bad_addrs e) then False
         else True)"

definition valid_source :: "icmp_error \<Rightarrow> ipaddr \<Rightarrow> bool" where
  "valid_source e a =
     (let ha = ntohl a; net = drop_bit 24 ha AND 0xFF
      in if unicast e a = False then False
         else if net = 0 then False
         else if net = 127 then False
         else if net AND 0xF0 = 0xF0 then False
         else True)"

text \<open>The offset of a source route option, if the header has a valid one.\<close>

function source_route_loop :: "byte list \<Rightarrow> nat \<Rightarrow> nat \<Rightarrow> nat option exec" where
  "source_route_loop oa hlen oi =
     (if oi < hlen
      then ebind (read8 oa oi) (\<lambda>type.
             if type = IPOPT_NOP then source_route_loop oa hlen (oi + 1)
             else if type = IPOPT_EOL then Inr None
             else ebind (read8 oa (oi + 1)) (\<lambda>l.
               let xlen = unat l in
               if xlen < 2 \<or> oi + xlen > hlen then Inr None
               else if type = IPOPT_LSRR \<or> type = IPOPT_SSRR
               then ebind (read8 oa (oi + 2)) (\<lambda>ptr.
                      if unat ptr \<ge> 4 \<and> unat ptr mod 4 = 0 \<and> unat ptr \<le> xlen + 1 then Inr (Some oi)
                      else source_route_loop oa hlen (oi + xlen))
               else source_route_loop oa hlen (oi + xlen)))
      else Inr None)"
  by pat_completeness auto
termination
  by (relation "measure (\<lambda>(oa, hlen, oi). hlen - oi)") auto

declare source_route_loop.simps [simp del]
declare source_route_loop.simps [code]

definition valid_source_route :: "byte list \<Rightarrow> nat option exec" where
  "valid_source_route iph = ebind (read8 iph ip_vhl_off) (\<lambda>vhl. source_route_loop iph (ip_hl vhl * 4) 20)"

text \<open>
  Whether the packet gets an answer: the conditions of RFC 1812 4.3.2.7 in the order of the code, up to the
  source route. The first byte of the ICMP header is read at the transport header.
\<close>

definition icmp_answerable :: "icmp_error \<Rightarrow> packet \<Rightarrow> byte list \<Rightarrow> nat \<Rightarrow> bool exec" where
  "icmp_answerable e p ipp hlen =
     ebind (read8 ipp ip_p_off) (\<lambda>proto.
     ebind (if proto = IP_PROTO_ICMP
            then if hlen + 4 > plength p then Inr True
                 else (case transport_header p of
                         None \<Rightarrow> Inl Null_deref
                       | Some th \<Rightarrow> ebind (read8 (buffer p) th) (\<lambda>t. Inr (is_error_type (uint t))))
            else Inr False) (\<lambda>about_error.
     if about_error then Inr False
     else ebind (read32 ipp ip_dst_off) (\<lambda>dst.
       if \<not> unicast e dst then Inr False
       else if packet_type_anno p = BROADCAST \<or> packet_type_anno p = MULTICAST then Inr False
       else ebind (read32 ipp ip_src_off) (\<lambda>src.
         if \<not> valid_source e src then Inr False
         else ebind (read16 ipp ip_off_off) (\<lambda>ioff.
           Inr (ioff AND htons IP_OFFMASK = 0))))))"

text \<open>The reversed source route, with the \<open>IPOPT_EOL\<close> behind it.\<close>

definition reversed_route :: "byte list \<Rightarrow> nat \<Rightarrow> byte list exec" where
  "reversed_route ipp sr =
     ebind (read8 ipp sr) (\<lambda>t. ebind (read8 ipp (sr + 2)) (\<lambda>ptr.
     let olen = unat ptr - 1; hops = map (\<lambda>k. sr + 3 + 4 * k) (rev [0..<(unat ptr - 4) div 4])
     in ebind (fold (\<lambda>oo r. ebind r (\<lambda>bs. ebind (read_bytes ipp oo 4) (\<lambda>b. Inr (bs @ b)))) hops (Inr []))
          (\<lambda>bs. Inr ([t, of_nat olen, 4] @ bs @ [IPOPT_EOL]))))"

text \<open>The IP header, up to its length and checksum, over what the new packet holds; \<open>opts\<close> is the reversed route.\<close>

definition icmp_ip_header :: "icmp_error \<Rightarrow> int \<Rightarrow> ipaddr \<Rightarrow> byte list \<Rightarrow> byte list \<Rightarrow> byte list exec" where
  "icmp_ip_header e ident dst opts d =
     (let hl = (20 + (if opts = [] then 0 else length opts - 1 + 3)) div 4
      in ebind (write8 d ip_vhl_off (0x40 OR (of_nat hl AND 0x0F))) (\<lambda>d.
         ebind (write8 d ip_tos_off 0) (\<lambda>d.
         ebind (write16 d ip_id_off (htons (of_int ident))) (\<lambda>d.
         ebind (write16 d ip_off_off 0) (\<lambda>d.
         ebind (write8 d ip_ttl_off 200) (\<lambda>d.
         ebind (write8 d ip_p_off IP_PROTO_ICMP) (\<lambda>d.
         ebind (write16 d ip_sum_off 0) (\<lambda>d.
         ebind (write32 d ip_src_off (ic_src_ip e)) (\<lambda>d.
         ebind (write32 d ip_dst_off dst) (\<lambda>d.
         write_bytes d 20 opts))))))))))"

text \<open>The ICMP header at offset \<open>th\<close>.\<close>

definition icmp_header :: "icmp_error \<Rightarrow> packet \<Rightarrow> nat \<Rightarrow> byte list \<Rightarrow> byte list exec" where
  "icmp_header e p th d =
     ebind (write8 d th (of_int (ic_type e))) (\<lambda>d.
     ebind (write8 d (th + 1) (of_int (ic_code e))) (\<lambda>d.
     ebind (write16 d (th + 2) 0) (\<lambda>d.
     ebind (write32 d (th + 4) 0) (\<lambda>d.
     ebind (if ic_type e = ICMP_PARAMPROB \<and> ic_code e = 0 then write8 d (th + 4) (icmp_paramprob_anno p) else Inr d) (\<lambda>d.
     ebind (if ic_type e = ICMP_REDIRECT then write32 d (th + 4) (dst_ip_anno p) else Inr d) (\<lambda>d.
     if ic_type e = ICMP_UNREACH \<and> ic_code e = 4 then write16 d (th + 6) (htons (of_nat (ic_pmtu e))) else Inr d))))))"

text \<open>The copy of the offending packet behind the ICMP header, and the two checksums. Everything is written within the data.\<close>

definition icmp_finish :: "packet \<Rightarrow> byte list \<Rightarrow> nat \<Rightarrow> packet \<Rightarrow> packet exec" where
  "icmp_finish p ipp th q =
     (let room = plength q - (th + 8); n = nat (network_length p);
          q = (if int room > network_length p then packet_take (room - n) q else q);
          xlen = (if int room > network_length p then n else room)
      in ebind (read_bytes ipp 0 xlen) (\<lambda>bs.
         ebind (write_bytes (pdata q) (th + 8) bs) (\<lambda>d.
         ebind (write16 d (th + 2) (click_in_cksum (take (8 + xlen) (drop th d)))) (\<lambda>d.
         ebind (write16 d ip_len_off (htons (of_nat (plength q)))) (\<lambda>d.
         ebind (write16 d ip_sum_off (click_in_cksum (take th d))) (\<lambda>d.
         Inr (q\<lparr> pdata := d \<rparr>)))))))"

text \<open>\<open>simple_action\<close>: the reply, if any, and the counter for the next one.\<close>

definition icmperror_simple_action ::
  "allocator \<Rightarrow> icmp_error \<Rightarrow> int \<Rightarrow> packet \<Rightarrow> (int \<times> packet option) exec" where
  "icmperror_simple_action mem e ident p =
     (if network_header p = None then Inr (ident, None)
      else ebind (nh_view p) (\<lambda>ipp. ebind (read8 ipp ip_vhl_off) (\<lambda>vhl.
        ebind (icmp_answerable e p ipp (ip_hl vhl * 4)) (\<lambda>answer.
        if \<not> answer then Inr (ident, None)
        else ebind (valid_source_route ipp) (\<lambda>route.
          if route \<noteq> None \<and> ic_type e = ICMP_REDIRECT then Inr (ident, None)
          else ebind (case route of
                 None \<Rightarrow> Inr []
               | Some sr \<Rightarrow>
                   ebind (read8 ipp (sr + 1)) (\<lambda>l.
                     if ic_type e = ICMP_PARAMPROB \<and> ic_code e = 0 \<and> sr \<le> unat (icmp_paramprob_anno p) \<and>
                        unat (icmp_paramprob_anno p) < sr + unat l
                     then Inr [] else reversed_route ipp sr)) (\<lambda>opts.
            case packet_make mem default_headroom None (ic_mtu e) 0 of
              None \<Rightarrow> Inr (ident, None)
            | Some q \<Rightarrow>
                ebind (read32 ipp ip_src_off) (\<lambda>dst.
                ebind (icmp_ip_header e ident dst opts (pdata q)) (\<lambda>d.
                ebind (read8 d ip_vhl_off) (\<lambda>b.
                let th = ip_hl b * 4 in
                ebind (set_network_header (length (headroom_bytes q)) th (q\<lparr> pdata := d \<rparr>)) (\<lambda>q.
                ebind (icmp_header e p th (pdata q)) (\<lambda>d.
                ebind (icmp_finish p ipp th (q\<lparr> pdata := d \<rparr>)) (\<lambda>q.
                Inr (ident + 1, Some (q\<lparr> dst_ip_anno := dst,
                   fix_ip_src_anno := (if ic_use_fix_anno e then True else fix_ip_src_anno q) \<rparr>))))))))))))))"

section \<open>The loop over the options\<close>

text \<open>What handling the options of a header of \<open>hlen\<close> bytes may change: not the fixed part, and no more than two bytes behind the header.\<close>

definition opts_kept :: "nat \<Rightarrow> byte list \<Rightarrow> byte list \<Rightarrow> bool" where
  "opts_kept hlen h h' \<longleftrightarrow> length h' = length h \<and> take 20 h' = take 20 h \<and> drop (hlen + 2) h' = drop (hlen + 2) h"

lemma opts_kept_refl [simp]: "opts_kept hlen h h"
  by (simp add: opts_kept_def)

lemma opts_kept_trans: "opts_kept hlen a b \<Longrightarrow> opts_kept hlen b c \<Longrightarrow> opts_kept hlen a c"
  by (simp add: opts_kept_def)

lemma write_kept:
  assumes "hlen + 2 \<le> length h" and "20 \<le> i" and "i + length vs \<le> hlen + 2"
  shows "\<exists>h'. write_bytes h i vs = Inr h' \<and> opts_kept hlen h h'"
proof -
  have "drop (hlen + 2) (take i h @ vs @ drop (i + length vs) h) = drop (hlen + 2) h"
    using assms by (simp add: drop_append)
  then show ?thesis using assms by (simp add: write_bytes_def opts_kept_def)
qed

lemma add8_kept:
  assumes "hlen + 2 \<le> length h" and "20 \<le> i" and "i < hlen + 2"
  shows "\<exists>h'. add8 h i n = Inr h' \<and> opts_kept hlen h h'"
  using assms write_kept [of hlen h i "[h ! i + n]"] by (auto simp: add8_def read8_def)

text \<open>Sequencing of operations that keep the rest of the header.\<close>

definition keeping :: "nat \<Rightarrow> byte list \<Rightarrow> gw_step exec \<Rightarrow> bool" where
  "keeping hlen h m \<longleftrightarrow> (\<exists>s. m = Inr s \<and> opts_kept hlen h (case s of Inl (oi, h') \<Rightarrow> h' | Inr h' \<Rightarrow> h'))"

lemma keeping_bind:
  assumes "\<exists>h1. m = Inr h1 \<and> opts_kept hlen h h1" and "\<And>h1. opts_kept hlen h h1 \<Longrightarrow> keeping hlen h1 (f h1)"
  shows "keeping hlen h (ebind m f)"
  using assms by (fastforce simp: keeping_def intro: opts_kept_trans)

lemma keeping_Inr [simp]: "keeping hlen h (Inr (Inr h))" "keeping hlen h (Inr (Inl (oi, h)))"
  by (simp_all add: keeping_def)

lemma record_route_kept:
  assumes "hlen + 2 \<le> length h" and "20 \<le> oi" and "2 \<le> xlen" and "oi + xlen \<le> hlen"
  shows "keeping hlen h (record_route addr h oi xlen)"
proof -
  have r: "read8 h (oi + 2) = Inr (h ! (oi + 2))" using assms by (simp add: read8_def)
  have "keeping hlen h (ebind (write32 h (oi + nat (uint (h ! (oi + 2)) - 1)) addr) (\<lambda>h. ebind (add8 h (oi + 2) 4) (\<lambda>h. Inr (Inr h))))"
    if "3 \<le> uint (h ! (oi + 2)) - 1" "uint (h ! (oi + 2)) - 1 + 4 \<le> int xlen"
    using assms that by (intro keeping_bind write_kept add8_kept) (auto simp: opts_kept_def)
  then show ?thesis unfolding record_route_def r by (simp add: Let_def)
qed

lemma time_stamp_kept:
  assumes "hlen + 2 \<le> length h" and "20 \<le> oi" and "2 \<le> xlen" and "oi + xlen \<le> hlen"
  shows "keeping hlen h (time_stamp e ms h oi xlen)"
proof -
  have r: "read8 h (oi + 2) = Inr (h ! (oi + 2))" "read8 h (oi + 3) = Inr (h ! (oi + 3))" using assms by (simp_all add: read8_def)
  define p where "p = uint (h ! (oi + 2)) - 1"
  have o: "keeping hlen h (if drop_bit 4 (h ! (oi + 3)) < 15
       then ebind (write8 h (oi + 3) (push_bit 4 (drop_bit 4 (h ! (oi + 3)) + 1) OR (h ! (oi + 3) AND 0xF))) (\<lambda>h. Inr (Inr h))
       else Inr (Inl (oi + 3, h)))"
    using assms by (auto intro!: keeping_bind write_kept)
  have a: "keeping hlen h (ebind (write32 h (oi + nat p) ms) (\<lambda>h. ebind (add8 h (oi + 2) 4) (\<lambda>h. Inr (Inr h))))"
    if "4 \<le> p" "p + 4 \<le> int xlen"
    using assms that by (intro keeping_bind write_kept add8_kept) (auto simp: opts_kept_def)
  have b: "keeping hlen h (ebind (write32 h (oi + nat p) w) (\<lambda>h. ebind (write32 h (oi + nat p + 4) ms) (\<lambda>h.
      ebind (add8 h (oi + 2) 8) (\<lambda>h. Inr (Inr h)))))" if "4 \<le> p" "p + 8 \<le> int xlen" for w
    using assms that by (intro keeping_bind write_kept add8_kept) (auto simp: opts_kept_def)
  have c: "keeping hlen h (ebind (write32 h (oi + nat p + 4) ms) (\<lambda>h. ebind (add8 h (oi + 2) 8) (\<lambda>h. Inr (Inr h))))"
    if "4 \<le> p" "p + 8 \<le> int xlen"
    using assms that by (intro keeping_bind write_kept add8_kept) (auto simp: opts_kept_def)
  have d: "keeping hlen h (ebind (read32 h (oi + nat p)) (\<lambda>addr. if addr \<in> A
      then ebind (write32 h (oi + nat p + 4) ms) (\<lambda>h. ebind (add8 h (oi + 2) 8) (\<lambda>h. Inr (Inr h))) else Inr (Inr h)))"
    if "4 \<le> p" "p + 8 \<le> int xlen" for A
    using c [OF that] assms that by (auto simp: read32_def)
  show ?thesis unfolding time_stamp_def r ebind_simps Let_def p_def [symmetric]
    using o a b d by (auto simp: not_less)
qed

text \<open>The loop always ends in one of three ways, whatever the options are.\<close>

definition gw_outcome :: "nat \<Rightarrow> bool \<Rightarrow> byte list \<Rightarrow> bool \<Rightarrow> (gw_step \<times> bool) option exec \<Rightarrow> bool" where
  "gw_outcome hlen writable h wr m \<longleftrightarrow>
     (m = Inr None \<and> \<not> writable) \<or>
     (\<exists>oi h' wr'. m = Inr (Some (Inl (oi, h'), wr')) \<and> opts_kept hlen h h' \<and> (wr' \<or> \<not> wr \<and> h' = h)) \<or>
     (\<exists>h' wr'. m = Inr (Some (Inr h', wr')) \<and> opts_kept hlen h h' \<and> (wr' \<or> \<not> wr \<and> h' = h))"

lemma gw_outcome_trans:
  "opts_kept hlen h h1 \<Longrightarrow> gw_outcome hlen writable h1 True m \<Longrightarrow> gw_outcome hlen writable h wr m"
  by (auto simp: gw_outcome_def intro: opts_kept_trans)

lemma gw_loop_outcome:
  assumes "hlen + 2 \<le> length h" and "20 \<le> oi"
  shows "gw_outcome hlen writable h wr (gw_loop e ms writable hlen oi h wr)"
  using assms
proof (induction "hlen - oi" arbitrary: oi h wr rule: less_induct)
  case less
  show ?case
  proof (cases "oi < hlen")
    case True
    have r: "read8 h oi = Inr (h ! oi)" "read8 h (oi + 1) = Inr (h ! (oi + 1))" using less.prems True by (simp_all add: read8_def)
    let ?t = "h ! oi" and ?x = "unat (h ! (oi + 1))"
    consider (nop) "?t = IPOPT_NOP" | (eol) "?t = IPOPT_EOL" | (bad) "?t \<noteq> IPOPT_NOP" "?t \<noteq> IPOPT_EOL" "?x < 2 \<or> oi + ?x > hlen"
      | (other) "?t \<noteq> IPOPT_NOP" "?t \<noteq> IPOPT_EOL" "2 \<le> ?x" "oi + ?x \<le> hlen" "?t \<noteq> IPOPT_RR" "?t \<noteq> IPOPT_TS"
      | (ours) "?t = IPOPT_RR \<or> ?t = IPOPT_TS" "2 \<le> ?x" "oi + ?x \<le> hlen"
      by force
    then show ?thesis
    proof cases
      case nop
      with True r show ?thesis using less.hyps [of "oi + 1" h wr] less.prems by (subst gw_loop.simps) simp
    next
      case eol
      with True r show ?thesis by (subst gw_loop.simps) (simp add: gw_outcome_def)
    next
      case bad
      with True r show ?thesis by (subst gw_loop.simps) (auto simp add: gw_outcome_def Let_def)
    next
      case other
      with True r show ?thesis
        using less.hyps [of "oi + ?x" h wr] less.prems by (subst gw_loop.simps) (simp add: Let_def)
    next
      case ours
      let ?m = "if ?t = IPOPT_RR then record_route (preferred_addr e) h oi ?x else time_stamp e ms h oi ?x"
      have "keeping hlen h ?m" using record_route_kept time_stamp_kept less.prems ours by simp
      then obtain s where s: "?m = Inr s" "opts_kept hlen h (case s of Inl (oi, h') \<Rightarrow> h' | Inr h' \<Rightarrow> h')"
        by (auto simp: keeping_def)
      have step: "gw_loop e ms writable hlen oi h wr =
          (if \<not> wr \<and> \<not> writable then Inr None
           else case s of Inl err \<Rightarrow> Inr (Some (Inl err, True)) | Inr h1 \<Rightarrow> gw_loop e ms writable hlen (oi + ?x) h1 True)"
        using True r ours s(1) by (subst gw_loop.simps) (auto simp: Let_def split: sum.split)
      show ?thesis
      proof (cases s)
        case (Inl err)
        with s(2) show ?thesis unfolding step by (cases err) (auto simp: gw_outcome_def)
      next
        case (Inr h')
        with s(2) have k: "opts_kept hlen h h'" by simp
        then have "hlen + 2 \<le> length h'" using less.prems by (simp add: opts_kept_def)
        then have "gw_outcome hlen writable h' True (gw_loop e ms writable hlen (oi + ?x) h' True)"
          using less.hyps [of "oi + ?x" h' True] less.prems True ours by simp
        from gw_outcome_trans [OF k this] show ?thesis unfolding step Inr by (simp add: gw_outcome_def)
      qed
    qed
  qed (simp add: gw_loop.simps gw_outcome_def)
qed

section \<open>Headers with options\<close>

text \<open>A packet with a header with options at the front of its data.\<close>

definition optioned :: "packet \<Rightarrow> byte list \<Rightarrow> byte list \<Rightarrow> bool" where
  "optioned p hdr body \<longleftrightarrow> pdata p = hdr @ body \<and> network_header p = Some (length (headroom_bytes p)) \<and>
     transport_header p = Some (length (headroom_bytes p) + length hdr) \<and> ip_hl (hdr ! 0) * 4 = length hdr \<and> 20 < length hdr"

lemma fill_checksum_any:
  assumes "12 \<le> hlen" and "hlen \<le> length h" and "hlen < 131072"
  shows "\<exists>c. fill_checksum hlen h = Inr (take 10 h @ bytes16 c @ drop 12 h) \<and>
     click_in_cksum (take hlen (take 10 h @ bytes16 c @ drop 12 h)) = 0"
proof -
  let ?ys = "take (hlen - 12) (drop 12 h)"
  have z: "bytes16 0 = [0, 0]" by (simp add: bytes16_def)
  have t: "take hlen (take 10 h @ bytes16 c @ drop 12 h) = take 10 h @ bytes16 c @ ?ys" for c
    using assms by (simp add: min_def)
  have "fill_checksum hlen h = Inr (take 10 h @ bytes16 (click_in_cksum (take 10 h @ [0, 0] @ ?ys)) @ drop 12 h)"
    using assms t [of 0] by (simp add: fill_checksum_def write_bytes_def z min_def)
  moreover have "click_in_cksum (take 10 h @ bytes16 (click_in_cksum (take 10 h @ [0, 0] @ ?ys)) @ ?ys) = 0"
    using assms by (intro in_cksum_fill) simp_all
  ultimately show ?thesis unfolding t by blast
qed

lemma handle_options_loop:
  assumes "\<not> shared p" and "optioned p hdr body"
  shows "ipgw_simple_action mem ms e p =
     ebind (gw_loop e ms True (length hdr) 20 (hdr @ body @ tailroom_bytes p) False) (\<lambda>r. case r of
        None \<Rightarrow> Inr (e, None, [])
      | Some (Inl (oi, h), wr) \<Rightarrow> Inr (e\<lparr> gw_drops := gw_drops e + 1 \<rparr>, None,
          if gw_noutputs e > 1 then [(1, (p\<lparr> pdata := take (plength p) h, tailroom_bytes := drop (plength p) h,
             icmp_paramprob_anno := of_nat oi \<rparr>))] else [])
      | Some (Inr h, wr) \<Rightarrow>
          if wr then ebind (fill_checksum (length hdr) h) (\<lambda>h.
            Inr (e, Some (p\<lparr> pdata := take (plength p) h, tailroom_bytes := drop (plength p) h \<rparr>), []))
          else Inr (e, Some p, []))"
proof -
  have o: "pdata p = hdr @ body" "network_header p = Some (length (headroom_bytes p))"
    "transport_header p = Some (length (headroom_bytes p) + length hdr)" "ip_hl (hdr ! 0) * 4 = length hdr" "20 < length hdr"
    using assms(2) by (simp_all add: optioned_def)
  have v: "nh_view p = Inr (hdr @ body @ tailroom_bytes p)" "drop (length (headroom_bytes p)) (buffer p) = hdr @ body @ tailroom_bytes p"
    by (simp_all add: nh_view_def o buffer_def)
  have r: "read8 (hdr @ body @ tailroom_bytes p) 0 = Inr (hdr ! 0)" using o(5) by (auto simp: read8_def nth_append)
  have s: "set_buffer (take (length (headroom_bytes p)) (buffer p) @ h) p =
      p\<lparr> pdata := take (plength p) h, tailroom_bytes := drop (plength p) h \<rparr>" for h
    by (simp add: set_buffer_def buffer_def Let_def)
  have "ipgw_simple_action mem ms e p = handle_options mem ms e p"
    using o(2,4,5) v(1) r by (simp add: ipgw_simple_action_def)
  also have "\<dots> = ebind (gw_loop e ms True (length hdr) 20 (hdr @ body @ tailroom_bytes p) False) (\<lambda>r. case r of
        None \<Rightarrow> Inr (e, None, [])
      | Some (Inl (oi, h), wr) \<Rightarrow> Inr (e\<lparr> gw_drops := gw_drops e + 1 \<rparr>, None,
          if gw_noutputs e > 1 then [(1, (p\<lparr> pdata := take (plength p) h, tailroom_bytes := drop (plength p) h,
             icmp_paramprob_anno := of_nat oi \<rparr>))] else [])
      | Some (Inr h, wr) \<Rightarrow>
          if wr then ebind (fill_checksum (length hdr) h) (\<lambda>h.
            Inr (e, Some (p\<lparr> pdata := take (plength p) h, tailroom_bytes := drop (plength p) h \<rparr>), []))
          else Inr (e, Some p, []))"
    using assms(1)
    by (simp add: handle_options_def o(2,3) uniqueify_unshared v(2) s Let_def cong: option.case_cong)
      (intro arg_cong2 [where f = ebind] refl ext, simp add: s split: option.split prod.split sum.split)
  finally show ?thesis .
qed

lemma ipgw_header_kept:
  assumes "\<not> shared p" and "optioned p hdr body" and "2 \<le> length body + length (tailroom_bytes p)" and "click_in_cksum hdr = 0"
  shows "\<exists>e' out outs. ipgw_simple_action mem ms e p = Inr (e', out, outs) \<and>
     (case out of
        None \<Rightarrow> gw_drops e' = gw_drops e + 1 \<and> (\<forall>(port, q) \<in> set outs. port = 1 \<and> plength q = plength p)
      | Some q \<Rightarrow> e' = e \<and> outs = [] \<and> plength q = plength p \<and> click_in_cksum (take (length hdr) (pdata q)) = 0 \<and>
          take 10 (pdata q) = take 10 hdr \<and> take 8 (drop 12 (pdata q)) = take 8 (drop 12 hdr) \<and>
          drop (length hdr + 2) (pdata q) = drop 2 body)"
proof -
  let ?h = "hdr @ body @ tailroom_bytes p"
  have o: "pdata p = hdr @ body" "20 < length hdr" "length hdr \<le> 60"
    using assms(2) ip_hl_le [of "hdr ! 0"] by (auto simp: optioned_def)
  have "gw_outcome (length hdr) True ?h False (gw_loop e ms True (length hdr) 20 ?h False)"
    using assms(3) by (intro gw_loop_outcome) simp_all
  then consider (err) oi h' wr where "gw_loop e ms True (length hdr) 20 ?h False = Inr (Some (Inl (oi, h'), wr))" "opts_kept (length hdr) ?h h'"
    | (same) "gw_loop e ms True (length hdr) 20 ?h False = Inr (Some (Inr ?h, False))"
    | (changed) h' where "gw_loop e ms True (length hdr) 20 ?h False = Inr (Some (Inr h', True))" "opts_kept (length hdr) ?h h'"
    by (auto simp: gw_outcome_def; blast)
  then show ?thesis
  proof cases
    case err
    then show ?thesis by (simp add: handle_options_loop [OF assms(1,2)] opts_kept_def o)
  next
    case same
    with o assms(4) show ?thesis by (simp add: handle_options_loop [OF assms(1,2)])
  next
    case changed
    have k: "length h' = length ?h" "take 20 h' = take 20 ?h" "drop (length hdr + 2) h' = drop (length hdr + 2) ?h"
      using changed(2) by (simp_all add: opts_kept_def)
    obtain c where c: "fill_checksum (length hdr) h' = Inr (take 10 h' @ bytes16 c @ drop 12 h')"
        "click_in_cksum (take (length hdr) (take 10 h' @ bytes16 c @ drop 12 h')) = 0"
      using fill_checksum_any [of "length hdr" h'] o k(1) by auto
    define d where "d = take 10 h' @ bytes16 c @ drop 12 h'"
    have "take 10 (take 20 h') = take 10 (take 20 ?h)" "take 8 (drop 12 (take 20 h')) = take 8 (drop 12 (take 20 ?h))"
      using k(2) by simp_all
    then have a: "take 10 d = take 10 hdr" "take 8 (drop 12 d) = take 8 (drop 12 hdr)"
      using o(2) k(1) by (simp_all add: drop_take d_def)
    have b: "drop (length hdr + 2) d = drop (length hdr + 2) ?h" and l: "length d = length ?h"
      using o(2) k(1,3) by (simp_all add: drop_append d_def)
    have n: "plength p = length hdr + length body" using o(1) by simp
    have e: "drop (length hdr + 2) (take (length hdr + length body) d) = drop 2 body"
      by (simp only: drop_take b) simp
    have "take (length hdr) (take (length hdr + length body) d) = take (length hdr) d"
      "take 10 (take (length hdr + length body) d) = take 10 d"
      "take 8 (drop 12 (take (length hdr + length body) d)) = take 8 (drop 12 d)"
      using o(2) by (simp_all add: drop_take min_def)
    then show ?thesis using changed(1) c [folded d_def] a e l
      by (simp add: handle_options_loop [OF assms(1,2)] n)
  qed
qed

section \<open>The error message\<close>

lemma of_nat_five: "0x40 OR (of_nat 5 AND 0x0F) = (0x45 :: byte)"
  by simp

text \<open>The header is complete but for its length, where the fresh buffer shows through.\<close>

definition icmp_ip_bytes :: "icmp_error \<Rightarrow> int \<Rightarrow> ipaddr \<Rightarrow> byte list \<Rightarrow> u16 \<Rightarrow> byte list" where
  "icmp_ip_bytes e ident dst len c =
     [0x45, 0] @ len @ bytes16 (htons (of_int ident)) @ [0, 0, 200, IP_PROTO_ICMP] @ bytes16 c @ bytes32 (ic_src_ip e) @ bytes32 dst"

lemma icmp_ip_header_ok:
  assumes "length old = 20"
  shows "\<exists>len. length len = 2 \<and> icmp_ip_header e ident dst [] (old @ rest) = Inr (icmp_ip_bytes e ident dst len 0 @ rest)"
proof -
  obtain a0 a1 a2 a3 a4 a5 a6 a7 a8 a9 b0 b1 b2 b3 b4 b5 b6 b7 b8 b9
    where old: "old = [a0, a1, a2, a3, a4, a5, a6, a7, a8, a9, b0, b1, b2, b3, b4, b5, b6, b7, b8, b9]"
    using assms by (rule list20_cases)
  have z: "bytes16 0 = [0, 0]" by (simp add: bytes16_def)
  have five: "(20 + (if [] = ([] :: byte list) then 0 else length ([] :: byte list) - 1 + 3)) div 4 = (5 :: nat)" by simp
  have "icmp_ip_header e ident dst [] (old @ rest) = Inr (icmp_ip_bytes e ident dst [a2, a3] 0 @ rest)"
    unfolding icmp_ip_header_def five Let_def of_nat_five
    by (simp add: old write_bytes_def z icmp_ip_bytes_def)
  then show ?thesis by (intro exI [of _ "[a2, a3]"]) simp
qed

lemma write_behind:
  assumes "length pre = n" and "k + length vs \<le> length xs"
  shows "write_bytes (pre @ xs @ rest) (n + k) vs = Inr (pre @ (take k xs @ vs @ drop (k + length vs) xs) @ rest)"
  using assms by (simp add: write_bytes_def)

lemma write_last_word:
  assumes "length pre = 20" and "length first = 4" and "length y = 4" and "k + length vs \<le> 4"
  shows "\<exists>x. length x = 4 \<and>
     (if P then write_bytes (pre @ first @ y @ rest) (24 + k) vs else Inr (pre @ first @ y @ rest)) = Inr (pre @ first @ x @ rest)"
  using write_behind [of "pre @ first" 24 k vs y rest] assms
  by (intro exI [of _ "if P then take k y @ vs @ drop (k + length vs) y else y"]) simp

lemma icmp_header_ok:
  assumes "length pre = 20" and "length old = 8"
  shows "\<exists>x. length x = 4 \<and>
     icmp_header e p 20 (pre @ old @ rest) = Inr (pre @ [of_int (ic_type e), of_int (ic_code e), 0, 0] @ x @ rest)"
proof -
  let ?h = "[of_int (ic_type e), of_int (ic_code e), 0, 0] :: byte list"
  obtain a0 a1 a2 a3 a4 a5 a6 a7 where old: "old = [a0, a1, a2, a3, a4, a5, a6, a7]"
    using assms(2) by (auto simp: numeral_eq_Suc length_Suc_conv)
  have z: "bytes16 0 = [0, 0]" "bytes32 0 = [0, 0, 0, 0]" by (simp_all add: bytes16_def bytes32_def)
  have base: "icmp_header e p 20 (pre @ old @ rest) =
     ebind (if ic_type e = ICMP_PARAMPROB \<and> ic_code e = 0 then write8 (pre @ ?h @ [0, 0, 0, 0] @ rest) (24 + 0) (icmp_paramprob_anno p)
            else Inr (pre @ ?h @ [0, 0, 0, 0] @ rest)) (\<lambda>d.
     ebind (if ic_type e = ICMP_REDIRECT then write32 d (24 + 0) (dst_ip_anno p) else Inr d) (\<lambda>d.
     if ic_type e = ICMP_UNREACH \<and> ic_code e = 4 then write16 d (24 + 2) (htons (of_nat (ic_pmtu e))) else Inr d))"
    using assms(1) by (simp add: icmp_header_def old z write_bytes_def)
  have l: "length ?h = 4" "length [0, 0, 0, 0 :: byte] = 4" by simp_all
  obtain x where x: "length x = 4" "(if ic_type e = ICMP_PARAMPROB \<and> ic_code e = 0
      then write8 (pre @ ?h @ [0, 0, 0, 0] @ rest) (24 + 0) (icmp_paramprob_anno p)
      else Inr (pre @ ?h @ [0, 0, 0, 0] @ rest)) = Inr (pre @ ?h @ x @ rest)"
    using write_last_word [OF assms(1) l, of 0 "[icmp_paramprob_anno p]"] by fastforce
  obtain y where y: "length y = 4" "(if ic_type e = ICMP_REDIRECT then write32 (pre @ ?h @ x @ rest) (24 + 0) (dst_ip_anno p)
      else Inr (pre @ ?h @ x @ rest)) = Inr (pre @ ?h @ y @ rest)"
    using write_last_word [OF assms(1) l(1) x(1), of 0 "bytes32 (dst_ip_anno p)"] by fastforce
  obtain v where v: "length v = 4" "(if ic_type e = ICMP_UNREACH \<and> ic_code e = 4
      then write16 (pre @ ?h @ y @ rest) (24 + 2) (htons (of_nat (ic_pmtu e))) else Inr (pre @ ?h @ y @ rest)) = Inr (pre @ ?h @ v @ rest)"
    using write_last_word [OF assms(1) l(1) y(1), of 2 "bytes16 (htons (of_nat (ic_pmtu e)))"] by fastforce
  show ?thesis unfolding base x(2) ebind_simps y(2) v(2) using v(1) by blast
qed

lemma length_icmp_ip_bytes [simp]: "length len = 2 \<Longrightarrow> length (icmp_ip_bytes e ident dst len c) = 20"
  by (simp add: icmp_ip_bytes_def)

lemma icmp_ip_bytes_writes:
  assumes "length len = 2"
  shows "write16 (icmp_ip_bytes e ident dst len c @ rest) 2 v = Inr (icmp_ip_bytes e ident dst (bytes16 v) c @ rest)"
    and "write16 (icmp_ip_bytes e ident dst len c @ rest) 10 v = Inr (icmp_ip_bytes e ident dst len v @ rest)"
proof -
  obtain l0 l1 where len: "len = [l0, l1]" using assms by (auto simp: numeral_2_eq_2 length_Suc_conv)
  obtain c0 c1 where c: "bytes16 c = [c0, c1]" by (simp add: bytes16_def)
  obtain i0 i1 where i: "bytes16 (htons (of_int ident)) = [i0, i1]" by (simp add: bytes16_def)
  show "write16 (icmp_ip_bytes e ident dst len c @ rest) 2 v = Inr (icmp_ip_bytes e ident dst (bytes16 v) c @ rest)"
    "write16 (icmp_ip_bytes e ident dst len c @ rest) 10 v = Inr (icmp_ip_bytes e ident dst len v @ rest)"
    by (simp_all add: icmp_ip_bytes_def len c i write_bytes_def)
qed

lemma icmp_ip_bytes_valid:
  "valid_header (icmp_ip_bytes e ident dst (bytes16 l) (click_in_cksum (icmp_ip_bytes e ident dst (bytes16 l) 0)))"
proof -
  let ?xs = "[0x45, 0] @ bytes16 l @ bytes16 (htons (of_int ident)) @ [0, 0, 200, IP_PROTO_ICMP]" and
      ?ys = "bytes32 (ic_src_ip e) @ bytes32 dst"
  have s: "icmp_ip_bytes e ident dst (bytes16 l) c = ?xs @ bytes16 c @ ?ys" for c by (simp add: icmp_ip_bytes_def)
  have z: "bytes16 0 = [0, 0]" by (simp add: bytes16_def)
  have "click_in_cksum (?xs @ bytes16 (click_in_cksum (?xs @ [0, 0] @ ?ys)) @ ?ys) = 0"
    by (rule in_cksum_fill) simp_all
  then show ?thesis unfolding s z by (simp add: valid_header_def)
qed

lemma packet_take_pdata: "n \<le> plength q \<Longrightarrow> pdata (packet_take n q) = take (plength q - n) (pdata q)"
  by (simp add: packet_take_def Let_def)

lemma icmp_finish_ok:
  assumes "framed p h body" and "length len = 2" and "length x = 4"
    and "pdata q = icmp_ip_bytes e ident dst len 0 @ [t, c, 0, 0] @ x @ rest" and "length rest < 65536"
  shows "\<exists>q' c1 c2. icmp_finish p (h @ body @ tr) 20 q = Inr q' \<and>
     pdata q' = icmp_ip_bytes e ident dst (bytes16 (htons (of_nat (plength q')))) c1 @ [t, c] @ bytes16 c2 @ x @ take (length rest) (h @ body) \<and>
     valid_header (icmp_ip_bytes e ident dst (bytes16 (htons (of_nat (plength q')))) c1) \<and>
     click_in_cksum ([t, c] @ bytes16 c2 @ x @ take (length rest) (h @ body)) = 0 \<and>
     network_header q' = network_header q \<and> fix_ip_src_anno q' = fix_ip_src_anno q"
proof -
  let ?ip = "icmp_ip_bytes e ident dst" and ?bs = "take (length rest) (h @ body)"
  have pb: "length (h @ body) = 20 + length body" using assms(1) by (simp add: framed_def)
  have nl: "network_length p = int (length (h @ body))" using assms(1) by (simp add: network_length_def framed_def)
  have room: "plength q - (20 + 8) = length rest" using assms(2-4) by simp
  define q2 where "q2 = (if int (length rest) > network_length p then packet_take (length rest - nat (network_length p)) q else q)"
  define m where "m = (if int (length rest) > network_length p then nat (network_length p) else length rest)"
  have m: "m = length ?bs" unfolding m_def nl by (auto simp: min_def)
  have bs: "take m (h @ body @ tr) = ?bs" "m \<le> length (h @ body @ tr)" "m \<le> length rest"
    unfolding m_def nl by auto
  let ?A = "?ip len 0 @ [t, c, 0, 0] @ x"
  have A: "pdata q = ?A @ rest" "length ?A = 28" using assms(2-4) by simp_all
  have nn: "nat (network_length p) = length (h @ body)" "(network_length p < int (length rest)) = (length (h @ body) < length rest)"
    unfolding nl by (simp_all only: nat_int of_nat_less_iff)
  have g: "take (28 + n) (A @ r) = A @ take n r" if "length A = 28" for A r :: "byte list" and n using that by simp
  have "pdata q2 = ?A @ take m rest"
  proof (cases "length (h @ body) < length rest")
    case True
    have "plength q - (length rest - length (h @ body)) = 28 + length (h @ body)" unfolding A(1) using A(2) True by simp
    moreover have "length rest - length (h @ body) \<le> plength q" unfolding A(1) by simp
    ultimately have "pdata (packet_take (length rest - length (h @ body)) q) = take (28 + length (h @ body)) (?A @ rest)"
      by (simp only: packet_take_pdata A(1))
    also have "\<dots> = ?A @ take (length (h @ body)) rest" by (rule g [OF A(2)])
    finally show ?thesis unfolding q2_def m_def nn using True by (simp only: if_True)
  next
    case False
    then show ?thesis unfolding q2_def m_def nn by (simp only: if_False take_all order_refl A(1))
  qed
  then have q2: "pdata q2 = ?ip len 0 @ [t, c, 0, 0] @ x @ take m rest" "network_header q2 = network_header q"
      "fix_ip_src_anno q2 = fix_ip_src_anno q"
    unfolding q2_def by (simp_all add: packet_take_keeps) (simp_all add: packet_take_def Let_def)
  let ?c2 = "click_in_cksum ([t, c] @ [0, 0] @ x @ ?bs)" and ?l = "bytes16 (htons (of_nat (plength q2)))"
  have w1: "write_bytes (pdata q2) 28 ?bs = Inr (?ip len 0 @ [t, c, 0, 0] @ x @ ?bs)"
    using write_behind [of "?ip len 0 @ [t, c, 0, 0] @ x" 28 0 ?bs "take m rest" "[]"] assms(2,3) bs(3) m by (simp add: q2(1))
  have w2: "write16 (?ip len 0 @ [t, c, 0, 0] @ x @ ?bs) 22 ?c2 = Inr (?ip len 0 @ [t, c] @ bytes16 ?c2 @ x @ ?bs)"
    using write_behind [of "?ip len 0" 20 2 "bytes16 ?c2" "[t, c, 0, 0]" "x @ ?bs"] assms(2) by simp
  have t8: "take (8 + m) (drop 20 (?ip len 0 @ [t, c, 0, 0] @ x @ ?bs)) = [t, c] @ [0, 0] @ x @ ?bs"
    using assms(2,3) m by simp
  have "icmp_finish p (h @ body @ tr) 20 q = ebind (read_bytes (h @ body @ tr) 0 m) (\<lambda>bs.
         ebind (write_bytes (pdata q2) 28 bs) (\<lambda>d.
         ebind (write16 d 22 (click_in_cksum (take (8 + m) (drop 20 d)))) (\<lambda>d.
         ebind (write16 d 2 (htons (of_nat (plength q2)))) (\<lambda>d.
         ebind (write16 d 10 (click_in_cksum (take 20 d))) (\<lambda>d. Inr (q2\<lparr> pdata := d \<rparr>))))))"
    unfolding icmp_finish_def room q2_def m_def Let_def by simp
  also have "\<dots> = Inr (q2\<lparr> pdata := ?ip ?l (click_in_cksum (?ip ?l 0)) @ [t, c] @ bytes16 ?c2 @ x @ ?bs \<rparr>)"
  proof -
    have r: "read_bytes (h @ body @ tr) 0 m = Inr ?bs" using bs(1,2) by (simp add: read_bytes_def)
    have l: "length ?l = 2" by simp
    have t: "take 20 (?ip ?l 0 @ ys) = ?ip ?l 0" for ys using length_icmp_ip_bytes [OF l] by simp
    show ?thesis by (simp only: r ebind_simps w1 t8 w2 icmp_ip_bytes_writes(1) [OF assms(2)] t icmp_ip_bytes_writes(2) [OF l])
  qed
  finally have f: "icmp_finish p (h @ body @ tr) 20 q =
      Inr (q2\<lparr> pdata := ?ip ?l (click_in_cksum (?ip ?l 0)) @ [t, c] @ bytes16 ?c2 @ x @ ?bs \<rparr>)" .
  have n: "plength (q2\<lparr> pdata := ?ip ?l (click_in_cksum (?ip ?l 0)) @ [t, c] @ bytes16 ?c2 @ x @ ?bs \<rparr>) = plength q2"
    using assms(2,3) bs(3) m by (simp add: q2(1))
  have "click_in_cksum ([t, c] @ bytes16 ?c2 @ x @ ?bs) = 0"
    using assms(3,5) by (intro in_cksum_fill) simp_all
  then show ?thesis using f n icmp_ip_bytes_valid [of e ident dst "htons (of_nat (plength q2))"] q2(2,3)
    by (intro exI [of _ "q2\<lparr> pdata := ?ip ?l (click_in_cksum (?ip ?l 0)) @ [t, c] @ bytes16 ?c2 @ x @ ?bs \<rparr>"]
        exI [of _ "click_in_cksum (?ip ?l 0)"] exI [of _ ?c2]) (simp only: n, simp)
qed

text \<open>When a packet without options gets an answer.\<close>

definition may_answer :: "icmp_error \<Rightarrow> packet \<Rightarrow> byte list \<Rightarrow> byte list \<Rightarrow> ipaddr \<Rightarrow> ipaddr \<Rightarrow> u16 \<Rightarrow> bool" where
  "may_answer e p h body src dst ioff \<longleftrightarrow>
     (h ! 9 = IP_PROTO_ICMP \<longrightarrow> 4 \<le> length body \<and> \<not> is_error_type (uint (body ! 0))) \<and>
     unicast e dst \<and> packet_type_anno p \<noteq> BROADCAST \<and> packet_type_anno p \<noteq> MULTICAST \<and> valid_source e src \<and>
     ioff AND htons IP_OFFMASK = 0"

lemma icmp_answerable_iff:
  assumes "framed p h body" and "transport_header p = Some (length (headroom_bytes p) + 20)"
    and "read32 h 12 = Inr src" and "read32 h 16 = Inr dst" and "read16 h 6 = Inr ioff"
  shows "icmp_answerable e p (h @ body @ tailroom_bytes p) 20 = Inr (may_answer e p h body src dst ioff)"
proof -
  have f: "pdata p = h @ body" "length h = 20" using assms(1) by (simp_all add: framed_def)
  let ?ip = "h @ body @ tailroom_bytes p"
  have r: "read8 ?ip 9 = Inr (h ! 9)" "read32 ?ip 12 = Inr src" "read32 ?ip 16 = Inr dst" "read16 ?ip 6 = Inr ioff"
    using assms(3-5) f(2) by (simp_all add: read_append_left) (simp add: read8_def)
  have b: "read8 (buffer p) (length (headroom_bytes p) + 20) = Inr (body ! 0)" if "4 \<le> length body"
    using that f by (auto simp: buffer_def read8_def nth_append)
  show ?thesis
  proof (cases "h ! 9 = IP_PROTO_ICMP \<and> length body < 4")
    case True
    then have "20 + 4 > plength p" using f by simp
    with True show ?thesis unfolding icmp_answerable_def r ebind_simps by (simp add: may_answer_def)
  next
    case False
    then have a: "(if h ! 9 = IP_PROTO_ICMP then if 20 + 4 > plength p then Inr True
        else case transport_header p of None \<Rightarrow> Inl Null_deref
             | Some th \<Rightarrow> ebind (read8 (buffer p) th) (\<lambda>t. Inr (is_error_type (uint t))) else Inr False) =
        Inr (h ! 9 = IP_PROTO_ICMP \<and> is_error_type (uint (body ! 0)))"
      using f b by (auto simp: assms(2))
    show ?thesis unfolding icmp_answerable_def r ebind_simps a using False by (auto simp: may_answer_def)
  qed
qed

lemma icmp_ip_bytes_reads:
  "read16 (icmp_ip_bytes e ident dst (bytes16 l) c) 2 = Inr l" "icmp_ip_bytes e ident dst (bytes16 l) c ! 9 = IP_PROTO_ICMP"
  "read32 (icmp_ip_bytes e ident dst (bytes16 l) c) 12 = Inr (ic_src_ip e)" "read32 (icmp_ip_bytes e ident dst (bytes16 l) c) 16 = Inr dst"
  by (simp_all add: icmp_ip_bytes_def read16_def read32_def bytes16_def bytes32_def)


definition ex_icmp :: icmp_error where
  "ex_icmp = \<lparr> ic_src_ip = ip_quad 192 168 2 254, ic_type = ICMP_TIMXCEED, ic_code = 0, ic_bad_addrs = [], ic_mtu = 576, ic_pmtu = 0,
               ic_use_fix_anno = True \<rparr>"

definition ex_udp_header :: "byte list" where
  "ex_udp_header = [0x45, 0, 0, 23, 0, 0, 0, 0, 1, 17, 0, 0, 192, 168, 2, 1, 10, 0, 0, 1]"

definition ex_udp :: packet where
  "ex_udp = ex_packet\<lparr> pdata := ex_udp_header @ [1, 2, 3], transport_header := Some 20, data_packet := None \<rparr>"



definition ex_gw :: ip_gw_options where
  "ex_gw = \<lparr> gw_drops = 0, preferred_addr = ip_quad 192 168 2 254, my_addrs = [ip_quad 192 168 2 254], gw_noutputs = 2 \<rparr>"

text \<open>A header with one option word in front of three bytes of data.\<close>

definition ex_opt_packet :: "byte list \<Rightarrow> byte list \<Rightarrow> packet" where
  "ex_opt_packet hdr body = ex_packet\<lparr> pdata := hdr @ body, transport_header := Some (length hdr), data_packet := None \<rparr>"

definition ex_opt_header :: "byte list \<Rightarrow> byte list" where
  "ex_opt_header opts = (let a = [0x46, 0, 0, 28, 0, 0, 0, 0, 9, 17]; b = [192, 168, 2, 1, 10, 0, 0, 1] @ opts
     in a @ bytes16 (click_in_cksum (a @ [0, 0] @ b)) @ b)"

lemma ex_opt_header_ok: "length opts = 4 \<Longrightarrow> optioned (ex_opt_packet (ex_opt_header opts) body) (ex_opt_header opts) body"
  "length opts = 4 \<Longrightarrow> click_in_cksum (ex_opt_header opts) = 0" "\<not> shared (ex_opt_packet (ex_opt_header opts) body)"
proof -
  let ?a = "[0x46, 0, 0, 28, 0, 0, 0, 0, 9, 17]" and ?b = "[192, 168, 2, 1, 10, 0, 0, 1] @ opts"
  show "optioned (ex_opt_packet (ex_opt_header opts) body) (ex_opt_header opts) body" if "length opts = 4"
    using that by (simp add: optioned_def ex_opt_packet_def ex_opt_header_def Let_def ex_packet_def ip_hl_def)
  show "click_in_cksum (ex_opt_header opts) = 0" if "length opts = 4"
    unfolding ex_opt_header_def Let_def using that by (intro in_cksum_fill) simp_all
  show "\<not> shared (ex_opt_packet (ex_opt_header opts) body)"
    by (simp add: ex_opt_packet_def ex_packet_def shared_def)
qed


text \<open>
  The two bytes are really at risk. A Timestamp option of length two at the end of the header makes the element take the first two bytes
  of the data for the option's pointer and flags, and the overflow count it increments there is the second byte of the data.
\<close>

lemma ipgw_short_timestamp_corrupts:
  assumes "\<not> shared p" and "optioned p hdr (ptr # b # rest)" and "length hdr = 24" and "drop 20 hdr = [1, 1, 68, 2]"
    and "5 \<le> ptr" and "b AND 0xF = 0" and "drop_bit 4 b < 15"
  shows "\<exists>q. ipgw_simple_action mem ms e p = Inr (e, Some q, []) \<and>
     drop 24 (pdata q) = ptr # push_bit 4 (drop_bit 4 b + 1) # rest"
proof -
  define h20 where "h20 = take 20 hdr"
  have l: "length h20 = 20" and hdr: "hdr = h20 @ [1, 1, 68, 2]"
    using assms(3,4) append_take_drop_id [of 20 hdr] by (simp_all add: h20_def)
  let ?n = "push_bit 4 (drop_bit 4 b + 1)" and ?R = "rest @ tailroom_bytes p"
  let ?h = "h20 @ [1, 1, 68, 2, ptr, b] @ ?R" and ?h' = "h20 @ [1, 1, 68, 2, ptr, ?n] @ ?R"
  have r: "read8 ?h 20 = Inr 1" "read8 ?h 21 = Inr 1" "read8 ?h 22 = Inr 68" "read8 ?h 23 = Inr 2" "read8 ?h 24 = Inr ptr" "read8 ?h 25 = Inr b"
    using l by (simp_all add: read_append) (simp_all add: read8_def)
  have w: "write8 ?h 25 ?n = Inr ?h'" using l by (simp add: write_bytes_def)
  have p: "\<not> uint ptr - 1 < 4" "\<not> uint ptr - 1 + 4 \<le> int 2"
    using assms(5) by (simp_all add: word_le_def)
  have i: "22 + 2 = (24 :: nat)" "22 + 3 = (25 :: nat)" "22 + 1 = (23 :: nat)" "20 + 1 = (21 :: nat)" "21 + 1 = (22 :: nat)" by simp_all
  have ts: "time_stamp e ms ?h 22 2 = Inr (Inr ?h')"
    unfolding time_stamp_def i r ebind_simps Let_def using p assms(6,7) w by simp
  have u: "unat (2 :: byte) = 2" by simp
  have g22: "gw_loop e ms True 24 22 ?h False = Inr (Some (Inr ?h', True))"
    by (subst gw_loop.simps) (simp only: i r ebind_simps Let_def u ts sum.case, simp add: gw_loop.simps)
  have g21: "gw_loop e ms True 24 21 ?h False = Inr (Some (Inr ?h', True))"
    by (subst gw_loop.simps) (simp only: i r ebind_simps g22, simp)
  have g20: "gw_loop e ms True 24 20 ?h False = Inr (Some (Inr ?h', True))"
    by (subst gw_loop.simps) (simp only: i r ebind_simps g21, simp)
  have "24 \<le> length ?h'" using l by simp
  then obtain c where c: "fill_checksum 24 ?h' = Inr (take 10 ?h' @ bytes16 c @ drop 12 ?h')"
    using fill_checksum_any [of 24 ?h'] by auto
  have v: "hdr @ (ptr # b # rest) @ tailroom_bytes p = ?h" by (simp add: hdr)
  have pl: "plength p = 26 + length rest" using assms(2,3) by (simp add: optioned_def)
  have "drop 24 (take (plength p) (take 10 ?h' @ bytes16 c @ drop 12 ?h')) = ptr # ?n # rest"
    using l by (simp add: pl drop_take)
  moreover have "ipgw_simple_action mem ms e p = Inr (e, Some (p\<lparr> pdata := take (plength p) (take 10 ?h' @ bytes16 c @ drop 12 ?h'),
      tailroom_bytes := drop (plength p) (take 10 ?h' @ bytes16 c @ drop 12 ?h') \<rparr>), [])"
    unfolding handle_options_loop [OF assms(1,2)] v assms(3) g20 ebind_simps option.case prod.case sum.case if_True c by simp
  ultimately show ?thesis by simp
qed

theorem ipgw_short_timestamp_corrupts_witness:
  "\<exists>q. ipgw_simple_action ex_mem 0 ex_gw (ex_opt_packet (ex_opt_header [1, 1, 68, 2]) [9, 0, 7]) = Inr (ex_gw, Some q, []) \<and>
     drop 24 (pdata q) = [9, 16, 7]"
proof -
  have "length (ex_opt_header [1, 1, 68, 2]) = 24" "drop 20 (ex_opt_header [1, 1, 68, 2]) = [1, 1, 68, 2]"
    by (simp_all add: ex_opt_header_def Let_def)
  then show ?thesis
    using ex_opt_header_ok(1,3) [of "[1, 1, 68, 2]" "[9, 0, 7]"]
      ipgw_short_timestamp_corrupts [where p = "ex_opt_packet (ex_opt_header [1, 1, 68, 2]) [9, 0, 7]" and ptr = 9 and b = 0 and
        rest = "[7]" and hdr = "ex_opt_header [1, 1, 68, 2]" and mem = ex_mem and ms = 0 and e = ex_gw]
    by simp
qed

end
