(* ===== verification/Click_Fragmenter.thy ===== *)
theory Click_Fragmenter
  imports Click_IPElements
begin

text \<open>
  \<^verbatim>\<open>IPFragmenter\<close> (\<^verbatim>\<open>click/elements/ip/ipfragmenter.cc\<close>), which cuts packets longer than the MTU, with its
  copy of the header options (\<open>optcopy\<close>). Its two loops are partial functions: a loop that never ends has the
  value \<open>None\<close>. Lengths are unbounded integers, which agree with the \<^verbatim>\<open>int\<close> and \<^verbatim>\<open>unsigned\<close> values of
  the source for an MTU below \<open>2 ^ 31\<close>; \<open>(x) & ~7\<close> is the next multiple of 8 below. The value of
  \<open>click_random\<close> is an argument.
\<close>

section \<open>The options of a header\<close>

text \<open>The loop of \<open>optcopy\<close> over the option bytes; \<open>out\<close> is what it has copied.\<close>

partial_function (option) optcopy_loop :: "byte list \<Rightarrow> nat \<Rightarrow> nat \<Rightarrow> byte list \<Rightarrow> byte list run" where
  "optcopy_loop oin opts_len i out =
     (if i < opts_len
      then dbind (read8 oin i) (\<lambda>opt.
             if opt = IPOPT_NOP
             then optcopy_loop oin opts_len i (if opt AND 0x80 \<noteq> 0 then out @ take 1 (drop i oin) else out)
             else if opt = IPOPT_EOL \<or> i = opts_len - 1 then Some (Inr out)
             else dbind (read8 oin (i + 1)) (\<lambda>optlen.
               if i + unat optlen > opts_len then Some (Inr out)
               else optcopy_loop oin opts_len i
                      (if opt AND 0x80 \<noteq> 0 then out @ take (unat optlen) (drop i oin) else out)))
      else Some (Inr out))"

text \<open>\<open>optcopy\<close>: the copied options, padded with \<open>IPOPT_EOL\<close> to a multiple of four bytes.\<close>

definition optcopy :: "byte list \<Rightarrow> byte list run" where
  "optcopy ip =
     dbind (read8 ip ip_vhl_off) (\<lambda>vhl.
     rbind (optcopy_loop (drop 20 ip) (ip_hl vhl * 4 - 20) 0 []) (\<lambda>out.
     Some (Inr (out @ replicate ((4 - length out mod 4) mod 4) IPOPT_EOL))))"

section \<open>The element\<close>

record ip_fragmenter =
  fr_honor_df :: bool
  fr_mtu :: nat
  fr_headroom :: nat
  fr_drops :: nat
  fr_fragments :: nat
  fr_noutputs :: nat

text \<open>The header of the first fragment, written over the header of the packet.\<close>

definition first_header :: "u16 \<Rightarrow> nat \<Rightarrow> nat \<Rightarrow> byte list \<Rightarrow> byte list exec" where
  "first_header random hlen dlen ip =
     ebind (read16 ip ip_off_off) (\<lambda>ioff.
     ebind (if ioff AND htons IP_DF \<noteq> 0
            then ebind (write16 ip ip_id_off random) (\<lambda>ip. write16 ip ip_off_off (ioff AND NOT (htons IP_DF)))
            else Inr ip) (\<lambda>ip.
     ebind (write16 ip ip_len_off (htons (of_nat (hlen + dlen)))) (\<lambda>ip.
     ebind (read16 ip ip_off_off) (\<lambda>ioff.
     ebind (write16 ip ip_off_off (ioff OR htons IP_MF)) (\<lambda>ip.
     fill_checksum hlen ip)))))"

definition copy_annotations :: "packet \<Rightarrow> packet \<Rightarrow> packet" where
  "copy_annotations p q = q\<lparr> dst_ip_anno := dst_ip_anno p, paint_anno := paint_anno p,
     fix_ip_src_anno := fix_ip_src_anno p, icmp_paramprob_anno := icmp_paramprob_anno p, packet_type_anno := packet_type_anno p \<rparr>"

text \<open>The bytes at \<open>p->transport_header() + off\<close>.\<close>

definition transport_bytes :: "packet \<Rightarrow> nat \<Rightarrow> nat \<Rightarrow> byte list exec" where
  "transport_bytes p off n =
     (case transport_header p of None \<Rightarrow> Inl Null_deref | Some t \<Rightarrow> read_bytes (buffer p) (t + off) n)"

text \<open>The header of a later fragment, from the copy of the first one's.\<close>

definition next_header :: "nat \<Rightarrow> nat \<Rightarrow> nat \<Rightarrow> bool \<Rightarrow> byte list \<Rightarrow> byte list exec" where
  "next_header out_hlen out_dlen off final qip =
     ebind (read8 qip ip_vhl_off) (\<lambda>vhl.
     ebind (write8 qip ip_vhl_off ((vhl AND 0xF0) OR (of_nat (out_hlen div 4) AND 0x0F))) (\<lambda>qip.
     ebind (read16 qip ip_off_off) (\<lambda>ioff.
     let o1 = htons (ntohs ioff + of_nat (off div 8)) in
     ebind (write16 qip ip_off_off (if final then o1 AND NOT (htons IP_MF) else o1)) (\<lambda>qip.
     ebind (write16 qip ip_len_off (htons (of_nat (out_hlen + out_dlen)))) (\<lambda>qip.
     fill_checksum out_hlen qip)))))"

definition next_fragment ::
  "allocator \<Rightarrow> ip_fragmenter \<Rightarrow> packet \<Rightarrow> byte list \<Rightarrow> byte list \<Rightarrow> bool \<Rightarrow> nat \<Rightarrow> nat \<Rightarrow> packet option exec" where
  "next_fragment mem e p ip opts final off out_dlen =
     (let out_hlen = 20 + length opts in
      case packet_make mem (fr_headroom e) None (out_hlen + out_dlen) 0 of
        None \<Rightarrow> Inr None
      | Some q \<Rightarrow>
          ebind (set_network_header (length (headroom_bytes q)) out_hlen q) (\<lambda>q.
          ebind (read_bytes ip 0 20) (\<lambda>hdr.
          ebind (write_bytes (pdata q) 0 hdr) (\<lambda>d.
          ebind (write_bytes d 20 opts) (\<lambda>d.
          ebind (transport_bytes p off out_dlen) (\<lambda>bs.
          ebind (write_bytes d out_hlen bs) (\<lambda>d.
          ebind (next_header out_hlen out_dlen off final d) (\<lambda>d.
          Inr (Some (copy_annotations p (q\<lparr> pdata := d \<rparr>)))))))))))"

text \<open>The loop over the remaining data. A fragment there is no memory for is left out.\<close>

partial_function (option) frag_loop ::
  "allocator \<Rightarrow> ip_fragmenter \<Rightarrow> packet \<Rightarrow> byte list \<Rightarrow> byte list \<Rightarrow> bool \<Rightarrow> int \<Rightarrow> int \<Rightarrow> packet list run" where
  "frag_loop mem e p ip opts had_mf in_dlen off =
     (if off < in_dlen
      then let d = (int (fr_mtu e) - int (20 + length opts)) div 8 * 8;
               out_dlen = (if d + off > in_dlen then in_dlen - off else d);
               final = (out_dlen + off \<ge> in_dlen \<and> \<not> had_mf)
           in dbind (next_fragment mem e p ip opts final (nat off) (nat out_dlen)) (\<lambda>q.
              rbind (frag_loop mem e p ip opts had_mf in_dlen (off + out_dlen)) (\<lambda>qs.
              Some (Inr (case q of None \<Rightarrow> qs | Some q \<Rightarrow> q # qs))))
      else Some (Inr []))"

text \<open>What \<open>network_header_offset\<close> and \<open>take\<close> leave of the clone that becomes the first fragment.\<close>

definition cut_first :: "nat \<Rightarrow> nat \<Rightarrow> packet \<Rightarrow> packet exec" where
  "cut_first hlen dlen p =
     (case network_header p of
        None \<Rightarrow> Inl Null_deref
      | Some nh \<Rightarrow>
          (let n = int (plength p) - (int nh - int (length (headroom_bytes p))) - int hlen - int dlen
           in Inr (packet_take (nat (n mod 2 ^ 32)) p)))"

definition fragment ::
  "allocator \<Rightarrow> u16 \<Rightarrow> ip_fragmenter \<Rightarrow> packet \<Rightarrow> (ip_fragmenter \<times> (nat \<times> packet) list) run" where
  "fragment mem random e p_in =
     dbind (nh_view p_in) (\<lambda>ip_in.
     dbind (read8 ip_in ip_vhl_off) (\<lambda>vhl.
     dbind (read16 ip_in ip_len_off) (\<lambda>ilen.
     dbind (read16 ip_in ip_off_off) (\<lambda>ioff.
     let hlen = ip_hl vhl * 4;
         first_dlen = (int (fr_mtu e) - int hlen) div 8 * 8;
         in_dlen = int (unat (ntohs ilen)) - int hlen
     in if (ioff AND htons IP_DF \<noteq> 0 \<and> fr_honor_df e) \<or> first_dlen < 8
        then Some (Inr (e\<lparr> fr_drops := fr_drops e + 1 \<rparr>, if fr_noutputs e > 1 then [(1, p_in)] else []))
        else dbind (uniqueify mem p_in) (\<lambda>q. case q of
               None \<Rightarrow> Some (Inr (e, []))
             | Some p \<Rightarrow>
                 dbind (on_nh (first_header random hlen (nat first_dlen)) p) (\<lambda>p.
                 let had_mf = (ioff AND htons IP_MF \<noteq> 0); (c, p) = clone p
                 in dbind (cut_first hlen (nat first_dlen) c) (\<lambda>first.
                    dbind (nh_view p) (\<lambda>ip.
                    rbind (optcopy ip) (\<lambda>opts.
                    rbind (frag_loop mem e p ip opts had_mf in_dlen first_dlen) (\<lambda>qs.
                    Some (Inr (e\<lparr> fr_fragments := fr_fragments e + 1 + length qs \<rparr>,
                               (0, first) # map (Pair 0) qs))))))))))))"

definition frag_push ::
  "allocator \<Rightarrow> u16 \<Rightarrow> ip_fragmenter \<Rightarrow> packet \<Rightarrow> (ip_fragmenter \<times> (nat \<times> packet) list) run" where
  "frag_push mem random e p =
     (if network_header p = None then Some (Inl Null_deref)
      else if network_length p \<le> int (fr_mtu e) then Some (Inr (e, [(0, p)]))
      else fragment mem random e p)"

section \<open>Fragment offsets\<close>

lemma bit_flag: "bit IP_MF k \<longleftrightarrow> k = 13" "bit IP_DF k \<longleftrightarrow> k = 14"
proof -
  have e: "IP_MF = 2 ^ 13" "IP_DF = 2 ^ 14" by simp_all
  show "bit IP_MF k \<longleftrightarrow> k = 13" "bit IP_DF k \<longleftrightarrow> k = 14"
    unfolding e bit_exp_iff by (auto simp: possible_bit_def)
qed

text \<open>Offsets below 8192 leave the flag bits alone.\<close>

lemma offset_bits:
  assumes "n < 8192" and "13 \<le> k"
  shows "\<not> bit (of_nat n :: u16) k"
proof
  assume b: "bit (of_nat n :: u16) k"
  then have "bit n k" by (simp add: bit_simps)
  then have "2 ^ k \<le> n" by (metis bit_nat_def div_less even_zero linorder_not_less)
  moreover have "(2 :: nat) ^ 13 \<le> 2 ^ k" using assms(2) by (intro power_increasing) simp_all
  ultimately show False using assms(1) by simp
qed

lemma flag_algebra:
  fixes x m d :: u16
  assumes "\<And>k. 13 \<le> k \<Longrightarrow> \<not> bit x k" and "\<And>k. bit m k \<longleftrightarrow> k = 13" and "\<And>k. bit d k \<longleftrightarrow> k = 14"
  shows "x AND m = 0" "x AND d = 0" "(x OR m) AND d = 0" "(x OR m) AND NOT m = x" "(x OR m) OR m = x OR m"
    "x + m = x OR m" "(x OR m) AND m \<noteq> 0"
proof -
  show xm: "x AND m = 0" and "x AND d = 0" "(x OR m) AND d = 0" "(x OR m) AND NOT m = x" "(x OR m) OR m = x OR m"
    using assms by (auto intro!: bit_word_eqI simp: bit_and_iff bit_or_iff bit_not_iff)
  show "x + m = x OR m" using xm by (rule disjunctive_add_eq_or)
  have "bit ((x OR m) AND m) 13" using assms(2) by (simp add: bit_and_iff bit_or_iff)
  then show "(x OR m) AND m \<noteq> 0" by auto
qed

lemmas offset_flags = flag_algebra [OF offset_bits bit_flag]

section \<open>What the fragments are\<close>

text \<open>The header \<open>h\<close> with another length and offset field and a checksum that verifies.\<close>

definition frag_header :: "byte list \<Rightarrow> u16 \<Rightarrow> nat \<Rightarrow> byte list" where
  "frag_header h foff n =
     (let b = drop 12 h; a = take 2 h @ bytes16 (htons (of_nat (20 + n))) @ take 2 (drop 4 h) @ bytes16 (htons foff) @ take 2 (drop 8 h)
      in a @ bytes16 (click_in_cksum (a @ [0, 0] @ b)) @ b)"

text \<open>The fragments for the pieces \<open>ds\<close> of the data, from offset \<open>f\<close> on (in units of 8 bytes).\<close>

fun frag_datas :: "byte list \<Rightarrow> nat \<Rightarrow> bool \<Rightarrow> byte list list \<Rightarrow> byte list list" where
  "frag_datas h f mf [] = []"
| "frag_datas h f mf (d # ds) =
     (frag_header h (of_nat f + (if ds = [] \<and> \<not> mf then 0 else IP_MF)) (length d) @ d) #
     frag_datas h (f + length d div 8) mf ds"

lemma length_frag_header: "length h = 20 \<Longrightarrow> length (frag_header h f n) = 20"
  by (simp add: frag_header_def Let_def)

lemma frag_header_valid:
  assumes "length h = 20" and "h ! 0 = 0x45"
  shows "valid_header (frag_header h f n)"
proof -
  let ?a = "take 2 h @ bytes16 (htons (of_nat (20 + n))) @ take 2 (drop 4 h) @ bytes16 (htons f) @ take 2 (drop 8 h)"
  have "click_in_cksum (?a @ bytes16 (click_in_cksum (?a @ [0, 0] @ drop 12 h)) @ drop 12 h) = 0"
    by (rule in_cksum_fill) (simp_all add: assms(1))
  then have "click_in_cksum (frag_header h f n) = 0" by (simp add: frag_header_def Let_def)
  moreover have "frag_header h f n ! 0 = 0x45" using assms by (simp add: frag_header_def Let_def nth_append)
  ultimately show ?thesis using assms by (simp add: valid_header_def length_frag_header)
qed

lemma first_header_ok:
  assumes "length h = 20" and "read16 h 6 = Inr (htons x)" and "x AND IP_DF = 0"
  shows "first_header random 20 n (h @ rest) = Inr (frag_header h (x OR IP_MF) n @ rest)"
proof -
  obtain a0 a1 a2 a3 a4 a5 a6 a7 a8 a9 b0 b1 b2 b3 b4 b5 b6 b7 b8 b9
    where h: "h = [a0, a1, a2, a3, a4, a5, a6, a7, a8, a9, b0, b1, b2, b3, b4, b5, b6, b7, b8, b9]"
    using assms(1) by (rule list20_cases)
  have x: "le16 a6 a7 = htons x" using assms(2) by (simp add: h read16_def)
  have z: "bytes16 0 = [0, 0]" by (simp add: bytes16_def)
  have l: "length (bytes16 w) = 2" for w by simp
  obtain l0 l1 where ln: "bytes16 (htons (of_nat (20 + n))) = [l0, l1]" by (simp add: bytes16_def)
  obtain o0 o1 where on: "bytes16 (htons (x OR IP_MF)) = [o0, o1]" by (simp add: bytes16_def)
  have r: "read16 (h @ rest) 6 = Inr (htons x)" using x by (simp add: h read16_def)
  show ?thesis
    using assms(3) unfolding first_header_def r
    by (simp add: htons_and h write_bytes_def read16_def x htons_or ln [simplified] on [simplified] fill_checksum_def z
        frag_header_def Let_def)
qed

lemma vhl_five: "(0x45 AND 0xF0) OR (of_nat (20 div 4) AND 0x0F) = (0x45 :: byte)"
  by simp

lemma next_header_ok:
  assumes "length h = 20" and "h ! 0 = 0x45"
  shows "next_header 20 n off final (frag_header h f m @ rest) =
     Inr (frag_header h (if final then (f + of_nat (off div 8)) AND NOT IP_MF else f + of_nat (off div 8)) n @ rest)"
proof -
  obtain a0 a1 a2 a3 a4 a5 a6 a7 a8 a9 b0 b1 b2 b3 b4 b5 b6 b7 b8 b9
    where h: "h = [a0, a1, a2, a3, a4, a5, a6, a7, a8, a9, b0, b1, b2, b3, b4, b5, b6, b7, b8, b9]"
    using assms(1) by (rule list20_cases)
  obtain l0 l1 c0 c1 where fh: "frag_header h f m =
      [a0, a1, l0, l1, a4, a5] @ bytes16 (htons f) @ [a8, a9, c0, c1, b2, b3, b4, b5, b6, b7, b8, b9]"
    by (simp add: frag_header_def Let_def h bytes16_def)
  have a0: "a0 = 0x45" using assms(2) by (simp add: h)
  have z: "bytes16 0 = [0, 0]" by (simp add: bytes16_def)
  let ?g = "if final then (f + of_nat (off div 8)) AND NOT IP_MF else f + of_nat (off div 8)"
  have g: "(if final then htons (f + of_nat (off div 8)) AND NOT (htons IP_MF) else htons (f + of_nat (off div 8))) = htons ?g"
    by (simp add: htons_not htons_and)
  obtain f0 f1 where fb: "bytes16 (htons f) = [f0, f1]" by (simp add: bytes16_def)
  then have ff: "le16 f0 f1 = htons f" using read_head(2) [of "htons f" "[]"] by (simp add: read16_def)
  have r: "read8 (frag_header h f m @ rest) 0 = Inr a0"
    "write8 (frag_header h f m @ rest) 0 ((a0 AND 0xF0) OR (of_nat (20 div 4) AND 0x0F)) = Inr (frag_header h f m @ rest)"
    "read16 (frag_header h f m @ rest) 6 = Inr (htons f)"
    unfolding a0 vhl_five by (simp_all add: fh read8_def write_bytes_def fb read16_def ff a0)
  have "next_header 20 n off final (frag_header h f m @ rest) =
      ebind (write16 (frag_header h f m @ rest) 6 (htons ?g)) (\<lambda>qip.
      ebind (write16 qip 2 (htons (of_nat (20 + n)))) (fill_checksum 20))"
    by (simp only: next_header_def r ebind_simps Let_def htons_htons g)
  also have "\<dots> = Inr (frag_header h ?g n @ rest)"
  proof -
    obtain g0 g1 where gb: "bytes16 (htons ?g) = [g0, g1]" by (simp only: bytes16_def)
    obtain k0 k1 where kb: "bytes16 (htons (of_nat (20 + n))) = [k0, k1]" by (simp only: bytes16_def)
    show ?thesis
      unfolding fh fb gb kb frag_header_def [of h ?g n] Let_def
      by (simp add: write_bytes_def fill_checksum_def z h)
  qed
  finally show ?thesis .
qed

text \<open>The packet the loop cuts from: its data behind the header is \<open>body\<close>.\<close>

definition carries_body :: "packet \<Rightarrow> byte list \<Rightarrow> bool" where
  "carries_body p body \<longleftrightarrow> (\<exists>t rest. transport_header p = Some t \<and> t \<le> length (buffer p) \<and> drop t (buffer p) = body @ rest)"

lemma transport_bytes_ok:
  assumes "carries_body p body" and "off + n \<le> length body"
  shows "transport_bytes p off n = Inr (take n (drop off body))"
proof -
  obtain t rest where t: "transport_header p = Some t" "t \<le> length (buffer p)" "drop t (buffer p) = body @ rest"
    using assms(1) by (auto simp: carries_body_def)
  have "length (buffer p) - t = length body + length rest" using t(3) by (metis length_append length_drop)
  then have "t + off + n \<le> length (buffer p)" using assms(2) t(2) by linarith
  moreover have "drop (t + off) (buffer p) = drop off (body @ rest)" by (metis add.commute drop_drop t(3))
  ultimately show ?thesis using assms(2) by (simp add: transport_bytes_def t(1) read_bytes_def)
qed

lemma next_fragment_ok:
  assumes "has_memory mem" and "length h = 20" and "h ! 0 = 0x45" and "carries_body p body" and "off + n \<le> length body"
  shows "\<exists>q. next_fragment mem e p (frag_header h f m @ rest) [] final off n = Inr (Some q) \<and> \<not> shared q \<and>
     pdata q = frag_header h (if final then (f + of_nat (off div 8)) AND NOT IP_MF else f + of_nat (off div 8)) n @
       take n (drop off body) \<and> dst_ip_anno q = dst_ip_anno p \<and> network_header q = Some (length (headroom_bytes q))"
proof -
  let ?h = "frag_header h f m" and ?b = "take n (drop off body)"
  obtain q where q: "packet_make mem (fr_headroom e) None (20 + n) 0 = Some q"
    using packet_make_has_memory [OF assms(1)] by blast
  have m: "mem_ok mem" using assms(1) by (simp add: has_memory_def)
  note qf = packet_make_fields [OF m q]
  have lh: "length ?h = 20" "length ?b = n" using assms(2,5) by (simp_all add: length_frag_header)
  let ?q = "q\<lparr> network_header := Some (length (headroom_bytes q)), transport_header := Some (length (headroom_bytes q) + 20) \<rparr>"
  have "set_network_header (length (headroom_bytes q)) 20 q = Inr ?q"
    by (simp add: set_network_header_def buffer_def qf(1))
  moreover have "read_bytes (?h @ rest) 0 20 = Inr ?h" using lh by (simp add: read_bytes_def)
  moreover have "write_bytes (pdata ?q) 0 ?h = Inr (?h @ drop 20 (pdata q))" using lh qf(1) by (simp add: write_bytes_def)
  moreover have "write_bytes (?h @ drop 20 (pdata q)) 20 [] = Inr (?h @ drop 20 (pdata q))"
    using lh qf(1) by (simp add: write_bytes_def)
  moreover have "write_bytes (?h @ drop 20 (pdata q)) 20 ?b = Inr (?h @ ?b)" using lh qf(1) by (simp add: write_bytes_def)
  ultimately have e: "next_fragment mem e p (?h @ rest) [] final off n =
      ebind (next_header 20 n off final (?h @ ?b)) (\<lambda>d. Inr (Some (copy_annotations p (?q\<lparr> pdata := d \<rparr>))))"
    by (simp add: next_fragment_def q transport_bytes_ok [OF assms(4,5)] del: packet.update_convs)
  show ?thesis
    unfolding e next_header_ok [OF assms(2,3)]
    using qf(3) by (simp add: copy_annotations_def shared_def)
qed

text \<open>The loop ends and cuts the data up, in pieces of at most \<open>k\<close> bytes that but for the last are multiples of 8.\<close>

definition pieces :: "nat \<Rightarrow> byte list \<Rightarrow> byte list list \<Rightarrow> bool" where
  "pieces k body ds \<longleftrightarrow> concat ds = body \<and> (\<forall>d \<in> set ds. 0 < length d \<and> length d \<le> k) \<and>
     (\<forall>d \<in> set (butlast ds). length d mod 8 = 0)"

lemma pieces_single: "0 < length d \<Longrightarrow> length d \<le> k \<Longrightarrow> pieces k d [d]"
  by (simp add: pieces_def)

lemma pieces_Cons:
  "pieces k body ds \<Longrightarrow> 0 < length d \<Longrightarrow> length d \<le> k \<Longrightarrow> length d mod 8 = 0 \<Longrightarrow> pieces k (d @ body) (d # ds)"
  by (auto simp: pieces_def)

lemma frag_loop_ok:
  assumes "has_memory mem" and "length h = 20" and "h ! 0 = 0x45" and "carries_body p body"
    and "28 \<le> fr_mtu e" and "f + length body div 8 < 8192"
    and "off mod 8 = 0" and "off < length body"
  shows "\<exists>qs ds. frag_loop mem e p (frag_header h (of_nat f + IP_MF) m @ rest) [] mf (int (length body)) (int off) = Some (Inr qs) \<and>
     pieces ((fr_mtu e - 20) div 8 * 8) (drop off body) ds \<and> map pdata qs = frag_datas h (f + off div 8) mf ds \<and>
     (\<forall>q \<in> set qs. \<not> shared q \<and> dst_ip_anno q = dst_ip_anno p \<and> network_header q = Some (length (headroom_bytes q)))"
  using assms(7,8)
proof (induction "length body - off" arbitrary: off rule: less_induct)
  case less
  let ?ip = "frag_header h (of_nat f + IP_MF) m @ rest" and ?k = "(fr_mtu e - 20) div 8 * 8"
  define n where "n = (if ?k + off > length body then length body - off else ?k)"
  let ?final = "length body \<le> n + off \<and> \<not> mf"
  have k: "8 \<le> ?k" using div_le_mono [of 8 "fr_mtu e - 20" 8] assms(5) by simp
  have d: "(int (fr_mtu e) - int (20 + length [])) div 8 * 8 = int ?k"
    using assms(5) by (simp add: zdiv_int of_nat_diff)
  have n: "(if int ?k + int off > int (length body) then int (length body) - int off else int ?k) = int n"
    unfolding n_def using less.prems by (simp add: of_nat_diff)
  have nb: "off + n \<le> length body" "0 < n" "n \<le> ?k" using less.prems k by (auto simp: n_def)
  have o: "f + off div 8 < 8192" using assms(6) less.prems(2) by (metis add_left_mono div_le_mono le_less_trans less_imp_le)
  obtain q where q: "next_fragment mem e p ?ip [] ?final off n = Inr (Some q)" "\<not> shared q"
     "pdata q = frag_header h (if ?final then (of_nat f + IP_MF + of_nat (off div 8)) AND NOT IP_MF
                               else of_nat f + IP_MF + of_nat (off div 8)) n @ take n (drop off body)"
     "dst_ip_anno q = dst_ip_anno p" "network_header q = Some (length (headroom_bytes q))"
    using next_fragment_ok [OF assms(1-4) nb(1)] by blast
  have w: "of_nat f + IP_MF + of_nat (off div 8) = of_nat (f + off div 8) + IP_MF" by simp
  have pd: "pdata q = frag_header h (of_nat (f + off div 8) + (if ?final then 0 else IP_MF)) n @ take n (drop off body)"
    unfolding q(3) w using offset_flags(4,6) [OF o] by simp
  have fin: "int n + int off \<ge> int (length body) \<longleftrightarrow> length body \<le> n + off" by linarith
  have so: "int off + int n = int (off + n)" and lt0: "(int off < int (length body)) = True" using less.prems(2) by simp_all
  have step: "frag_loop mem e p ?ip [] mf (int (length body)) (int off) =
      rbind (frag_loop mem e p ?ip [] mf (int (length body)) (int (off + n))) (\<lambda>qs. Some (Inr (q # qs)))"
    by (simp only: frag_loop.simps [of _ _ _ _ _ _ _ "int off"] lt0 d n fin so Let_def if_True nat_int q(1) dbind_simps option.case)
  have split: "take n (drop off body) @ drop (off + n) body = drop off body"
    using append_take_drop_id [of n "drop off body"] by (simp add: add.commute)
  have lt: "length (take n (drop off body)) = n" using nb(1) by simp
  show ?case
  proof (cases "off + n < length body")
    case False
    then have e: "off + n = length body" using nb(1) by linarith
    have "frag_loop mem e p ?ip [] mf (int (length body)) (int (off + n)) = Some (Inr [])"
      unfolding e by (subst frag_loop.simps) simp
    moreover have "pieces ?k (drop off body) [take n (drop off body)]"
      using nb e pieces_single [of "take n (drop off body)" ?k] by simp
    ultimately show ?thesis
      using e q(2,4,5) lt
      by (intro exI [of _ "[q]"] exI [of _ "[take n (drop off body)]"]) (simp only: step, simp add: pd)
  next
    case True
    then have nk: "n = ?k" by (auto simp: n_def)
    have m8: "(off + n) mod 8 = 0" using less.prems(1) by (simp add: nk)
    obtain qs ds where ih: "frag_loop mem e p ?ip [] mf (int (length body)) (int (off + n)) = Some (Inr qs)"
        "pieces ?k (drop (off + n) body) ds" "map pdata qs = frag_datas h (f + (off + n) div 8) mf ds"
        "\<forall>q \<in> set qs. \<not> shared q \<and> dst_ip_anno q = dst_ip_anno p \<and> network_header q = Some (length (headroom_bytes q))"
      using less.hyps [OF _ m8 True] nb(2) less.prems(2) by force
    have dn: "ds \<noteq> []" using ih(2) True by (auto simp: pieces_def)
    have "(off + n) div 8 = off div 8 + n div 8" by (simp add: nk)
    then have "map pdata (q # qs) = frag_datas h (f + off div 8) mf (take n (drop off body) # ds)"
      using ih(3) True dn lt pd by (simp add: add.assoc del: length_take)
    moreover have "pieces ?k (take n (drop off body) @ drop (off + n) body) (take n (drop off body) # ds)"
      using ih(2) nb lt nk by (intro pieces_Cons) simp_all
    then have "pieces ?k (drop off body) (take n (drop off body) # ds)" by (simp only: split)
    ultimately show ?thesis
      using ih(1,4) q(2,4,5) by (intro exI [of _ "q # qs"] exI [of _ "take n (drop off body) # ds"]) (simp add: step)
  qed
qed

section \<open>Options\<close>

text \<open>The loop of \<open>optcopy\<close> does not advance: with a first option that does not end it, it runs forever.\<close>

definition opts_stuck :: "byte list \<Rightarrow> nat \<Rightarrow> bool" where
  "opts_stuck oin n \<longleftrightarrow> 0 < n \<and> n \<le> length oin \<and>
     (oin ! 0 = IPOPT_NOP \<or> (oin ! 0 \<noteq> IPOPT_EOL \<and> 1 < n \<and> unat (oin ! 1) \<le> n))"

lemma optcopy_loop_stuck:
  assumes "opts_stuck oin n"
  shows "optcopy_loop oin n 0 out = None"
proof (rule ccontr)
  assume "optcopy_loop oin n 0 out \<noteq> None"
  then obtain r where "optcopy_loop oin n 0 out = Some r" by blast
  then have "(0 :: nat) = 0 \<longrightarrow> \<not> opts_stuck oin n"
    by (rule optcopy_loop.raw_induct [where P = "\<lambda>oin n i out r. i = 0 \<longrightarrow> \<not> opts_stuck oin n", rotated])
      (auto simp: opts_stuck_def read8_def split: if_splits; fastforce)
  with assms show False by simp
qed

lemma optcopy_no_options: "optcopy (frag_header h f n @ rest) = Some (Inr [])" if "length h = 20" "h ! 0 = 0x45"
proof -
  have "read8 (frag_header h f n @ rest) 0 = Inr 0x45"
    using that frag_header_valid [OF that] by (simp add: read8_def valid_header_def nth_append)
  then show ?thesis by (simp add: optcopy_def optcopy_loop.simps)
qed

text \<open>Writing a field of a header behind its first byte keeps that byte and what follows the first 20.\<close>

definition header_kept :: "byte list \<Rightarrow> byte list \<Rightarrow> bool" where
  "header_kept ip ip' \<longleftrightarrow> length ip' = length ip \<and> ip' ! 0 = ip ! 0 \<and> drop 20 ip' = drop 20 ip"

lemma write16_kept:
  assumes "20 \<le> length ip" and "0 < i" and "i \<le> 18"
  obtains ip' where "write16 ip i v = Inr ip'" and "header_kept ip ip'"
proof
  show "write16 ip i v = Inr (take i ip @ bytes16 v @ drop (i + 2) ip)"
    using assms by (simp add: write_bytes_def)
  have "drop 20 (take i ip @ bytes16 v @ drop (i + 2) ip) = drop 20 ip"
    using assms by (simp add: drop_append)
  then show "header_kept ip (take i ip @ bytes16 v @ drop (i + 2) ip)"
    using assms by (simp add: header_kept_def nth_append)
qed

lemma header_kept_trans: "header_kept a b \<Longrightarrow> header_kept b c \<Longrightarrow> header_kept a c"
  by (simp add: header_kept_def)

lemma first_header_kept:
  assumes l: "20 \<le> length ip"
  obtains ip' where "first_header random hlen n ip = Inr ip'" and "header_kept ip ip'"
proof -
  have r: "\<exists>w. read16 a 6 = Inr w" if "20 \<le> length a" for a using that by (simp add: read16_def)
  obtain o1 where o1: "read16 ip 6 = Inr o1" using r [OF l] by blast
  obtain a where a: "(if o1 AND htons IP_DF \<noteq> 0
      then ebind (write16 ip 4 random) (\<lambda>ip. write16 ip 6 (o1 AND NOT (htons IP_DF))) else Inr ip) = Inr a" "header_kept ip a"
  proof (cases "o1 AND htons IP_DF \<noteq> 0")
    case True
    obtain b where b: "write16 ip 4 random = Inr b" "header_kept ip b" using write16_kept [OF l, of 4] by auto
    then have "20 \<le> length b" using l by (simp add: header_kept_def)
    then obtain c where c: "write16 b 6 (o1 AND NOT (htons IP_DF)) = Inr c" "header_kept b c"
      using write16_kept [of b 6] by auto
    show thesis by (rule that [of c]) (simp_all add: True b(1) c(1) header_kept_trans [OF b(2) c(2)])
  next
    case False
    show thesis by (rule that [of ip]) (insert False, simp_all add: header_kept_def)
  qed
  have la: "20 \<le> length a" using a(2) l by (simp add: header_kept_def)
  obtain b where b: "write16 a 2 (htons (of_nat (hlen + n))) = Inr b" "header_kept a b" using write16_kept [OF la, of 2] by auto
  have lb: "20 \<le> length b" using b(2) la by (simp add: header_kept_def)
  obtain o2 where o2: "read16 b 6 = Inr o2" using r [OF lb] by blast
  obtain c where c: "write16 b 6 (o2 OR htons IP_MF) = Inr c" "header_kept b c" using write16_kept [OF lb, of 6] by auto
  have lc: "20 \<le> length c" using c(2) lb by (simp add: header_kept_def)
  obtain d where d: "write16 c 10 0 = Inr d" "header_kept c d" using write16_kept [OF lc, of 10] by auto
  have ld: "20 \<le> length d" using d(2) lc by (simp add: header_kept_def)
  obtain e where e: "write16 d 10 (click_in_cksum (take hlen d)) = Inr e" "header_kept d e" using write16_kept [OF ld, of 10] by auto
  have "first_header random hlen n ip = Inr e"
    by (simp only: first_header_def o1 a(1) b(1) o2 c(1) fill_checksum_def d(1) e(1) ebind_simps)
  moreover have "header_kept ip e" using a(2) b(2) c(2) d(2) e(2) by (simp add: header_kept_def)
  ultimately show thesis by (rule that)
qed

lemma nh_view_set:
  assumes "network_header p = Some off" and "off \<le> length (buffer p)" and "length v = length (buffer p) - off"
  shows "nh_view (set_buffer (take off (buffer p) @ v) p) = Inr v"
    and "network_header (set_buffer (take off (buffer p) @ v) p) = Some off"
proof -
  have b: "buffer (set_buffer bs p) = bs" if "length bs = length (buffer p)" for bs
  proof -
    let ?h = "length (headroom_bytes p)"
    have "take ?h bs @ take (plength p) (drop ?h bs) @ drop (?h + plength p) bs = bs"
      by (metis add.commute append_take_drop_id drop_drop)
    then show ?thesis by (simp add: buffer_def set_buffer_def Let_def)
  qed
  show "network_header (set_buffer (take off (buffer p) @ v) p) = Some off"
    using assms(1) by (simp add: set_buffer_def Let_def)
  then show "nh_view (set_buffer (take off (buffer p) @ v) p) = Inr v"
    using b [of "take off (buffer p) @ v"] assms by (simp add: nh_view_def)
qed

text \<open>The first fragment: the new header and as much data as fits.\<close>

lemma cut_first_ok:
  assumes "framed p hdr body" and "k \<le> length body" and "length body < 65536"
  shows "\<exists>q. cut_first 20 k p = Inr q \<and> pdata q = hdr @ take k body \<and> network_header q = network_header p \<and>
     headroom_bytes q = headroom_bytes p \<and> dst_ip_anno q = dst_ip_anno p"
proof -
  have f: "pdata p = hdr @ body" "length hdr = 20" "network_header p = Some (length (headroom_bytes p))"
    using assms(1) by (simp_all add: framed_def)
  have n: "(int (plength p) - (int (length (headroom_bytes p)) - int (length (headroom_bytes p))) - int 20 - int k) mod 2 ^ 32 =
      int (length body - k)"
    using assms(2,3) f(1,2) by (simp add: of_nat_diff)
  have "cut_first 20 k p = Inr (packet_take (length body - k) p)"
    by (simp only: cut_first_def f(3) option.case Let_def n nat_int)
  moreover have "pdata (packet_take (length body - k) p) = hdr @ take k body"
    using assms(2) f(1,2) by (simp add: packet_take_def Let_def) linarith
  ultimately show ?thesis by (simp add: packet_take_keeps) (simp add: packet_take_def Let_def)
qed

lemma frag_datas_valid:
  assumes "length h = 20" and "h ! 0 = 0x45" and "\<forall>d \<in> set ds. length d \<le> k" and "x \<in> set (frag_datas h f mf ds)"
  shows "length x \<le> 20 + k \<and> valid_header (take 20 x)"
  using assms(3,4)
proof (induction ds arbitrary: f)
  case (Cons d ds)
  show ?case
  proof (cases "x \<in> set (frag_datas h (f + length d div 8) mf ds)")
    case False
    with Cons.prems(2) obtain g where "x = frag_header h g (length d) @ d" by auto
    with Cons.prems(1) show ?thesis
      using frag_header_valid [OF assms(1,2), of g "length d"] by (simp add: length_frag_header assms(1))
  qed (use Cons in auto)
qed simp

text \<open>A packet that is too long and may be fragmented, cut up.\<close>

lemma fragment_pieces:
  assumes "has_memory mem" and "\<not> shared p" and "framed p h body" and "h ! 0 = 0x45"
    and "transport_header p = Some (length (headroom_bytes p) + 20)"
    and "read16 h 2 = Inr (htons (of_nat (20 + length body)))" and "20 + length body < 65536"
    and "read16 h 6 = Inr (htons (of_nat f + (if mf then IP_MF else 0)))" and "f + length body div 8 < 8192"
    and "28 \<le> fr_mtu e" and "fr_mtu e < 20 + length body"
  shows "\<exists>e' qs ds. frag_push mem random e p = Some (Inr (e', map (Pair 0) qs)) \<and>
     pieces ((fr_mtu e - 20) div 8 * 8) body ds \<and> map pdata qs = frag_datas h f mf ds \<and>
     (\<forall>q \<in> set qs. plength q \<le> fr_mtu e \<and> valid_header (take 20 (pdata q)))"
proof -
  let ?k = "(fr_mtu e - 20) div 8 * 8" and ?x = "of_nat f + (if mf then IP_MF else 0) :: u16"
  let ?h = "frag_header h (of_nat f + IP_MF) ?k"
  define p1 where "p1 = p\<lparr> pdata := ?h @ body \<rparr>"
  have l: "length h = 20" using assms(3) by (simp add: framed_def)
  have k: "8 \<le> ?k" using div_le_mono [of 8 "fr_mtu e - 20" 8] assms(10) by simp
  have "?k \<le> fr_mtu e - 20" by simp
  then have kb: "?k < length body" and km: "20 + ?k \<le> fr_mtu e" using assms(10,11) by linarith+
  have f: "f < 8192" using assms(9) by simp
  note fl = offset_flags [OF f]
  have x: "?x AND IP_DF = 0" "?x OR IP_MF = of_nat f + IP_MF" "?x AND IP_MF \<noteq> 0 \<longleftrightarrow> mf"
    using fl by (simp_all split: if_split)
  have fr: "framed p1 ?h body" and sh: "\<not> shared p1" and tr: "transport_header p1 = Some (length (headroom_bytes p1) + 20)"
    using assms(2,3,5) l by (simp_all add: p1_def framed_def length_frag_header shared_def)
  have "on_nh (first_header random 20 ?k) p = Inr p1"
    unfolding p1_def using assms(3,8) first_header_ok [OF l _ x(1), of random ?k "body @ tailroom_bytes p"] x(2)
    by (intro on_nh_framed) (simp_all add: length_frag_header l)
  note fh = this
  let ?ip = "h @ body @ tailroom_bytes p"
  have ip: "nh_view p = Inr ?ip" using assms(3) by (simp add: nh_view_def framed_def buffer_def)
  have rd: "read8 ?ip 0 = Inr 0x45" "read16 ?ip 2 = Inr (htons (of_nat (20 + length body)))" "read16 ?ip 6 = Inr (htons ?x)"
    using assms(4,6,8) l by (simp_all add: read_append_left) (simp add: read8_def)
  obtain first where c: "cut_first 20 ?k (fst (clone p1)) = Inr first" "pdata first = ?h @ take ?k body"
    using cut_first_ok [of "fst (clone p1)" ?h body ?k] fr kb assms(7) by (auto simp: clone_def framed_def)
  have v: "nh_view (snd (clone p1)) = Inr (?h @ body @ tailroom_bytes p1)"
    using fr by (simp add: nh_view_def clone_def framed_def buffer_def)
  have cb: "carries_body (snd (clone p1)) body"
    using fr tr by (auto simp: carries_body_def clone_def framed_def buffer_def)
  obtain qs ds where q: "frag_loop mem e (snd (clone p1)) (?h @ body @ tailroom_bytes p1) [] mf (int (length body)) (int ?k) = Some (Inr qs)"
      "pieces ?k (drop ?k body) ds" "map pdata qs = frag_datas h (f + ?k div 8) mf ds"
    using frag_loop_ok [OF assms(1) l assms(4) cb assms(10,9) mod_mult_self2_is_0 kb] by blast
  have d: "(int (fr_mtu e) - int 20) div 8 * 8 = int ?k"
    using assms(10) by (simp add: zdiv_int of_nat_diff)
  have il: "int (unat (ntohs (htons (of_nat (20 + length body))))) - int 20 = int (length body)"
    using unat_htons_of_nat [OF assms(7)] by (simp del: of_nat_add htons_htons)
  have g: "(htons ?x AND htons IP_DF \<noteq> 0 \<and> fr_honor_df e \<or> int ?k < 8) = False" "(htons ?x AND htons IP_MF \<noteq> 0) = mf"
    using x k by (simp_all add: htons_and)
  have tw: "5 * 4 = (20 :: nat)" by simp
  have "fragment mem random e p =
      Some (Inr (e\<lparr> fr_fragments := fr_fragments e + 1 + length qs \<rparr>, (0, first) # map (Pair 0) qs))"
    by (simp only: fragment_def ip rd dbind_simps Let_def header_fields d il g if_False uniqueify_unshared [OF assms(2)]
        option.case nat_int fh case_prod_beta c(1) v optcopy_no_options [OF l assms(4)] q(1) tw)
  moreover have "network_length p = int (20 + length body)" "network_header p \<noteq> None"
    using assms(3) by (simp_all add: network_length_def framed_def)
  ultimately have fp: "frag_push mem random e p =
      Some (Inr (e\<lparr> fr_fragments := fr_fragments e + 1 + length qs \<rparr>, map (Pair 0) (first # qs)))"
    using assms(11) by (simp add: frag_push_def)
  have dn: "ds \<noteq> []" using q(2) kb by (auto simp: pieces_def)
  have pc: "pieces ?k body (take ?k body # ds)"
    using pieces_Cons [OF q(2), of "take ?k body"] k kb by (simp add: min_def)
  have fd: "map pdata (first # qs) = frag_datas h f mf (take ?k body # ds)"
    using c(2) q(3) dn kb by (simp add: min_def)
  have "plength y \<le> fr_mtu e \<and> valid_header (take 20 (pdata y))" if "y \<in> set (first # qs)" for y
  proof -
    have "pdata y \<in> set (frag_datas h f mf (take ?k body # ds))" using that unfolding fd [symmetric] by auto
    moreover have "\<forall>d \<in> set (take ?k body # ds). length d \<le> ?k" using pc by (simp add: pieces_def)
    ultimately have "plength y \<le> 20 + ?k \<and> valid_header (take 20 (pdata y))"
      by (rule frag_datas_valid [OF l assms(4), rotated])
    with km show ?thesis by linarith
  qed
  with fp pc fd show ?thesis by blast
qed

section \<open>Properties\<close>

text \<open>
  C13. Fragments can be put together again. A packet without options that is longer than the MTU and may be fragmented is sent as a
  series of packets, each no longer than the MTU and with a header that verifies, whose data are the pieces of the
  original data in order; their offset fields are the positions of the pieces in units of eight bytes,
  counted from the original offset, and the flag for more fragments is set in all but the last,
  where it is what it was in the original.
\<close>

theorem fragment_reassembles:
  assumes "has_memory mem" and "\<not> shared p" and "framed p h body" and "h ! 0 = 0x45"
    and "transport_header p = Some (length (headroom_bytes p) + 20)"
    and "read16 h 2 = Inr (htons (of_nat (20 + length body)))" and "20 + length body < 65536"
    and "read16 h 6 = Inr (htons (of_nat f + (if mf then IP_MF else 0)))" and "f + length body div 8 < 8192"
    and "28 \<le> fr_mtu e" and "fr_mtu e < 20 + length body"
  shows "\<exists>e' qs ds. frag_push mem random e p = Some (Inr (e', map (Pair 0) qs)) \<and>
     pieces ((fr_mtu e - 20) div 8 * 8) body ds \<and> map pdata qs = frag_datas h f mf ds \<and>
     (\<forall>q \<in> set qs. plength q \<le> fr_mtu e \<and> valid_header (take 20 (pdata q)))"
  using assms by (rule fragment_pieces)

text \<open>A packet of the given data length with the header of \<^verbatim>\<open>IPEncap\<close>, as \<^verbatim>\<open>CheckIPHeader\<close> leaves it.\<close>

definition ex_long_header :: "nat \<Rightarrow> byte list" where
  "ex_long_header n = [0x45, 0] @ bytes16 (htons (of_nat (20 + n))) @ [0, 0, 0, 0, 64, 17, 0, 0, 192, 168, 1, 1, 192, 168, 2, 1]"

definition ex_long_packet :: "nat \<Rightarrow> packet" where
  "ex_long_packet n = ex_packet\<lparr> pdata := ex_long_header n @ replicate n 0, transport_header := Some 20, data_packet := None \<rparr>"

definition ex_fragmenter :: ip_fragmenter where
  "ex_fragmenter = \<lparr> fr_honor_df = True, fr_mtu = 1500, fr_headroom = 28, fr_drops = 0, fr_fragments = 0, fr_noutputs = 2 \<rparr>"

theorem fragment_reassembles_witness:
  "\<exists>e' qs ds. frag_push ex_mem 0 ex_fragmenter (ex_long_packet 4000) = Some (Inr (e', map (Pair 0) qs)) \<and>
     pieces 1480 (replicate 4000 0) ds \<and> map pdata qs = frag_datas (ex_long_header 4000) 0 False ds"
proof -
  have "framed (ex_long_packet 4000) (ex_long_header 4000) (replicate 4000 0)" "\<not> shared (ex_long_packet 4000)"
    "transport_header (ex_long_packet 4000) = Some (length (headroom_bytes (ex_long_packet 4000)) + 20)"
    by (simp_all add: framed_def ex_long_packet_def ex_packet_def ex_long_header_def shared_def)
  moreover have "ex_long_header 4000 ! 0 = 0x45" by (simp add: ex_long_header_def)
  moreover have "read16 (ex_long_header 4000) 2 = Inr (htons (of_nat (20 + length (replicate 4000 (0 :: byte)))))"
    by (simp add: ex_long_header_def read_append read_head read16_def bytes16_def)
  moreover have "read16 (ex_long_header 4000) 6 = Inr (htons (of_nat 0 + (if False then IP_MF else 0)))"
    by (simp add: ex_long_header_def read16_def le16_def bytes16_def htons_def)
  ultimately show ?thesis
    using fragment_reassembles [OF ex_mem_ok, of "ex_long_packet 4000" "ex_long_header 4000" "replicate 4000 0" 0 False ex_fragmenter 0]
    by (simp add: ex_fragmenter_def) blast
qed

text \<open>
  C16. A packet with options is never fragmented: \<open>optcopy\<close> does not advance to the next option, so a packet that is too
  long for the MTU, may be fragmented, and whose first option does not end the loop at once keeps the element busy forever.
\<close>

theorem fragment_options_diverge:
  assumes "\<not> shared p" and "nh_view p = Inr ip" and "ip_hl (ip ! 0) * 4 \<le> length ip" and "5 < ip_hl (ip ! 0)"
    and "le16 (ip ! 6) (ip ! 7) AND htons IP_DF = 0 \<or> \<not> fr_honor_df e" and "ip_hl (ip ! 0) * 4 + 8 \<le> fr_mtu e"
    and "int (fr_mtu e) < network_length p" and "opts_stuck (drop 20 ip) (ip_hl (ip ! 0) * 4 - 20)"
  shows "frag_push mem random e p = None"
proof -
  let ?hl = "ip_hl (ip ! 0) * 4"
  let ?k = "(int (fr_mtu e) - int ?hl) div 8 * 8"
  obtain off where nh: "network_header p = Some off" and ip: "ip = drop off (buffer p)"
    using assms(2) by (auto simp: nh_view_def split: option.splits)
  have l: "20 \<le> length ip" using assms(3,4) by linarith
  then have ob: "off \<le> length (buffer p)" by (simp add: ip)
  have rd: "read8 ip 0 = Inr (ip ! 0)" "read16 ip 2 = Inr (le16 (ip ! 2) (ip ! 3))" "read16 ip 6 = Inr (le16 (ip ! 6) (ip ! 7))"
    using l by (auto simp: read8_def read16_def)
  obtain ip' where fh: "first_header random ?hl (nat ?k) ip = Inr ip'" and kept: "header_kept ip ip'"
    using first_header_kept [OF l] by blast
  define p1 where "p1 = set_buffer (take off (buffer p) @ ip') p"
  have "length ip' = length (buffer p) - off" using kept by (simp add: header_kept_def ip)
  note v = nh_view_set [OF nh ob this, folded p1_def]
  have on: "on_nh (first_header random ?hl (nat ?k)) p = Inr p1"
    using fh by (simp add: on_nh_def nh ip p1_def)
  have "opts_stuck (drop 20 ip') (ip_hl (ip' ! 0) * 4 - 20)" using assms(8) kept by (simp add: header_kept_def)
  moreover have "read8 ip' 0 = Inr (ip' ! 0)" using kept l by (auto simp: read8_def header_kept_def)
  ultimately have oc: "optcopy ip' = None" by (simp add: optcopy_def optcopy_loop_stuck)
  have "8 \<le> int (fr_mtu e) - int ?hl" using assms(6) by linarith
  then have "8 \<le> ?k" using zdiv_mono1 [of 8 "int (fr_mtu e) - int ?hl" 8] by simp
  then have g: "(le16 (ip ! 6) (ip ! 7) AND htons IP_DF \<noteq> 0 \<and> fr_honor_df e \<or> ?k < 8) = False" using assms(5) by auto
  have cl: "nh_view (snd (clone p1)) = Inr ip'" "\<exists>q. cut_first ?hl (nat ?k) (fst (clone p1)) = Inr q"
    using v by (simp_all add: clone_def nh_view_def buffer_def cut_first_def Let_def)
  then obtain first where c: "cut_first ?hl (nat ?k) (fst (clone p1)) = Inr first" by blast
  have "fragment mem random e p = None"
    by (simp only: fragment_def assms(2) rd dbind_simps Let_def g if_False uniqueify_unshared [OF assms(1)] option.case on
        case_prod_beta c cl(1) oc)
  then show ?thesis using assms(7) nh by (simp add: frag_push_def)
qed

theorem fragment_options_diverge_witness:
  "\<exists>p. frag_push ex_mem 0 ex_fragmenter p = None"
proof -
  let ?ip = "[0x46, 0, 6, 0, 0, 0, 0, 0, 64, 17, 0, 0, 192, 168, 1, 1, 192, 168, 2, 1, 1, 1, 1, 0] @ replicate 1600 0"
  let ?p = "ex_packet\<lparr> pdata := ?ip, data_packet := None \<rparr>"
  have "ip_hl (?ip ! 0) = 6" by (simp add: ip_hl_def)
  moreover have "nh_view ?p = Inr ?ip" "network_length ?p = 1624" "\<not> shared ?p"
    by (simp_all add: nh_view_def network_length_def ex_packet_def buffer_def shared_def)
  moreover have "opts_stuck (drop 20 ?ip) 4" by (simp add: opts_stuck_def)
  moreover have "le16 (?ip ! 6) (?ip ! 7) AND htons IP_DF = 0" by (simp add: le16_def)
  ultimately have "frag_push ex_mem 0 ex_fragmenter ?p = None"
    using fragment_options_diverge [of ?p ?ip ex_fragmenter ex_mem 0] by (simp add: ex_fragmenter_def)
  then show ?thesis by blast
qed

end
