(* ===== verification/Unicast_Path.thy ===== *)
theory Unicast_Path
  imports Click_ICMP Click_Fragmenter Click_RouteTable
begin

text \<open>
  The way of unicast packets through the router (\<^verbatim>\<open>scripts/routers/router.click\<close>): behind the output of the
  routing table for an interface, \<^verbatim>\<open>DropBroadcasts -> PaintTee -> IPGWOptions -> FixIPSrc -> DecIPTTL ->
  IPFragmenter\<close> lead to the interface's \<^verbatim>\<open>ARPQuerier\<close>, and the second outputs of these elements to \<^verbatim>\<open>ICMPError\<close>
  elements whose messages go back to the routing table.
\<close>

section \<open>The path of one interface\<close>

text \<open>Where a packet leaves the path: to the ARP querier or to one of the error elements.\<close>

datatype way = To_arp | Redirect | Param_problem | Time_exceeded | Need_frag

record interface =
  if_bcast_drops :: nat
  if_color :: u8
  if_gw :: ip_gw_options
  if_addr :: ipaddr
  if_ttl :: dec_ip_ttl
  if_frag :: ip_fragmenter

definition forward_path ::
  "allocator \<Rightarrow> u32 \<Rightarrow> u16 \<Rightarrow> interface \<Rightarrow> packet \<Rightarrow> (interface \<times> (way \<times> packet) list) run" where
  "forward_path mem ms random i p =
     (case dropbroadcasts_simple_action 1 (if_bcast_drops i) p of (drops, q, _) \<Rightarrow>
      (let i = i\<lparr> if_bcast_drops := drops \<rparr> in
       case q of
         None \<Rightarrow> Some (Inr (i, []))
       | Some p \<Rightarrow>
           (case painttee_simple_action (if_color i) p of (p, tee) \<Rightarrow>
            (let red = map (\<lambda>(_, c). (Redirect, c)) tee in
             dbind (ipgw_simple_action mem ms (if_gw i) p) (\<lambda>(gw, q, bad).
             let i = i\<lparr> if_gw := gw \<rparr> in
             case q of
               None \<Rightarrow> Some (Inr (i, red @ map (\<lambda>(_, c). (Param_problem, c)) bad))
             | Some p \<Rightarrow>
                 dbind (fixipsrc_simple_action mem (if_addr i) p) (\<lambda>p.
                 dbind (decipttl_simple_action mem (if_ttl i) p) (\<lambda>(ttl, q, expired).
                 let i = i\<lparr> if_ttl := ttl \<rparr> in
                 case q of
                   None \<Rightarrow> Some (Inr (i, red @ map (\<lambda>(_, c). (Time_exceeded, c)) expired))
                 | Some p \<Rightarrow>
                     rbind (frag_push mem random (if_frag i) p) (\<lambda>(fr, outs).
                     Some (Inr (i\<lparr> if_frag := fr \<rparr>,
                       red @ map (\<lambda>(port, c). (if port = 0 then To_arp else Need_frag, c)) outs))))))))))"

section \<open>What the path does\<close>

text \<open>A packet the path has nothing to object to: for this host, of another color, with a plain header that verifies.\<close>

definition plain :: "interface \<Rightarrow> packet \<Rightarrow> byte list \<Rightarrow> byte list \<Rightarrow> bool" where
  "plain i p h body \<longleftrightarrow> \<not> shared p \<and> framed p h body \<and> valid_header h \<and>
     transport_header p = Some (length (headroom_bytes p) + 20) \<and>
     packet_type_anno p \<noteq> BROADCAST \<and> packet_type_anno p \<noteq> MULTICAST \<and> paint_anno p \<noteq> if_color i \<and> \<not> fix_ip_src_anno p \<and>
     ttl_active (if_ttl i) \<and> ttl_multicast (if_ttl i)"

lemma plain_start:
  assumes "plain i p h body"
  shows "dropbroadcasts_simple_action 1 (if_bcast_drops i) p = (if_bcast_drops i, Some p, [])"
    "painttee_simple_action (if_color i) p = (p, [])" "ipgw_simple_action mem ms e p = Inr (e, Some p, [])"
    "fixipsrc_simple_action mem a p = Inr p"
proof -
  show "dropbroadcasts_simple_action 1 (if_bcast_drops i) p = (if_bcast_drops i, Some p, [])"
    "painttee_simple_action (if_color i) p = (p, [])" "fixipsrc_simple_action mem a p = Inr p"
    using assms by (auto simp: plain_def dropbroadcasts_simple_action_def painttee_simple_action_def fixipsrc_simple_action_def)
  have f: "framed p h body" "length h = 20" "h ! 0 = 0x45" using assms by (simp_all add: plain_def framed_def valid_header_def)
  then have "nh_view p = Inr (h @ body @ tailroom_bytes p)" "network_header p \<noteq> None"
    by (simp_all add: framed_def nh_view_def buffer_def)
  moreover have "read8 (h @ body @ tailroom_bytes p) 0 = Inr 0x45" using f(2,3) by (auto simp: read8_def nth_append)
  ultimately show "ipgw_simple_action mem ms e p = Inr (e, Some p, [])" by (simp add: ipgw_simple_action_def)
qed

lemma forward_path_plain:
  assumes "plain i p h body"
  shows "forward_path mem ms random i p =
     dbind (decipttl_simple_action mem (if_ttl i) p) (\<lambda>(ttl, q, expired). case q of
         None \<Rightarrow> Some (Inr (i\<lparr> if_ttl := ttl \<rparr>, map (\<lambda>(_, c). (Time_exceeded, c)) expired))
       | Some p \<Rightarrow> rbind (frag_push mem random (if_frag i) p) (\<lambda>(fr, outs).
           Some (Inr (i\<lparr> if_ttl := ttl, if_frag := fr \<rparr>, map (\<lambda>(port, c). (if port = 0 then To_arp else Need_frag, c)) outs))))"
  unfolding forward_path_def
  by (simp add: plain_start [OF assms] plain_start(1) [OF assms, simplified] Let_def cong: prod.case_cong option.case_cong)


definition ex_interface :: interface where
  "ex_interface = \<lparr> if_bcast_drops = 0, if_color = 2, if_gw = ex_gw, if_addr = ip_quad 192 168 2 254,
     if_ttl = \<lparr> ttl_active = True, ttl_multicast = True, ttl_drops = 0, ttl_noutputs = 2 \<rparr>, if_frag = ex_fragmenter \<rparr>"


end
