(* ===== verification/Click_Sort.thy ===== *)
theory Click_Sort
  imports Prelude "HOL-Library.Multiset"
begin

text \<open>
  \<^verbatim>\<open>click_qsort\<close> (\<^verbatim>\<open>click/lib/glue.cc\<close>), Click's version of the quicksort of Bentley and McIlroy. The array is a list, a pointer
  into it an index, and the comparison function any function to \<open>int\<close>: the sort must end and keep the elements even when
  the comparison is no order. The pointers \<open>pc\<close> and \<open>pd\<close>, which walk down, are kept one past the element they point to.
  The explicit stack of subranges is a list with its top first; its capacity and the assertion that guards it are in the model.
\<close>

section \<open>The algorithm\<close>

definition cq_swap :: "nat \<Rightarrow> nat \<Rightarrow> 'a list \<Rightarrow> 'a list" where
  "cq_swap i j xs = xs[i := xs ! j, j := xs ! i]"

fun cq_swapfunc :: "nat \<Rightarrow> nat \<Rightarrow> nat \<Rightarrow> 'a list \<Rightarrow> 'a list" where
  "cq_swapfunc i j 0 xs = xs"
| "cq_swapfunc i j (Suc n) xs = cq_swapfunc (Suc i) (Suc j) n (cq_swap i j xs)"

definition cq_med3 :: "('a \<Rightarrow> 'a \<Rightarrow> int) \<Rightarrow> 'a list \<Rightarrow> nat \<Rightarrow> nat \<Rightarrow> nat \<Rightarrow> nat" where
  "cq_med3 cmp xs a b c =
     (let ab = cmp (xs ! a) (xs ! b); bc = cmp (xs ! b) (xs ! c) in
      if ab < 0 then (if bc < 0 then b else if cmp (xs ! a) (xs ! c) < 0 then c else a)
      else (if bc > 0 then b else if cmp (xs ! a) (xs ! c) > 0 then c else a))"

text \<open>Insertion sort of the range from \<open>a\<close> up to \<open>e\<close>: the inner loop and the outer one.\<close>

fun ins_down :: "('a \<Rightarrow> 'a \<Rightarrow> int) \<Rightarrow> nat \<Rightarrow> nat \<Rightarrow> 'a list \<Rightarrow> 'a list" where
  "ins_down cmp a 0 xs = xs"
| "ins_down cmp a (Suc j) xs =
     (if Suc j > a \<and> cmp (xs ! j) (xs ! Suc j) > 0 then ins_down cmp a j (cq_swap (Suc j) j xs) else xs)"

function ins_sort :: "('a \<Rightarrow> 'a \<Rightarrow> int) \<Rightarrow> nat \<Rightarrow> nat \<Rightarrow> nat \<Rightarrow> 'a list \<Rightarrow> 'a list" where
  "ins_sort cmp a e pi xs = (if pi < e then ins_sort cmp a e (Suc pi) (ins_down cmp a pi xs) else xs)"
  by pat_completeness auto
termination by (relation "measure (\<lambda>(_, _, e, pi, _). e - pi)") auto

declare ins_sort.simps [simp del]

text \<open>The index of the pivot of a range with \<open>n \<ge> 7\<close> elements: the middle one, a median of three or a median of medians.\<close>

definition cq_pivot :: "('a \<Rightarrow> 'a \<Rightarrow> int) \<Rightarrow> 'a list \<Rightarrow> nat \<Rightarrow> nat \<Rightarrow> nat" where
  "cq_pivot cmp xs a n =
     (let pm = a + n div 2 in
      if n > 7 then
        (let p1 = a; p2 = a + (n - 1) in
         if n > 40 then
           (let off = n div 8;
                p1 = cq_med3 cmp xs p1 (p1 + off) (p1 + 2 * off);
                pm = cq_med3 cmp xs (pm - off) pm (pm + off);
                p2 = cq_med3 cmp xs (p2 - 2 * off) (p2 - off) p2
            in cq_med3 cmp xs p1 pm p2)
         else cq_med3 cmp xs p1 pm p2)
      else pm)"

text \<open>The two scans of the partition; elements equal to the pivot go to the ends of the range.\<close>

function scan_up :: "('a \<Rightarrow> 'a \<Rightarrow> int) \<Rightarrow> 'a \<Rightarrow> nat \<Rightarrow> nat \<times> nat \<times> 'a list \<Rightarrow> nat \<times> nat \<times> 'a list" where
  "scan_up cmp v pc (pa, pb, xs) =
     (if pb < pc \<and> cmp (xs ! pb) v \<le> 0
      then scan_up cmp v pc (if cmp (xs ! pb) v = 0 then (pa + 1, pb + 1, cq_swap pa pb xs) else (pa, pb + 1, xs))
      else (pa, pb, xs))"
  by pat_completeness auto
termination by (relation "measure (\<lambda>(_, _, pc, (_, pb, _)). pc - pb)") auto

function scan_down :: "('a \<Rightarrow> 'a \<Rightarrow> int) \<Rightarrow> 'a \<Rightarrow> nat \<Rightarrow> nat \<times> nat \<times> 'a list \<Rightarrow> nat \<times> nat \<times> 'a list" where
  "scan_down cmp v pb (pc, pd, xs) =
     (if pb < pc \<and> cmp (xs ! (pc - 1)) v \<ge> 0
      then scan_down cmp v pb
             (if cmp (xs ! (pc - 1)) v = 0 then (pc - 1, pd - 1, cq_swap (pc - 1) (pd - 1) xs) else (pc - 1, pd, xs))
      else (pc, pd, xs))"
  by pat_completeness auto
termination by (relation "measure (\<lambda>(_, _, pb, (pc, _, _)). pc - pb)") auto

declare scan_up.simps [simp del] scan_down.simps [simp del]

lemma scan_up_ge: "scan_up cmp v pc (pa, pb, xs) = (pa', pb', xs') \<Longrightarrow> pb \<le> pb'"
  by (induction cmp v pc "(pa, pb, xs)" arbitrary: pa pb xs rule: scan_up.induct)
     (subst (asm) scan_up.simps, fastforce split: if_splits)

lemma scan_down_le: "scan_down cmp v pb (pc, pd, xs) = (pc', pd', xs') \<Longrightarrow> pc' \<le> pc"
  by (induction cmp v pb "(pc, pd, xs)" arbitrary: pc pd xs rule: scan_down.induct)
     (subst (asm) scan_down.simps, fastforce split: if_splits)

function cq_partition ::
  "('a \<Rightarrow> 'a \<Rightarrow> int) \<Rightarrow> 'a \<Rightarrow> nat \<times> nat \<times> nat \<times> nat \<times> 'a list \<Rightarrow> nat \<times> nat \<times> nat \<times> nat \<times> 'a list" where
  "cq_partition cmp v (pa, pb, pc, pd, xs) =
     (case scan_up cmp v pc (pa, pb, xs) of (pa, pb, xs) \<Rightarrow>
      case scan_down cmp v pb (pc, pd, xs) of (pc, pd, xs) \<Rightarrow>
        if pc \<le> pb then (pa, pb, pc, pd, xs)
        else cq_partition cmp v (pa, pb + 1, pc - 1, pd, cq_swap pb (pc - 1) xs))"
  by pat_completeness auto
termination
proof (relation "measure (\<lambda>(_, _, (_, pb, pc, _, _)). pc - pb)", goal_cases)
  case prems: 2
  then show ?case by (auto dest!: sym [of "(_, _, _)"] scan_up_ge scan_down_le)
qed simp

declare cq_partition.simps [simp del]

text \<open>The whole treatment of a range of at least seven elements: the new array and the two subranges left to sort.\<close>

definition cq_split :: "('a \<Rightarrow> 'a \<Rightarrow> int) \<Rightarrow> nat \<Rightarrow> nat \<Rightarrow> 'a list \<Rightarrow> (nat \<times> nat) \<times> (nat \<times> nat) \<times> 'a list" where
  "cq_split cmp a e xs =
     (let xs = cq_swap a (cq_pivot cmp xs a (e - a)) xs in
      case cq_partition cmp (xs ! a) (a + 1, a + 1, e, e, xs) of (pa, pb, pc, pd, xs) \<Rightarrow>
        (let s = min (pa - a) (pb - pa); xs = cq_swapfunc a (pb - s) s xs;
             s = min (pd - pc) (e - pd); xs = cq_swapfunc pb (e - s) s xs
         in ((a, a + (pb - pa)), (e - (pd - pc), e), xs)))"

definition CQ_STACKSIZ :: nat where
  "CQ_STACKSIZ = (8 * 8 + 1) * 2"

text \<open>The ranges that go on the stack, the smaller on top; an empty one on top is left out.\<close>

definition push_ranges :: "nat \<times> nat \<Rightarrow> nat \<times> nat \<Rightarrow> (nat \<times> nat) list \<Rightarrow> (nat \<times> nat) list" where
  "push_ranges l r stack =
     (let (big, small) = (if snd r - fst r > snd l - fst l then (r, l) else (l, r))
      in if fst small = snd small then big # stack else small # big # stack)"


section \<open>The partition\<close>

text \<open>All elements of an index range satisfy a predicate.\<close>

definition within :: "('a \<Rightarrow> bool) \<Rightarrow> nat \<Rightarrow> nat \<Rightarrow> 'a list \<Rightarrow> bool" where
  "within P i j xs \<longleftrightarrow> (\<forall>k. i \<le> k \<and> k < j \<longrightarrow> P (xs ! k))"

lemma withinD: "within P i j xs \<Longrightarrow> i \<le> k \<Longrightarrow> k < j \<Longrightarrow> P (xs ! k)"
  by (simp add: within_def)

text \<open>A rearrangement of an array inside a range.\<close>

definition rearranged :: "nat \<Rightarrow> nat \<Rightarrow> 'a list \<Rightarrow> 'a list \<Rightarrow> bool" where
  "rearranged i j xs ys \<longleftrightarrow> mset ys = mset xs \<and> length ys = length xs \<and> (\<forall>k. k < i \<or> j \<le> k \<longrightarrow> ys ! k = xs ! k)"

lemma rearranged_refl [simp]: "rearranged i j xs xs"
  by (simp add: rearranged_def)

lemma rearranged_trans: "rearranged i j xs ys \<Longrightarrow> rearranged i j ys zs \<Longrightarrow> rearranged i j xs zs"
  by (simp add: rearranged_def)

lemma rearranged_mono: "rearranged i j xs ys \<Longrightarrow> i' \<le> i \<Longrightarrow> j \<le> j' \<Longrightarrow> rearranged i' j' xs ys"
  by (auto simp: rearranged_def)

lemma nth_cq_swap:
  "i < length xs \<Longrightarrow> j < length xs \<Longrightarrow> cq_swap i j xs ! k = (if k = i then xs ! j else if k = j then xs ! i else xs ! k)"
  by (simp add: cq_swap_def nth_list_update)

lemma length_cq_swap [simp]: "length (cq_swap i j xs) = length xs"
  by (simp add: cq_swap_def)

lemma cq_swap_rearranged:
  "i < length xs \<Longrightarrow> j < length xs \<Longrightarrow> i' \<le> i \<Longrightarrow> i' \<le> j \<Longrightarrow> i < j' \<Longrightarrow> j < j' \<Longrightarrow> rearranged i' j' xs (cq_swap i j xs)"
  by (auto simp: rearranged_def nth_cq_swap) (simp add: cq_swap_def mset_swap)

text \<open>
  The state of the partition of the range from \<open>a\<close> to \<open>e\<close> with pivot \<open>v\<close>, at index \<open>a\<close>: equal elements up to \<open>pa\<close>, smaller ones up
  to \<open>pb\<close>, the part not yet seen up to \<open>pc\<close>, greater ones up to \<open>pd\<close>, and equal ones again.
\<close>

definition part_inv :: "('a \<Rightarrow> 'a \<Rightarrow> int) \<Rightarrow> 'a \<Rightarrow> nat \<Rightarrow> nat \<Rightarrow> 'a list \<Rightarrow> nat \<times> nat \<times> nat \<times> nat \<times> 'a list \<Rightarrow> bool" where
  "part_inv cmp v a e ys = (\<lambda>(pa, pb, pc, pd, xs).
     rearranged (Suc a) e ys xs \<and> Suc a \<le> pa \<and> pa \<le> pb \<and> pb \<le> pc \<and> pc \<le> pd \<and> pd \<le> e \<and> e \<le> length ys \<and>
     within (\<lambda>x. cmp x v = 0) (Suc a) pa xs \<and> within (\<lambda>x. cmp x v < 0) pa pb xs \<and>
     within (\<lambda>x. cmp x v > 0) pc pd xs \<and> within (\<lambda>x. cmp x v = 0) pd e xs)"

lemma scan_up_inv:
  "scan_up cmp v pc (pa, pb, xs) = (pa', pb', xs') \<Longrightarrow> part_inv cmp v a e ys (pa, pb, pc, pd, xs) \<Longrightarrow>
     part_inv cmp v a e ys (pa', pb', pc, pd, xs') \<and> (pb' = pc \<or> cmp (xs' ! pb') v > 0)"
proof (induction cmp v pc "(pa, pb, xs)" arbitrary: pa pb xs rule: scan_up.induct)
  case (1 cmp v pc pa pb xs)
  show ?case
  proof (cases "pb < pc \<and> cmp (xs ! pb) v \<le> 0")
    case False
    then show ?thesis using "1.prems" by (subst (asm) scan_up.simps) (auto simp: part_inv_def)
  next
    case True
    have b: "Suc a \<le> pa" "pa \<le> pb" "pb < pc" "pc \<le> pd" "pd \<le> e" "e \<le> length xs"
      using "1.prems"(2) True by (auto simp: part_inv_def rearranged_def)
    show ?thesis
    proof (cases "cmp (xs ! pb) v = 0")
      case eq: True
      have r: "rearranged (Suc a) e xs (cq_swap pa pb xs)" using b by (intro cq_swap_rearranged) auto
      have n: "cq_swap pa pb xs ! k = (if k = pa then xs ! pb else if k = pb then xs ! pa else xs ! k)" for k
        using b by (intro nth_cq_swap) auto
      have "part_inv cmp v a e ys (pa + 1, pb + 1, pc, pd, cq_swap pa pb xs)"
        using "1.prems"(2) b eq rearranged_trans [OF _ r]
        by (auto simp: part_inv_def within_def n less_Suc_eq le_less_Suc_eq)
      with "1.hyps" [OF True, of "pa + 1" "pb + 1" "cq_swap pa pb xs"] "1.prems"(1) True eq show ?thesis
        by (subst (asm) (2) scan_up.simps) simp
    next
      case ne: False
      have "part_inv cmp v a e ys (pa, pb + 1, pc, pd, xs)"
        using "1.prems"(2) b ne True by (auto simp: part_inv_def within_def less_Suc_eq)
      with "1.hyps" [OF True, of pa "pb + 1" xs] "1.prems"(1) True ne show ?thesis
        by (subst (asm) (2) scan_up.simps) simp
    qed
  qed
qed

lemma scan_down_inv:
  "scan_down cmp v pb (pc, pd, xs) = (pc', pd', xs') \<Longrightarrow> part_inv cmp v a e ys (pa, pb, pc, pd, xs) \<Longrightarrow>
     part_inv cmp v a e ys (pa, pb, pc', pd', xs') \<and> (pc' = pb \<or> cmp (xs' ! (pc' - 1)) v < 0) \<and>
     (pb < pc' \<longrightarrow> xs' ! pb = xs ! pb)"
proof (induction cmp v pb "(pc, pd, xs)" arbitrary: pc pd xs rule: scan_down.induct)
  case (1 cmp v pb pc pd xs)
  show ?case
  proof (cases "pb < pc \<and> cmp (xs ! (pc - 1)) v \<ge> 0")
    case False
    then show ?thesis using "1.prems" by (subst (asm) scan_down.simps) (auto simp: part_inv_def)
  next
    case True
    have b: "Suc a \<le> pa" "pa \<le> pb" "pb < pc" "pc \<le> pd" "pd \<le> e" "e \<le> length xs"
      using "1.prems"(2) True by (auto simp: part_inv_def rearranged_def)
    have le: "pc' \<le> pc - 1"
      using "1.prems"(1) True by (subst (asm) scan_down.simps) (auto split: if_splits dest: scan_down_le)
    show ?thesis
    proof (cases "cmp (xs ! (pc - 1)) v = 0")
      case eq: True
      let ?ys = "cq_swap (pc - 1) (pd - 1) xs"
      have r: "rearranged (Suc a) e xs ?ys" using b by (intro cq_swap_rearranged) auto
      have n: "?ys ! k = (if k = pc - 1 then xs ! (pd - 1) else if k = pd - 1 then xs ! (pc - 1) else xs ! k)" for k
        using b by (intro nth_cq_swap) auto
      have g: "within (\<lambda>x. cmp x v > 0) pc pd xs" "within (\<lambda>x. cmp x v = 0) pd e xs"
        "within (\<lambda>x. cmp x v = 0) (Suc a) pa xs" "within (\<lambda>x. cmp x v < 0) pa pb xs"
        using "1.prems"(2) by (simp_all add: part_inv_def)
      have "within (\<lambda>x. cmp x v > 0) (pc - 1) (pd - 1) ?ys"
        unfolding within_def
      proof (intro allI impI)
        fix k assume k: "pc - 1 \<le> k \<and> k < pd - 1"
        show "cmp (?ys ! k) v > 0"
        proof (cases "k = pc - 1")
          case True
          then show ?thesis using withinD [OF g(1), of "pd - 1"] k unfolding n by simp
        next
          case False
          then have "pc \<le> k" "k < pd" using k by auto
          then show ?thesis using withinD [OF g(1), of k] False k unfolding n by simp
        qed
      qed
      moreover have "within (\<lambda>x. cmp x v = 0) (pd - 1) e ?ys"
        using g(2) eq b unfolding within_def n by auto
      moreover have "within (\<lambda>x. cmp x v = 0) (Suc a) pa ?ys" "within (\<lambda>x. cmp x v < 0) pa pb ?ys"
        using g(3,4) b unfolding within_def n by auto
      ultimately have "part_inv cmp v a e ys (pa, pb, pc - 1, pd - 1, ?ys)"
        using "1.prems"(2) b rearranged_trans [OF _ r] by (auto simp: part_inv_def)
      with "1.hyps" [OF True, of "pc - 1" "pd - 1" ?ys] "1.prems"(1) True eq le b n [of pb] show ?thesis
        by (subst (asm) (2) scan_down.simps) auto
    next
      case ne: False
      have "within (\<lambda>x. cmp x v > 0) (pc - 1) pd xs"
        unfolding within_def
      proof (intro allI impI)
        fix k assume "pc - 1 \<le> k \<and> k < pd"
        then show "cmp (xs ! k) v > 0"
          using "1.prems"(2) ne True by (cases "k = pc - 1") (auto simp: part_inv_def within_def)
      qed
      then have "part_inv cmp v a e ys (pa, pb, pc - 1, pd, xs)" using "1.prems"(2) b by (auto simp: part_inv_def)
      with "1.hyps" [OF True, of "pc - 1" pd xs] "1.prems"(1) True ne show ?thesis
        by (subst (asm) (2) scan_down.simps) simp
    qed
  qed
qed

lemma cq_partition_inv:
  "cq_partition cmp v (pa, pb, pc, pd, xs) = (pa', pb', pc', pd', xs') \<Longrightarrow> part_inv cmp v a e ys (pa, pb, pc, pd, xs) \<Longrightarrow>
     part_inv cmp v a e ys (pa', pb', pc', pd', xs') \<and> pc' = pb'"
proof (induction cmp v "(pa, pb, pc, pd, xs)" arbitrary: pa pb pc pd xs rule: cq_partition.induct)
  case (1 cmp v pa pb pc pd xs)
  obtain pa1 pb1 xs1 where up: "scan_up cmp v pc (pa, pb, xs) = (pa1, pb1, xs1)" by (metis prod_cases3)
  obtain pc2 pd2 xs2 where down: "scan_down cmp v pb1 (pc, pd, xs1) = (pc2, pd2, xs2)" by (metis prod_cases3)
  have i1: "part_inv cmp v a e ys (pa1, pb1, pc, pd, xs1)" and s1: "pb1 = pc \<or> cmp (xs1 ! pb1) v > 0"
    using scan_up_inv [OF up "1.prems"(2)] by auto
  have i2: "part_inv cmp v a e ys (pa1, pb1, pc2, pd2, xs2)" and s2: "pc2 = pb1 \<or> cmp (xs2 ! (pc2 - 1)) v < 0"
    and s3: "pb1 < pc2 \<longrightarrow> xs2 ! pb1 = xs1 ! pb1"
    using scan_down_inv [OF down i1] by auto
  have b: "Suc a \<le> pa1" "pa1 \<le> pb1" "pb1 \<le> pc2" "pc2 \<le> pd2" "pd2 \<le> e" "e \<le> length xs2"
    using i2 by (auto simp: part_inv_def rearranged_def)
  have step: "cq_partition cmp v (pa, pb, pc, pd, xs) =
      (if pc2 \<le> pb1 then (pa1, pb1, pc2, pd2, xs2)
       else cq_partition cmp v (pa1, pb1 + 1, pc2 - 1, pd2, cq_swap pb1 (pc2 - 1) xs2))"
    by (subst cq_partition.simps) (simp add: up down)
  show ?case
  proof (cases "pc2 \<le> pb1")
    case True
    then show ?thesis using "1.prems"(1) step i2 b by auto
  next
    case False
    let ?zs = "cq_swap pb1 (pc2 - 1) xs2"
    have "pc2 \<le> pc" by (rule scan_down_le [OF down])
    then have gt: "cmp (xs2 ! pb1) v > 0" and lt: "cmp (xs2 ! (pc2 - 1)) v < 0" using False s1 s2 s3 by auto
    then have ne: "pb1 \<noteq> pc2 - 1" by auto
    have n: "?zs ! k = (if k = pb1 then xs2 ! (pc2 - 1) else if k = pc2 - 1 then xs2 ! pb1 else xs2 ! k)" for k
      using b False by (intro nth_cq_swap) auto
    have r: "rearranged (Suc a) e xs2 ?zs" using b False by (intro cq_swap_rearranged) auto
    have w: "within (\<lambda>x. cmp x v < 0) pa1 pb1 xs2" "within (\<lambda>x. cmp x v > 0) pc2 pd2 xs2"
      "within (\<lambda>x. cmp x v = 0) (Suc a) pa1 xs2" "within (\<lambda>x. cmp x v = 0) pd2 e xs2"
      using i2 by (simp_all add: part_inv_def)
    have "cmp (?zs ! k) v < 0" if "pa1 \<le> k" "k < pb1 + 1" for k
      using that withinD [OF w(1), of k] lt ne False by (cases "k = pb1") (auto simp: n [simplified])
    moreover have "cmp (?zs ! k) v > 0" if "pc2 - 1 \<le> k" "k < pd2" for k
      using that withinD [OF w(2), of k] gt ne False by (cases "k = pc2 - 1") (auto simp: n [simplified])
    moreover have "?zs ! k = xs2 ! k" if "k < pb1 \<or> pc2 \<le> k" for k
      using that False unfolding n by auto
    ultimately have "within (\<lambda>x. cmp x v < 0) pa1 (pb1 + 1) ?zs" "within (\<lambda>x. cmp x v > 0) (pc2 - 1) pd2 ?zs"
      "within (\<lambda>x. cmp x v = 0) (Suc a) pa1 ?zs" "within (\<lambda>x. cmp x v = 0) pd2 e ?zs"
      using w(3,4) b by (auto simp: within_def)
    then have "part_inv cmp v a e ys (pa1, pb1 + 1, pc2 - 1, pd2, ?zs)"
      using i2 b False ne rearranged_trans [OF _ r] by (auto simp: part_inv_def)
    moreover have "cq_partition cmp v (pa1, pb1 + 1, pc2 - 1, pd2, ?zs) = (pa', pb', pc', pd', xs')"
      using "1.prems"(1) step False by simp
    ultimately show ?thesis
      using "1.hyps" [OF up [symmetric] refl down [symmetric] refl False] by blast
  qed
qed

text \<open>Exchanging two blocks that do not overlap.\<close>

lemma cq_swapfunc_ok:
  "i + n \<le> j \<Longrightarrow> j + n \<le> length xs \<Longrightarrow>
     rearranged i (j + n) xs (cq_swapfunc i j n xs) \<and>
     (\<forall>k. cq_swapfunc i j n xs ! k =
        xs ! (if i \<le> k \<and> k < i + n then k - i + j else if j \<le> k \<and> k < j + n then k - j + i else k))"
proof (induction i j n xs rule: cq_swapfunc.induct)
  case (2 i j n xs)
  let ?ys = "cq_swap i j xs"
  have r: "rearranged i (j + Suc n) xs ?ys" using "2.prems" by (intro cq_swap_rearranged) auto
  have n: "?ys ! k = (if k = i then xs ! j else if k = j then xs ! i else xs ! k)" for k
    using "2.prems" by (intro nth_cq_swap) auto
  have IH: "rearranged (Suc i) (Suc j + n) ?ys (cq_swapfunc (Suc i) (Suc j) n ?ys)"
    "cq_swapfunc (Suc i) (Suc j) n ?ys ! k =
       ?ys ! (if Suc i \<le> k \<and> k < Suc i + n then k - Suc i + Suc j else if Suc j \<le> k \<and> k < Suc j + n then k - Suc j + Suc i else k)" for k
    using "2.IH" "2.prems" by auto
  have "cq_swapfunc i j (Suc n) xs ! k =
      xs ! (if i \<le> k \<and> k < i + Suc n then k - i + j else if j \<le> k \<and> k < j + Suc n then k - j + i else k)" for k
    using "2.prems" by (auto simp: IH(2) n intro!: arg_cong [of _ _ "nth xs"] split: if_splits)
  moreover have "rearranged i (j + Suc n) xs (cq_swapfunc i j (Suc n) xs)"
    using rearranged_trans [OF r rearranged_mono [OF IH(1)]] by simp
  ultimately show ?case by blast
qed auto

text \<open>
  A block of one kind followed by a block of another kind, exchanged at the cost of the shorter one: first the block from \<open>j\<close> to \<open>k\<close>,
  then the one from \<open>i\<close> to \<open>j\<close>.
\<close>

lemma exchange_blocks:
  assumes "i \<le> j" "j \<le> k" "k \<le> length xs" and "within P i j xs" "within Q j k xs"
  defines "s \<equiv> min (j - i) (k - j)"
  defines "ys \<equiv> cq_swapfunc i (k - s) s xs"
  shows "rearranged i k xs ys" "within Q i (i + (k - j)) ys" "within P (i + (k - j)) k ys"
proof -
  have s: "i + s \<le> k - s" "k - s + s \<le> length xs" "s \<le> j - i" "s \<le> k - j" "s = j - i \<or> s = k - j" "k - s + s = k"
    using assms(1-3) by (auto simp: s_def)
  note r = cq_swapfunc_ok [OF s(1,2), folded ys_def, unfolded s(6)]
  then show "rearranged i k xs ys" by simp
  have n: "ys ! m = xs ! (if i \<le> m \<and> m < i + s then m - i + (k - s) else if k - s \<le> m \<and> m < k then m - (k - s) + i else m)" for m
    using r s by auto
  show "within Q i (i + (k - j)) ys" "within P (i + (k - j)) k ys"
    unfolding within_def
  proof (safe, goal_cases)
    case (1 m)
    let ?f = "if i \<le> m \<and> m < i + s then m - i + (k - s) else if k - s \<le> m \<and> m < k then m - (k - s) + i else m"
    have "j \<le> ?f" "?f < k" using 1 s assms(1-3) by (auto split: if_splits)
    then show ?case using withinD [OF assms(5), of ?f] unfolding n by simp
  next
    case (2 m)
    let ?f = "if i \<le> m \<and> m < i + s then m - i + (k - s) else if k - s \<le> m \<and> m < k then m - (k - s) + i else m"
    have "i \<le> ?f" "?f < j" using 2 s assms(1-3) by (auto split: if_splits)
    then show ?case using withinD [OF assms(4), of ?f] unfolding n by simp
  qed
qed

lemma cq_med3_cases: "cq_med3 cmp xs a b c \<in> {a, b, c}"
  by (auto simp: cq_med3_def Let_def)

lemma cq_pivot_range: "7 \<le> n \<Longrightarrow> a \<le> cq_pivot cmp xs a n \<and> cq_pivot cmp xs a n < a + n"
proof (cases "n > 40")
  case True
  let ?o = "n div 8" and ?pm = "a + n div 2" and ?p2 = "a + (n - 1)"
  have m: "cq_med3 cmp xs x y z \<in> {a..<a + n}" if "x \<in> {a..<a + n}" "y \<in> {a..<a + n}" "z \<in> {a..<a + n}" for x y z
    using that cq_med3_cases [of cmp xs x y z] by auto
  have off: "2 * ?o \<le> n div 2" "?o + n div 2 < n" "2 * ?o < n" using True by linarith+
  have "cq_pivot cmp xs a n = cq_med3 cmp xs (cq_med3 cmp xs a (a + ?o) (a + 2 * ?o))
      (cq_med3 cmp xs (?pm - ?o) ?pm (?pm + ?o)) (cq_med3 cmp xs (?p2 - 2 * ?o) (?p2 - ?o) ?p2)"
    using True by (simp add: cq_pivot_def Let_def)
  also have "\<dots> \<in> {a..<a + n}" using True off by (intro m) auto
  finally show ?thesis by simp
next
  case False
  moreover assume "7 \<le> n"
  ultimately show ?thesis using cq_med3_cases [of cmp xs a "a + n div 2" "a + (n - 1)"]
    by (auto simp: cq_pivot_def Let_def)
qed

text \<open>One round: smaller elements, the pivot with its equals, greater elements.\<close>

lemma cq_split_ok:
  assumes "a + 7 \<le> e" and "e \<le> length xs"
  shows "\<exists>m1 m2 ys v. cq_split cmp a e xs = ((a, m1), (m2, e), ys) \<and> rearranged a e xs ys \<and>
     a \<le> m1 \<and> m1 < m2 \<and> m2 \<le> e \<and> within (\<lambda>x. cmp x v < 0) a m1 ys \<and>
     within (\<lambda>x. cmp x v = 0 \<or> x = v) m1 m2 ys \<and> within (\<lambda>x. cmp x v > 0) m2 e ys \<and> v \<in> set xs"
proof -
  let ?p = "cq_pivot cmp xs a (e - a)"
  define x0 where "x0 = cq_swap a ?p xs"
  have p: "a \<le> ?p" "?p < e" using cq_pivot_range [of "e - a" a cmp xs] assms by auto
  then have r0: "rearranged a e xs x0" and l0: "length x0 = length xs"
    using assms by (auto simp: x0_def intro: cq_swap_rearranged)
  obtain pa pb pc pd x1 where part: "cq_partition cmp (x0 ! a) (a + 1, a + 1, e, e, x0) = (pa, pb, pc, pd, x1)"
    by (metis prod_cases5)
  have "part_inv cmp (x0 ! a) a e x0 (a + 1, a + 1, e, e, x0)"
    using assms l0 by (auto simp: part_inv_def within_def)
  from cq_partition_inv [OF part this] have i: "part_inv cmp (x0 ! a) a e x0 (pa, pb, pc, pd, x1)" and pc: "pc = pb" by auto
  have b: "Suc a \<le> pa" "pa \<le> pb" "pb \<le> pd" "pd \<le> e" "e \<le> length x1" and r1: "rearranged a e x0 x1" and "x1 ! a = x0 ! a"
    using i pc by (auto simp: part_inv_def rearranged_def)
  then have "cmp (x1 ! k) (x0 ! a) = 0 \<or> x1 ! k = x0 ! a" if "a \<le> k" "k < pa" for k
    using that i by (cases "k = a") (auto simp: part_inv_def within_def)
  then have w: "within (\<lambda>x. cmp x (x0 ! a) = 0 \<or> x = x0 ! a) a pa x1" "within (\<lambda>x. cmp x (x0 ! a) < 0) pa pb x1"
    "within (\<lambda>x. cmp x (x0 ! a) > 0) pb pd x1" "within (\<lambda>x. cmp x (x0 ! a) = 0 \<or> x = x0 ! a) pd e x1"
    using i pc by (simp_all add: part_inv_def within_def)
  define x2 where "x2 = cq_swapfunc a (pb - min (pa - a) (pb - pa)) (min (pa - a) (pb - pa)) x1"
  have "a \<le> pa" "pb \<le> length x1" using b by auto
  from exchange_blocks [OF this(1) b(2) this(2) w(1,2), folded x2_def]
  have r2: "rearranged a pb x1 x2" and w2: "within (\<lambda>x. cmp x (x0 ! a) < 0) a (a + (pb - pa)) x2"
    "within (\<lambda>x. cmp x (x0 ! a) = 0 \<or> x = x0 ! a) (a + (pb - pa)) pb x2" by auto
  have "x2 ! k = x1 ! k" if "pb \<le> k" for k using r2 that by (simp add: rearranged_def)
  then have "within (\<lambda>x. cmp x (x0 ! a) > 0) pb pd x2" "within (\<lambda>x. cmp x (x0 ! a) = 0 \<or> x = x0 ! a) pd e x2"
    using w(3,4) b by (auto simp: within_def)
  moreover define x3 where "x3 = cq_swapfunc pb (e - min (pd - pb) (e - pd)) (min (pd - pb) (e - pd)) x2"
  moreover have "e \<le> length x2" using r2 b by (simp add: rearranged_def)
  ultimately have r3: "rearranged pb e x2 x3" and w3: "within (\<lambda>x. cmp x (x0 ! a) = 0 \<or> x = x0 ! a) pb (pb + (e - pd)) x3"
    "within (\<lambda>x. cmp x (x0 ! a) > 0) (pb + (e - pd)) e x3"
    using exchange_blocks [OF b(3,4), of x2] by auto
  have k3: "x3 ! k = x2 ! k" if "k < pb" for k using r3 that by (simp add: rearranged_def)
  have m2: "pb + (e - pd) = e - (pd - pb)" using b by simp
  have "rearranged a e xs x3"
    using rearranged_trans [OF rearranged_trans [OF rearranged_trans [OF r0 r1] rearranged_mono [OF r2]] rearranged_mono [OF r3]] b by auto
  moreover have "cq_split cmp a e xs = ((a, a + (pb - pa)), (e - (pd - pb), e), x3)"
    unfolding cq_split_def x0_def [symmetric] Let_def part pc by (simp add: x2_def x3_def pc)
  moreover have "a + (pb - pa) < e - (pd - pb)" "a + (pb - pa) \<le> pb" using b by auto
  moreover have "within (\<lambda>x. cmp x (x0 ! a) < 0) a (a + (pb - pa)) x3"
    using w2(1) k3 b by (auto simp: within_def)
  moreover have "within (\<lambda>x. cmp x (x0 ! a) = 0 \<or> x = x0 ! a) (a + (pb - pa)) (e - (pd - pb)) x3"
    unfolding within_def
  proof (intro allI impI)
    fix k assume "a + (pb - pa) \<le> k \<and> k < e - (pd - pb)"
    then show "cmp (x3 ! k) (x0 ! a) = 0 \<or> x3 ! k = x0 ! a"
      using withinD [OF w2(2), of k] withinD [OF w3(1), of k] k3 [of k] m2 by (cases "k < pb") auto
  qed
  moreover have "x0 ! a \<in> set xs"
    using p assms nth_cq_swap [of a xs ?p a] by (simp add: x0_def)
  ultimately show ?thesis using w3(2) m2 by (intro exI conjI) auto
qed

section \<open>The main loop\<close>

text \<open>
  The stack has room for \<^verbatim>\<open>CQ_STACKSIZ\<close> words, two for a range. A range beyond the end of the array would be
  an access out of bounds.
\<close>

function cq_loop :: "('a \<Rightarrow> 'a \<Rightarrow> int) \<Rightarrow> (nat \<times> nat) list \<Rightarrow> 'a list \<Rightarrow> 'a list exec" where
  "cq_loop cmp [] xs = Inr xs"
| "cq_loop cmp ((a, e) # stack) xs =
     (if e > length xs then Inl Out_of_bounds
      else if e - a < 7 then cq_loop cmp stack (ins_sort cmp a e (a + 1) xs)
      else (case cq_split cmp a e xs of (l, r, ys) \<Rightarrow>
              if fst l = snd l \<and> fst r = snd r then cq_loop cmp stack ys
              else if \<not> 2 * length stack + 4 < CQ_STACKSIZ then Inl Assert_failed
              else cq_loop cmp (push_ranges l r stack) ys))"
  by pat_completeness auto
termination
proof (relation "measure (\<lambda>(_, stack, _). sum_list (map (\<lambda>(a, e). 2 * (e - a) + 1) stack))", goal_cases)
  case (4 cmp a e stack xs l y r ys)
  then have "a + 7 \<le> e" "e \<le> length xs" by auto
  from cq_split_ok [OF this, of cmp] 4 obtain m1 m2 where "l = (a, m1)" "r = (m2, e)" "a \<le> m1" "m1 < m2" "m2 \<le> e" by auto
  then show ?case by (auto simp: push_ranges_def Let_def)
qed auto

definition click_qsort :: "('a \<Rightarrow> 'a \<Rightarrow> int) \<Rightarrow> 'a list \<Rightarrow> 'a list exec" where
  "click_qsort cmp xs = cq_loop cmp [(0, length xs)] xs"

text \<open>A comparison function that agrees with a total preorder on a set.\<close>

definition consistent_on :: "'a set \<Rightarrow> ('a \<Rightarrow> 'a \<Rightarrow> int) \<Rightarrow> bool" where
  "consistent_on S cmp \<longleftrightarrow> (\<forall>x \<in> S. \<forall>y \<in> S. sgn (cmp x y) = - sgn (cmp y x)) \<and>
     (\<forall>x \<in> S. \<forall>y \<in> S. \<forall>z \<in> S. cmp x y \<le> 0 \<longrightarrow> cmp y z \<le> 0 \<longrightarrow> cmp x z \<le> 0)"

lemma consistent_flip: "consistent_on S cmp \<Longrightarrow> x \<in> S \<Longrightarrow> y \<in> S \<Longrightarrow> 0 \<le> cmp x y \<longleftrightarrow> cmp y x \<le> 0"
proof -
  assume "consistent_on S cmp" "x \<in> S" "y \<in> S"
  then have "sgn (cmp x y) = - sgn (cmp y x)" unfolding consistent_on_def by blast
  moreover have "0 \<le> cmp x y \<longleftrightarrow> 0 \<le> sgn (cmp x y)" "cmp y x \<le> 0 \<longleftrightarrow> sgn (cmp y x) \<le> 0"
    by (simp_all add: sgn_if)
  ultimately show ?thesis by linarith
qed

lemma consistent_refl: "consistent_on S cmp \<Longrightarrow> x \<in> S \<Longrightarrow> cmp x x \<le> 0"
  using consistent_flip [of S cmp x x] by linarith

lemma consistent_trans:
  "consistent_on S cmp \<Longrightarrow> x \<in> S \<Longrightarrow> y \<in> S \<Longrightarrow> z \<in> S \<Longrightarrow> cmp x y \<le> 0 \<Longrightarrow> cmp y z \<le> 0 \<Longrightarrow> cmp x z \<le> 0"
  unfolding consistent_on_def by blast

definition ordered :: "('a \<Rightarrow> 'a \<Rightarrow> int) \<Rightarrow> nat \<Rightarrow> nat \<Rightarrow> 'a list \<Rightarrow> bool" where
  "ordered cmp a e xs \<longleftrightarrow> (\<forall>i j. a \<le> i \<and> i < j \<and> j < e \<longrightarrow> cmp (xs ! i) (xs ! j) \<le> 0)"

subsection \<open>Insertion sort\<close>

lemma ins_down_rearranged:
  "pj < length xs \<Longrightarrow> a \<le> pj \<Longrightarrow> rearranged a (Suc pj) xs (ins_down cmp a pj xs)"
proof (induction cmp a pj xs rule: ins_down.induct)
  case (2 cmp a j xs)
  show ?case
  proof (cases "Suc j > a \<and> cmp (xs ! j) (xs ! Suc j) > 0")
    case True
    then have "rearranged a (Suc j) (cq_swap (Suc j) j xs) (ins_down cmp a j (cq_swap (Suc j) j xs))"
      using 2 by simp
    then have "rearranged a (Suc (Suc j)) (cq_swap (Suc j) j xs) (ins_down cmp a j (cq_swap (Suc j) j xs))"
      by (rule rearranged_mono) auto
    moreover have "rearranged a (Suc (Suc j)) xs (cq_swap (Suc j) j xs)"
      using "2.prems" True by (intro cq_swap_rearranged) auto
    ultimately show ?thesis using True by (auto intro: rearranged_trans)
  qed auto
qed simp

text \<open>The inner loop moves the element at \<open>pj\<close> down to its place: all that is above it compares greater or equal.\<close>

lemma ins_down_ordered:
  assumes "consistent_on (set xs) cmp"
  shows "pj < length xs \<Longrightarrow> a \<le> pj \<Longrightarrow> pj < e \<Longrightarrow> e \<le> length xs \<Longrightarrow>
     (\<forall>i j. a \<le> i \<and> i < j \<and> j < e \<and> i \<noteq> pj \<and> j \<noteq> pj \<longrightarrow> cmp (xs ! i) (xs ! j) \<le> 0) \<Longrightarrow>
     (\<forall>j. pj < j \<and> j < e \<longrightarrow> cmp (xs ! pj) (xs ! j) \<le> 0) \<Longrightarrow> ordered cmp a e (ins_down cmp a pj xs)"
  using assms
proof (induction cmp a pj xs rule: ins_down.induct)
  case (1 cmp a xs)
  show ?case
    unfolding ordered_def
  proof (intro allI impI)
    fix i j assume "a \<le> i \<and> i < j \<and> j < e"
    then show "cmp (ins_down cmp a 0 xs ! i) (ins_down cmp a 0 xs ! j) \<le> 0" using "1.prems" by (cases "i = 0") auto
  qed
next
  case (2 cmp a j xs)
  let ?ys = "cq_swap (Suc j) j xs"
  have mem: "xs ! i \<in> set xs" if "i < e" for i using that "2.prems"(4) by (intro nth_mem) simp
  show ?case
  proof (cases "Suc j > a \<and> cmp (xs ! j) (xs ! Suc j) > 0")
    case True
    have n: "?ys ! k = (if k = Suc j then xs ! j else if k = j then xs ! Suc j else xs ! k)" for k
      using "2.prems"(1) by (intro nth_cq_swap) auto
    have "set ?ys = set xs"
      using cq_swap_rearranged [of "Suc j" xs j 0 "length xs"] "2.prems"(1) by (metis rearranged_def Suc_lessD le0 mset_eq_setD)
    moreover have "cmp (xs ! Suc j) (xs ! j) \<le> 0"
      using True consistent_flip [OF "2.prems"(7) mem mem, of j "Suc j"] "2.prems"(3) by auto
    then have "\<forall>k. j < k \<and> k < e \<longrightarrow> cmp (?ys ! j) (?ys ! k) \<le> 0"
      using "2.prems"(6) by (auto simp: n)
    moreover have "\<forall>i k. a \<le> i \<and> i < k \<and> k < e \<and> i \<noteq> j \<and> k \<noteq> j \<longrightarrow> cmp (?ys ! i) (?ys ! k) \<le> 0"
      using "2.prems"(5) True by (auto simp: n less_Suc_eq_le)
    ultimately show ?thesis using "2.IH" [OF True] True "2.prems" by auto
  next
    case False
    have "cmp (xs ! i) (xs ! Suc j) \<le> 0" if "a \<le> i" "i < Suc j" for i
    proof (cases "i = j")
      case True
      then show ?thesis using False that by auto
    next
      case ne: False
      then have ij: "cmp (xs ! i) (xs ! j) \<le> 0" using that "2.prems"(3,5) by auto
      have "cmp (xs ! j) (xs ! Suc j) \<le> 0" using False that by auto
      then show ?thesis using consistent_trans [OF "2.prems"(7) mem mem mem, of i j "Suc j"] ij that "2.prems"(3) by auto
    qed
    then have "cmp (xs ! i) (xs ! k) \<le> 0" if "a \<le> i" "i < k" "k < e" for i k
      using that "2.prems"(5,6) by (cases "k = Suc j"; cases "i = Suc j") auto
    then show ?thesis using False by (auto simp: ordered_def)
  qed
qed

lemma ins_sort_ok:
  "e \<le> length xs \<Longrightarrow> a \<le> pi \<Longrightarrow> rearranged a e xs (ins_sort cmp a e pi xs) \<and>
     (consistent_on (set xs) cmp \<longrightarrow> ordered cmp a pi xs \<longrightarrow> ordered cmp a e (ins_sort cmp a e pi xs))"
proof (induction cmp a e pi xs rule: ins_sort.induct)
  case (1 cmp a e pi xs)
  show ?case
  proof (cases "pi < e")
    case False
    then show ?thesis by (subst (1 2) ins_sort.simps) (auto simp: ordered_def)
  next
    case True
    let ?ys = "ins_down cmp a pi xs"
    have r: "rearranged a (Suc pi) xs ?ys" using True "1.prems" by (intro ins_down_rearranged) auto
    have s: "set ?ys = set xs" "length ?ys = length xs" using r by (auto simp: rearranged_def dest: mset_eq_setD)
    have "ordered cmp a (Suc pi) ?ys" if "consistent_on (set xs) cmp" "ordered cmp a pi xs"
      using that True "1.prems" by (intro ins_down_ordered) (auto simp: ordered_def less_Suc_eq)
    then show ?thesis
      using "1.IH" [OF True] "1.prems" True s rearranged_trans [OF rearranged_mono [OF r]]
      by (subst (1 2) ins_sort.simps) (auto simp: Suc_le_eq)
  qed
qed

subsection \<open>The stack of ranges\<close>

text \<open>An element of a rearranged range comes from that range.\<close>

lemma rearranged_origin:
  assumes "rearranged a e xs ys" "e \<le> length xs" "a \<le> i" "i < e"
  shows "\<exists>i'. a \<le> i' \<and> i' < e \<and> ys ! i = xs ! i'"
proof -
  have l: "length ys = length xs" using assms(1) by (simp add: rearranged_def)
  have t: "take a ys = take a xs" and d: "drop e ys = drop e xs"
    using assms by (auto simp: rearranged_def intro!: nth_equalityI)
  have slices: "take a zs @ drop a (take e zs) @ drop e zs = zs" for zs :: "'a list"
  proof -
    have "take a zs = take a (take e zs)" using assms(3,4) by (simp add: min_def)
    then have "take a zs @ drop a (take e zs) = take e zs" by (simp only: append_take_drop_id)
    then show ?thesis by (simp add: append_assoc [symmetric] del: append_assoc)
  qed
  have "mset (take a ys @ drop a (take e ys) @ drop e ys) = mset (take a xs @ drop a (take e xs) @ drop e xs)"
    using assms(1) unfolding slices by (simp add: rearranged_def)
  then have "mset (drop a (take e ys)) = mset (drop a (take e xs))" by (simp add: t d)
  then have "set (drop a (take e ys)) = set (drop a (take e xs))" by (rule mset_eq_setD)
  moreover have "ys ! i \<in> set (drop a (take e ys))"
    using assms l by (auto simp: in_set_conv_nth intro!: exI [of _ "i - a"])
  ultimately obtain k where "k < e - a" "ys ! i = xs ! (a + k)" using assms(2) by (auto simp: in_set_conv_nth)
  then show ?thesis by (intro exI [of _ "a + k"]) auto
qed

text \<open>Ranges that do not overlap, and pairs that are in order unless a range still to be sorted has them both.\<close>

definition apart :: "nat \<times> nat \<Rightarrow> nat \<times> nat \<Rightarrow> bool" where
  "apart r r' \<longleftrightarrow> snd r \<le> fst r' \<or> snd r' \<le> fst r"

definition settled :: "('a \<Rightarrow> 'a \<Rightarrow> int) \<Rightarrow> (nat \<times> nat) list \<Rightarrow> 'a list \<Rightarrow> bool" where
  "settled cmp st xs \<longleftrightarrow> (\<forall>i j. i < j \<and> j < length xs \<longrightarrow>
     (\<exists>r \<in> set st. fst r \<le> i \<and> j < snd r) \<or> cmp (xs ! i) (xs ! j) \<le> 0)"

lemma settled_step:
  assumes s: "settled cmp ((a, e) # st) xs" and d: "\<forall>r \<in> set st. apart (a, e) r"
    and r: "rearranged a e xs ys" and e: "e \<le> length xs"
    and new: "\<And>i j. a \<le> i \<Longrightarrow> i < j \<Longrightarrow> j < e \<Longrightarrow> (\<exists>r \<in> set new. fst r \<le> i \<and> j < snd r) \<or> cmp (ys ! i) (ys ! j) \<le> 0"
  shows "settled cmp (new @ st) ys"
  unfolding settled_def
proof (intro allI impI)
  fix i j assume ij: "i < j \<and> j < length ys"
  have out: "ys ! k = xs ! k" if "k < a \<or> e \<le> k" for k using r that by (auto simp: rearranged_def)
  have l: "length ys = length xs" using r by (simp add: rearranged_def)
  have across: "cmp (xs ! i) (xs ! j) \<le> 0" if "i < j" "j < length xs" "(a \<le> i \<and> i < e) \<noteq> (a \<le> j \<and> j < e)" for i j
  proof -
    have "\<not> (fst r \<le> i \<and> j < snd r)" if "r \<in> set ((a, e) # st)" for r
      using d that \<open>i < j\<close> \<open>(a \<le> i \<and> i < e) \<noteq> (a \<le> j \<and> j < e)\<close> by (fastforce simp: apart_def)
    then show ?thesis using s that(1,2) unfolding settled_def by blast
  qed
  consider "a \<le> i" "j < e" | "a \<le> i" "i < e" "e \<le> j" | "i < a" "a \<le> j" "j < e" | "i < a \<or> e \<le> i" "j < a \<or> e \<le> j"
    using ij by linarith
  then show "(\<exists>r \<in> set (new @ st). fst r \<le> i \<and> j < snd r) \<or> cmp (ys ! i) (ys ! j) \<le> 0"
  proof cases
    case 1
    then show ?thesis using new [of i j] ij by auto
  next
    case 2
    then obtain i' where "a \<le> i'" "i' < e" "ys ! i = xs ! i'" using rearranged_origin [OF r e] by blast
    then show ?thesis using across [of i' j] out [of j] 2 ij l by simp
  next
    case 3
    then obtain j' where "a \<le> j'" "j' < e" "ys ! j = xs ! j'" using rearranged_origin [OF r e] by blast
    then show ?thesis using across [of i j'] out [of i] 3 e by simp
  next
    case 4
    then show ?thesis using s out [of i] out [of j] ij l by (fastforce simp: settled_def)
  qed
qed

text \<open>The bound on the depth: the range \<open>k\<close> places above the bottom has at most \<open>N / 2^k\<close> elements.\<close>

fun depth_ok :: "nat \<Rightarrow> (nat \<times> nat) list \<Rightarrow> bool" where
  "depth_ok N [] = True"
| "depth_ok N (r # st) \<longleftrightarrow> (snd r - fst r) * 2 ^ length st \<le> N \<and> depth_ok N st"

lemma depth_ok_short: "depth_ok N st \<Longrightarrow> st = r # st' \<Longrightarrow> 7 \<le> snd r - fst r \<Longrightarrow> N < 2 ^ 64 \<Longrightarrow> length st' < 62"
proof -
  assume "depth_ok N st" "st = r # st'" "7 \<le> snd r - fst r" "N < 2 ^ 64"
  then have "7 * 2 ^ length st' < (2 :: nat) ^ 64"
    by (metis depth_ok.simps(2) le_less_trans mult_le_mono1)
  then have "4 * 2 ^ length st' < (2 :: nat) ^ 64" by linarith
  then have "(2 :: nat) ^ (length st' + 2) < 2 ^ 64" by simp
  then show ?thesis using power_less_imp_less_exp [of "2 :: nat" "length st' + 2" 64] by simp
qed

lemma push_ranges_cases:
  assumes "fst l < snd l \<or> fst r < snd r" "fst l \<le> snd l" "fst r \<le> snd r"
  obtains new where "push_ranges l r st = new @ st" "set new \<subseteq> {l, r}"
    "fst l < snd l \<longrightarrow> l \<in> set new" "fst r < snd r \<longrightarrow> r \<in> set new"
    "new = [l] \<or> new = [r] \<or> new = [l, r] \<or> new = [r, l]"
proof (cases "snd r - fst r > snd l - fst l")
  case True
  then show thesis using assms by (cases "fst l = snd l") (auto simp: push_ranges_def intro: that [of "[r]"] that [of "[l, r]"])
next
  case False
  then show thesis using assms by (cases "fst r = snd r") (auto simp: push_ranges_def intro: that [of "[l]"] that [of "[r, l]"])
qed

lemma push_ranges_depth:
  assumes "depth_ok N ((a, e) # st)" "(snd l - fst l) + (snd r - fst r) \<le> e - a"
  shows "depth_ok N (push_ranges l r st)"
proof -
  have step: "depth_ok N (small # big # st) \<and> depth_ok N (big # st)"
    if "snd small - fst small \<le> snd big - fst big" "(snd small - fst small) + (snd big - fst big) \<le> e - a" for small big :: "nat \<times> nat"
  proof -
    have "(snd big - fst big) * 2 ^ length st \<le> (e - a) * 2 ^ length st" using that by simp
    moreover have "2 * (snd small - fst small) \<le> e - a" using that by simp
    then have "2 * (snd small - fst small) * 2 ^ length st \<le> (e - a) * 2 ^ length st" by (rule mult_le_mono1)
    ultimately show ?thesis using assms(1) by (auto simp: algebra_simps)
  qed
  show ?thesis
    using step [of l r] step [of r l] assms(2)
    by (cases "snd r - fst r > snd l - fst l") (auto simp: push_ranges_def Let_def add.commute)
qed

subsection \<open>Correctness\<close>

definition stack_ok :: "nat \<Rightarrow> nat \<Rightarrow> (nat \<times> nat) list \<Rightarrow> bool" where
  "stack_ok N n st \<longleftrightarrow> (\<forall>r \<in> set st. fst r \<le> snd r \<and> snd r \<le> n) \<and> sorted_wrt apart st \<and> depth_ok N st"

lemma cq_split_sorts:
  assumes "a + 7 \<le> e" "e \<le> length xs" "cq_split cmp a e xs = (l, r, ys)"
  shows "rearranged a e xs ys" "fst l \<le> snd l" "fst r \<le> snd r" "snd r \<le> e" "(snd l - fst l) + (snd r - fst r) < e - a"
    "apart l r" "a \<le> fst l" "snd l \<le> e" "a \<le> fst r"
    "\<And>i j. consistent_on (set xs) cmp \<Longrightarrow> a \<le> i \<Longrightarrow> i < j \<Longrightarrow> j < e \<Longrightarrow>
       fst l \<le> i \<and> j < snd l \<or> fst r \<le> i \<and> j < snd r \<or> cmp (ys ! i) (ys ! j) \<le> 0"
proof -
  from cq_split_ok [OF assms(1,2), of cmp] assms(3) obtain m1 m2 v where
    lr: "l = (a, m1)" "r = (m2, e)" and ra: "rearranged a e xs ys" and m: "a \<le> m1" "m1 < m2" "m2 \<le> e"
    and w: "within (\<lambda>x. cmp x v < 0) a m1 ys" "within (\<lambda>x. cmp x v = 0 \<or> x = v) m1 m2 ys" "within (\<lambda>x. cmp x v > 0) m2 e ys"
    and v: "v \<in> set xs"
    by auto
  show "rearranged a e xs ys" "fst l \<le> snd l" "fst r \<le> snd r" "snd r \<le> e" "(snd l - fst l) + (snd r - fst r) < e - a"
    "apart l r" "a \<le> fst l" "snd l \<le> e" "a \<le> fst r"
    using lr ra m by (auto simp: apart_def)
  fix i j assume c: "consistent_on (set xs) cmp" and ij: "a \<le> i" "i < j" "j < e"
  have s: "set ys = set xs" "length ys = length xs" using ra by (auto simp: rearranged_def dest: mset_eq_setD)
  have mem: "ys ! k \<in> set xs" if "k < e" for k using that assms(2) s by (metis nth_mem less_le_trans)
  show "fst l \<le> i \<and> j < snd l \<or> fst r \<le> i \<and> j < snd r \<or> cmp (ys ! i) (ys ! j) \<le> 0"
  proof (cases "j < m1 \<or> m2 \<le> i")
    case True
    then show ?thesis using lr ij by auto
  next
    case False
    then have "i < m2" "m1 \<le> j" by auto
    have iv: "cmp (ys ! i) v \<le> 0"
      using withinD [OF w(1), of i] withinD [OF w(2), of i] ij \<open>i < m2\<close> consistent_refl [OF c v] by (cases "i < m1") auto
    have "0 \<le> cmp (ys ! j) v"
      using withinD [OF w(2), of j] withinD [OF w(3), of j] ij \<open>m1 \<le> j\<close> consistent_flip [OF c v v] consistent_refl [OF c v] by (cases "j < m2") auto
    then have "cmp v (ys ! j) \<le> 0" using consistent_flip [OF c mem v] ij by simp
    then show ?thesis using consistent_trans [OF c mem v mem iv] ij by simp
  qed
qed

lemma cq_loop_ok:
  "stack_ok N (length xs) st \<Longrightarrow> N < 2 ^ 64 \<Longrightarrow>
     \<exists>ys. cq_loop cmp st xs = Inr ys \<and> mset ys = mset xs \<and>
       (consistent_on (set xs) cmp \<longrightarrow> settled cmp st xs \<longrightarrow> ordered cmp 0 (length ys) ys)"
proof (induction cmp st xs rule: cq_loop.induct)
  case (1 cmp xs)
  then show ?case by (auto simp: settled_def ordered_def)
next
  case (2 cmp a e st xs)
  have ae: "a \<le> e" "e \<le> length xs" and st: "stack_ok N (length xs) st" and ap: "\<forall>r \<in> set st. apart (a, e) r"
    using "2.prems"(1) by (auto simp: stack_ok_def)
  show ?case
  proof (cases "e - a < 7")
    case True
    let ?ys = "ins_sort cmp a e (a + 1) xs"
    have r: "rearranged a e xs ?ys" and od: "consistent_on (set xs) cmp \<Longrightarrow> ordered cmp a e ?ys"
      using ins_sort_ok [OF ae(2), of a "a + 1" cmp] by (auto simp: ordered_def)
    have m: "mset ?ys = mset xs" "set ?ys = set xs" "length ?ys = length xs" using r by (auto simp: rearranged_def dest: mset_eq_setD)
    have "settled cmp st ?ys" if "consistent_on (set xs) cmp" "settled cmp ((a, e) # st) xs"
      using settled_step [OF that(2) ap r ae(2), of "[]"] od [OF that(1)] by (auto simp: ordered_def)
    then show ?thesis using "2.IH"(1) True ae st m "2.prems"(2) by auto
  next
    case False
    obtain l r ys where sp: "cq_split cmp a e xs = (l, r, ys)" by (metis prod_cases3)
    have "a + 7 \<le> e" using False by simp
    note f = cq_split_sorts [OF this ae(2) sp]
    have m: "mset ys = mset xs" "set ys = set xs" "length ys = length xs" using f(1) by (auto simp: rearranged_def dest: mset_eq_setD)
    show ?thesis
    proof (cases "fst l = snd l \<and> fst r = snd r")
      case True
      have "settled cmp st ys" if "consistent_on (set xs) cmp" "settled cmp ((a, e) # st) xs"
        using settled_step [OF that(2) ap f(1) ae(2), of "[]"] f(10) [OF that(1)] True by fastforce
      then show ?thesis using "2.IH"(2) [OF _ False sp [symmetric] refl True] True False ae st m "2.prems"(2) sp by auto
    next
      case ne: False
      then have "fst l < snd l \<or> fst r < snd r" using f(2,3) by auto
      from push_ranges_cases [OF this f(2,3), of st] obtain new where
        new: "push_ranges l r st = new @ st" "set new \<subseteq> {l, r}" "fst l < snd l \<longrightarrow> l \<in> set new"
          "fst r < snd r \<longrightarrow> r \<in> set new" "new = [l] \<or> new = [r] \<or> new = [l, r] \<or> new = [r, l]" .
      have d: "depth_ok N ((a, e) # st)" using "2.prems"(1) by (simp add: stack_ok_def)
      have "length st < 62" using depth_ok_short [OF d refl] False "2.prems"(2) by simp
      then have cap: "2 * length st + 4 < CQ_STACKSIZ" by (simp add: CQ_STACKSIZ_def)
      have inner: "apart q s" if "q \<in> {l, r}" "s \<in> set st" for q s
        using that ap f(2-4,7-9) by (fastforce simp: apart_def)
      have "apart r l" using f(6) by (auto simp: apart_def)
      then have sw: "sorted_wrt apart (new @ st)"
        using new(5) inner [of l] inner [of r] st f(6) by (auto simp: stack_ok_def sorted_wrt_append)
      have "stack_ok N (length ys) (push_ranges l r st)"
        using push_ranges_depth [OF d, of l r] f(2-5,8) sw new(1,2) st ae m(3) by (auto simp: stack_ok_def)
      moreover have "settled cmp (push_ranges l r st) ys" if c: "consistent_on (set xs) cmp" "settled cmp ((a, e) # st) xs"
      proof -
        have "(\<exists>q \<in> set new. fst q \<le> i \<and> j < snd q) \<or> cmp (ys ! i) (ys ! j) \<le> 0" if "a \<le> i" "i < j" "j < e" for i j
        proof -
          have "l \<in> set new" if "fst l \<le> i" "j < snd l" using that new(3) \<open>i < j\<close> by auto
          moreover have "r \<in> set new" if "fst r \<le> i" "j < snd r" using that new(4) \<open>i < j\<close> by auto
          ultimately show ?thesis using f(10) [OF c(1) that] by blast
        qed
        then show ?thesis unfolding new(1) by (rule settled_step [OF c(2) ap f(1) ae(2)])
      qed
      moreover have "cq_loop cmp ((a, e) # st) xs = cq_loop cmp (push_ranges l r st) ys"
        using ae False ne cap sp by auto
      moreover have "\<exists>zs. cq_loop cmp (push_ranges l r st) ys = Inr zs \<and> mset zs = mset ys \<and>
          (consistent_on (set ys) cmp \<longrightarrow> settled cmp (push_ranges l r st) ys \<longrightarrow> ordered cmp 0 (length zs) zs)"
        using "2.IH"(3) [OF _ False sp [symmetric] refl ne _ _ "2.prems"(2)] ae cap \<open>stack_ok N (length ys) (push_ranges l r st)\<close> by simp
      ultimately show ?thesis unfolding m(1,2) by metis
    qed
  qed
qed

lemma click_qsort_ok:
  assumes "length xs < 2 ^ 64"
  shows "\<exists>ys. click_qsort cmp xs = Inr ys \<and> mset ys = mset xs \<and> (consistent_on (set xs) cmp \<longrightarrow> ordered cmp 0 (length ys) ys)"
proof -
  have "stack_ok (length xs) (length xs) [(0, length xs)]" by (simp add: stack_ok_def)
  from cq_loop_ok [OF this assms, of cmp] show ?thesis by (auto simp: click_qsort_def settled_def)
qed

text \<open>
  C24. The sort. Whatever the comparison function, also when it is no order, \<^verbatim>\<open>click_qsort\<close> ends without overflowing its stack or leaving
  the array, and the result has the same elements; when the comparison is consistent on the elements the result is sorted by it.
\<close>

theorem click_qsort_sorts:
  assumes "length xs < 2 ^ 64"
  shows "\<exists>ys. click_qsort cmp xs = Inr ys \<and> mset ys = mset xs \<and>
     (consistent_on (set xs) cmp \<longrightarrow> (\<forall>i j. i < j \<and> j < length ys \<longrightarrow> cmp (ys ! i) (ys ! j) \<le> 0))"
  using click_qsort_ok [OF assms, of cmp] by (auto simp: ordered_def)

theorem click_qsort_sorts_witness:
  "\<exists>ys. click_qsort (\<lambda>x y. x - y) [3, 1, 2 :: int] = Inr ys \<and> mset ys = {# 1, 2, 3 #} \<and>
     (\<forall>i j. i < j \<and> j < length ys \<longrightarrow> ys ! i - ys ! j \<le> 0)"
proof -
  have "consistent_on (set [3, 1, 2 :: int]) (\<lambda>x y. x - y)"
    unfolding consistent_on_def by (auto simp: sgn_if)
  then show ?thesis using click_qsort_sorts [of "[3, 1, 2 :: int]" "\<lambda>x y. x - y"] by (auto simp: add_mset_commute)
qed

end
