(* ===== verification/Click_Classification.thy ===== *)
theory Click_Classification
  imports Click_Packet Click_Sort
begin

text \<open>
  The classification programs of Click (\<^verbatim>\<open>click/elements/standard/classification.hh\<close>, \<^verbatim>\<open>classification.cc\<close>): decision programs whose
  instructions compare four bytes of a packet, under a mask, with a value, and jump forward or stop with an output. This theory has the instructions,
  the construction of a program from nested subtrees, the passes that sort, combine and remove instructions, and the two
  functions that run a program on a packet. The dominator pass is in the next theory. Positive jumps are indices of instructions; a jump
  of zero or less is an output, negated.
\<close>

section \<open>Instructions\<close>

abbreviation (input) j_never :: int where "j_never \<equiv> - 2147483647"
abbreviation (input) j_failure :: int where "j_failure \<equiv> - 2147483646"
abbreviation (input) j_success :: int where "j_success \<equiv> - 2147483645"

datatype combiner = C_and | C_or | C_ternary

record insn =
  in_offset :: nat
  in_short :: bool
  in_mask :: u32
  in_value :: u32
  in_no :: int
  in_yes :: int

text \<open>The constructor: the offset is cut to 16 bits.\<close>

definition new_insn :: "int \<Rightarrow> u32 \<Rightarrow> u32 \<Rightarrow> insn" where
  "new_insn off v m = \<lparr> in_offset = nat (off mod 65536), in_short = False, in_mask = m, in_value = v AND m,
     in_no = j_failure, in_yes = j_success \<rparr>"

text \<open>The array \<^verbatim>\<open>j\<close> of the two branches, and the array \<^verbatim>\<open>c\<close> of the four bytes of a mask or value.\<close>

definition in_j :: "insn \<Rightarrow> bool \<Rightarrow> int" where
  "in_j e b = (if b then in_yes e else in_no e)"

definition set_j :: "bool \<Rightarrow> int \<Rightarrow> insn \<Rightarrow> insn" where
  "set_j b x e = (if b then e\<lparr> in_yes := x \<rparr> else e\<lparr> in_no := x \<rparr>)"

definition byte_of :: "u32 \<Rightarrow> nat \<Rightarrow> byte" where
  "byte_of w i = ucast (drop_bit (8 * i) w)"

definition set_byte :: "nat \<Rightarrow> byte \<Rightarrow> u32 \<Rightarrow> u32" where
  "set_byte i b w = (w AND NOT (push_bit (8 * i) 0xFF)) OR push_bit (8 * i) (ucast b)"

definition required_length :: "insn \<Rightarrow> nat" where
  "required_length e =
     (if in_mask e = 0 then 0
      else if byte_of (in_mask e) 3 \<noteq> 0 then in_offset e + 4
      else if byte_of (in_mask e) 2 \<noteq> 0 then in_offset e + 3
      else if byte_of (in_mask e) 1 \<noteq> 0 then in_offset e + 2
      else in_offset e + 1)"

text \<open>When the outcome of one test, in one direction, decides another; \<open>kl\<close> bytes of the packet are known to exist.\<close>

definition implies_short_ok :: "insn \<Rightarrow> bool \<Rightarrow> insn \<Rightarrow> bool \<Rightarrow> int \<Rightarrow> bool" where
  "implies_short_ok e direction x next_direction kl \<longleftrightarrow>
     in_short e \<noteq> direction \<or> int (in_offset e) + 4 \<le> kl \<or>
     int (required_length e) \<le> kl \<or> required_length e \<le> required_length x \<and> next_direction = in_short x"

definition one_bit :: "u32 \<Rightarrow> bool" where
  "one_bit m \<longleftrightarrow> m AND (m - 1) = 0"

definition implies :: "insn \<Rightarrow> insn \<Rightarrow> int \<Rightarrow> bool" where
  "implies e x kl \<longleftrightarrow>
     (if in_mask x = 0 then True
      else if in_offset x \<noteq> in_offset e \<or> \<not> implies_short_ok e True x True kl then False
      else (let both = in_mask e AND in_mask x in both = in_mask x \<and> (in_value e AND both) = in_value x))"

definition not_implies :: "insn \<Rightarrow> insn \<Rightarrow> int \<Rightarrow> bool" where
  "not_implies e x kl \<longleftrightarrow>
     (if in_mask x = 0 then True
      else if in_offset x \<noteq> in_offset e \<or> \<not> implies_short_ok e False x True kl then False
      else one_bit (in_mask e) \<and> in_mask e = in_mask x \<and> in_value e \<noteq> in_value x)"

definition implies_not :: "insn \<Rightarrow> insn \<Rightarrow> int \<Rightarrow> bool" where
  "implies_not e x kl \<longleftrightarrow>
     (if in_mask x = 0 \<or> in_offset x \<noteq> in_offset e \<or> \<not> implies_short_ok e True x False kl then False
      else (let both = in_mask e AND in_mask x in both = in_mask x \<and> (in_value e AND both) \<noteq> in_value x))"

definition not_implies_not :: "insn \<Rightarrow> insn \<Rightarrow> int \<Rightarrow> bool" where
  "not_implies_not e x kl \<longleftrightarrow>
     (if in_mask e = 0 then True
      else if in_offset x \<noteq> in_offset e \<or> \<not> implies_short_ok e False x False kl then False
      else (let both = in_mask e AND in_mask x in both = in_mask e \<and> in_value e = (in_value x AND both)))"

definition compatible :: "insn \<Rightarrow> insn \<Rightarrow> bool \<Rightarrow> bool" where
  "compatible e x consider_short \<longleftrightarrow>
     (if in_mask e = 0 \<or> in_mask x = 0 then True
      else if in_offset x \<noteq> in_offset e \<or>
         consider_short \<and> in_short x \<noteq> in_short e \<and> required_length e < required_length x then False
      else (let both = in_mask e AND in_mask x in (in_value e AND both) = (in_value x AND both)))"

definition generalizable_or_pair :: "insn \<Rightarrow> insn \<Rightarrow> bool" where
  "generalizable_or_pair e x \<longleftrightarrow>
     (let value_diff = in_value e XOR in_value x in
      if in_offset e \<noteq> 0 \<and> in_offset x = in_offset e \<and> in_mask e \<noteq> 0 \<and> in_mask x = in_mask e \<and>
         (in_short e \<or> \<not> in_short x) \<and> in_yes e = in_yes x \<and> one_bit value_diff
      then required_length (new_insn (int (in_offset e)) (in_value e AND NOT value_diff) (in_mask e AND NOT value_diff)) =
           required_length e
      else False)"

definition flippable :: "insn \<Rightarrow> bool" where
  "flippable e \<longleftrightarrow> (if in_mask e = 0 then False else one_bit (in_mask e))"

definition flip :: "insn \<Rightarrow> insn" where
  "flip e = e\<lparr> in_value := in_value e XOR in_mask e, in_no := in_yes e, in_yes := in_no e, in_short := \<not> in_short e \<rparr>"

section \<open>Building a program from subtrees\<close>

text \<open>
  The vector \<^verbatim>\<open>tree\<close> has the current level first, then for every instruction the level of the subtree it starts, or -1.
\<close>

record program =
  pr_insn :: "insn list"
  pr_output_everything :: int
  pr_safe_length :: u32
  pr_align_offset :: nat

definition new_program :: "nat \<Rightarrow> program" where
  "new_program align = \<lparr> pr_insn = [], pr_output_everything = - j_never, pr_safe_length = 0xFFFFFFFF, pr_align_offset = align \<rparr>"

definition init_subtree :: "insn list \<Rightarrow> int list" where
  "init_subtree ins = 0 # replicate (length ins) (- 1)"

definition start_subtree :: "int list \<Rightarrow> int list" where
  "start_subtree tree = tree[0 := tree ! 0 + 1]"

definition add_insn :: "int \<Rightarrow> u32 \<Rightarrow> u32 \<Rightarrow> int list \<times> program \<Rightarrow> int list \<times> program" where
  "add_insn off v m tp = (case tp of (tree, p) \<Rightarrow>
     (tree @ [tree ! 0], p\<lparr> pr_insn := pr_insn p @ [new_insn off v m], pr_output_everything := - 1 \<rparr>))"

definition redirect :: "int \<Rightarrow> int \<Rightarrow> int \<Rightarrow> int" where
  "redirect success failure j = (if j = j_success then success else if j = j_failure then failure else j)"

definition redirect_insn :: "int \<Rightarrow> int \<Rightarrow> insn \<Rightarrow> insn" where
  "redirect_insn success failure e =
     e\<lparr> in_no := redirect success failure (in_no e), in_yes := redirect success failure (in_yes e) \<rparr>"

definition redirect_subtree :: "nat \<Rightarrow> nat \<Rightarrow> int \<Rightarrow> int \<Rightarrow> insn list \<Rightarrow> insn list" where
  "redirect_subtree first stop success failure ins =
     map (\<lambda>(i, e). if first \<le> i \<and> i < stop then redirect_insn success failure e else e) (enumerate 0 ins)"

fun back_to_parent :: "int list \<Rightarrow> int \<Rightarrow> nat \<Rightarrow> nat" where
  "back_to_parent tree level 0 = 0"
| "back_to_parent tree level (Suc ptr) =
     (if tree ! Suc ptr < 0 \<or> tree ! Suc ptr \<ge> level then back_to_parent tree level ptr else Suc ptr)"

text \<open>The loop over the subtrees, given by the indices they start at, and the last of them.\<close>

fun redirect_all :: "combiner \<Rightarrow> int \<Rightarrow> int \<Rightarrow> nat list \<Rightarrow> insn list \<Rightarrow> insn list" where
  "redirect_all c success failure [] ins = ins"
| "redirect_all c success failure [t] ins = redirect_subtree t (length ins) success failure ins"
| "redirect_all C_and success failure (t # u # ts) ins =
     redirect_all C_and success failure (u # ts) (redirect_subtree t u (int u) failure ins)"
| "redirect_all C_or success failure (t # u # ts) ins =
     redirect_all C_or success failure (u # ts) (redirect_subtree t u success (int u) ins)"
| "redirect_all C_ternary success failure [t, u] ins =
     redirect_all C_ternary success failure [u] (redirect_subtree t u (int u) failure ins)"
| "redirect_all C_ternary success failure (t # u # v # ts) ins =
     redirect_all C_ternary success failure (v # ts)
       (redirect_subtree u v success failure (redirect_subtree t u (int u) (int v) ins))"

definition finish_subtree :: "combiner \<Rightarrow> int \<Rightarrow> int \<Rightarrow> int list \<times> program \<Rightarrow> int list \<times> program" where
  "finish_subtree c success failure tp = (case tp of (tree, p) \<Rightarrow>
     let level = tree ! 0; n = length (pr_insn p); ptr = back_to_parent tree level n;
         subtrees = map (\<lambda>k. k - 1) (filter (\<lambda>k. tree ! k = level) [Suc ptr..<Suc n]);
         tree' = (if subtrees = [] then tree
                  else map (\<lambda>(k, l). if k = subtrees ! 0 + 1 then level - 1 else if k \<ge> subtrees ! 0 + 2 then - 1 else l) (enumerate 0 tree))
     in (tree'[0 := level - 1], p\<lparr> pr_insn := redirect_all c success failure subtrees (pr_insn p) \<rparr>))"

fun last_subtree :: "int list \<Rightarrow> nat \<Rightarrow> nat option" where
  "last_subtree tree 0 = None"
| "last_subtree tree (Suc k) = (if tree ! Suc k = tree ! 0 then Some k else last_subtree tree k)"

text \<open>\<open>negate_subtree\<close>; with no subtree at the current level it would start at index -1.\<close>

definition negate_subtree :: "bool \<Rightarrow> int list \<times> program \<Rightarrow> (int list \<times> program) exec" where
  "negate_subtree flip_short tp = (case tp of (tree, p) \<Rightarrow>
     case last_subtree tree (length (pr_insn p)) of
       None \<Rightarrow> Inl Out_of_bounds
     | Some first \<Rightarrow> Inr (tree, p\<lparr> pr_insn := map (\<lambda>(i, e).
           if first \<le> i then (redirect_insn j_failure j_success e)\<lparr> in_short := (if flip_short then \<not> in_short e else in_short e) \<rparr> else e)
         (enumerate 0 (pr_insn p)) \<rparr>))"

section \<open>Sorting conjunctions\<close>

text \<open>For every instruction the only one that jumps to it, 0 if there are several or it is the first, -1 if there is none.\<close>

definition count_inbranches :: "insn list \<Rightarrow> int list" where
  "count_inbranches ins =
     fold (\<lambda>(i, e) v. fold (\<lambda>b v. if in_j e b > 0 then v[nat (in_j e b) := (if v ! nat (in_j e b) \<ge> 0 then 0 else int i)] else v)
        [False, True] v) (enumerate 0 ins) (replicate (length ins) (- 1))"

text \<open>The binary search in the map of offsets, a list of pairs; in the branch for smaller offsets the code sets \<^verbatim>\<open>end = begin\<close>.\<close>

function hard_map_offset :: "int \<Rightarrow> (int \<times> int) list \<Rightarrow> int" where
  "hard_map_offset off ms =
     (if ms = [] then off
      else (let mid = length ms div 2 in
        if fst (ms ! mid) = off then snd (ms ! mid)
        else if fst (ms ! mid) < off then hard_map_offset off (drop (Suc mid) ms)
        else off))"
  by pat_completeness auto
termination by (relation "measure (\<lambda>(_, ms). length ms)") auto

definition map_offset :: "int \<Rightarrow> (int \<times> int) list \<Rightarrow> int" where
  "map_offset off ms = (if ms = [] \<or> off < fst (ms ! 0) \<or> off > fst (last ms) then off else hard_map_offset off ms)"

definition out_of_order :: "(int \<times> int) list \<Rightarrow> insn \<Rightarrow> insn \<Rightarrow> bool" where
  "out_of_order ms e1 e2 \<longleftrightarrow>
     (let o1 = map_offset (int (in_offset e1)) ms; o2 = map_offset (int (in_offset e2)) ms in
      o1 > o2 \<or> o1 = o2 \<and> (ntohl (in_mask e1) > ntohl (in_mask e2) \<or>
        in_mask e1 = in_mask e2 \<and> ntohl (in_value e1) > ntohl (in_value e2)))"

text \<open>Whether the loop exchanges instruction \<open>i\<close> with the target of its branch \<open>k\<close>, and the exchange.\<close>

definition swappable :: "(int \<times> int) list \<Rightarrow> int \<Rightarrow> int list \<Rightarrow> nat \<Rightarrow> bool \<Rightarrow> insn list \<Rightarrow> bool" where
  "swappable ms last_offset inbranch i k ins \<longleftrightarrow>
     (let e1 = ins ! i; j = in_j e1 k in
      \<not> (j \<le> 0 \<or> int (in_offset e1) \<ge> last_offset \<or> inbranch ! nat j \<le> 0) \<and>
      in_j e1 (\<not> k) = in_j (ins ! nat j) (\<not> k) \<and> out_of_order ms e1 (ins ! nat j))"

definition exchange :: "nat \<Rightarrow> bool \<Rightarrow> insn list \<Rightarrow> insn list" where
  "exchange i k ins =
     (let e1 = ins ! i; j = in_j e1 k; e2 = ins ! nat j
      in (ins[nat j := set_j k (in_j e2 k) e1])[i := set_j k j e2])"

text \<open>After an exchange the loop goes back to the predecessor of the instruction; the decrement and the increment of \<open>i\<close> cancel.\<close>

partial_function (option) bubble_loop :: "(int \<times> int) list \<Rightarrow> int \<Rightarrow> int list \<Rightarrow> nat \<Rightarrow> insn list \<Rightarrow> insn list option" where
  "bubble_loop ms last_offset inbranch i ins =
     (if i < length ins then
        (if swappable ms last_offset inbranch i False ins then
           bubble_loop ms last_offset inbranch (if inbranch ! i > 0 then nat (inbranch ! i) else i) (exchange i False ins)
         else if swappable ms last_offset inbranch i True ins then
           bubble_loop ms last_offset inbranch (if inbranch ! i > 0 then nat (inbranch ! i) else i) (exchange i True ins)
         else bubble_loop ms last_offset inbranch (i + 1) ins)
      else Some ins)"

declare bubble_loop.simps [code]

definition bubble_sort_and_exprs :: "(int \<times> int) list \<Rightarrow> int \<Rightarrow> insn list \<Rightarrow> insn list option" where
  "bubble_sort_and_exprs ms last_offset ins = bubble_loop ms last_offset (count_inbranches ins) 0 ins"

section \<open>Combining and removing instructions\<close>

text \<open>One step of the first pass at instruction \<open>i\<close>; the flag says that the same instruction is looked at again.\<close>

definition combine_no :: "nat \<Rightarrow> insn list \<Rightarrow> bool \<times> insn list" where
  "combine_no i ins =
     (let e = ins ! i in
      if in_no e > 0 then
        (let x = ins ! nat (in_no e) in
         if compatible x e False \<and> flippable e then (False, ins[i := flip e])
         else if generalizable_or_pair e x then
           (let the_bit = in_value e XOR in_value x
            in (True, ins[i := e\<lparr> in_value := in_value e AND NOT the_bit, in_mask := in_mask e AND NOT the_bit, in_no := in_no x \<rparr>]))
         else (False, ins))
      else (False, ins))"

definition combine_yes :: "nat \<Rightarrow> insn list \<Rightarrow> bool \<times> insn list" where
  "combine_yes i ins =
     (let e = ins ! i in
      if in_yes e \<le> 0 then (False, ins)
      else (let y = nat (in_yes e); ins = (if in_no e = in_yes (ins ! y) \<and> flippable (ins ! y) then ins[y := flip (ins ! y)] else ins);
                x = ins ! y
            in if in_no e = in_no x \<and> compatible x e True
               then (True, ins[i := e\<lparr> in_yes := in_yes x, in_offset := (if in_mask e = 0 then in_offset x else in_offset e),
                      in_value := (in_value e AND in_mask e) OR (in_value x AND in_mask x), in_mask := in_mask e OR in_mask x \<rparr>])
               else (False, ins)))"

partial_function (option) combine_loop :: "nat \<Rightarrow> insn list \<Rightarrow> insn list option" where
  "combine_loop n ins =
     (if n = 0 then Some ins
      else (case combine_no (n - 1) ins of (again, ins) \<Rightarrow>
        if again then combine_loop n ins
        else (case combine_yes (n - 1) ins of (again, ins) \<Rightarrow> combine_loop (if again then n else n - 1) ins)))"

declare combine_loop.simps [code]

definition combine_compatible_states :: "insn list \<Rightarrow> insn list option" where
  "combine_compatible_states ins = combine_loop (length ins) ins"

text \<open>
  \<open>remove_unused_states\<close>: the first loop redirects jumps past instructions that decide nothing, the second numbers the instructions that can be
  reached, the third moves them together.
\<close>

definition past :: "int list \<Rightarrow> insn \<Rightarrow> insn" where
  "past dst e = e\<lparr> in_no := (if in_no e > 0 then dst ! nat (in_no e) else in_no e),
                  in_yes := (if in_yes e > 0 then dst ! nat (in_yes e) else in_yes e) \<rparr>"

fun skip_loop :: "nat \<Rightarrow> int list \<times> insn list \<Rightarrow> int list \<times> insn list" where
  "skip_loop 0 (dst, ins) = (dst, ins)"
| "skip_loop (Suc i) (dst, ins) =
     (let e = past dst (ins ! i);
          d = (if in_yes e \<noteq> in_no e \<and> in_mask e \<noteq> 0 then int i else if in_yes e \<le> 0 then in_yes e else dst ! nat (in_yes e))
      in skip_loop i (dst[i := d], ins[i := e]))"

fun mark_loop :: "nat \<Rightarrow> nat \<Rightarrow> nat \<Rightarrow> int list \<Rightarrow> insn list \<Rightarrow> int list \<times> nat" where
  "mark_loop 0 i new dst ins = (dst, new)"
| "mark_loop (Suc n) i new dst ins =
     (if dst ! i \<ge> 0
      then (let e = ins ! i; dst = dst[i := int new];
                dst = (if in_no e > 0 then dst[nat (in_no e) := 0] else dst);
                dst = (if in_yes e > 0 then dst[nat (in_yes e) := 0] else dst)
            in mark_loop n (Suc i) (Suc new) dst ins)
      else mark_loop n (Suc i) new dst ins)"

fun move_loop :: "nat \<Rightarrow> nat \<Rightarrow> int list \<Rightarrow> insn list \<Rightarrow> insn list" where
  "move_loop 0 i dst ins = ins"
| "move_loop (Suc n) i dst ins =
     move_loop n (Suc i) dst (if dst ! i \<ge> 0 then ins[nat (dst ! i) := past dst (ins ! i)] else ins)"

definition remove_unused_states :: "program \<Rightarrow> program" where
  "remove_unused_states p =
     (if pr_insn p = [] then p
      else (let n = length (pr_insn p); (dst, ins) = skip_loop n (replicate n (- 1), pr_insn p);
                ins = (if dst ! 0 > 0 then ins[0 := ins ! nat (dst ! 0)] else ins);
                out = (if dst ! 0 > 0 then - 1
                       else if dst ! 0 < 0 then - (dst ! 0)
                       else if in_yes (ins ! 0) = 0 \<and> (in_no (ins ! 0) = 0 \<or> in_mask (ins ! 0) = 0) then 0 else - 1);
                dst = (replicate n (- 1))[0 := (if out < 0 then 0 else - 1)];
                (dst, new) = mark_loop n 0 0 dst ins
            in p\<lparr> pr_insn := take new (move_loop n 0 dst ins), pr_output_everything := out \<rparr>))"

text \<open>The end of \<open>optimize\<close>: the output for a program that decides nothing, and the length from which no test is cut short.\<close>

definition finish_optimize :: "program \<Rightarrow> program" where
  "finish_optimize p =
     (let p = (if pr_insn p = [] \<and> pr_output_everything p < 0 then p\<lparr> pr_output_everything := - j_never \<rparr>
               else if pr_output_everything p \<ge> 0 then p\<lparr> pr_insn := [] \<rparr> else p)
      in p\<lparr> pr_safe_length := of_nat (foldl (\<lambda>n e. if required_length e > n then required_length e else n) 0 (pr_insn p)) - of_nat (pr_align_offset p) \<rparr>)"

section \<open>Running a program\<close>

text \<open>What the pointer \<^verbatim>\<open>packet_data\<close> reaches: the buffer from a little before the data on.\<close>

definition program_view :: "program \<Rightarrow> packet \<Rightarrow> byte list exec" where
  "program_view p q =
     (if pr_align_offset p \<le> length (headroom_bytes q) then Inr (drop (length (headroom_bytes q) - pr_align_offset p) (buffer q))
      else Inl Out_of_bounds)"

partial_function (option) match_loop :: "insn list \<Rightarrow> byte list \<Rightarrow> nat \<Rightarrow> int run" where
  "match_loop ins v pos =
     dbind (read32 v (in_offset (ins ! pos))) (\<lambda>d.
       let j = in_j (ins ! pos) ((d AND in_mask (ins ! pos)) = in_value (ins ! pos))
       in if j > 0 then match_loop ins v (nat j) else Some (Inr (- j)))"

declare match_loop.simps [code]

definition length_ok :: "insn \<Rightarrow> nat \<Rightarrow> bool" where
  "length_ok e len \<longleftrightarrow>
     in_offset e + 4 \<le> len \<or>
     in_offset e < len \<and> (let available = len - in_offset e in
       \<not> (byte_of (in_mask e) 3 \<noteq> 0 \<or> byte_of (in_mask e) 2 \<noteq> 0 \<and> available \<le> 2 \<or> byte_of (in_mask e) 1 \<noteq> 0 \<and> available = 1))"

partial_function (option) checked_loop :: "insn list \<Rightarrow> byte list \<Rightarrow> nat \<Rightarrow> nat \<Rightarrow> int run" where
  "checked_loop ins v len pos =
     dbind (if length_ok (ins ! pos) len
            then ebind (read32 v (in_offset (ins ! pos))) (\<lambda>d. Inr ((d AND in_mask (ins ! pos)) = in_value (ins ! pos)))
            else Inr (in_short (ins ! pos))) (\<lambda>b.
       let j = in_j (ins ! pos) b in if j > 0 then checked_loop ins v len (nat j) else Some (Inr (- j)))"

declare checked_loop.simps [code]

definition program_match :: "program \<Rightarrow> packet \<Rightarrow> int run" where
  "program_match p q =
     (if pr_output_everything p \<ge> 0 then Some (Inr (pr_output_everything p))
      else dbind (program_view p q) (\<lambda>v.
        if of_nat (plength q) < pr_safe_length p then checked_loop (pr_insn p) v (plength q + pr_align_offset p) 0
        else match_loop (pr_insn p) v 0))"

end
