(* ===== verification/Click_Dominators.thy ===== *)
theory Click_Dominators
  imports Click_Classification
begin

text \<open>
  \<^verbatim>\<open>DominatorOptimizer\<close> and \<^verbatim>\<open>Program::optimize\<close> (\<^verbatim>\<open>click/elements/standard/classification.cc\<close>): the pass that redirects a jump past a
  test whose outcome is decided on every path to it. The vectors of the code are lists; a branch is the number of its instruction,
  doubled, plus one for the branch taken on a match. The lists of predecessors are linked through three vectors, with -1 as the null link, as in the code, because their
  order matters. The theory is executable, so that the pass can be run on programs.
\<close>

section \<open>State\<close>

record dom_opt =
  do_insn :: "insn list"
  do_known_length :: "int list"
  do_insn_id :: "nat list"
  do_dom :: "int list"
  do_dom_start :: "nat list"
  do_domlist_start :: "nat list"
  do_pred_first :: "int list"
  do_pred_next :: "int list"
  do_pred_prev :: "int list"

definition brno :: "nat \<Rightarrow> bool \<Rightarrow> int" where
  "brno state br = 2 * int state + (if br then 1 else 0)"

definition stateno :: "int \<Rightarrow> nat" where
  "stateno br = nat (br div 2)"

definition br_yes :: "int \<Rightarrow> bool" where
  "br_yes br \<longleftrightarrow> br mod 2 = 1"

text \<open>\<open>compare\<close> looks at the twelve bytes before the branches.\<close>

fun memcmp :: "byte list \<Rightarrow> byte list \<Rightarrow> int" where
  "memcmp (a # as) (b # bs) = (if a < b then - 1 else if b < a then 1 else memcmp as bs)"
| "memcmp _ _ = 0"

definition insn_bytes :: "insn \<Rightarrow> byte list" where
  "insn_bytes e = bytes16 (of_nat (in_offset e)) @ [0, if in_short e then 1 else 0] @ bytes32 (in_mask e) @ bytes32 (in_value e)"

definition insn_compare :: "insn \<Rightarrow> insn \<Rightarrow> int" where
  "insn_compare a b = memcmp (insn_bytes a) (insn_bytes b)"

definition insn_permute_compare :: "insn list \<Rightarrow> nat \<Rightarrow> nat \<Rightarrow> int" where
  "insn_permute_compare ins a b = (let c = insn_compare (ins ! a) (ins ! b) in if c \<noteq> 0 then c else int a - int b)"

section \<open>Construction\<close>

definition spread_length :: "nat \<Rightarrow> insn \<Rightarrow> int list \<Rightarrow> int list" where
  "spread_length i e kl =
     (let tested = (if int (required_length e) < kl ! i then kl ! i else int (required_length e)); so = in_short e;
          kl = (if in_j e (\<not> so) > 0 \<and> tested < kl ! nat (in_j e (\<not> so)) then kl[nat (in_j e (\<not> so)) := tested] else kl)
      in if in_j e so > 0 \<and> kl ! i < kl ! nat (in_j e so) then kl[nat (in_j e so) := kl ! i] else kl)"

definition known_lengths :: "insn list \<Rightarrow> int list" where
  "known_lengths ins = fold (\<lambda>(i, e). spread_length i e) (enumerate 0 ins) ((replicate (length ins) 0x7FFFFFFF)[0 := 0])"

definition insn_ids :: "insn list \<Rightarrow> nat list \<Rightarrow> nat list" where
  "insn_ids ins perm =
     fold (\<lambda>i ids. ids[perm ! i := (if i > 0 \<and> insn_compare (ins ! (perm ! i)) (ins ! (perm ! (i - 1))) = 0
         then ids ! (perm ! (i - 1)) else perm ! i)]) [0..<length ins] (replicate (length ins) 0)"

definition dom_new :: "insn list \<Rightarrow> dom_opt exec" where
  "dom_new ins = ebind (click_qsort (insn_permute_compare ins) [0..<length ins]) (\<lambda>perm.
     Inr \<lparr> do_insn = ins, do_known_length = known_lengths ins, do_insn_id = insn_ids ins perm, do_dom = [], do_dom_start = [0],
           do_domlist_start = [0], do_pred_first = [], do_pred_next = [], do_pred_prev = [] \<rparr>)"

section \<open>Predecessors\<close>

definition link_pred :: "int \<Rightarrow> nat \<Rightarrow> int list \<times> int list \<times> int list \<Rightarrow> int list \<times> int list \<times> int list" where
  "link_pred br nexts s = (case s of (first, next, prev) \<Rightarrow>
     (first[nexts := br], next[nat br := first ! nexts],
      if first ! nexts \<ge> 0 then prev[nat (first ! nexts) := br] else prev))"

definition link_all :: "insn list \<Rightarrow> int list \<times> int list \<times> int list" where
  "link_all ins =
     fold (\<lambda>(i, e) s. fold (\<lambda>k s. if in_j e k > 0 then link_pred (brno i k) (nat (in_j e k)) s else s) [False, True] s) (enumerate 0 ins)
       (replicate (length ins) (- 1), replicate (2 * length ins) (- 1), replicate (2 * length ins) (- 1))"

partial_function (option) pred_walk :: "int list \<Rightarrow> int \<Rightarrow> int list option" where
  "pred_walk next br =
     (if br \<ge> 0 then Option.bind (pred_walk next (next ! nat br)) (\<lambda>v. Some (br # v)) else Some [])"

declare pred_walk.simps [code]

definition find_predecessors :: "nat \<Rightarrow> dom_opt \<Rightarrow> (int list \<times> dom_opt) option" where
  "find_predecessors state s =
     (let s = (if do_pred_first s = [] then (case link_all (do_insn s) of (first, next, prev) \<Rightarrow>
                 s\<lparr> do_pred_first := first, do_pred_next := next, do_pred_prev := prev \<rparr>) else s)
      in map_option (\<lambda>v. (v, s)) (pred_walk (do_pred_next s) (do_pred_first s ! state)))"

text \<open>The place for a branch in a list: the last link before it and the link it goes in front of.\<close>

partial_function (option) find_place :: "int list \<Rightarrow> int \<Rightarrow> int \<Rightarrow> int \<Rightarrow> (int \<times> int) option" where
  "find_place next br prev cur =
     (if cur \<ge> 0 \<and> cur < br then find_place next br cur (next ! nat cur) else Some (prev, cur))"

declare find_place.simps [code]

definition unlink_branch :: "int \<Rightarrow> int \<Rightarrow> dom_opt \<Rightarrow> dom_opt" where
  "unlink_branch br target s =
     (if target > 0 then
        (let next = do_pred_next s; prev = do_pred_prev s; pr = prev ! nat br; nx = next ! nat br;
             s = (if pr \<ge> 0 then s\<lparr> do_pred_next := next[nat pr := nx] \<rparr>
                  else s\<lparr> do_pred_first := (do_pred_first s)[nat target := nx] \<rparr>)
         in if nx \<ge> 0 then s\<lparr> do_pred_prev := prev[nat nx := pr] \<rparr> else s)
      else s)"

definition link_branch :: "int \<Rightarrow> int \<Rightarrow> dom_opt \<Rightarrow> dom_opt option" where
  "link_branch br target s =
     (if target > 0 then Option.bind (find_place (do_pred_next s) br (- 1) (do_pred_first s ! nat target)) (\<lambda>(pr, nx).
        let prev = (do_pred_prev s)[nat br := pr]; next = (do_pred_next s)[nat br := nx];
            s = s\<lparr> do_pred_prev := (if nx \<ge> 0 then prev[nat nx := br] else prev),
                   do_pred_next := (if pr \<ge> 0 then next[nat pr := br] else next) \<rparr>
        in Some (if pr \<ge> 0 then s else s\<lparr> do_pred_first := (do_pred_first s)[nat target := br] \<rparr>))
      else Some s)"

definition set_branch :: "nat \<Rightarrow> bool \<Rightarrow> int \<Rightarrow> dom_opt \<Rightarrow> dom_opt option" where
  "set_branch from_state branch to_state s =
     (let br = brno from_state branch; e = do_insn s ! from_state in
      map_option (\<lambda>s. s\<lparr> do_insn := (do_insn s)[from_state := set_j branch to_state (do_insn s ! from_state)] \<rparr>)
        (link_branch br to_state (unlink_branch br (in_j e branch) s)))"

section \<open>Dominators\<close>

function skip_below :: "int list \<Rightarrow> int \<Rightarrow> nat \<Rightarrow> nat \<Rightarrow> nat" where
  "skip_below vs x pos stop = (if pos < stop \<and> vs ! pos < x then skip_below vs x (Suc pos) stop else pos)"
  by pat_completeness auto
termination by (relation "measure (\<lambda>(_, _, pos, stop). stop - pos)") auto

text \<open>The loops of \<open>intersect_lists\<close> for two or more lists, given by where they start and stop.\<close>

partial_function (option) intersect_loop :: "int list \<Rightarrow> nat list \<Rightarrow> nat list \<Rightarrow> int \<Rightarrow> nat \<Rightarrow> nat \<Rightarrow> int list \<Rightarrow> int list option" where
  "intersect_loop vs stop pos x p k out =
     (if k < length stop then
        (let q = skip_below vs x (pos ! p) (stop ! p) in
         if q \<ge> stop ! p then Some out
         else (let (x, k) = (if vs ! q > x then (vs ! q, 0) else (x, k))
               in intersect_loop vs stop (pos[p := q]) x (if Suc p = length stop then 0 else Suc p) (Suc k) out))
      else intersect_loop vs stop pos (x + 1) 0 0 (out @ [x]))"

declare intersect_loop.simps [code]

definition intersect_lists :: "int list \<Rightarrow> nat list \<Rightarrow> nat list \<Rightarrow> int list option" where
  "intersect_lists vs start stop =
     (if start = [] then Some []
      else if length start = 1 then Some (map (nth vs) [start ! 0..<stop ! 0])
      else intersect_loop vs stop start (- 1) 0 0 [])"

type_synonym pdoms = "int list \<times> nat list \<times> nat list"

text \<open>The lists of one predecessor, with the branch that leads here at their end; lists that contradict it are left out.\<close>

definition add_pred_list :: "int \<Rightarrow> nat \<Rightarrow> nat \<Rightarrow> nat \<Rightarrow> pdoms \<Rightarrow> pdoms exec" where
  "add_pred_list pred_brid ident pos1 pos2 s = (case s of (dm, pdom, pdom_end) \<Rightarrow>
     if \<exists>k \<in> set [pos1..<pos2 - 1]. (dm ! k) XOR pred_brid = 1 then Inr s
     else if stateno (dm ! (pos2 - 1)) \<noteq> ident then Inl Assert_failed
     else Inr (dm[pos2 - 1 := pred_brid], pdom @ [pos1], pdom_end @ [pos2]))"

fun add_pred_lists :: "int \<Rightarrow> nat \<Rightarrow> nat list \<Rightarrow> nat list \<Rightarrow> pdoms \<Rightarrow> pdoms exec" where
  "add_pred_lists pred_brid ident dom_start [] s = Inr s"
| "add_pred_lists pred_brid ident dom_start (j # js) s =
     ebind (add_pred_list pred_brid ident (dom_start ! j) (dom_start ! Suc j) s) (add_pred_lists pred_brid ident dom_start js)"

text \<open>The loop over the predecessors; \<open>earlier\<close> is the state of the previous one.\<close>

fun collect_preds :: "dom_opt \<Rightarrow> nat option \<Rightarrow> int list \<Rightarrow> pdoms \<Rightarrow> pdoms exec" where
  "collect_preds d earlier [] s = Inr s"
| "collect_preds d earlier (br # brs) s =
     (let st = stateno br; ident = do_insn_id d ! st in
      ebind (if earlier = Some st then
               (case s of (dm, pdom, pdom_end) \<Rightarrow>
                  if \<not> (brs = [] \<or> stateno (brs ! 0) \<noteq> ident) then Inl Assert_failed
                  else if pdom_end = [] then Inl Out_of_bounds
                  else if \<not> (last pdom_end > last pdom \<and> stateno (dm ! (last pdom_end - 1)) = ident) then Inl Assert_failed
                  else Inr (dm, pdom, pdom_end[length pdom_end - 1 := last pdom_end - 1]))
             else add_pred_lists (brno ident (br_yes br)) ident (do_dom_start d)
                    [do_domlist_start d ! st..<do_domlist_start d ! Suc st] s)
        (collect_preds d (Some st) brs))"

text \<open>Copying the lists of the predecessors, while looking for the branch they all have of this state's test.\<close>

definition copy_list :: "int list \<Rightarrow> int \<Rightarrow> nat \<Rightarrow> nat \<Rightarrow> int list \<times> int" where
  "copy_list dm mybr pos endpos =
     (let kept = filter (\<lambda>i. \<not> (i < endpos \<and> (dm ! i) XOR (dm ! endpos) \<le> 1)) [pos..<Suc endpos];
          mine = filter (\<lambda>i. (dm ! i) XOR mybr \<le> 1) kept
      in (map (nth dm) kept, if mine = [] then - 1 else dm ! last mine))"

fun copy_lists :: "nat list \<Rightarrow> nat list \<Rightarrow> int list \<times> nat list \<times> int \<times> int \<Rightarrow> (int list \<times> nat list \<times> int \<times> int) exec" where
  "copy_lists (b # bs) (e # es) (dm, dom_start, mybr, num_mybr) =
     (if e = 0 then Inl Out_of_bounds
      else (let (vs, pred_mybr) = copy_list dm mybr b (e - 1);
                (mybr, num_mybr) = (if num_mybr \<ge> 0 \<and> pred_mybr \<ge> 0 \<and> (num_mybr = 0 \<or> mybr = pred_mybr)
                                    then (pred_mybr, num_mybr + 1) else (mybr, - 1));
                dm = dm @ vs @ [mybr]
            in copy_lists bs es (dm, dom_start @ [length dm], mybr, num_mybr)))"
| "copy_lists _ _ s = Inr s"

fun set_branches :: "int list \<Rightarrow> int \<Rightarrow> dom_opt \<Rightarrow> dom_opt option" where
  "set_branches [] to_state s = Some s"
| "set_branches (br # brs) to_state s = Option.bind (set_branch (stateno br) (br_yes br) to_state s) (set_branches brs to_state)"

text \<open>The end of \<open>calculate_dom\<close> for a state that cannot be reached, or is skipped by all that reach it.\<close>

definition impossible_state :: "nat \<Rightarrow> nat \<Rightarrow> dom_opt \<Rightarrow> dom_opt option" where
  "impossible_state state oldsize s =
     (let s = s\<lparr> do_dom := take (do_dom_start s ! (oldsize - 1)) (do_dom s), do_dom_start := take oldsize (do_dom_start s) \<rparr>
      in if state > 0 then Option.bind (set_branch state False j_never s) (set_branch state True j_never)
         else Some (s\<lparr> do_dom := do_dom s @ [brno state False], do_dom_start := do_dom_start s @ [length (do_dom s) + 1] \<rparr>))"

definition close_domlist :: "dom_opt \<Rightarrow> dom_opt" where
  "close_domlist s = s\<lparr> do_domlist_start := do_domlist_start s @ [length (do_dom_start s) - 1] \<rparr>"

definition MAX_DOMLIST :: nat where
  "MAX_DOMLIST = 4"

definition calculate_dom :: "nat \<Rightarrow> dom_opt \<Rightarrow> dom_opt run" where
  "calculate_dom state s =
     (if \<not> (length (do_domlist_start s) = Suc state \<and> length (do_dom_start s) - 1 = last (do_domlist_start s) \<and>
            length (do_dom s) = last (do_dom_start s)) then Some (Inl Assert_failed)
      else Option.bind (find_predecessors state s) (\<lambda>(preds, s).
        dbind (collect_preds s None preds (do_dom s, [], [])) (\<lambda>(dm, pdom, pdom_end).
          let s = s\<lparr> do_dom := dm \<rparr>; oldsize = length (do_dom_start s); mine = brno (do_insn_id s ! state) False in
          if length pdom > MAX_DOMLIST then
            Option.bind (intersect_lists dm pdom pdom_end) (\<lambda>vs.
              let dm = dm @ vs @ [mine]
              in Some (Inr (close_domlist (s\<lparr> do_dom := dm, do_dom_start := do_dom_start s @ [length dm] \<rparr>))))
          else if pdom = [] then Option.bind (impossible_state state oldsize s) (\<lambda>s. Some (Inr (close_domlist s)))
          else dbind (copy_lists pdom pdom_end (dm, do_dom_start s, mine, 0)) (\<lambda>(dm, dom_start, mybr, num_mybr).
            let s = s\<lparr> do_dom := dm, do_dom_start := dom_start \<rparr> in
            if num_mybr > 0 then
              Option.bind (set_branches preds (in_j (do_insn s ! state) (br_yes mybr)) s) (\<lambda>s.
              Option.bind (impossible_state state oldsize s) (\<lambda>s. Some (Inr (close_domlist s))))
            else Some (Inr (close_domlist s))))))"

section \<open>Shifting branches\<close>

definition br_implies :: "dom_opt \<Rightarrow> int \<Rightarrow> nat \<Rightarrow> bool" where
  "br_implies s br state =
     (let from_state = stateno br; kl = do_known_length s ! from_state in
      if br_yes br then implies (do_insn s ! from_state) (do_insn s ! state) kl
      else not_implies (do_insn s ! from_state) (do_insn s ! state) kl)"

definition br_implies_not :: "dom_opt \<Rightarrow> int \<Rightarrow> nat \<Rightarrow> bool" where
  "br_implies_not s br state =
     (let from_state = stateno br; kl = do_known_length s ! from_state in
      if br_yes br then implies_not (do_insn s ! from_state) (do_insn s ! state) kl
      else not_implies_not (do_insn s ! from_state) (do_insn s ! state) kl)"

text \<open>What the branches of a list, the last first, say about a test.\<close>

fun decided :: "dom_opt \<Rightarrow> nat \<Rightarrow> int list \<Rightarrow> bool option" where
  "decided s state [] = None"
| "decided s state (br # brs) =
     (if br_implies s br state then Some True else if br_implies_not s br state then Some False else decided s state brs)"

text \<open>The loop of \<open>dom_shift_branch\<close>, with all the states it passes.\<close>

partial_function (option) shift_loop :: "dom_opt \<Rightarrow> int list \<Rightarrow> int \<Rightarrow> int list option" where
  "shift_loop s brs to_state =
     (if to_state > 0 then
        (case decided s (nat to_state) brs of
           None \<Rightarrow> Some [to_state]
         | Some b \<Rightarrow> Option.bind (shift_loop s brs (in_j (do_insn s ! nat to_state) b)) (\<lambda>vs. Some (to_state # vs)))
      else Some [to_state])"

declare shift_loop.simps [code]

definition dom_shift_branch :: "int \<Rightarrow> int \<Rightarrow> nat \<Rightarrow> nat \<Rightarrow> dom_opt \<Rightarrow> (int list \<times> dom_opt) run" where
  "dom_shift_branch br to_state pos stop s =
     (let br = brno (do_insn_id s ! stateno br) (br_yes br) in
      if \<not> (stop > pos \<and> stateno (do_dom s ! (stop - 1)) = stateno br) then Some (Inl Assert_failed)
      else (let s = s\<lparr> do_dom := (do_dom s)[stop - 1 := br] \<rparr>
            in Option.bind (shift_loop s (rev (map (nth (do_dom s)) [pos..<stop])) to_state) (\<lambda>vs. Some (Inr (vs, s)))))"

fun shift_all :: "int \<Rightarrow> int \<Rightarrow> nat list \<Rightarrow> dom_opt \<Rightarrow> (int list list \<times> dom_opt) run" where
  "shift_all br nexts [] s = Some (Inr ([], s))"
| "shift_all br nexts (d # ds) s =
     rbind (dom_shift_branch br nexts (do_dom_start s ! d) (do_dom_start s ! Suc d) s) (\<lambda>(vs, s).
     rbind (shift_all br nexts ds s) (\<lambda>(vss, s). Some (Inr (vs # vss, s))))"

definition starts :: "int list list \<Rightarrow> nat list" where
  "starts vss = map (\<lambda>k. length (concat (take k vss))) [0..<length vss]"

definition stops :: "int list list \<Rightarrow> nat list" where
  "stops vss = map (\<lambda>k. length (concat (take (Suc k) vss))) [0..<length vss]"

definition last_common_state_in_lists :: "int list list \<Rightarrow> int run" where
  "last_common_state_in_lists vss =
     (let s = last (vss ! 0) in
      if s \<le> 0 \<and> list_all (\<lambda>vs. last vs = s) vss then Some (Inr s)
      else Option.bind (intersect_lists (concat vss) (starts vss) (stops vss)) (\<lambda>vs.
        if vs = [] then Some (Inl Out_of_bounds) else Some (Inr (last vs))))"

definition shift_branch :: "nat \<Rightarrow> bool \<Rightarrow> dom_opt \<Rightarrow> dom_opt run" where
  "shift_branch state branch s =
     (let nexts = in_j (do_insn s ! state) branch; br = brno state branch;
          a = do_domlist_start s ! state; b = do_domlist_start s ! Suc state in
      if a = b \<or> nexts \<le> 0 then Some (Inr s)
      else rbind (if a + 1 = b
                  then rbind (dom_shift_branch br nexts (do_dom_start s ! a) (do_dom_start s ! Suc a) s) (\<lambda>(vs, s). Some (Inr (last vs, s)))
                  else rbind (shift_all br nexts [a..<b] s) (\<lambda>(vss, s).
                         rbind (last_common_state_in_lists vss) (\<lambda>new. Some (Inr (new, s))))) (\<lambda>(new, s).
           if new \<noteq> nexts then map_option Inr (set_branch state branch new s) else Some (Inr s)))"

definition dom_run :: "nat \<Rightarrow> dom_opt \<Rightarrow> dom_opt run" where
  "dom_run state s = rbind (calculate_dom state s) (\<lambda>s. rbind (shift_branch state True s) (shift_branch state False))"

fun dom_run_all :: "nat list \<Rightarrow> dom_opt \<Rightarrow> dom_opt run" where
  "dom_run_all [] s = Some (Inr s)"
| "dom_run_all (i # is) s = rbind (dom_run i s) (dom_run_all is)"

section \<open>Optimisation\<close>

definition optimize :: "(int \<times> int) list \<Rightarrow> int \<Rightarrow> program \<Rightarrow> program run" where
  "optimize ms last_offset p =
     Option.bind (bubble_sort_and_exprs ms last_offset (pr_insn p)) (\<lambda>ins.
     dbind (dom_new ins) (\<lambda>s.
     rbind (dom_run_all [0..<length ins] s) (\<lambda>s.
     Option.bind (combine_compatible_states (do_insn s)) (\<lambda>ins.
     Some (Inr (finish_optimize (remove_unused_states (p\<lparr> pr_insn := ins \<rparr>))))))))"

end
