(* ===== verification/Click_Classifier.thy ===== *)
theory Click_Classifier
  imports Click_Dominators
begin

text \<open>
  \<^verbatim>\<open>Classifier\<close> (\<^verbatim>\<open>click/elements/standard/classifier.cc\<close>): the element that sends a packet to the output of the first pattern it matches. A
  pattern is parsed into clauses, a clause into instructions; the program is optimised and then run on every packet.
\<close>

section \<open>Patterns\<close>

datatype pattern_error = Expected_digit | Expected_slash | Value_too_short | Value_odd | Mask_length

record clause =
  cl_negated :: bool
  cl_offset :: int
  cl_bytes :: "(byte \<times> byte) list"

definition isspace :: "char \<Rightarrow> bool" where
  "isspace c \<longleftrightarrow> c = CHR 0x20 \<or> c = CHR 0x09 \<or> c = CHR 0x0A \<or> c = CHR 0x0B \<or> c = CHR 0x0C \<or> c = CHR 0x0D"

definition in_range :: "char \<Rightarrow> char \<Rightarrow> char \<Rightarrow> bool" where
  "in_range a b c \<longleftrightarrow> of_char a \<le> (of_char c :: nat) \<and> of_char c \<le> (of_char b :: nat)"

definition hex_or_any :: "char \<Rightarrow> bool" where
  "hex_or_any c \<longleftrightarrow> in_range (CHR ''0'') (CHR ''9'') c \<or> in_range (CHR ''A'') (CHR ''F'') c \<or> in_range (CHR ''a'') (CHR ''f'') c \<or> c = CHR ''?''"

text \<open>A digit's contribution to value and mask.\<close>

definition update_value_mask :: "char \<Rightarrow> nat \<Rightarrow> byte \<times> byte \<Rightarrow> byte \<times> byte" where
  "update_value_mask c sh vm =
     (let (v, m) = (if c = CHR ''?'' then (0, 0)
                    else (if in_range (CHR ''0'') (CHR ''9'') c then of_char c - 48
                          else if in_range (CHR ''A'') (CHR ''F'') c then of_char c - 65 + 10
                          else if in_range (CHR ''a'') (CHR ''f'') c then of_char c - 97 + 10 else 0, 0xF))
      in (fst vm OR push_bit sh v, snd vm OR push_bit sh m))"

fun hex_bytes :: "string \<Rightarrow> (byte \<times> byte) list" where
  "hex_bytes (a # b # cs) = update_value_mask b 0 (update_value_mask a 4 (0, 0)) # hex_bytes cs"
| "hex_bytes _ = []"

definition value_mask :: "byte \<times> byte \<Rightarrow> byte \<times> byte \<Rightarrow> byte \<times> byte" where
  "value_mask vm mm = (let m = snd vm AND fst mm AND snd mm in (fst vm AND m, m))"

definition clause_bytes :: "string \<Rightarrow> string option \<Rightarrow> (byte \<times> byte) list" where
  "clause_bytes vs ms =
     (case ms of
        None \<Rightarrow> map (\<lambda>(v, m). (v AND m, m)) (hex_bytes vs)
      | Some ms \<Rightarrow> map2 value_mask (hex_bytes vs) (hex_bytes ms))"

definition decimal :: "string \<Rightarrow> int" where
  "decimal ds = foldl (\<lambda>n c. n * 10 + (of_char c - 48)) 0 ds"

text \<open>One clause, at the start of the string, with the rest of the string; and the loop over a pattern. After an error the configuration fails and the program is dropped, so parsing ends with
  the first error. The offset is assumed to fit in an \<^verbatim>\<open>int\<close>.\<close>

definition parse_value :: "bool \<Rightarrow> int \<Rightarrow> string \<Rightarrow> pattern_error + clause \<times> string" where
  "parse_value neg off s =
     (let vs = takeWhile hex_or_any s; s = dropWhile hex_or_any s;
          masked = (s \<noteq> [] \<and> s ! 0 = CHR ''%''); s = (if masked then drop 1 s else s);
          ms = (if masked then Some (takeWhile hex_or_any s) else None); s = (if masked then dropWhile hex_or_any s else s) in
      if length vs < 2 then Inl Value_too_short
      else if odd (length vs) then Inl Value_odd
      else if ms \<noteq> None \<and> length (the ms) \<noteq> length vs then Inl Mask_length
      else Inr (\<lparr> cl_negated = neg, cl_offset = off, cl_bytes = clause_bytes vs ms \<rparr>, s))"

definition parse_clause :: "string \<Rightarrow> pattern_error + clause \<times> string" where
  "parse_clause s =
     (let neg = (s ! 0 = CHR ''!''); s = (if neg then dropWhile isspace (drop 1 s) else s) in
      if s = [] \<or> \<not> isdigit (s ! 0) then Inl Expected_digit
      else (let off = decimal (takeWhile isdigit s); s = dropWhile isdigit s in
        if s = [] \<or> s ! 0 \<noteq> CHR ''/'' then Inl Expected_slash else parse_value neg off (drop 1 s)))"

lemma parse_value_shorter: "parse_value neg off s = Inr (c, s') \<Longrightarrow> length s' \<le> length s"
proof -
  assume "parse_value neg off s = Inr (c, s')"
  then have "s' = dropWhile hex_or_any s \<or> s' = dropWhile hex_or_any (drop 1 (dropWhile hex_or_any s))"
    by (auto simp: parse_value_def Let_def split: if_splits)
  moreover have "length (dropWhile hex_or_any (drop 1 (dropWhile hex_or_any s))) \<le> length s"
    using length_dropWhile_le [of hex_or_any "drop 1 (dropWhile hex_or_any s)"] length_dropWhile_le [of hex_or_any s] by simp
  ultimately show ?thesis using length_dropWhile_le [of hex_or_any s] by auto
qed

lemma parse_clause_shorter: "s \<noteq> [] \<Longrightarrow> parse_clause s = Inr (c, s') \<Longrightarrow> length s' < length s"
proof -
  assume s: "s \<noteq> []" and p: "parse_clause s = Inr (c, s')"
  define s1 where "s1 = (if s ! 0 = CHR ''!'' then dropWhile isspace (drop 1 s) else s)"
  define s2 where "s2 = dropWhile isdigit s1"
  obtain neg off where "s2 \<noteq> []" "parse_value neg off (drop 1 s2) = Inr (c, s')"
    using p by (auto simp: parse_clause_def Let_def s1_def s2_def split: if_splits)
  then have "length s' \<le> length s2 - 1" "0 < length s2" using parse_value_shorter by (fastforce, simp)
  moreover have "length s2 \<le> length s1" "length s1 \<le> length s"
    using length_dropWhile_le [of isspace "drop 1 s"] by (auto simp: s1_def s2_def length_dropWhile_le intro: le_trans)
  ultimately show ?thesis by linarith
qed

function parse_clauses :: "string \<Rightarrow> pattern_error + clause list" where
  "parse_clauses s =
     (if dropWhile isspace s = [] then Inr []
      else (case parse_clause (dropWhile isspace s) of
              Inl err \<Rightarrow> Inl err
            | Inr cs \<Rightarrow> (case parse_clauses (snd cs) of Inl err \<Rightarrow> Inl err | Inr cs' \<Rightarrow> Inr (fst cs # cs'))))"
  by pat_completeness auto
termination
proof (relation "measure length", goal_cases)
  case (2 s cs)
  then have "length (snd cs) < length (dropWhile isspace s)" using parse_clause_shorter by (metis surjective_pairing)
  then show ?case using length_dropWhile_le [of isspace s] by simp
qed simp

declare parse_clauses.simps [simp del]

definition parse_pattern :: "string \<Rightarrow> pattern_error + clause list" where
  "parse_pattern s = (if s = ''-'' then Inr [] else parse_clauses s)"

fun parse_patterns :: "string list \<Rightarrow> pattern_error + clause list list" where
  "parse_patterns [] = Inr []"
| "parse_patterns (s # ss) =
     (case parse_pattern s of Inl err \<Rightarrow> Inl err
      | Inr cs \<Rightarrow> (case parse_patterns ss of Inl err \<Rightarrow> Inl err | Inr css \<Rightarrow> Inr (cs # css)))"

section \<open>Building and running the program\<close>

definition set_back :: "nat \<Rightarrow> byte \<Rightarrow> byte \<Rightarrow> int list \<times> program \<Rightarrow> int list \<times> program" where
  "set_back b v m tp = (case tp of (tree, p) \<Rightarrow>
     let e = last (pr_insn p)
     in (tree, p\<lparr> pr_insn := butlast (pr_insn p) @ [e\<lparr> in_mask := set_byte b m (in_mask e), in_value := set_byte b v (in_value e) \<rparr>] \<rparr>))"

fun add_bytes :: "int \<Rightarrow> bool \<Rightarrow> (byte \<times> byte) list \<Rightarrow> int list \<times> program \<Rightarrow> int list \<times> program" where
  "add_bytes off first [] tp = tp"
| "add_bytes off first ((v, m) # bs) tp =
     add_bytes (off + 1) False bs
       (set_back (nat (off mod 4)) v m (if first \<or> off mod 4 = 0 then add_insn (off div 4 * 4) 0 0 tp else tp))"

definition start :: "int list \<times> program \<Rightarrow> int list \<times> program" where
  "start tp = (start_subtree (fst tp), snd tp)"

definition build_clause :: "clause \<Rightarrow> int list \<times> program \<Rightarrow> (int list \<times> program) exec" where
  "build_clause c tp =
     (let tp = start tp; tp = add_bytes (cl_offset c + int (pr_align_offset (snd tp))) True (cl_bytes c) tp;
          tp = finish_subtree C_and j_success j_failure tp
      in if cl_negated c then negate_subtree False tp else Inr tp)"

fun build_clauses :: "clause list \<Rightarrow> int list \<times> program \<Rightarrow> (int list \<times> program) exec" where
  "build_clauses [] tp = Inr tp"
| "build_clauses (c # cs) tp = ebind (build_clause c tp) (build_clauses cs)"

definition build_pattern :: "nat \<Rightarrow> clause list \<Rightarrow> int list \<times> program \<Rightarrow> (int list \<times> program) exec" where
  "build_pattern slot cs tp =
     ebind (build_clauses cs (start tp)) (\<lambda>tp.
     Inr (finish_subtree C_and (- int slot) j_failure (if cs = [] then add_insn 0 0 0 tp else tp)))"

fun build_patterns :: "nat \<Rightarrow> clause list list \<Rightarrow> int list \<times> program \<Rightarrow> (int list \<times> program) exec" where
  "build_patterns slot [] tp = Inr tp"
| "build_patterns slot (cs # css) tp = ebind (build_pattern slot cs tp) (build_patterns (Suc slot) css)"

definition build_program :: "nat \<Rightarrow> clause list list \<Rightarrow> program exec" where
  "build_program align css =
     ebind (build_patterns 0 css (start (init_subtree [], new_program align))) (\<lambda>tp.
     Inr (snd (finish_subtree C_or j_never j_never tp)))"

text \<open>\<open>empty_program\<close>: the alignment, from what \<^verbatim>\<open>AlignmentInfo::query\<close> found.\<close>

definition align_of :: "(int \<times> int) option \<Rightarrow> nat" where
  "align_of query = (case query of Some (c, off) \<Rightarrow> if c \<ge> 4 then nat ((4 - off mod 4) mod 4) else 0 | None \<Rightarrow> 0)"

definition classifier_configure :: "nat \<Rightarrow> (int \<times> int) option \<Rightarrow> string list \<Rightarrow> program \<Rightarrow> (bool \<times> program) run" where
  "classifier_configure noutputs query conf old =
     (if length conf \<noteq> noutputs then Some (Inr (False, old))
      else (case parse_patterns conf of
              Inl _ \<Rightarrow> Some (Inr (False, old))
            | Inr css \<Rightarrow> dbind (build_program (align_of query) css) (\<lambda>p.
                rbind (optimize [] 0x7FFFFFFF p) (\<lambda>p. Some (Inr (True, p))))))"

definition bytes_classifier_push :: "nat \<Rightarrow> program \<Rightarrow> packet \<Rightarrow> (nat \<times> packet) list run" where
  "bytes_classifier_push noutputs prog p =
     rbind (program_match prog p) (\<lambda>out. Some (Inr (if 0 \<le> out \<and> out < int noutputs then [(nat out, p)] else [])))"

end
