(* ===== verification/Click_Decision.thy ===== *)
theory Click_Decision
  imports Click_Classification
begin

text \<open>
  What a classification program means, apart from how it is run: every test reads bytes of the packet, and the program is followed forward from an
  instruction to an output. The passes of \<open>optimize\<close> that sort, combine and remove instructions are shown to keep this meaning, and the loops of
  \<open>program_match\<close> to compute it without leaving the buffer.
\<close>

section \<open>The meaning of a program\<close>

text \<open>The bytes of a view, with zeros past its end; no test depends on those.\<close>

definition byte_at :: "byte list \<Rightarrow> nat \<Rightarrow> byte" where
  "byte_at d i = (if i < length d then d ! i else 0)"

definition word_at :: "byte list \<Rightarrow> nat \<Rightarrow> u32" where
  "word_at d i = le32 (byte_at d i) (byte_at d (i + 1)) (byte_at d (i + 2)) (byte_at d (i + 3))"

definition insn_test :: "byte list \<Rightarrow> insn \<Rightarrow> bool" where
  "insn_test d e \<longleftrightarrow> (if required_length e \<le> length d then word_at d (in_offset e) AND in_mask e = in_value e else in_short e)"

definition branch :: "byte list \<Rightarrow> insn \<Rightarrow> int" where
  "branch d e = in_j e (insn_test d e)"

function run_insn :: "insn list \<Rightarrow> byte list \<Rightarrow> nat \<Rightarrow> int" where
  "run_insn ins d i =
     (if i < length ins then (let j = branch d (ins ! i) in if j > int i then run_insn ins d (nat j) else j) else int i)"
  by pat_completeness auto
termination by (relation "measure (\<lambda>(ins, _, i). length ins - i)") auto

declare run_insn.simps [simp del]

definition follow :: "insn list \<Rightarrow> byte list \<Rightarrow> int \<Rightarrow> int" where
  "follow ins d j = (if j > 0 then run_insn ins d (nat j) else j)"

text \<open>A well-formed program jumps forward and inside itself, and a test's value has no bit its mask has not.\<close>

definition jump_ok :: "nat \<Rightarrow> nat \<Rightarrow> int \<Rightarrow> bool" where
  "jump_ok n i j \<longleftrightarrow> j \<le> 0 \<or> int i < j \<and> j < int n"

definition forward :: "insn list \<Rightarrow> bool" where
  "forward ins \<longleftrightarrow> (\<forall>i < length ins. jump_ok (length ins) i (in_no (ins ! i)) \<and> jump_ok (length ins) i (in_yes (ins ! i)))"

definition masked :: "insn \<Rightarrow> bool" where
  "masked e \<longleftrightarrow> in_value e AND in_mask e = in_value e"

lemma follow_simps [simp]: "j \<le> 0 \<Longrightarrow> follow ins d j = j" "j > 0 \<Longrightarrow> follow ins d j = run_insn ins d (nat j)"
  by (simp_all add: follow_def)

lemma in_j_simps [simp]: "in_j e True = in_yes e" "in_j e False = in_no e"
  by (simp_all add: in_j_def)

lemma forward_jump: "forward ins \<Longrightarrow> i < length ins \<Longrightarrow> jump_ok (length ins) i (in_j (ins ! i) b)"
  by (simp add: forward_def in_j_def)

lemma forwardI:
  assumes "\<And>i b. i < length ins \<Longrightarrow> jump_ok (length ins) i (in_j (ins ! i) b)"
  shows "forward ins"
  using assms [of _ False] assms [of _ True] by (simp add: forward_def)

lemma run_insn_follow: "forward ins \<Longrightarrow> i < length ins \<Longrightarrow> run_insn ins d i = follow ins d (branch d (ins ! i))"
  using forward_jump [of ins i "insn_test d (ins ! i)"]
  by (subst run_insn.simps) (auto simp: branch_def jump_ok_def follow_def Let_def)

text \<open>The meaning is the only function that satisfies the program's equations; a pass that keeps the equations keeps the meaning.\<close>

lemma run_insn_unique:
  assumes f: "forward ins"
    and r: "\<And>i. i < length ins \<Longrightarrow> R i = (let j = branch d (ins ! i) in if j > 0 then R (nat j) else j)"
    and i: "i < length ins"
  shows "run_insn ins d i = R i"
  using i
proof (induction "length ins - i" arbitrary: i rule: less_induct)
  case less
  define j where "j = branch d (ins ! i)"
  have ok: "jump_ok (length ins) i j" using forward_jump [OF f less.prems] by (simp add: j_def branch_def)
  have "follow ins d j = (if j > 0 then R (nat j) else j)"
  proof (cases "j > 0")
    case True
    then have "nat j < length ins" "length ins - nat j < length ins - i" using ok less.prems by (auto simp: jump_ok_def)
    then show ?thesis using less.hyps True by simp
  qed simp
  then show ?case using run_insn_follow [OF f less.prems] r [OF less.prems] by (simp add: j_def Let_def)
qed

lemma same_meaning:
  assumes "forward ins'" "length ins' = length ins"
    and "\<And>i. i < length ins \<Longrightarrow> follow ins d (branch d (ins' ! i)) = run_insn ins d i"
    and "i < length ins"
  shows "run_insn ins' d i = run_insn ins d i"
proof (rule run_insn_unique [where R = "run_insn ins d"])
  fix k assume "k < length ins'"
  then show "run_insn ins d k = (let j = branch d (ins' ! k) in if j > 0 then run_insn ins d (nat j) else j)"
    using assms(2) assms(3) [of k] by (simp add: follow_def Let_def)
qed (use assms in auto)

lemma run_insn_output:
  assumes f: "forward ins" and i: "i < length ins"
  shows "run_insn ins d i \<le> 0"
  using i
proof (induction "length ins - i" arbitrary: i rule: less_induct)
  case less
  define j where "j = branch d (ins ! i)"
  have ok: "jump_ok (length ins) i j" using forward_jump [OF f less.prems] by (simp add: j_def branch_def)
  show ?case
  proof (cases "j > 0")
    case True
    then have "nat j < length ins" "length ins - nat j < length ins - i" using ok less.prems by (auto simp: jump_ok_def)
    then have "run_insn ins d (nat j) \<le> 0" by (intro less.hyps) auto
    then show ?thesis using True run_insn_follow [OF f less.prems] by (simp add: j_def [symmetric])
  qed (use run_insn_follow [OF f less.prems] in \<open>simp add: j_def [symmetric]\<close>)
qed

section \<open>Bytes of a test\<close>

lemma byte_of_and [simp]: "byte_of (a AND b) i = byte_of a i AND byte_of b i"
  by (simp add: byte_of_def bit_eq_iff bit_simps; blast)

lemma byte_of_0 [simp]: "byte_of 0 i = 0"
  by (simp add: byte_of_def)

lemma less_4: "(\<forall>i < (4 :: nat). P i) \<longleftrightarrow> P 0 \<and> P 1 \<and> P 2 \<and> P 3"
  by (auto simp: less_Suc_eq numeral_eq_Suc)

lemma word_bytes_eq: "(a :: u32) = b \<longleftrightarrow> (\<forall>i < 4. byte_of a i = byte_of b i)"
proof
  assume "\<forall>i < 4. byte_of a i = byte_of b i"
  then have "bytes32 a = bytes32 b" by (simp add: less_4 byte_of_def bytes32_def)
  then have "le32 (ucast a) (ucast (drop_bit 8 a)) (ucast (drop_bit 16 a)) (ucast (drop_bit 24 a)) =
      le32 (ucast b) (ucast (drop_bit 8 b)) (ucast (drop_bit 16 b)) (ucast (drop_bit 24 b))" by (simp add: bytes32_def)
  then show "a = b" by simp
qed simp

lemma byte_of_le32: "i < 4 \<Longrightarrow> byte_of (le32 a b c d) i = [a, b, c, d] ! i"
proof -
  assume i: "i < 4"
  have "bytes32 (le32 a b c d) ! i = byte_of (le32 a b c d) i"
    using i by (auto simp: bytes32_def byte_of_def less_Suc_eq numeral_eq_Suc simp del: bytes32_le32)
  then show ?thesis by simp
qed

lemma byte_of_word_at: "i < 4 \<Longrightarrow> byte_of (word_at d j) i = byte_at d (j + i)"
  by (auto simp: word_at_def byte_of_le32 less_Suc_eq numeral_eq_Suc)

lemma required_length_le: "required_length e \<le> n \<longleftrightarrow> (\<forall>i < 4. byte_of (in_mask e) i \<noteq> 0 \<longrightarrow> in_offset e + i < n)"
proof -
  have "in_mask e = 0 \<longleftrightarrow> byte_of (in_mask e) 0 = 0 \<and> byte_of (in_mask e) 1 = 0 \<and> byte_of (in_mask e) 2 = 0 \<and> byte_of (in_mask e) 3 = 0"
    by (subst word_bytes_eq) (simp add: less_4)
  then show ?thesis by (cases "in_mask e = 0") (auto simp: required_length_def less_4)
qed

lemma test_bytes: "(word_at d off AND m = v) \<longleftrightarrow> (\<forall>i < 4. byte_at d (off + i) AND byte_of m i = byte_of v i)"
  by (subst word_bytes_eq) (auto simp: byte_of_word_at)

section \<open>Running a program computes its meaning\<close>

lemma length_ok_required: "in_mask e \<noteq> 0 \<Longrightarrow> length_ok e n \<longleftrightarrow> required_length e \<le> n"
proof -
  assume "in_mask e \<noteq> 0"
  then have "byte_of (in_mask e) 0 \<noteq> 0 \<or> byte_of (in_mask e) 1 \<noteq> 0 \<or> byte_of (in_mask e) 2 \<noteq> 0 \<or> byte_of (in_mask e) 3 \<noteq> 0"
    by (subst (asm) word_bytes_eq) (auto simp: less_4)
  then show ?thesis by (auto simp: required_length_le length_ok_def less_4 Let_def)
qed

lemma masked_byte: "masked e \<Longrightarrow> byte_of (in_mask e) i = 0 \<Longrightarrow> byte_of (in_value e) i = 0"
  by (metis masked_def byte_of_and and_zero_eq)

lemma read_test:
  assumes "required_length e \<le> len" "masked e" "len \<le> length v" "in_offset e + 3 < length v"
  shows "\<exists>w. read32 v (in_offset e) = Inr w \<and> ((w AND in_mask e = in_value e) \<longleftrightarrow> insn_test (take len v) e)"
proof -
  have "read32 v (in_offset e) = Inr (word_at v (in_offset e))"
    using assms(4) by (simp add: read32_def word_at_def byte_at_def)
  moreover have "byte_at v (in_offset e + i) AND byte_of (in_mask e) i = byte_of (in_value e) i \<longleftrightarrow>
      byte_at (take len v) (in_offset e + i) AND byte_of (in_mask e) i = byte_of (in_value e) i" if "i < 4" for i
    using assms that masked_byte [of e i]
    by (cases "byte_of (in_mask e) i = 0") (auto simp: required_length_le byte_at_def)
  ultimately show ?thesis using assms(1,3) by (auto simp: insn_test_def test_bytes)
qed

definition testing :: "insn list \<Rightarrow> bool" where
  "testing ins \<longleftrightarrow> forward ins \<and> (\<forall>e \<in> set ins. in_mask e \<noteq> 0 \<and> masked e)"

lemma testing_nth: "testing ins \<Longrightarrow> i < length ins \<Longrightarrow> in_mask (ins ! i) \<noteq> 0 \<and> masked (ins ! i)"
  by (simp add: testing_def)

lemma required_offset: "in_mask e \<noteq> 0 \<Longrightarrow> in_offset e < required_length e"
  by (simp add: required_length_def)

lemma checked_loop_run:
  assumes "testing ins" "i < length ins" "len + 3 \<le> length v"
  shows "checked_loop ins v len i = Some (Inr (- run_insn ins (take len v) i))"
  using assms(2)
proof (induction "length ins - i" arbitrary: i rule: less_induct)
  case less
  define e where "e = ins ! i"
  have f: "forward ins" using assms(1) by (simp add: testing_def)
  have e: "in_mask e \<noteq> 0" "masked e" using testing_nth [OF assms(1) less.prems] by (auto simp: e_def)
  have t: "(if length_ok e len then ebind (read32 v (in_offset e)) (\<lambda>d. Inr (d AND in_mask e = in_value e)) else Inr (in_short e)) =
      Inr (insn_test (take len v) e)"
  proof (cases "required_length e \<le> len")
    case True
    then show ?thesis using read_test [OF True e(2), of v] required_offset [OF e(1)] assms(3) e(1) by (auto simp: length_ok_required)
  qed (use e assms(3) in \<open>simp add: length_ok_required insn_test_def\<close>)
  have ok: "jump_ok (length ins) i (branch (take len v) e)" using forward_jump [OF f less.prems] by (simp add: e_def branch_def)
  show ?case
    using t run_insn_follow [OF f less.prems, of "take len v"] less.hyps [of "nat (branch (take len v) e)"] ok less.prems
    by (subst checked_loop.simps) (auto simp: Let_def e_def [symmetric] jump_ok_def branch_def [symmetric])
qed

lemma match_loop_run:
  assumes "testing ins" "i < length ins" "len + 3 \<le> length v" "\<forall>e \<in> set ins. required_length e \<le> len"
  shows "match_loop ins v i = Some (Inr (- run_insn ins (take len v) i))"
  using assms(2)
proof (induction "length ins - i" arbitrary: i rule: less_induct)
  case less
  define e where "e = ins ! i"
  have f: "forward ins" using assms(1) by (simp add: testing_def)
  have e: "in_mask e \<noteq> 0" "masked e" "required_length e \<le> len"
    using testing_nth [OF assms(1) less.prems] assms(4) less.prems by (auto simp: e_def)
  have off: "in_offset e + 3 < length v" "len \<le> length v" using e required_offset [of e] assms(3) by auto
  obtain w where w: "read32 v (in_offset e) = Inr w" "(w AND in_mask e = in_value e) \<longleftrightarrow> insn_test (take len v) e"
    using read_test [OF e(3,2) off(2,1)] by blast
  have ok: "jump_ok (length ins) i (branch (take len v) e)" using forward_jump [OF f less.prems] by (simp add: e_def branch_def)
  show ?case
    using w run_insn_follow [OF f less.prems, of "take len v"] less.hyps [of "nat (branch (take len v) e)"] ok less.prems
    by (subst match_loop.simps) (auto simp: Let_def e_def [symmetric] jump_ok_def branch_def [symmetric])
qed

section \<open>Removing instructions\<close>

text \<open>Two instructions make the same test.\<close>

definition same_test :: "insn \<Rightarrow> insn \<Rightarrow> bool" where
  "same_test e x \<longleftrightarrow> in_offset e = in_offset x \<and> in_short e = in_short x \<and> in_mask e = in_mask x \<and> in_value e = in_value x"

lemma same_test_insn_test: "same_test e x \<Longrightarrow> insn_test d e = insn_test d x"
  by (simp add: same_test_def insn_test_def required_length_def)

lemma same_test_past [simp]: "same_test (past dst e) e"
  by (simp add: same_test_def past_def)

lemma same_test_refl [simp]: "same_test e e"
  by (simp add: same_test_def)

lemma insn_test_past [simp]: "insn_test d (past dst e) = insn_test d e"
  by (simp add: same_test_insn_test)

lemma insn_test_unmasked: "in_mask e = 0 \<Longrightarrow> masked e \<Longrightarrow> insn_test d e"
  by (simp add: insn_test_def required_length_def masked_def)

lemma in_j_past: "in_j (past dst e) b = (if in_j e b > 0 then dst ! nat (in_j e b) else in_j e b)"
  by (cases b) (simp_all add: past_def)

text \<open>A jump to \<open>j\<close> from below \<open>j\<close> that \<open>dst\<close> does not redirect.\<close>

definition at_rest :: "int list \<Rightarrow> nat \<Rightarrow> int \<Rightarrow> bool" where
  "at_rest dst k j \<longleftrightarrow> j \<le> 0 \<or> int k \<le> j \<and> j < int (length dst) \<and> dst ! nat j = j"

text \<open>What the first loop has established for instruction \<open>k\<close>, now \<open>e\<close>, and for all from \<open>i\<close> on.\<close>

definition skip_ok :: "insn list \<Rightarrow> int list \<Rightarrow> insn \<Rightarrow> nat \<Rightarrow> bool" where
  "skip_ok ins dst e k \<longleftrightarrow>
     same_test e (ins ! k) \<and> at_rest dst k (dst ! k) \<and> (\<forall>b. at_rest dst (Suc k) (in_j e b)) \<and>
     (dst ! k = int k \<longrightarrow> in_yes e \<noteq> in_no e \<and> in_mask (ins ! k) \<noteq> 0 \<or> k = 0 \<and> in_yes e = 0) \<and>
     (\<forall>d. follow ins d (branch d e) = run_insn ins d k) \<and>
     (\<forall>d. k > 0 \<or> dst ! k \<noteq> 0 \<longrightarrow> follow ins d (dst ! k) = run_insn ins d k)"

definition skipped :: "insn list \<Rightarrow> nat \<Rightarrow> int list \<Rightarrow> insn list \<Rightarrow> bool" where
  "skipped ins i dst ins' \<longleftrightarrow>
     length dst = length ins \<and> length ins' = length ins \<and> (\<forall>k < i. ins' ! k = ins ! k) \<and>
     (\<forall>k \<ge> i. k < length ins \<longrightarrow> skip_ok ins dst (ins' ! k) k)"

lemma at_rest_mono: "at_rest dst (Suc k) j \<Longrightarrow> at_rest dst k j"
  by (auto simp: at_rest_def)

lemma at_rest_update: "at_rest dst k j \<Longrightarrow> i < k \<Longrightarrow> at_rest (dst[i := x]) k j"
  by (auto simp: at_rest_def nth_list_update)

lemma follow_past:
  assumes s: "skipped ins i dst ins'" and j: "jump_ok (length ins) k j" "i \<le> Suc k"
  shows "follow ins d (if j > 0 then dst ! nat j else j) = follow ins d j"
    and "at_rest dst (Suc k) (if j > 0 then dst ! nat j else j)"
proof -
  have "follow ins d (dst ! nat j) = run_insn ins d (nat j)" "at_rest dst (nat j) (dst ! nat j)" if "j > 0"
  proof -
    have "nat j \<ge> i" "nat j < length ins" "nat j > 0" using j that by (auto simp: jump_ok_def)
    then show "follow ins d (dst ! nat j) = run_insn ins d (nat j)" "at_rest dst (nat j) (dst ! nat j)"
      using s by (simp_all add: skipped_def skip_ok_def)
  qed
  then show "follow ins d (if j > 0 then dst ! nat j else j) = follow ins d j"
    and "at_rest dst (Suc k) (if j > 0 then dst ! nat j else j)"
    using j by (auto simp: jump_ok_def at_rest_def)
qed

lemma skipped_step:
  assumes f: "forward ins" and m: "\<forall>e \<in> set ins. masked e" and i: "i < length ins" and s: "skipped ins (Suc i) dst ins'"
    and e: "e = past dst (ins' ! i)"
    and d: "j = (if in_yes e \<noteq> in_no e \<and> in_mask e \<noteq> 0 then int i else if in_yes e \<le> 0 then in_yes e else dst ! nat (in_yes e))"
  shows "skipped ins i (dst[i := j]) (ins'[i := e])"
proof -
  have len: "length dst = length ins" "length ins' = length ins" and same: "ins' ! i = ins ! i"
    using s by (auto simp: skipped_def)
  have e': "in_j e b = (if in_j (ins ! i) b > 0 then dst ! nat (in_j (ins ! i) b) else in_j (ins ! i) b)"
    and e'': "in_mask e = in_mask (ins ! i)" "same_test e (ins ! i)" for b
    unfolding e same by (rule in_j_past, simp add: past_def, simp)
  have st: "at_rest dst (Suc i) (in_j e b)" and fo: "follow ins d' (in_j e b) = follow ins d' (in_j (ins ! i) b)" for b d'
    using follow_past [OF s forward_jump [OF f i, of b]] by (auto simp: e')
  have br: "follow ins d' (branch d' e) = run_insn ins d' i" for d'
    using fo by (simp add: run_insn_follow [OF f i] branch_def same_test_insn_test [OF e''(2)])
  have useless: "follow ins d' (in_yes e) = run_insn ins d' i" if "\<not> (in_yes e \<noteq> in_no e \<and> in_mask e \<noteq> 0)" for d'
  proof (cases "in_mask e = 0")
    case True
    then have "insn_test d' e"
      using insn_test_unmasked [of "ins ! i"] m i e''(1) same_test_insn_test [OF e''(2)] by simp
    then show ?thesis using br [of d'] by (simp add: branch_def)
  next
    case False
    then have "in_yes e = in_no e" using that by simp
    then show ?thesis using br [of d'] by (cases "insn_test d' e") (simp_all add: branch_def)
  qed
  have j: "j = (if in_yes e \<noteq> in_no e \<and> in_mask e \<noteq> 0 then int i else in_yes e)"
    using st [of True] unfolding d at_rest_def by (cases "in_yes e \<le> 0") auto
  have jst: "at_rest (dst[i := j]) i j"
  proof (cases "j = int i")
    case True
    then show ?thesis using i len by (simp add: at_rest_def)
  next
    case False
    then have "j = in_yes e" by (auto simp: j split: if_splits)
    then show ?thesis using at_rest_mono [OF at_rest_update [OF st [of True], of i j]] by simp
  qed
  have jf: "follow ins d' j = run_insn ins d' i" if "i > 0 \<or> j \<noteq> 0" for d'
    using useless that by (auto simp: j)
  have ji: "in_yes e \<noteq> in_no e \<and> in_mask (ins ! i) \<noteq> 0 \<or> i = 0 \<and> in_yes e = 0" if "j = int i"
  proof (cases "in_yes e = int i")
    case True
    then show ?thesis using st [of True] by (auto simp: at_rest_def)
  next
    case False
    then have "in_yes e \<noteq> in_no e \<and> in_mask e \<noteq> 0" using that j by metis
    then show ?thesis by (simp add: e'')
  qed
  have later: "skip_ok ins (dst[i := j]) (ins'[i := e] ! k) k" if k: "k \<ge> i" "k < length ins" for k
  proof (cases "k = i")
    case True
    then show ?thesis
      using i len e''(2) jst br jf ji at_rest_update [OF st, of i j] by (simp add: skip_ok_def)
  next
    case False
    then have "skip_ok ins dst (ins' ! k) k" using s k by (simp add: skipped_def)
    then show ?thesis using False k len by (simp add: skip_ok_def at_rest_update)
  qed
  then show ?thesis using s len by (simp add: skipped_def)
qed

lemma skip_loop_skipped:
  assumes "forward ins" "\<forall>e \<in> set ins. masked e"
  shows "i \<le> length ins \<Longrightarrow> skipped ins i dst ins' \<Longrightarrow> (case skip_loop i (dst, ins') of (dst'', ins'') \<Rightarrow> skipped ins 0 dst'' ins'')"
proof (induction i arbitrary: dst ins')
  case (Suc i)
  then show ?case using skipped_step [OF assms, of i dst ins'] by (simp add: Let_def)
qed simp

text \<open>The second loop numbers the marked instructions in order; what is marked is closed under jumps.\<close>

definition kept_below :: "int list \<Rightarrow> nat \<Rightarrow> nat" where
  "kept_below dst i = length (filter (\<lambda>k. dst ! k \<ge> 0) [0..<i])"

definition marked :: "insn list \<Rightarrow> nat \<Rightarrow> int list \<Rightarrow> bool" where
  "marked ins i dst \<longleftrightarrow>
     length dst = length ins \<and> (\<forall>k < i. dst ! k = - 1 \<or> dst ! k = int (kept_below dst k)) \<and>
     (\<forall>k \<ge> i. k < length ins \<longrightarrow> dst ! k = - 1 \<or> dst ! k = 0) \<and>
     (\<forall>k < i. \<forall>b. dst ! k \<ge> 0 \<longrightarrow> in_j (ins ! k) b > 0 \<longrightarrow> dst ! nat (in_j (ins ! k) b) \<ge> 0)"

lemma kept_below_cong: "(\<And>k. k < i \<Longrightarrow> (dst' ! k \<ge> 0) = (dst ! k \<ge> 0)) \<Longrightarrow> kept_below dst' i = kept_below dst i"
  unfolding kept_below_def by (rule arg_cong [where f = length], rule filter_cong) auto

lemma kept_below_Suc [simp]: "kept_below dst (Suc i) = kept_below dst i + (if dst ! i \<ge> 0 then 1 else 0)"
  by (simp add: kept_below_def)

lemma kept_below_le: "kept_below dst i \<le> i"
  using length_filter_le [of "\<lambda>k. dst ! k \<ge> 0" "[0..<i]"] by (simp add: kept_below_def)

lemma kept_below_mono: "i \<le> k \<Longrightarrow> kept_below dst i \<le> kept_below dst k"
  by (induction k) (auto simp: le_Suc_eq)

lemma kept_below_less: "i < k \<Longrightarrow> dst ! i \<ge> 0 \<Longrightarrow> kept_below dst i < kept_below dst k"
  using kept_below_mono [of "Suc i" k dst] by simp

lemma marked_step:
  assumes f: "forward ins" and i: "i < length ins" and m: "marked ins i dst" and k: "dst ! i \<ge> 0"
    and dst': "dst' = dst[i := int (kept_below dst i)]"
    and dst2: "dst2 = (if in_no (ins ! i) > 0 then dst'[nat (in_no (ins ! i)) := 0] else dst')"
    and dst3: "dst3 = (if in_yes (ins ! i) > 0 then dst2[nat (in_yes (ins ! i)) := 0] else dst2)"
  shows "marked ins (Suc i) dst3" and "\<And>k. k \<le> i \<Longrightarrow> dst3 ! k \<ge> 0 \<longleftrightarrow> dst ! k \<ge> 0"
proof -
  define above where "above = {k. k > i \<and> (int k = in_no (ins ! i) \<or> int k = in_yes (ins ! i))}"
  have j: "jump_ok (length ins) i (in_no (ins ! i))" "jump_ok (length ins) i (in_yes (ins ! i))"
    using f i by (auto simp: forward_def)
  have len: "length dst = length ins" "length dst3 = length ins" using m by (auto simp: marked_def dst' dst2 dst3)
  have at: "dst3 ! k = (if k = i then int (kept_below dst i) else if k \<in> above then 0 else dst ! k)" if "k < length ins" for k
    using that i j len(1) by (auto simp: dst3 dst2 dst' above_def jump_ok_def nth_list_update)
  have low: "(dst3 ! k \<ge> 0) = (dst ! k \<ge> 0)" if "k \<le> i" for k
    using at [of k] that i k by (auto simp: above_def)
  then show "\<And>k. k \<le> i \<Longrightarrow> dst3 ! k \<ge> 0 \<longleftrightarrow> dst ! k \<ge> 0" .
  have up: "dst3 ! k \<ge> 0" if "dst ! k \<ge> 0" "k < length ins" for k using at [OF that(2)] that by simp
  have count: "kept_below dst3 k = kept_below dst k" if "k \<le> i" for k
    using that low by (intro kept_below_cong) simp
  have num: "dst3 ! k = - 1 \<or> dst3 ! k = int (kept_below dst3 k)" if "k < Suc i" for k
    using that at [of k] i m count [of k] by (auto simp: marked_def above_def less_Suc_eq)
  have rest: "dst3 ! k = - 1 \<or> dst3 ! k = 0" if "k \<ge> Suc i" "k < length ins" for k
    using that at [of k] m by (auto simp: marked_def)
  have closed: "dst3 ! nat (in_j (ins ! k) b) \<ge> 0" if h: "k < Suc i" "dst3 ! k \<ge> 0" "in_j (ins ! k) b > 0" for k b
  proof (cases "k = i")
    case True
    then have "nat (in_j (ins ! k) b) \<in> above" "nat (in_j (ins ! k) b) < length ins"
      using h(3) forward_jump [OF f i, of b] by (auto simp: above_def jump_ok_def in_j_def)
    then show ?thesis using at [of "nat (in_j (ins ! k) b)"] by (auto simp: above_def)
  next
    case False
    then have "dst ! nat (in_j (ins ! k) b) \<ge> 0" using h m low [of k] by (auto simp: marked_def)
    moreover have "nat (in_j (ins ! k) b) < length ins"
      using forward_jump [OF f, of k b] h i by (auto simp: jump_ok_def)
    ultimately show ?thesis by (rule up)
  qed
  show "marked ins (Suc i) dst3" using len(2) num rest closed by (simp add: marked_def)
qed

lemma marked_skip: "marked ins i dst \<Longrightarrow> i < length ins \<Longrightarrow> \<not> dst ! i \<ge> 0 \<Longrightarrow> marked ins (Suc i) dst"
  by (auto simp: marked_def less_Suc_eq)

lemma mark_loop_marked:
  assumes f: "forward ins"
  shows "i + n = length ins \<Longrightarrow> marked ins i dst \<Longrightarrow> new = kept_below dst i \<Longrightarrow>
    (case mark_loop n i new dst ins of (dst', new') \<Rightarrow>
       marked ins (length ins) dst' \<and> new' = kept_below dst' (length ins) \<and> (0 < n \<longrightarrow> i = 0 \<longrightarrow> dst ! 0 \<ge> 0 \<longrightarrow> dst' ! 0 \<ge> 0) \<and>
       (\<forall>k < i. dst' ! k = dst ! k))"
proof (induction n arbitrary: i new dst)
  case (Suc n)
  show ?case
  proof (cases "dst ! i \<ge> 0")
    case True
    define dst' where "dst' = dst[i := int (kept_below dst i)]"
    define dst2 where "dst2 = (if in_no (ins ! i) > 0 then dst'[nat (in_no (ins ! i)) := 0] else dst')"
    define dst3 where "dst3 = (if in_yes (ins ! i) > 0 then dst2[nat (in_yes (ins ! i)) := 0] else dst2)"
    have i: "i < length ins" using Suc.prems by simp
    note st = marked_step [OF f i Suc.prems(2) True dst'_def dst2_def dst3_def]
    have low: "dst3 ! k = dst ! k" if "k < i" for k
      using that f i unfolding dst3_def dst2_def dst'_def by (auto simp: forward_def jump_ok_def nth_list_update)
    have count: "Suc new = kept_below dst3 (Suc i)"
      using st(2) True Suc.prems(3) kept_below_cong [of i dst3 dst] by simp
    have "mark_loop (Suc n) i new dst ins = mark_loop n (Suc i) (Suc new) dst3 ins"
      using True Suc.prems(3) by (simp add: Let_def dst'_def dst2_def dst3_def)
    then show ?thesis
      using Suc.IH [of "Suc i" dst3 "Suc new"] Suc.prems(1) st count low by (auto simp: split: prod.splits)
  next
    case False
    then show ?thesis
      using Suc.IH [of "Suc i" dst new] Suc.prems marked_skip [of ins i dst] by (auto split: prod.splits)
  qed
qed (simp add: marked_def)

text \<open>The third loop moves the marked instructions to their numbers.\<close>

lemma move_loop_moves:
  assumes m: "marked ins (length ins) dst"
  shows "i + n = length ins \<Longrightarrow> length cur = length ins \<Longrightarrow> \<forall>k \<ge> i. k < length ins \<longrightarrow> cur ! k = ins ! k \<Longrightarrow>
    \<forall>k < i. dst ! k \<ge> 0 \<longrightarrow> cur ! kept_below dst k = past dst (ins ! k) \<Longrightarrow>
    length (move_loop n i dst cur) = length ins \<and>
    (\<forall>k < length ins. dst ! k \<ge> 0 \<longrightarrow> move_loop n i dst cur ! kept_below dst k = past dst (ins ! k))"
proof (induction n arbitrary: i cur)
  case (Suc n)
  have i: "i < length ins" using Suc.prems by simp
  show ?case
  proof (cases "dst ! i \<ge> 0")
    case True
    define cur' where "cur' = cur[kept_below dst i := past dst (ins ! i)]"
    have d: "nat (dst ! i) = kept_below dst i" using m i True by (auto simp: marked_def)
    have "\<forall>k \<ge> Suc i. k < length ins \<longrightarrow> cur' ! k = ins ! k"
      using Suc.prems(3) kept_below_le [of dst i] by (auto simp: cur'_def nth_list_update)
    moreover have "\<forall>k < Suc i. dst ! k \<ge> 0 \<longrightarrow> cur' ! kept_below dst k = past dst (ins ! k)"
      using Suc.prems(2,4) i kept_below_le [of dst i] kept_below_less [of _ i dst]
      by (fastforce simp: cur'_def less_Suc_eq nth_list_update)
    moreover have "move_loop (Suc n) i dst cur = move_loop n (Suc i) dst cur'"
      using True Suc.prems(3) i by (simp add: d cur'_def)
    ultimately show ?thesis using Suc.IH [of "Suc i" cur'] Suc.prems(1,2) by (simp add: cur'_def)
  next
    case False
    then show ?thesis using Suc.IH [of "Suc i" cur] Suc.prems by (simp add: less_Suc_eq)
  qed
qed simp

lemma nth_kept:
  assumes "k < n" "dst ! k \<ge> 0"
  shows "filter (\<lambda>k. dst ! k \<ge> 0) [0..<n] ! kept_below dst k = k"
proof -
  have "[0..<n] = [0..<k] @ k # [Suc k..<n]"
    using assms(1) upt_add_eq_append [of 0 k "n - k"] by (simp add: upt_conv_Cons)
  then show ?thesis using assms(2) by (simp add: kept_below_def nth_append)
qed

lemma kept_number: "r < kept_below dst n \<Longrightarrow> \<exists>k < n. dst ! k \<ge> 0 \<and> kept_below dst k = r"
proof (induction n)
  case (Suc n)
  show ?case
  proof (cases "r < kept_below dst n")
    case True
    then show ?thesis using Suc.IH less_SucI by blast
  next
    case False
    then have "dst ! n \<ge> 0 \<and> kept_below dst n = r" using Suc.prems by (auto split: if_splits)
    then show ?thesis by blast
  qed
qed (simp add: kept_below_def)

lemma compact:
  assumes f: "forward ins" and m: "marked ins (length ins) dst" and z: "ins \<noteq> []" "dst ! 0 \<ge> 0"
  defines "fin \<equiv> take (kept_below dst (length ins)) (move_loop (length ins) 0 dst ins)"
  shows "forward fin" and "fin \<noteq> []" and "run_insn fin d 0 = run_insn ins d 0"
    and "\<forall>e \<in> set fin. \<exists>k < length ins. dst ! k \<ge> 0 \<and> same_test e (ins ! k)"
proof -
  have mv: "length (move_loop (length ins) 0 dst ins) = length ins"
    "\<And>k. k < length ins \<Longrightarrow> dst ! k \<ge> 0 \<Longrightarrow> move_loop (length ins) 0 dst ins ! kept_below dst k = past dst (ins ! k)"
    using move_loop_moves [OF m, of 0 "length ins" ins] by auto
  have len: "length fin = kept_below dst (length ins)"
    using mv(1) kept_below_le [of dst "length ins"] by (simp add: fin_def)
  have at: "fin ! kept_below dst k = past dst (ins ! k)" "kept_below dst k < length fin" if "k < length ins" "dst ! k \<ge> 0" for k
    using mv(2) [OF that] kept_below_less [OF that] len by (auto simp: fin_def)
  have jump: "in_j (past dst (ins ! k)) b = (if in_j (ins ! k) b > 0 then int (kept_below dst (nat (in_j (ins ! k) b))) else in_j (ins ! k) b)"
    "in_j (ins ! k) b > 0 \<Longrightarrow> nat (in_j (ins ! k) b) < length ins \<and> dst ! nat (in_j (ins ! k) b) \<ge> 0 \<and> k < nat (in_j (ins ! k) b)"
    if k: "k < length ins" "dst ! k \<ge> 0" for k b
  proof -
    show *: "nat (in_j (ins ! k) b) < length ins \<and> dst ! nat (in_j (ins ! k) b) \<ge> 0 \<and> k < nat (in_j (ins ! k) b)" if "in_j (ins ! k) b > 0"
      using that k m forward_jump [OF f k(1), of b] unfolding marked_def jump_ok_def by auto
    have "dst ! nat (in_j (ins ! k) b) = int (kept_below dst (nat (in_j (ins ! k) b)))" if "in_j (ins ! k) b > 0"
      using * [OF that] m unfolding marked_def by force
    then show "in_j (past dst (ins ! k)) b = (if in_j (ins ! k) b > 0 then int (kept_below dst (nat (in_j (ins ! k) b))) else in_j (ins ! k) b)"
      by (simp add: in_j_past)
  qed
  show fw: "forward fin"
  proof (rule forwardI)
    fix r b assume "r < length fin"
    then obtain k where k: "k < length ins" "dst ! k \<ge> 0" "kept_below dst k = r" using kept_number [of r dst "length ins"] len by auto
    show "jump_ok (length fin) r (in_j (fin ! r) b)"
      using at(1) [OF k(1,2)] jump [OF k(1,2), of b] at(2) kept_below_less [OF _ k(2)] k(3) by (auto simp: jump_ok_def)
  qed
  have zero: "kept_below dst 0 = 0" by (simp add: kept_below_def)
  show ne: "fin \<noteq> []" using at(2) [of 0] z by auto
  have "run_insn fin d 0 = run_insn ins d (filter (\<lambda>k. dst ! k \<ge> 0) [0..<length ins] ! 0)"
  proof (rule run_insn_unique [OF fw, where R = "\<lambda>r. run_insn ins d (filter (\<lambda>k. dst ! k \<ge> 0) [0..<length ins] ! r)"])
    fix r assume "r < length fin"
    then obtain k where k: "k < length ins" "dst ! k \<ge> 0" "kept_below dst k = r" using kept_number [of r dst "length ins"] len by auto
    define j where "j = branch d (ins ! k)"
    have "branch d (fin ! r) = (if j > 0 then int (kept_below dst (nat j)) else j)"
      using at(1) [OF k(1,2)] jump(1) [OF k(1,2)] k(3) by (simp add: branch_def j_def)
    moreover have "j > 0 \<Longrightarrow> nat j < length ins \<and> dst ! nat j \<ge> 0 \<and> kept_below dst (nat j) > 0"
      using jump(2) [OF k(1,2), of "insn_test d (ins ! k)"] kept_below_less [OF _ k(2), of "nat j"] by (auto simp: j_def branch_def)
    ultimately show "run_insn ins d (filter (\<lambda>k. dst ! k \<ge> 0) [0..<length ins] ! r) =
        (let j = branch d (fin ! r) in if j > 0 then run_insn ins d (filter (\<lambda>k. dst ! k \<ge> 0) [0..<length ins] ! nat j) else j)"
      using run_insn_follow [OF f k(1), of d] nth_kept [of k "length ins" dst] nth_kept [of "nat j" "length ins" dst] k
      by (auto simp: Let_def j_def [symmetric])
  qed (use ne in auto)
  then show "run_insn fin d 0 = run_insn ins d 0" using nth_kept [of 0 "length ins" dst] z zero by simp
  show "\<forall>e \<in> set fin. \<exists>k < length ins. dst ! k \<ge> 0 \<and> same_test e (ins ! k)"
    using at kept_number len by (metis in_set_conv_nth same_test_past)
qed

lemma skipped_meaning:
  assumes s: "skipped ins 0 dst ins1" and ne: "ins \<noteq> []"
  defines "ins2 \<equiv> (if dst ! 0 > 0 then ins1[0 := ins1 ! nat (dst ! 0)] else ins1)"
  shows "length ins2 = length ins" and "forward ins2" and "i < length ins \<Longrightarrow> run_insn ins2 d i = run_insn ins d i"
    and "\<forall>k < length ins. \<forall>b. in_j (ins2 ! k) b > 0 \<longrightarrow> in_mask (ins2 ! nat (in_j (ins2 ! k) b)) \<noteq> 0"
    and "\<forall>k < length ins. \<exists>k' < length ins. same_test (ins2 ! k) (ins ! k')"
proof -
  have ok: "skip_ok ins dst (ins1 ! k) k" if "k < length ins" for k using s that by (simp add: skipped_def)
  have len: "length dst = length ins" "length ins1 = length ins" using s by (auto simp: skipped_def)
  then show len2: "length ins2 = length ins" by (simp add: ins2_def)
  define m where "m = nat (dst ! 0)"
  have m: "m < length ins" "m > 0" "ins2 = ins1[0 := ins1 ! m]" "\<And>d. run_insn ins d m = run_insn ins d 0" if "dst ! 0 > 0"
  proof -
    have z: "skip_ok ins dst (ins1 ! 0) 0" using ok ne by simp
    then have "at_rest dst 0 (dst ! 0)" "\<And>d. follow ins d (dst ! 0) = run_insn ins d 0" using that by (simp_all add: skip_ok_def del: follow_simps)
    then show "m < length ins" "m > 0" "ins2 = ins1[0 := ins1 ! m]" "\<And>d. run_insn ins d m = run_insn ins d 0"
      using that len by (auto simp: at_rest_def ins2_def m_def)
  qed
  have src: "ins2 ! k = ins1 ! (if k = 0 \<and> dst ! 0 > 0 then m else k)" "(if k = 0 \<and> dst ! 0 > 0 then m else k) < length ins"
    if "k < length ins" for k
    using that m(1,3) len by (cases "dst ! 0 > 0"; cases "k = 0"; simp add: ins2_def)+
  have st: "at_rest dst (Suc k) (in_j (ins2 ! k) b)" if "k < length ins" for k b
  proof -
    define k' where "k' = (if k = 0 \<and> dst ! 0 > 0 then m else k)"
    have "at_rest dst (Suc k') (in_j (ins1 ! k') b)" using ok [OF src(2) [OF that]] unfolding skip_ok_def k'_def by blast
    then have "at_rest dst (Suc k) (in_j (ins1 ! k') b)" by (cases "k' = k") (auto simp: k'_def at_rest_def split: if_splits)
    then show ?thesis using src(1) [OF that] by (simp add: k'_def)
  qed
  have "jump_ok (length ins2) k (in_j (ins2 ! k) b)" if "k < length ins2" for k b
    using st [of k b] that len len2 by (auto simp: at_rest_def jump_ok_def)
  then show fw: "forward ins2" by (rule forwardI)
  have run: "follow ins d (branch d (ins2 ! k)) = run_insn ins d k" if "k < length ins" for k d
  proof -
    define k' where "k' = (if k = 0 \<and> dst ! 0 > 0 then m else k)"
    have "follow ins d (branch d (ins1 ! k')) = run_insn ins d k'" using ok [OF src(2) [OF that]] unfolding skip_ok_def k'_def by blast
    moreover have "run_insn ins d k' = run_insn ins d k" using m(4) [of d] by (simp add: k'_def)
    ultimately show ?thesis using src(1) [OF that] by (simp add: k'_def)
  qed
  then show "i < length ins \<Longrightarrow> run_insn ins2 d i = run_insn ins d i" by (intro same_meaning [OF fw len2])
  show "\<forall>k < length ins. \<forall>b. in_j (ins2 ! k) b > 0 \<longrightarrow> in_mask (ins2 ! nat (in_j (ins2 ! k) b)) \<noteq> 0"
  proof (intro allI impI)
    fix k b assume k: "k < length ins" "in_j (ins2 ! k) b > 0"
    define j where "j = nat (in_j (ins2 ! k) b)"
    have j: "j < length ins" "j > 0" "dst ! j = int j" using st [OF k(1), of b] k(2) len by (auto simp: at_rest_def j_def)
    then have "in_mask (ins1 ! j) \<noteq> 0" using ok [OF j(1)] by (auto simp: skip_ok_def same_test_def)
    then show "in_mask (ins2 ! nat (in_j (ins2 ! k) b)) \<noteq> 0" using src(1) [OF j(1)] j by (simp add: j_def)
  qed
  show "\<forall>k < length ins. \<exists>k' < length ins. same_test (ins2 ! k) (ins ! k')"
    using ok src unfolding skip_ok_def by metis
qed

text \<open>Only the first instruction and the targets of jumps are marked.\<close>

lemma mark_loop_targets:
  assumes t: "\<forall>k < length ins. \<forall>b. in_j (ins ! k) b > 0 \<longrightarrow> P (nat (in_j (ins ! k) b))"
  shows "i + n = length ins \<Longrightarrow> length dst = length ins \<Longrightarrow> \<forall>k < length ins. dst ! k \<ge> 0 \<longrightarrow> P k \<Longrightarrow>
    \<forall>k < length ins. fst (mark_loop n i new dst ins) ! k \<ge> 0 \<longrightarrow> P k"
proof (induction n arbitrary: i new dst)
  case (Suc n)
  show ?case
  proof (cases "dst ! i \<ge> 0")
    case True
    define dst' where "dst' = dst[i := int new]"
    define dst2 where "dst2 = (if in_no (ins ! i) > 0 then dst'[nat (in_no (ins ! i)) := 0] else dst')"
    define dst3 where "dst3 = (if in_yes (ins ! i) > 0 then dst2[nat (in_yes (ins ! i)) := 0] else dst2)"
    have t': "in_no (ins ! i) > 0 \<Longrightarrow> P (nat (in_no (ins ! i)))" "in_yes (ins ! i) > 0 \<Longrightarrow> P (nat (in_yes (ins ! i)))"
      using t [rule_format, of i False] t [rule_format, of i True] Suc.prems(1) by auto
    have 1: "\<forall>k < length ins. dst' ! k \<ge> 0 \<longrightarrow> P k"
      using Suc.prems True by (auto simp: dst'_def nth_update_if)
    have 2: "\<forall>k < length ins. dst2 ! k \<ge> 0 \<longrightarrow> P k"
      using 1 t'(1) Suc.prems(2) by (auto simp: dst2_def dst'_def nth_update_if)
    have 3: "\<forall>k < length ins. dst3 ! k \<ge> 0 \<longrightarrow> P k"
      using 2 t'(2) Suc.prems(2) by (auto simp: dst3_def dst2_def dst'_def nth_update_if)
    have "mark_loop (Suc n) i new dst ins = mark_loop n (Suc i) (Suc new) dst3 ins"
      using True by (simp add: Let_def dst'_def dst2_def dst3_def)
    then show ?thesis
      using Suc.IH [of "Suc i" dst3 "Suc new"] Suc.prems 3 by (simp add: dst3_def dst2_def dst'_def)
  next
    case False
    then show ?thesis using Suc.IH [of "Suc i" dst new] Suc.prems by simp
  qed
qed simp

text \<open>What a program sends a packet to.\<close>

definition program_out :: "program \<Rightarrow> byte list \<Rightarrow> int" where
  "program_out p d = (if pr_output_everything p \<ge> 0 then pr_output_everything p else - run_insn (pr_insn p) d 0)"

lemma masked_same_test: "same_test e x \<Longrightarrow> masked x \<Longrightarrow> masked e"
  by (simp add: same_test_def masked_def)

lemma remove_compacts:
  assumes f: "forward ins" and m: "\<forall>e \<in> set ins. masked e" and ne: "ins \<noteq> []" and z: "in_mask (ins ! 0) \<noteq> 0"
    and t: "\<forall>k < length ins. \<forall>b. in_j (ins ! k) b > 0 \<longrightarrow> in_mask (ins ! nat (in_j (ins ! k) b)) \<noteq> 0"
    and l: "mark_loop (length ins) 0 0 ((replicate (length ins) (- 1))[0 := 0]) ins = (dst, new)"
  shows "run_insn (take new (move_loop (length ins) 0 dst ins)) d 0 = run_insn ins d 0"
    and "testing (take new (move_loop (length ins) 0 dst ins))" and "take new (move_loop (length ins) 0 dst ins) \<noteq> []"
    and "\<forall>e \<in> set (take new (move_loop (length ins) 0 dst ins)). \<exists>x \<in> set ins. same_test e x"
proof -
  let ?dst = "(replicate (length ins) (- 1))[0 := 0] :: int list"
  have "marked ins 0 ?dst" by (auto simp: marked_def nth_update_if)
  then have mk: "marked ins (length ins) dst" "new = kept_below dst (length ins)" "dst ! 0 \<ge> 0"
    using mark_loop_marked [OF f, of 0 "length ins" ?dst 0] l ne by (auto simp: kept_below_def)
  have "\<forall>k < length ins. fst (mark_loop (length ins) 0 0 ?dst ins) ! k \<ge> 0 \<longrightarrow> in_mask (ins ! k) \<noteq> 0"
    by (rule mark_loop_targets [OF t]) (use z in \<open>auto simp: nth_update_if\<close>)
  then have mask: "\<And>k. k < length ins \<Longrightarrow> dst ! k \<ge> 0 \<Longrightarrow> in_mask (ins ! k) \<noteq> 0" using l by simp
  note c = compact [OF f mk(1) ne mk(3)]
  show "run_insn (take new (move_loop (length ins) 0 dst ins)) d 0 = run_insn ins d 0" using c(3) mk(2) by simp
  show "take new (move_loop (length ins) 0 dst ins) \<noteq> []" using c(2) mk(2) by simp
  show "\<forall>e \<in> set (take new (move_loop (length ins) 0 dst ins)). \<exists>x \<in> set ins. same_test e x" using c(4) mk(2) by force
  have "in_mask e \<noteq> 0 \<and> masked e" if "e \<in> set (take new (move_loop (length ins) 0 dst ins))" for e
  proof -
    obtain k where k: "k < length ins" "dst ! k \<ge> 0" "same_test e (ins ! k)" using c(4) mk(2) \<open>e \<in> _\<close> by auto
    then show ?thesis using mask [OF k(1,2)] m masked_same_test [OF k(3)] by (simp add: same_test_def)
  qed
  then show "testing (take new (move_loop (length ins) 0 dst ins))" using c(1) mk(2) by (simp add: testing_def)
qed

lemma remove_unused_meaning:
  assumes f: "forward (pr_insn p)" and m: "\<forall>e \<in> set (pr_insn p). masked e" and ne: "pr_insn p \<noteq> []"
  shows "program_out (remove_unused_states p) d = - run_insn (pr_insn p) d 0"
    and "pr_output_everything (remove_unused_states p) \<ge> 0 \<or>
      pr_insn (remove_unused_states p) \<noteq> [] \<and> testing (pr_insn (remove_unused_states p))"
    and "pr_align_offset (remove_unused_states p) = pr_align_offset p"
    and "pr_output_everything (remove_unused_states p) < 0 \<Longrightarrow> \<forall>e \<in> set (pr_insn (remove_unused_states p)). \<exists>x \<in> set (pr_insn p). in_offset e = in_offset x"
proof -
  define ins where "ins = pr_insn p"
  define n where "n = length ins"
  obtain dst ins1 where sk: "skip_loop n (replicate n (- 1), ins) = (dst, ins1)" by fastforce
  define ins2 where "ins2 = (if dst ! 0 > 0 then ins1[0 := ins1 ! nat (dst ! 0)] else ins1)"
  define out where "out = (if dst ! 0 > 0 then - 1 else if dst ! 0 < 0 then - (dst ! 0)
    else if in_yes (ins2 ! 0) = 0 \<and> (in_no (ins2 ! 0) = 0 \<or> in_mask (ins2 ! 0) = 0) then 0 else - 1)"
  obtain dst' new where mk: "mark_loop n 0 0 ((replicate n (- 1))[0 := (if out < 0 then 0 else - 1)]) ins2 = (dst', new)" by fastforce
  have r: "remove_unused_states p = p\<lparr> pr_insn := take new (move_loop n 0 dst' ins2), pr_output_everything := out \<rparr>"
    using ne unfolding remove_unused_states_def Let_def n_def [symmetric] ins_def [symmetric] sk prod.case
      ins2_def [symmetric] out_def [symmetric] mk by simp
  then show "pr_align_offset (remove_unused_states p) = pr_align_offset p" by simp
  have "skipped ins n (replicate n (- 1)) ins" by (simp add: skipped_def ins_def n_def)
  then have s: "skipped ins 0 dst ins1" using skip_loop_skipped [of ins n "replicate n (- 1)" ins] f m sk by (simp add: ins_def n_def)
  have ne': "ins \<noteq> []" using ne by (simp add: ins_def)
  note sm = skipped_meaning [OF s ne', folded ins2_def]
  have len: "length ins2 = n" using sm(1) by (simp add: ins_def n_def)
  have run: "run_insn ins2 d 0 = run_insn ins d 0" using sm(3) ne' by simp
  have mask2: "\<forall>e \<in> set ins2. masked e"
  proof
    fix e assume "e \<in> set ins2"
    then obtain k where "k < length ins" "e = ins2 ! k" using sm(1) by (auto simp: in_set_conv_nth)
    then obtain k' where "k' < length ins" "same_test e (ins ! k')" using sm(5) by blast
    then show "masked e" using m masked_same_test by (auto simp: ins_def)
  qed
  have ok: "skip_ok ins dst (ins1 ! 0) 0" using s ne' by (simp add: skipped_def)
  have zero: "in_mask (ins2 ! 0) \<noteq> 0" if "out < 0"
  proof (cases "dst ! 0 > 0")
    case True
    have "at_rest dst 0 (dst ! 0)" using ok by (simp add: skip_ok_def)
    then have "nat (dst ! 0) < length ins" "dst ! nat (dst ! 0) = int (nat (dst ! 0))" "nat (dst ! 0) > 0"
      using True s by (auto simp: at_rest_def skipped_def)
    moreover from this have "skip_ok ins dst (ins1 ! nat (dst ! 0)) (nat (dst ! 0))" using s by (simp add: skipped_def)
    moreover have "0 < length ins1" using ne' s by (simp add: skipped_def)
    then have "ins2 ! 0 = ins1 ! nat (dst ! 0)" using True by (simp add: ins2_def)
    ultimately show ?thesis by (auto simp: skip_ok_def same_test_def)
  next
    case False
    then have "dst ! 0 = 0" "ins2 = ins1" using that by (auto simp: out_def ins2_def split: if_splits)
    then show ?thesis using ok that by (auto simp: skip_ok_def same_test_def out_def split: if_splits)
  qed
  have all: "run_insn ins d 0 = - out" if "out \<ge> 0"
  proof (cases "dst ! 0 = 0")
    case True
    then have "in_yes (ins2 ! 0) = 0" "in_no (ins2 ! 0) = 0 \<or> in_mask (ins2 ! 0) = 0" "out = 0" "ins2 \<noteq> []"
      using that len ne' by (auto simp: out_def ins_def n_def split: if_splits)
    moreover from this have "branch d (ins2 ! 0) = 0"
      using insn_test_unmasked [of "ins2 ! 0" d] mask2 by (auto simp: branch_def in_j_def)
    ultimately show ?thesis using run_insn_follow [OF sm(2), of 0 d] run by simp
  next
    case False
    then have "dst ! 0 < 0" using that by (auto simp: out_def split: if_splits)
    moreover have "follow ins d (dst ! 0) = run_insn ins d 0" using ok False by (simp add: skip_ok_def del: follow_simps)
    ultimately show ?thesis by (simp add: out_def)
  qed
  have fin: "run_insn (take new (move_loop n 0 dst' ins2)) d 0 = run_insn ins2 d 0" "testing (take new (move_loop n 0 dst' ins2))"
    "take new (move_loop n 0 dst' ins2) \<noteq> []" "\<forall>e \<in> set (take new (move_loop n 0 dst' ins2)). \<exists>x \<in> set ins2. same_test e x" if "out < 0"
  proof -
    have ne2: "ins2 \<noteq> []" using len ne' by (auto simp: n_def)
    have t: "\<forall>k < length ins2. \<forall>b. in_j (ins2 ! k) b > 0 \<longrightarrow> in_mask (ins2 ! nat (in_j (ins2 ! k) b)) \<noteq> 0"
      using sm(4) len by (simp add: n_def)
    have l: "mark_loop (length ins2) 0 0 ((replicate (length ins2) (- 1))[0 := 0]) ins2 = (dst', new)" using mk that len by simp
    show "run_insn (take new (move_loop n 0 dst' ins2)) d 0 = run_insn ins2 d 0" "testing (take new (move_loop n 0 dst' ins2))"
      "take new (move_loop n 0 dst' ins2) \<noteq> []" "\<forall>e \<in> set (take new (move_loop n 0 dst' ins2)). \<exists>x \<in> set ins2. same_test e x"
      using remove_compacts [OF sm(2) mask2 ne2 zero [OF that] t l] len by simp_all
  qed
  show "program_out (remove_unused_states p) d = - run_insn (pr_insn p) d 0"
    using all fin(1) run by (simp add: r program_out_def ins_def)
  show "pr_output_everything (remove_unused_states p) \<ge> 0 \<or>
      pr_insn (remove_unused_states p) \<noteq> [] \<and> testing (pr_insn (remove_unused_states p))"
    using fin(2,3) by (cases "out < 0") (auto simp: r)
  have "\<exists>x \<in> set ins. in_offset e = in_offset x" if e: "e \<in> set ins2" for e
  proof -
    obtain k where "k < length ins" "e = ins2 ! k" using e sm(1) by (auto simp: in_set_conv_nth)
    then obtain k' where "k' < length ins" "same_test e (ins ! k')" using sm(5) by blast
    then show ?thesis using nth_mem [of k' ins] by (auto simp: same_test_def)
  qed
  moreover assume "pr_output_everything (remove_unused_states p) < 0"
  ultimately show "\<forall>e \<in> set (pr_insn (remove_unused_states p)). \<exists>x \<in> set (pr_insn p). in_offset e = in_offset x"
    using fin(4) by (fastforce simp: r ins_def same_test_def)
qed

section \<open>The safe length\<close>

text \<open>A program that may be run: it tests something or has one output, and from its safe length on no test is cut short.\<close>

definition program_ok :: "program \<Rightarrow> bool" where
  "program_ok p \<longleftrightarrow> pr_output_everything p \<ge> 0 \<or>
     pr_insn p \<noteq> [] \<and> testing (pr_insn p) \<and>
     (\<forall>e \<in> set (pr_insn p). \<forall>n < 4294967296. pr_safe_length p \<le> of_nat n \<longrightarrow> required_length e \<le> n + pr_align_offset p)"

definition longest :: "insn list \<Rightarrow> nat" where
  "longest ins = foldl (\<lambda>n e. if required_length e > n then required_length e else n) 0 ins"

lemma foldl_longest:
  fixes n :: nat
  shows "n \<le> foldl (\<lambda>n e. if required_length e > n then required_length e else n) n ins"
    and "e \<in> set ins \<Longrightarrow> required_length e \<le> foldl (\<lambda>n e. if required_length e > n then required_length e else n) n ins"
proof (induction ins arbitrary: n)
  case (Cons a ins)
  { case 1 then show ?case using Cons(1) [of "if required_length a > n then required_length a else n"] by (simp split: if_splits) }
  { case 2 then show ?case using Cons(1,2) [of "if required_length a > n then required_length a else n"] by (auto split: if_splits) }
qed simp_all

lemma longest_ge: "e \<in> set ins \<Longrightarrow> required_length e \<le> longest ins"
  using foldl_longest by (simp add: longest_def)

lemma longest_less: "\<forall>e \<in> set ins. in_offset e < 65536 \<Longrightarrow> longest ins < 65540"
proof -
  have "\<forall>e \<in> set ins. in_offset e < 65536 \<Longrightarrow> n < 65540 \<Longrightarrow>
      foldl (\<lambda>n e. if required_length e > n then required_length e else n) n ins < 65540" for n
    by (induction ins arbitrary: n) (auto simp: required_length_def)
  then show "\<forall>e \<in> set ins. in_offset e < 65536 \<Longrightarrow> longest ins < 65540" by (simp add: longest_def)
qed

lemma safe_length_enough:
  fixes n m a :: nat
  assumes "n < 4294967296" "m < 65540" "a < 65536" "(of_nat m - of_nat a :: u32) \<le> of_nat n"
  shows "m \<le> n + a"
proof (cases "m \<le> a")
  case False
  then have "(of_nat m - of_nat a :: u32) = of_nat (m - a)" by (simp add: of_nat_diff)
  then have "(of_nat (m - a) :: u32) \<le> of_nat n" using assms(4) by simp
  then have "m - a \<le> n" using assms by (simp add: word_le_nat_alt unat_of_nat)
  then show ?thesis by simp
qed simp

lemma finish_optimize_out: "pr_output_everything p \<ge> 0 \<or> pr_insn p \<noteq> [] \<Longrightarrow> program_out (finish_optimize p) d = program_out p d"
  by (auto simp: finish_optimize_def program_out_def Let_def)

lemma finish_optimize_ok:
  assumes "pr_output_everything p \<ge> 0 \<or> pr_insn p \<noteq> [] \<and> testing (pr_insn p)"
    and "\<forall>e \<in> set (pr_insn p). in_offset e < 65536" "pr_align_offset p < 65536"
  shows "program_ok (finish_optimize p)"
proof (cases "pr_output_everything p \<ge> 0")
  case False
  then have ins: "pr_insn (finish_optimize p) = pr_insn p" "pr_align_offset (finish_optimize p) = pr_align_offset p"
    "pr_safe_length (finish_optimize p) = of_nat (longest (pr_insn p)) - of_nat (pr_align_offset p)"
    using assms(1) by (auto simp: finish_optimize_def Let_def longest_def)
  have "required_length e \<le> n + pr_align_offset p"
    if "e \<in> set (pr_insn p)" "n < 4294967296" "of_nat (longest (pr_insn p)) - of_nat (pr_align_offset p) \<le> (of_nat n :: u32)" for e n
    using safe_length_enough [OF that(2) longest_less [OF assms(2)] assms(3) that(3)] longest_ge [OF that(1)] by simp
  then show ?thesis using ins assms(1) False by (simp add: program_ok_def)
qed (simp add: program_ok_def finish_optimize_def Let_def)

text \<open>The bytes a program sees of a packet: the alignment bytes before the data, and the data.\<close>

definition seen_bytes :: "program \<Rightarrow> packet \<Rightarrow> byte list" where
  "seen_bytes p q = drop (length (headroom_bytes q) - pr_align_offset p) (headroom_bytes q) @ pdata q"

lemma program_match_out:
  assumes ok: "program_ok p" and hr: "pr_align_offset p \<le> length (headroom_bytes q)" and tr: "3 \<le> length (tailroom_bytes q)"
    and len: "plength q < 4294967296"
  shows "program_match p q = Some (Inr (program_out p (seen_bytes p q)))"
proof (cases "pr_output_everything p \<ge> 0")
  case False
  define v where "v = drop (length (headroom_bytes q) - pr_align_offset p) (buffer q)"
  have v: "v = seen_bytes p q @ tailroom_bytes q" "length (seen_bytes p q) = plength q + pr_align_offset p"
    using hr by (simp_all add: v_def buffer_def seen_bytes_def)
  have p: "pr_insn p \<noteq> []" "testing (pr_insn p)" using ok False by (auto simp: program_ok_def)
  have room: "plength q + pr_align_offset p + 3 \<le> length v" "take (plength q + pr_align_offset p) v = seen_bytes p q"
    using v tr by simp_all
  have safe: "\<forall>e \<in> set (pr_insn p). required_length e \<le> plength q + pr_align_offset p" if "\<not> of_nat (plength q) < pr_safe_length p"
    using ok False len that by (auto simp: program_ok_def not_less)
  have "program_match p q = (if of_nat (plength q) < pr_safe_length p then checked_loop (pr_insn p) v (plength q + pr_align_offset p) 0
      else match_loop (pr_insn p) v 0)"
    using False hr by (simp add: program_match_def program_view_def v_def)
  also have "\<dots> = Some (Inr (- run_insn (pr_insn p) (seen_bytes p q) 0))"
    using checked_loop_run [OF p(2) _ room(1), of 0] match_loop_run [OF p(2) _ room(1), of 0] safe p(1) room(2) by simp
  finally show ?thesis using False by (simp add: program_out_def)
qed (simp add: program_match_def program_out_def)

end
