(* ===== verification/Click_Passes.thy ===== *)
theory Click_Passes
  imports Click_Decision
begin

text \<open>
  The two passes that rewrite tests: \<open>bubble_sort_and_exprs\<close>, which ends and keeps the meaning of the program for every packet, and
  \<open>combine_compatible_states\<close>, which ends and keeps it for every packet long enough for all tests.
\<close>

section \<open>Sorting conjunctions\<close>

text \<open>Where only one instruction jumps to another, \<open>count_inbranches\<close> names it.\<close>

definition note_branch :: "nat \<Rightarrow> int \<Rightarrow> int list \<Rightarrow> int list" where
  "note_branch i j v = (if j > 0 then v[nat j := (if v ! nat j \<ge> 0 then 0 else int i)] else v)"

lemma count_inbranches_note:
  "count_inbranches ins = fold (\<lambda>(i, e) v. note_branch i (in_yes e) (note_branch i (in_no e) v)) (enumerate 0 ins) (replicate (length ins) (- 1))"
  by (simp add: count_inbranches_def note_branch_def case_prod_unfold cong: if_cong)

definition noted :: "(nat \<times> int) set \<Rightarrow> int list \<Rightarrow> bool" where
  "noted B v \<longleftrightarrow> (\<forall>t < length v. (v ! t < 0 \<longrightarrow> (\<forall>m. (m, int t) \<notin> B)) \<and> (v ! t > 0 \<longrightarrow> (\<forall>m. (m, int t) \<in> B \<longrightarrow> int m = v ! t)))"

lemma noted_step: "noted B v \<Longrightarrow> j < int (length v) \<Longrightarrow> noted (if j > 0 then insert (i, j) B else B) (note_branch i j v)"
proof (cases "j > 0")
  case True
  assume n: "noted B v" and j: "j < int (length v)"
  define v' where "v' = note_branch i j v"
  have at: "v' ! t = (if int t = j then if v ! t \<ge> 0 then 0 else int i else v ! t)" "length v' = length v" if "t < length v" for t
    using True j that by (auto simp: v'_def note_branch_def nth_list_update)
  have "noted (insert (i, j) B) v'"
    using n at unfolding noted_def by (metis Pair_inject insert_iff less_irrefl not_le of_nat_less_0_iff length_list_update note_branch_def v'_def)
  then show ?thesis using True by (simp add: v'_def)
qed (simp add: note_branch_def)

lemma length_note_branch [simp]: "length (note_branch i j v) = length v"
  by (simp add: note_branch_def)

definition jumps :: "insn list \<Rightarrow> (nat \<times> int) set" where
  "jumps ins = {(m, in_j (ins ! m) b) | m b. m < length ins \<and> in_j (ins ! m) b > 0}"

lemma jumps_snoc:
  "jumps (ins @ [e]) = (if in_yes e > 0 then insert (length ins, in_yes e) else id)
     ((if in_no e > 0 then insert (length ins, in_no e) else id) (jumps ins))"
proof -
  have "jumps (ins @ [e]) = jumps ins \<union> {(length ins, in_j e b) | b. in_j e b > 0}"
    by (auto simp: jumps_def nth_append less_Suc_eq; force)
  moreover have "{(length ins, in_j e b) | b. in_j e b > 0} =
      (if in_yes e > 0 then {(length ins, in_yes e)} else {}) \<union> (if in_no e > 0 then {(length ins, in_no e)} else {})"
    by (auto simp: in_j_def)
  ultimately show ?thesis by auto
qed

lemma noted_count:
  assumes "\<forall>e \<in> set ins. in_no e < int n \<and> in_yes e < int n"
  defines "v \<equiv> fold (\<lambda>(i, e) v. note_branch i (in_yes e) (note_branch i (in_no e) v)) (enumerate 0 ins) (replicate n (- 1))"
  shows "noted (jumps ins) v \<and> length v = n"
  using assms(1) unfolding v_def
proof (induction ins rule: rev_induct)
  case Nil
  show ?case by (simp add: noted_def jumps_def)
next
  case (snoc e ins)
  define v where "v = fold (\<lambda>(i, e) v. note_branch i (in_yes e) (note_branch i (in_no e) v)) (enumerate 0 ins) (replicate n (- 1))"
  have v: "noted (jumps ins) v" "length v = n" using snoc by (auto simp: v_def)
  have 1: "noted (if in_no e > 0 then insert (length ins, in_no e) (jumps ins) else jumps ins) (note_branch (length ins) (in_no e) v)"
    using noted_step [OF v(1)] v(2) snoc.prems by simp
  have 2: "noted (jumps (ins @ [e])) (note_branch (length ins) (in_yes e) (note_branch (length ins) (in_no e) v))"
    using noted_step [OF 1, of "in_yes e" "length ins"] v(2) snoc.prems unfolding jumps_snoc by (simp split: if_splits)
  then show ?case using v(2) by (simp add: enumerate_append_eq v_def [symmetric])
qed

lemma count_inbranches_unique:
  assumes f: "forward ins" and t: "t < length ins" "count_inbranches ins ! t > 0" and m: "m < length ins" "in_j (ins ! m) b = int t" "t > 0"
  shows "count_inbranches ins ! t = int m"
proof -
  have "\<forall>e \<in> set ins. in_no e < int (length ins) \<and> in_yes e < int (length ins)"
    using f unfolding forward_def jump_ok_def by (metis in_set_conv_nth le_less_trans of_nat_0_less_iff length_pos_if_in_set)
  from noted_count [OF this] have "noted (jumps ins) (count_inbranches ins)" "length (count_inbranches ins) = length ins"
    by (auto simp: count_inbranches_note)
  moreover have "(m, int t) \<in> jumps ins" using m unfolding jumps_def mem_Collect_eq by (metis of_nat_0_less_iff)
  ultimately show ?thesis using t by (auto simp: noted_def)
qed

text \<open>An exchange keeps every jump; it swaps the tests of two instructions.\<close>

lemma set_j_simps [simp]:
  "in_j (set_j b x e) b' = (if b' = b then x else in_j e b')"
  "same_test (set_j b x e) e"
  "insn_test d (set_j b x e) = insn_test d e"
  by (auto simp: set_j_def in_j_def same_test_def insn_test_def required_length_def)

lemma exchange_facts:
  assumes f: "forward ins" and i: "i < length ins" and s: "swappable ms last_offset inbranch i k ins"
  defines "j \<equiv> nat (in_j (ins ! i) k)"
  shows "i < j" and "j < length ins" and "in_j (ins ! i) k = int j" and "in_j (ins ! i) (\<not> k) = in_j (ins ! j) (\<not> k)"
    and "inbranch ! j > 0" and "out_of_order ms (ins ! i) (ins ! j)"
    and "m < length ins \<Longrightarrow> exchange i k ins ! m = (if m = i then set_j k (int j) (ins ! j) else if m = j then set_j k (in_j (ins ! j) k) (ins ! i) else ins ! m)"
    and "m < length ins \<Longrightarrow> in_j (exchange i k ins ! m) b = in_j (ins ! m) b"
    and "length (exchange i k ins) = length ins"
proof -
  have p: "in_j (ins ! i) k > 0" using s by (auto simp: swappable_def Let_def)
  then show j: "i < j" "j < length ins" "in_j (ins ! i) k = int j"
    using forward_jump [OF f i, of k] by (auto simp: jump_ok_def j_def)
  show o: "in_j (ins ! i) (\<not> k) = in_j (ins ! j) (\<not> k)" and "inbranch ! j > 0" and "out_of_order ms (ins ! i) (ins ! j)"
    using s by (auto simp: swappable_def Let_def j_def)
  have at: "m < length ins \<Longrightarrow> exchange i k ins ! m =
      (if m = i then set_j k (int j) (ins ! j) else if m = j then set_j k (in_j (ins ! j) k) (ins ! i) else ins ! m)" for m
    using j i unfolding exchange_def Let_def j_def [symmetric] by (simp add: j(3) nth_list_update)
  then show "m < length ins \<Longrightarrow> exchange i k ins ! m =
      (if m = i then set_j k (int j) (ins ! j) else if m = j then set_j k (in_j (ins ! j) k) (ins ! i) else ins ! m)" .
  show "m < length ins \<Longrightarrow> in_j (exchange i k ins ! m) b = in_j (ins ! m) b"
    using at o j by (cases "b = k") auto
  show "length (exchange i k ins) = length ins" by (simp add: exchange_def Let_def)
qed

lemma exchange_meaning:
  assumes f: "forward ins" and i: "i < length ins" and s: "swappable ms last_offset inbranch i k ins"
    and u: "\<And>t m b. t < length ins \<Longrightarrow> t > 0 \<Longrightarrow> inbranch ! t > 0 \<Longrightarrow> m < length ins \<Longrightarrow> in_j (ins ! m) b = int t \<Longrightarrow> inbranch ! t = int m"
  shows "run_insn (exchange i k ins) d 0 = run_insn ins d 0" and "forward (exchange i k ins)"
proof -
  define j where "j = nat (in_j (ins ! i) k)"
  note ex = exchange_facts [OF f i s, folded j_def]
  show fw: "forward (exchange i k ins)"
    using ex(8,9) f forward_jump by (intro forwardI) auto
  define X Y where "X = follow ins d (in_j (ins ! j) k)" and "Y = follow ins d (in_j (ins ! j) (\<not> k))"
  define R where "R = (run_insn ins d)(j := (if insn_test d (ins ! i) = k then X else Y))"
  have only: "m = i" if "m < length ins" "in_j (ins ! m) b = int j" for m b
    using u [of j m b] u [of j i k] ex(1-3,5) i that by simp
  have above: "in_j (ins ! j) b \<noteq> int j" for b using forward_jump [OF f ex(2), of b] ex(1) by (auto simp: jump_ok_def)
  have R: "(if x > 0 then R (nat x) else x) = follow ins d x" if "x \<noteq> int j" for x
    using that by (auto simp: R_def follow_def)
  have run_i: "run_insn ins d i = (if insn_test d (ins ! i) = k then if insn_test d (ins ! j) = k then X else Y else Y)"
    using run_insn_follow [OF f i, of d] run_insn_follow [OF f ex(2), of d] ex(1,3,4)
    by (cases "insn_test d (ins ! i) = k"; cases "insn_test d (ins ! j) = k")
      (auto simp: branch_def X_def Y_def; metis (full_types))+
  have "run_insn (exchange i k ins) d 0 = R 0"
  proof (rule run_insn_unique [OF fw])
    fix m assume "m < length (exchange i k ins)"
    then have m: "m < length ins" using ex(9) by simp
    consider "m = i" | "m = j" | "m \<noteq> i" "m \<noteq> j" by blast
    then show "R m = (let x = branch d (exchange i k ins ! m) in if x > 0 then R (nat x) else x)"
    proof cases
      case 1
      then have e: "exchange i k ins ! m = set_j k (int j) (ins ! j)" using ex(7) [OF m] by simp
      show ?thesis
      proof (cases "insn_test d (ins ! j) = k")
        case True
        then show ?thesis using e 1 ex(1) run_i by (simp add: branch_def R_def)
      next
        case False
        then have "branch d (exchange i k ins ! m) = in_j (ins ! j) (\<not> k)" using e by (simp add: branch_def)
        then show ?thesis using R [OF above] False 1 ex(1) run_i by (simp add: R_def Y_def Let_def)
      qed
    next
      case 2
      then have "branch d (exchange i k ins ! m) = (if insn_test d (ins ! i) = k then in_j (ins ! j) k else in_j (ins ! j) (\<not> k))"
        using ex(1,4) ex(7) [OF m] by (auto simp: branch_def)
      then show ?thesis using 2 R [OF above, of k] R [OF above, of "\<not> k"] by (simp add: X_def Y_def Let_def R_def)
    next
      case 3
      then have b: "branch d (exchange i k ins ! m) = branch d (ins ! m)" using ex(7) [OF m] by simp
      have "branch d (ins ! m) \<noteq> int j" using only [OF m] 3 by (auto simp: branch_def)
      then show ?thesis using R b 3 run_insn_follow [OF f m, of d] by (simp add: R_def Let_def)
    qed
  qed (use i ex(9) in auto)
  then show "run_insn (exchange i k ins) d 0 = run_insn ins d 0" using ex(1) by (simp add: R_def)
qed

text \<open>The order of the sort as a number, and the potential that every exchange raises.\<close>

definition order_key :: "(int \<times> int) list \<Rightarrow> insn \<Rightarrow> int" where
  "order_key ms e = (map_offset (int (in_offset e)) ms * 2 ^ 32 + int (unat (ntohl (in_mask e)))) * 2 ^ 32 + int (unat (ntohl (in_value e)))"

lemma lex_number:
  fixes a b :: int and c d m :: nat
  assumes "c < m" "d < m"
  shows "a * int m + int c > b * int m + int d \<longleftrightarrow> a > b \<or> a = b \<and> c > d"
proof -
  have "(a * int m + int c) div int m = a" "(b * int m + int d) div int m = b" using assms by simp_all
  moreover have "x div int m \<le> y div int m" if "x \<le> y" for x y using assms that by (simp add: zdiv_mono1)
  ultimately show ?thesis
    by (metis add_le_cancel_left int_ops(1) linorder_not_le nat_int_comparison(3) nless_le order.asym order_le_imp_less_or_eq)
qed

lemma out_of_order_key: "out_of_order ms e1 e2 \<longleftrightarrow> order_key ms e1 > order_key ms e2"
proof -
  define a where "a e = map_offset (int (in_offset e)) ms" for e :: insn
  define b where "b e = unat (ntohl (in_mask e))" for e :: insn
  define c where "c e = unat (ntohl (in_value e))" for e :: insn
  have lt: "b e < 2 ^ 32" "c e < 2 ^ 32" for e unfolding b_def c_def by (rule order_less_le_trans, rule unsigned_less, simp)+
  have "order_key ms e1 > order_key ms e2 \<longleftrightarrow> a e1 * 2 ^ 32 + int (b e1) > a e2 * 2 ^ 32 + int (b e2) \<or>
      a e1 * 2 ^ 32 + int (b e1) = a e2 * 2 ^ 32 + int (b e2) \<and> c e1 > c e2"
    using lex_number [OF lt(2,2), of "a e2 * 2 ^ 32 + int (b e2)" e2 "a e1 * 2 ^ 32 + int (b e1)" e1]
    by (simp add: order_key_def a_def b_def c_def)
  moreover have "a e1 * 2 ^ 32 + int (b e1) > a e2 * 2 ^ 32 + int (b e2) \<longleftrightarrow> a e1 > a e2 \<or> a e1 = a e2 \<and> b e1 > b e2"
    "a e2 * 2 ^ 32 + int (b e2) > a e1 * 2 ^ 32 + int (b e1) \<longleftrightarrow> a e2 > a e1 \<or> a e2 = a e1 \<and> b e2 > b e1"
    using lex_number [OF lt(1,1)] by simp_all
  moreover have "in_mask e1 = in_mask e2 \<longleftrightarrow> b e1 = b e2" 
    unfolding b_def by (metis htonl_htonl unsigned_word_eqI)
  ultimately show ?thesis
    unfolding out_of_order_def Let_def word_less_nat_alt a_def [symmetric] b_def [symmetric] c_def [symmetric] by linarith
qed

definition rank :: "int set \<Rightarrow> int \<Rightarrow> nat" where
  "rank K x = card {y \<in> K. y < x}"

lemma rank_less: "finite K \<Longrightarrow> x \<in> K \<Longrightarrow> x < y \<Longrightarrow> rank K x < rank K y"
  unfolding rank_def by (intro psubset_card_mono) auto

lemma rank_le: "finite K \<Longrightarrow> rank K x \<le> card K"
  unfolding rank_def by (intro card_mono) auto

definition potential :: "(int \<times> int) list \<Rightarrow> int set \<Rightarrow> insn list \<Rightarrow> nat" where
  "potential ms K ins = (\<Sum>m < length ins. m * rank K (order_key ms (ins ! m)))"

lemma potential_bound: "finite K \<Longrightarrow> potential ms K ins \<le> length ins * (length ins * card K)"
proof -
  assume K: "finite K"
  have "potential ms K ins \<le> (\<Sum>m < length ins. length ins * card K)"
    unfolding potential_def by (intro sum_mono mult_le_mono rank_le K) simp
  then show ?thesis by simp
qed

lemma order_key_same_test: "same_test e x \<Longrightarrow> order_key ms e = order_key ms x"
  by (simp add: same_test_def order_key_def)

lemma order_key_set_j [simp]: "order_key ms (set_j b x e) = order_key ms e"
  by (rule order_key_same_test) simp

lemma exchange_potential:
  assumes f: "forward ins" and i: "i < length ins" and s: "swappable ms last_offset inbranch i k ins"
    and K: "finite K" "\<forall>e \<in> set ins. order_key ms e \<in> K"
  shows "potential ms K ins < potential ms K (exchange i k ins)"
proof -
  define j where "j = nat (in_j (ins ! i) k)"
  note ex = exchange_facts [OF f i s, folded j_def]
  define r where "r m = rank K (order_key ms (ins ! m))" for m
  define r' where "r' m = rank K (order_key ms (exchange i k ins ! m))" for m
  have r': "r' i = r j" "r' j = r i" "\<And>m. m < length ins \<Longrightarrow> m \<noteq> i \<Longrightarrow> m \<noteq> j \<Longrightarrow> r' m = r m"
    using ex(1,2) i by (simp_all add: r'_def r_def ex(7))
  have less: "r j < r i"
    using ex(6,2) K unfolding out_of_order_key r_def by (intro rank_less) auto
  let ?S = "{..<length ins} - {i, j}"
  have split: "(\<Sum>m < length ins. m * h m) = i * h i + j * h j + (\<Sum>m \<in> ?S. m * h m)" for h :: "nat \<Rightarrow> nat"
  proof -
    have "{..<length ins} = insert i (insert j ?S)" using i ex(2) by auto
    then have "(\<Sum>m < length ins. m * h m) = (\<Sum>m \<in> insert i (insert j ?S). m * h m)" by simp
    also have "\<dots> = i * h i + (j * h j + (\<Sum>m \<in> ?S. m * h m))" using ex(1) by (subst sum.insert; simp)+
    finally show ?thesis by simp
  qed
  have "(\<Sum>m \<in> ?S. m * r' m) = (\<Sum>m \<in> ?S. m * r m)" using r'(3) by (intro sum.cong) auto
  moreover have "i * r i + j * r j < i * r j + j * r i"
  proof -
    obtain x where x: "j = i + x" "x > 0" using ex(1) less_imp_add_positive by blast
    then have "x * r j < x * r i" using less by simp
    then show ?thesis using x by (simp add: algebra_simps)
  qed
  ultimately have "(\<Sum>m < length ins. m * r m) < (\<Sum>m < length ins. m * r' m)" using r'(1,2) by (simp add: split)
  then show ?thesis using ex(9) by (simp add: potential_def r_def r'_def)
qed

text \<open>The sort ends and keeps the meaning, the jumps and the tests as a whole.\<close>

definition unique_branches :: "insn list \<Rightarrow> int list \<Rightarrow> bool" where
  "unique_branches ins inbranch \<longleftrightarrow> (\<forall>t m b. t < length ins \<longrightarrow> t > 0 \<longrightarrow> inbranch ! t > 0 \<longrightarrow> m < length ins \<longrightarrow>
     in_j (ins ! m) b = int t \<longrightarrow> inbranch ! t = int m)"

definition sorted_from :: "insn list \<Rightarrow> insn list \<Rightarrow> bool" where
  "sorted_from ins ins' \<longleftrightarrow> length ins' = length ins \<and> forward ins' \<and> (\<forall>d. run_insn ins' d 0 = run_insn ins d 0) \<and>
     (\<forall>e' \<in> set ins'. \<exists>e \<in> set ins. same_test e' e)"

lemma same_test_trans: "same_test a b \<Longrightarrow> same_test b c \<Longrightarrow> same_test a c"
  by (simp add: same_test_def)

lemma sorted_from_trans: "sorted_from a b \<Longrightarrow> sorted_from b c \<Longrightarrow> sorted_from a c"
  unfolding sorted_from_def using same_test_trans by (metis (no_types, lifting))

lemma exchange_sorted_from:
  assumes f: "forward ins" and u: "unique_branches ins inbranch" and i: "i < length ins" and s: "swappable ms last_offset inbranch i k ins"
  shows "sorted_from ins (exchange i k ins)" and "unique_branches (exchange i k ins) inbranch"
proof -
  note ex = exchange_facts [OF f i s]
  have "\<exists>e \<in> set ins. same_test (exchange i k ins ! m) e" if "m < length ins" for m
  proof -
    let ?m = "if m = i then nat (in_j (ins ! i) k) else if m = nat (in_j (ins ! i) k) then i else m"
    have "same_test (exchange i k ins ! m) (ins ! ?m)" using ex(7) [OF that] by simp
    moreover have "ins ! ?m \<in> set ins" using that i ex(2) by simp
    ultimately show ?thesis by blast
  qed
  then show "sorted_from ins (exchange i k ins)"
    using exchange_meaning [OF f i s] u ex(9) unfolding sorted_from_def unique_branches_def by (auto simp: in_set_conv_nth)
  show "unique_branches (exchange i k ins) inbranch" using u ex(8,9) by (simp add: unique_branches_def)
qed

lemma bubble_loop_ok:
  assumes K: "finite K"
  shows "forward ins \<Longrightarrow> unique_branches ins inbranch \<Longrightarrow> \<forall>e \<in> set ins. order_key ms e \<in> K \<Longrightarrow>
    \<exists>ins'. bubble_loop ms last_offset inbranch i ins = Some ins' \<and> sorted_from ins ins'"
proof (induction "(length ins * (length ins * card K) - potential ms K ins, length ins - i)" arbitrary: i ins rule: wf_induct_rule [OF wf_lex_prod [OF wf_less_than wf_less_than]])
  case 1
  note IH = "1.hyps" and f = "1.prems"(1) and u = "1.prems"(2) and k = "1.prems"(3)
  show ?case
  proof (cases "i < length ins")
    case True
    have swap: "\<exists>ins'. bubble_loop ms last_offset inbranch i' (exchange i b ins) = Some ins' \<and> sorted_from ins ins'"
      if s: "swappable ms last_offset inbranch i b ins" for b i'
    proof -
      note e = exchange_sorted_from [OF f u True s]
      have len: "length (exchange i b ins) = length ins" "forward (exchange i b ins)" using e(1) by (auto simp: sorted_from_def)
      have keys: "\<forall>e \<in> set (exchange i b ins). order_key ms e \<in> K"
        using e(1) k order_key_same_test unfolding sorted_from_def by metis
      have "potential ms K (exchange i b ins) \<le> length ins * (length ins * card K)" using potential_bound [OF K, of ms "exchange i b ins"] len(1) by simp
      then have "length ins * (length ins * card K) - potential ms K (exchange i b ins) < length ins * (length ins * card K) - potential ms K ins"
        using exchange_potential [OF f True s K k] by linarith
      then obtain ins' where "bubble_loop ms last_offset inbranch i' (exchange i b ins) = Some ins'" "sorted_from (exchange i b ins) ins'"
        using IH [of "exchange i b ins" i'] len e(2) keys by auto
      then show ?thesis using sorted_from_trans [OF e(1)] by blast
    qed
    have "\<exists>ins'. bubble_loop ms last_offset inbranch (i + 1) ins = Some ins' \<and> sorted_from ins ins'"
      using IH [of ins "i + 1"] True f u k by auto
    then show ?thesis using True swap by (subst bubble_loop.simps) auto
  next
    case False
    have "sorted_from ins ins" using f by (auto simp: sorted_from_def intro!: bexI same_test_refl)
    then show ?thesis using False by (subst bubble_loop.simps) auto
  qed
qed

lemma bubble_sort_ok:
  assumes "forward ins"
  shows "\<exists>ins'. bubble_sort_and_exprs ms last_offset ins = Some ins' \<and> sorted_from ins ins'"
proof -
  have "unique_branches ins (count_inbranches ins)" using count_inbranches_unique [OF assms] unfolding unique_branches_def by blast
  then show ?thesis
    using bubble_loop_ok [of "order_key ms ` set ins" ins "count_inbranches ins" ms last_offset 0] assms
    unfolding bubble_sort_and_exprs_def by blast
qed

section \<open>Combining instructions\<close>

text \<open>Words with one bit.\<close>

lemma and_pred_nat: "(x :: nat) AND (x - 1) = 0 \<Longrightarrow> x = 0 \<or> (\<exists>k. x = 2 ^ k)"
proof (induction x rule: less_induct)
  case (less x)
  show ?case
  proof (cases "even x")
    case True
    then obtain y where y: "x = 2 * y" by blast
    show ?thesis
    proof (cases "y = 0")
      case False
      then have "x - 1 = 2 * (y - 1) + 1" using y by simp
      then have "x AND (x - 1) = 2 * (y AND (y - 1))" using y by (simp add: and_rec [of "2 * y"])
      then have "y AND (y - 1) = 0" using less.prems by simp
      then obtain k where "y = 2 ^ k" using less.IH [of y] y False by auto
      then show ?thesis using y by (metis power_Suc)
    qed (simp add: y)
  next
    case False
    then obtain y where y: "x = 2 * y + 1" by (metis oddE)
    then have "x AND (x - 1) = 2 * y" by (simp add: and_rec [of "Suc (2 * y)"])
    then have "x = 2 ^ 0" using less.prems y by simp
    then show ?thesis by blast
  qed
qed

lemma one_bit_bits: "one_bit m \<Longrightarrow> m \<noteq> 0 \<Longrightarrow> \<exists>k < 32. \<forall>i. bit m i \<longleftrightarrow> i = k"
proof -
  assume m: "one_bit m" "m \<noteq> 0"
  have "unat m AND (unat m - 1) = unat (m AND (m - 1))" using m(2) by (simp add: unsigned_and_eq unat_minus_one)
  also have "\<dots> = 0" using m(1) by (simp add: one_bit_def)
  finally obtain k where k: "unat m = 2 ^ k" using and_pred_nat [of "unat m"] m(2) by (auto simp: unat_eq_0)
  have "bit m i \<longleftrightarrow> i = k" for i
  proof -
    have "bit m i \<longleftrightarrow> bit (unat m) i" by (auto simp: bit_unsigned_iff dest: bit_imp_le_length)
    then show ?thesis by (simp add: k bit_simps)
  qed
  then show ?thesis using bit_imp_le_length [of m k] by auto
qed

lemma word_bits_eq: "(a :: u32) = b \<longleftrightarrow> (\<forall>i < 32. bit a i = bit b i)"
  by (auto intro: bit_word_eqI)

lemma not_bits: "bit (NOT (a :: u32)) i \<longleftrightarrow> i < 32 \<and> \<not> bit a i"
  by (auto simp: bit_simps)

lemma flip_bits: "one_bit m \<Longrightarrow> m \<noteq> 0 \<Longrightarrow> v AND m = v \<Longrightarrow> (w AND m = v XOR m) \<longleftrightarrow> \<not> (w AND m = v)"
proof -
  assume m: "one_bit m" "m \<noteq> 0" and v: "v AND m = v"
  obtain k where k: "k < 32" "\<And>i. bit m i \<longleftrightarrow> i = k" using one_bit_bits [OF m] by blast
  have "bit v i \<Longrightarrow> i = k" for i using v k(2) [of i] by (metis bit_and_iff)
  then show ?thesis using k by (auto simp: word_bits_eq bit_and_iff bit_xor_iff)
qed

lemma generalize_bits:
  assumes "one_bit (v XOR x)" "v AND m = v" "x AND m = x"
  shows "(w AND (m AND NOT (v XOR x)) = v AND NOT (v XOR x)) \<longleftrightarrow> w AND m = v \<or> w AND m = (x :: u32)"
proof (cases "v XOR x = 0")
  case True
  then have "v = x" by (metis xor.assoc xor_self_eq xor.left_neutral xor.right_neutral)
  then show ?thesis by simp
next
  case False
  then obtain k where k: "k < 32" "\<And>i. bit (v XOR x) i \<longleftrightarrow> i = k" using one_bit_bits [OF assms(1)] by blast
  have x: "bit x i \<longleftrightarrow> (if i = k then \<not> bit v i else bit v i)" for i using k(2) [of i] by (auto simp: bit_xor_iff)
  have m: "bit v i \<Longrightarrow> bit m i" "bit x i \<Longrightarrow> bit m i" for i using assms(2,3) by (metis bit_and_iff)+
  have mk: "bit m k" using m x [of k] by metis
  have "(w AND (m AND NOT (v XOR x)) = v AND NOT (v XOR x)) \<longleftrightarrow> (\<forall>i < 32. i \<noteq> k \<longrightarrow> (bit w i \<and> bit m i \<longleftrightarrow> bit v i))"
    using k(2) by (auto simp: word_bits_eq bit_and_iff not_bits)
  moreover have "w AND m = v \<longleftrightarrow> (\<forall>i < 32. i \<noteq> k \<longrightarrow> (bit w i \<and> bit m i \<longleftrightarrow> bit v i)) \<and> (bit w k \<longleftrightarrow> bit v k)"
    using k(1) mk by (auto simp: word_bits_eq bit_and_iff)
  moreover have "w AND m = x \<longleftrightarrow> (\<forall>i < 32. i \<noteq> k \<longrightarrow> (bit w i \<and> bit m i \<longleftrightarrow> bit v i)) \<and> (bit w k \<longleftrightarrow> \<not> bit v k)"
    using k(1) mk x by (auto simp: word_bits_eq bit_and_iff)
  ultimately show ?thesis by blast
qed

lemma merge_bits:
  assumes "v AND m = v" "x AND n = x" "v AND (m AND n) = x AND (m AND n)"
  shows "(w AND (m OR n) = (v AND m) OR (x AND n)) \<longleftrightarrow> w AND m = v \<and> w AND n = (x :: u32)"
proof -
  have b: "bit v i \<Longrightarrow> bit m i" "bit x i \<Longrightarrow> bit n i" "bit m i \<Longrightarrow> bit n i \<Longrightarrow> bit v i = bit x i" for i
    using assms by (metis bit_and_iff)+
  show ?thesis
    using b by (auto simp: word_bits_eq bit_and_iff bit_or_iff)
qed

text \<open>Packets long enough for every test, and what one step of the pass keeps.\<close>

definition long :: "byte list \<Rightarrow> insn list \<Rightarrow> bool" where
  "long d ins \<longleftrightarrow> (\<forall>e \<in> set ins. required_length e \<le> length d)"

definition program_wf :: "insn list \<Rightarrow> bool" where
  "program_wf ins \<longleftrightarrow> forward ins \<and> (\<forall>e \<in> set ins. masked e)"

definition combined :: "insn list \<Rightarrow> insn list \<Rightarrow> bool" where
  "combined ins ins' \<longleftrightarrow> length ins' = length ins \<and> program_wf ins' \<and>
     (\<forall>e' \<in> set ins'. \<exists>e \<in> set ins. in_offset e' = in_offset e) \<and>
     (\<forall>d. long d ins \<longrightarrow> long d ins' \<and> (\<forall>i < length ins. run_insn ins' d i = run_insn ins d i))"

lemma combined_refl: "program_wf ins \<Longrightarrow> combined ins ins"
  by (auto simp: combined_def)

lemma combined_trans: "combined a b \<Longrightarrow> combined b c \<Longrightarrow> combined a c"
  unfolding combined_def by (metis (no_types, lifting))

lemma combined_update:
  assumes wf: "program_wf ins" and i: "i < length ins" and m: "masked e'" and off: "\<exists>e \<in> set ins. in_offset e' = in_offset e"
    and j: "\<And>b. jump_ok (length ins) i (in_j e' b)"
    and l: "\<And>d. long d ins \<Longrightarrow> required_length e' \<le> length d"
    and r: "\<And>d. long d ins \<Longrightarrow> follow ins d (branch d e') = run_insn ins d i"
  shows "combined ins (ins[i := e'])"
proof -
  have f: "forward ins" using wf by (simp add: program_wf_def)
  have fw: "forward (ins[i := e'])"
    using forward_jump [OF f] j i by (intro forwardI) (auto simp: nth_list_update)
  have at: "e \<in> set (ins[i := e']) \<Longrightarrow> e = e' \<or> e \<in> set ins" for e
    using set_update_subset_insert [of ins i e'] by auto
  have "run_insn (ins[i := e']) d m = run_insn ins d m" if "long d ins" "m < length ins" for d m
    using that r [OF that(1)] i run_insn_follow [OF f]
    by (intro same_meaning [OF fw]) (auto simp: nth_list_update)
  moreover have "long d (ins[i := e'])" if "long d ins" for d using that at l [OF that] by (auto simp: long_def)
  moreover have "\<forall>e' \<in> set (ins[i := e']). \<exists>e \<in> set ins. in_offset e' = in_offset e" using at off by metis
  moreover have "\<forall>e \<in> set (ins[i := e']). masked e" using at m wf unfolding program_wf_def by metis
  ultimately show ?thesis using fw by (simp add: combined_def program_wf_def)
qed

lemma long_test: "long d ins \<Longrightarrow> e \<in> set ins \<Longrightarrow> insn_test d e \<longleftrightarrow> word_at d (in_offset e) AND in_mask e = in_value e"
  by (simp add: long_def insn_test_def)

lemma required_flip [simp]: "required_length (flip e) = required_length e" "in_offset (flip e) = in_offset e" "in_mask (flip e) = in_mask e"
  "in_yes (flip e) = in_no e" "in_no (flip e) = in_yes e" "in_short (flip e) = (\<not> in_short e)" "in_value (flip e) = in_value e XOR in_mask e"
  by (simp_all add: flip_def required_length_def)

lemma flip_meaning:
  assumes "flippable e" "masked e"
  shows "branch d (flip e) = branch d e" and "masked (flip e)"
proof -
  have m: "one_bit (in_mask e)" "in_mask e \<noteq> 0" "in_value e AND in_mask e = in_value e"
    using assms by (auto simp: flippable_def masked_def split: if_splits)
  have "insn_test d (flip e) \<longleftrightarrow> \<not> insn_test d e"
    using flip_bits [OF m, of "word_at d (in_offset e)"] by (simp add: insn_test_def)
  then show "branch d (flip e) = branch d e" by (cases "insn_test d e") (simp_all add: branch_def)
  show "masked (flip e)" using m(3) by (auto simp: masked_def word_bits_eq bit_and_iff bit_xor_iff)
qed

lemma combined_flip:
  assumes wf: "program_wf ins" and i: "i < length ins" and fl: "flippable (ins ! i)"
  shows "combined ins (ins[i := flip (ins ! i)])"
proof (rule combined_update [OF wf i])
  have m: "masked (ins ! i)" using wf i by (simp add: program_wf_def)
  show "masked (flip (ins ! i))" using flip_meaning(2) [OF fl m] .
  show "jump_ok (length ins) i (in_j (flip (ins ! i)) b)" for b
    using wf forward_jump [OF _ i, of "\<not> b"] by (cases b) (simp_all add: program_wf_def)
  show "follow ins d (branch d (flip (ins ! i))) = run_insn ins d i" for d
    using wf run_insn_follow [OF _ i, of d] flip_meaning(1) [OF fl m] by (simp add: program_wf_def)
qed (use i in \<open>auto simp: long_def intro: bexI [of _ "ins ! i"]\<close>)

lemma generalized_meaning:
  assumes g: "generalizable_or_pair e x" and m: "masked e" "masked x"
  defines "the_bit \<equiv> in_value e XOR in_value x"
  defines "e' \<equiv> e\<lparr> in_value := in_value e AND NOT the_bit, in_mask := in_mask e AND NOT the_bit, in_no := in_no x \<rparr>"
  shows "branch d e' = (if insn_test d e then in_yes e else branch d x)" and "masked e'" and "required_length e' = required_length e"
proof -
  have c: "in_offset x = in_offset e" "in_mask x = in_mask e" "in_short e \<or> \<not> in_short x" "in_yes e = in_yes x" "one_bit the_bit"
    "required_length (new_insn (int (in_offset e)) (in_value e AND NOT the_bit) (in_mask e AND NOT the_bit)) = required_length e"
    "in_mask e \<noteq> 0"
    using g by (auto simp: generalizable_or_pair_def Let_def the_bit_def split: if_splits)
  have mask': "in_mask e AND NOT the_bit \<noteq> 0"
    using c(6,7) by (auto simp: required_length_def new_insn_def split: if_splits)
  show req: "required_length e' = required_length e"
  proof -
    have "nat (int (in_offset e) mod 65536) \<le> in_offset e" by (simp add: nat_le_iff zmod_le_nonneg_dividend)
    then show ?thesis using c(6,7) mask' by (auto simp: required_length_def new_insn_def e'_def split: if_splits)
  qed
  have rx: "required_length x = required_length e" using c(1,2) by (simp add: required_length_def)
  have mv: "in_value e AND in_mask e = in_value e" "in_value x AND in_mask e = in_value x" using m c(2) by (auto simp: masked_def)
  have "insn_test d e' \<longleftrightarrow> insn_test d e \<or> insn_test d x"
    using generalize_bits [OF c(5) [unfolded the_bit_def] mv, of "word_at d (in_offset e)"] c(1,2,3) req rx
    by (auto simp: insn_test_def e'_def the_bit_def)
  then show "branch d e' = (if insn_test d e then in_yes e else branch d x)"
    using c(4) by (auto simp: branch_def in_j_def e'_def)
  show "masked e'" using mv(1) by (auto simp: masked_def e'_def word_bits_eq bit_and_iff)
qed

text \<open>How far the branches of an instruction are from the end; a step that looks at the instruction again brings them nearer.\<close>

definition distance :: "nat \<Rightarrow> int \<Rightarrow> nat" where
  "distance n j = (if j > 0 then n - nat j else 0)"

definition reach :: "nat \<Rightarrow> insn \<Rightarrow> nat" where
  "reach n e = distance n (in_no e) + distance n (in_yes e)"

lemma distance_less: "jump_ok n (nat j) k \<Longrightarrow> j > 0 \<Longrightarrow> nat j < n \<Longrightarrow> distance n k < distance n j"
  by (auto simp: jump_ok_def distance_def)

lemma jump_ok_trans: "jump_ok n j k \<Longrightarrow> i < j \<Longrightarrow> jump_ok n i k"
  by (auto simp: jump_ok_def)

lemma combine_no_ok:
  assumes wf: "program_wf ins" and i: "i < length ins" and s: "combine_no i ins = (again, ins')"
  shows "combined ins ins'" and "again \<Longrightarrow> reach (length ins) (ins' ! i) < reach (length ins) (ins ! i)"
proof -
  define e j where "e = ins ! i" and "j = nat (in_no (ins ! i))"
  define e' where "e' = e\<lparr> in_value := in_value e AND NOT (in_value e XOR in_value (ins ! j)),
         in_mask := in_mask e AND NOT (in_value e XOR in_value (ins ! j)), in_no := in_no (ins ! j) \<rparr>"
  have f: "forward ins" and m: "masked e" using wf i by (auto simp: program_wf_def e_def)
  consider "ins' = ins" "\<not> again" | "flippable e" "ins' = ins[i := flip e]" "\<not> again"
    | "in_no e > 0" "generalizable_or_pair e (ins ! j)" again "ins' = ins[i := e']"
  proof -
    have "(again, ins') = (if in_no e > 0 then if compatible (ins ! j) e False \<and> flippable e then (False, ins[i := flip e])
        else if generalizable_or_pair e (ins ! j) then (True, ins[i := e']) else (False, ins) else (False, ins))"
      unfolding s [symmetric] combine_no_def Let_def e_def j_def e'_def by (rule refl)
    then show thesis using that by (auto split: if_splits)
  qed
  then have "combined ins ins' \<and> (again \<longrightarrow> reach (length ins) (ins' ! i) < reach (length ins) (ins ! i))"
  proof cases
    case 1
    then show ?thesis using combined_refl [OF wf] by simp
  next
    case 2
    then show ?thesis using combined_flip [OF wf i] by (simp add: e_def)
  next
    case 3
    have j: "j < length ins" "i < j" using forward_jump [OF f i, of False] 3(1) by (auto simp: jump_ok_def e_def j_def)
    have mx: "masked (ins ! j)" using wf j by (simp add: program_wf_def)
    note g = generalized_meaning [OF 3(2) m mx, folded e'_def]
    have jno: "jump_ok (length ins) j (in_no (ins ! j))" using forward_jump [OF f j(1), of False] by simp
    have e': "in_offset e' = in_offset e" "in_yes e' = in_yes e" "in_no e' = in_no (ins ! j)" by (simp_all add: e'_def)
    have "combined ins ins'"
      unfolding 3(4)
    proof (rule combined_update [OF wf i g(2)])
      fix d assume l: "long d ins"
      show "required_length e' \<le> length d" using i l by (simp add: g(3) long_def e_def)
      have "run_insn ins d i = follow ins d (if insn_test d e then in_yes e else in_no e)"
        using run_insn_follow [OF f i, of d] by (simp add: branch_def in_j_def e_def)
      also have "\<dots> = follow ins d (if insn_test d e then in_yes e else branch d (ins ! j))"
        using run_insn_follow [OF f j(1), of d] 3(1) by (simp add: j_def e_def)
      finally show "follow ins d (branch d e') = run_insn ins d i" by (simp add: g(1))
    next
      fix b
      show "jump_ok (length ins) i (in_j e' b)"
        using forward_jump [OF f i, of True] jump_ok_trans [OF jno j(2)] by (cases b) (simp_all add: e' e_def)
    next
      show "\<exists>x \<in> set ins. in_offset e' = in_offset x" using i e'(1) by (auto simp: e_def)
    qed
    moreover have "reach (length ins) e' < reach (length ins) e"
      using distance_less [of "length ins" "in_no e" "in_no (ins ! j)"] j jno 3(1) unfolding reach_def e' by (simp add: e_def j_def)
    ultimately show ?thesis using i 3(4) by (simp add: e_def)
  qed
  then show "combined ins ins'" and "again \<Longrightarrow> reach (length ins) (ins' ! i) < reach (length ins) (ins ! i)" by auto
qed

lemma merged_meaning:
  assumes c: "compatible x e True" and m: "masked e" "masked x"
  defines "e' \<equiv> e\<lparr> in_yes := in_yes x, in_offset := (if in_mask e = 0 then in_offset x else in_offset e),
    in_value := (in_value e AND in_mask e) OR (in_value x AND in_mask x), in_mask := in_mask e OR in_mask x \<rparr>"
  shows "required_length e \<le> n \<Longrightarrow> required_length x \<le> n \<Longrightarrow> required_length e' \<le> n" and "masked e'"
    and "required_length e \<le> length d \<Longrightarrow> required_length x \<le> length d \<Longrightarrow> insn_test d e' \<longleftrightarrow> insn_test d e \<and> insn_test d x"
proof -
  have off: "in_mask e = 0 \<or> in_mask x = 0 \<or> in_offset x = in_offset e"
    and ov: "in_mask e = 0 \<or> in_mask x = 0 \<or> in_value e AND (in_mask e AND in_mask x) = in_value x AND (in_mask e AND in_mask x)"
    using c by (auto simp: compatible_def Let_def and.commute and.left_commute split: if_splits)
  have f: "in_mask e' = in_mask e OR in_mask x" "in_value e' = (in_value e AND in_mask e) OR (in_value x AND in_mask x)"
    "in_offset e' = (if in_mask e = 0 then in_offset x else in_offset e)" by (simp_all add: e'_def)
  have byte: "byte_of (a OR b) i = byte_of a i OR byte_of b i" for a b i
    unfolding byte_of_def by (rule bit_word_eqI) (auto simp: bit_simps)
  have zero: "byte_of a i \<noteq> 0 \<Longrightarrow> a \<noteq> 0" for a i by auto
  show req: "required_length e' \<le> n" if "required_length e \<le> n" "required_length x \<le> n" for n
    unfolding required_length_le f byte
  proof (intro allI impI)
    fix i :: nat assume i: "i < 4" "byte_of (in_mask e) i OR byte_of (in_mask x) i \<noteq> 0"
    then consider "byte_of (in_mask e) i \<noteq> 0" | "byte_of (in_mask x) i \<noteq> 0" by fastforce
    then show "(if in_mask e = 0 then in_offset x else in_offset e) + i < n"
    proof cases
      case 1
      then show ?thesis using that(1) i(1) by (auto simp: required_length_le)
    next
      case 2
      then have "in_mask e = 0 \<or> in_offset x = in_offset e" using off by auto
      then show ?thesis using 2 that(2) i(1) by (auto simp: required_length_le)
    qed
  qed
  show "masked e'" by (auto simp: masked_def f word_bits_eq bit_and_iff bit_or_iff)
  have mv: "in_value e AND in_mask e = in_value e" "in_value x AND in_mask x = in_value x" using m by (auto simp: masked_def)
  have ov': "in_value e AND (in_mask e AND in_mask x) = in_value x AND (in_mask e AND in_mask x)"
    using ov by (elim disjE) simp_all
  assume r: "required_length e \<le> length d" "required_length x \<le> length d"
  have "insn_test d e' \<longleftrightarrow> word_at d (in_offset e') AND in_mask e = in_value e \<and> word_at d (in_offset e') AND in_mask x = in_value x"
    using req [OF r] merge_bits [OF mv ov'] by (simp add: insn_test_def f(1,2))
  also have "\<dots> \<longleftrightarrow> word_at d (in_offset e) AND in_mask e = in_value e \<and> word_at d (in_offset x) AND in_mask x = in_value x"
    using off by (auto simp: f(3))
  finally show "insn_test d e' \<longleftrightarrow> insn_test d e \<and> insn_test d x" using r by (simp add: insn_test_def)
qed

lemma merge_ok:
  assumes wf: "program_wf ins" and i: "i < length ins" and y: "in_yes (ins ! i) > 0"
    and no: "in_no (ins ! i) = in_no (ins ! nat (in_yes (ins ! i)))" and c: "compatible (ins ! nat (in_yes (ins ! i))) (ins ! i) True"
  defines "e \<equiv> ins ! i" and "x \<equiv> ins ! nat (in_yes (ins ! i))"
  defines "e' \<equiv> e\<lparr> in_yes := in_yes x, in_offset := (if in_mask e = 0 then in_offset x else in_offset e),
    in_value := (in_value e AND in_mask e) OR (in_value x AND in_mask x), in_mask := in_mask e OR in_mask x \<rparr>"
  shows "combined ins (ins[i := e'])" and "reach (length ins) e' < reach (length ins) e"
proof -
  define j where "j = nat (in_yes (ins ! i))"
  have f: "forward ins" and m: "masked e" using wf i by (auto simp: program_wf_def e_def)
  have j: "j < length ins" "i < j" "in_yes e = int j" "x = ins ! j" using forward_jump [OF f i, of True] y by (auto simp: jump_ok_def e_def x_def j_def)
  have mx: "masked x" and es: "e \<in> set ins" "x \<in> set ins" using wf i j by (simp_all add: program_wf_def e_def)
  note g = merged_meaning [OF c [folded e_def x_def] m mx, folded e'_def]
  have fd: "in_yes e' = in_yes x" "in_no e' = in_no e" by (simp_all add: e'_def)
  have no': "in_no e = in_no x" using no by (simp add: e_def x_def)
  have jyes: "jump_ok (length ins) j (in_yes x)" using forward_jump [OF f j(1), of True] j by simp
  show "combined ins (ins[i := e'])"
  proof (rule combined_update [OF wf i g(2)])
    fix d assume l: "long d ins"
    then have r: "required_length e \<le> length d" "required_length x \<le> length d" using es by (auto simp: long_def)
    show "required_length e' \<le> length d" using g(1) [OF r] .
    have "run_insn ins d i = (if insn_test d e then run_insn ins d j else follow ins d (in_no e))"
      using run_insn_follow [OF f i, of d] j(2,3) by (simp add: branch_def in_j_def e_def)
    also have "\<dots> = follow ins d (if insn_test d e \<and> insn_test d x then in_yes x else in_no e)"
      using run_insn_follow [OF f j(1), of d] no' j(4) by (simp add: branch_def in_j_def)
    finally show "follow ins d (branch d e') = run_insn ins d i" using g(3) [OF r] by (simp add: branch_def in_j_def fd)
  next
    fix b
    show "jump_ok (length ins) i (in_j e' b)"
      using forward_jump [OF f i, of False] jump_ok_trans [OF jyes j(2)] by (cases b) (simp_all add: fd e_def)
  next
    show "\<exists>z \<in> set ins. in_offset e' = in_offset z" using es by (auto simp: e'_def)
  qed
  show "reach (length ins) e' < reach (length ins) e"
    using distance_less [of "length ins" "in_yes e" "in_yes x"] j jyes unfolding reach_def fd by simp
qed

lemma combine_yes_ok:
  assumes wf: "program_wf ins" and i: "i < length ins" and s: "combine_yes i ins = (again, ins')"
  shows "combined ins ins'" and "again \<Longrightarrow> reach (length ins) (ins' ! i) < reach (length ins) (ins ! i)"
proof -
  define y where "y = nat (in_yes (ins ! i))"
  define ins1 where "ins1 = (if in_no (ins ! i) = in_yes (ins ! y) \<and> flippable (ins ! y) then ins[y := flip (ins ! y)] else ins)"
  define e where "e = ins ! i"
  define x where "x = ins1 ! y"
  define e' where "e' = e\<lparr> in_yes := in_yes x, in_offset := (if in_mask e = 0 then in_offset x else in_offset e),
    in_value := (in_value e AND in_mask e) OR (in_value x AND in_mask x), in_mask := in_mask e OR in_mask x \<rparr>"
  have val: "(again, ins') = (if in_yes e \<le> 0 then (False, ins) else
      if in_no e = in_no x \<and> compatible x e True then (True, ins1[i := e']) else (False, ins1))"
    unfolding s [symmetric] combine_yes_def Let_def y_def e_def x_def e'_def ins1_def by (rule refl)
  show "combined ins ins'" and "again \<Longrightarrow> reach (length ins) (ins' ! i) < reach (length ins) (ins ! i)"
  proof (atomize (full), cases "in_yes e \<le> 0")
    case True
    then show "combined ins ins' \<and> (again \<longrightarrow> reach (length ins) (ins' ! i) < reach (length ins) (ins ! i))"
      using val combined_refl [OF wf] by simp
  next
    case False
    have f: "forward ins" using wf by (simp add: program_wf_def)
    have y: "y < length ins" "i < y" using forward_jump [OF f i, of True] False by (auto simp: jump_ok_def y_def e_def)
    have c1: "combined ins ins1" using combined_flip [OF wf y(1)] combined_refl [OF wf] by (simp add: ins1_def)
    have wf1: "program_wf ins1" and len: "length ins1 = length ins" using c1 by (auto simp: combined_def)
    have i1: "ins1 ! i = e" "nat (in_yes e) = y" using y by (auto simp: ins1_def e_def y_def)
    show "combined ins ins' \<and> (again \<longrightarrow> reach (length ins) (ins' ! i) < reach (length ins) (ins ! i))"
    proof (cases "in_no e = in_no x \<and> compatible x e True")
      case True
      have "combined ins1 (ins1[i := e'])" "reach (length ins1) e' < reach (length ins1) e"
        using merge_ok [OF wf1, of i, unfolded i1, folded x_def, folded e'_def] i len True False by simp_all
      then show ?thesis using val True False combined_trans [OF c1] i len by (simp add: e_def)
    next
      case False
      then show ?thesis using val \<open>\<not> in_yes e \<le> 0\<close> c1 by auto
    qed
  qed
qed

lemma combine_loop_ok: "program_wf ins \<Longrightarrow> n \<le> length ins \<Longrightarrow> \<exists>ins'. combine_loop n ins = Some ins' \<and> combined ins ins'"
proof (induction "(n, reach (length ins) (ins ! (n - 1)))" arbitrary: n ins rule: wf_induct_rule [OF wf_lex_prod [OF wf_less_than wf_less_than]])
  case 1
  note IH = "1.hyps" and wf = "1.prems"(1) and n = "1.prems"(2)
  show ?case
  proof (cases "n = 0")
    case True
    then show ?thesis using combined_refl [OF wf] by (subst combine_loop.simps) simp
  next
    case False
    then have i: "n - 1 < length ins" using n by simp
    obtain a1 ins1 where s1: "combine_no (n - 1) ins = (a1, ins1)" by fastforce
    note k1 = combine_no_ok [OF wf i s1]
    have wf1: "program_wf ins1" and len1: "length ins1 = length ins" using k1(1) by (auto simp: combined_def)
    obtain a2 ins2 where s2: "combine_yes (n - 1) ins1 = (a2, ins2)" by fastforce
    note k2 = combine_yes_ok [OF wf1 i [folded len1] s2]
    have c2: "combined ins ins2" using combined_trans [OF k1(1) k2(1)] .
    have wf2: "program_wf ins2" and len2: "length ins2 = length ins" using c2 by (auto simp: combined_def)
    have r1: "reach (length ins) (ins1 ! (n - 1)) \<le> reach (length ins) (ins ! (n - 1))"
      using s1 k1(2) i unfolding combine_no_def Let_def reach_def
      by (cases a1) (auto simp: reach_def split: if_splits)
    have "\<exists>ins'. combine_loop n ins1 = Some ins' \<and> combined ins1 ins'" if a1
      using IH [of n ins1] k1(2) [OF that] len1 wf1 n by auto
    moreover have "\<exists>ins'. combine_loop n ins2 = Some ins' \<and> combined ins2 ins'" if "\<not> a1" a2
      using IH [of n ins2] k2(2) [OF that(2)] r1 len1 len2 wf2 n by auto
    moreover have "\<exists>ins'. combine_loop (n - 1) ins2 = Some ins' \<and> combined ins2 ins'"
      using IH [of "n - 1" ins2] False len2 wf2 n by auto
    ultimately show ?thesis
      using False s1 s2 k1(1) c2 combined_trans by (subst combine_loop.simps) (auto split: prod.splits; blast)
  qed
qed

lemma combine_ok: "program_wf ins \<Longrightarrow> \<exists>ins'. combine_compatible_states ins = Some ins' \<and> combined ins ins'"
  unfolding combine_compatible_states_def by (rule combine_loop_ok) simp_all

section \<open>The passes and the matcher\<close>

definition ex_insns :: "insn list" where
  "ex_insns = [\<lparr> in_offset = 12, in_short = False, in_mask = 0xFFFF, in_value = 0x0608, in_no = - 1, in_yes = 1 \<rparr>,
     \<lparr> in_offset = 0, in_short = False, in_mask = 0, in_value = 0, in_no = - 1, in_yes = 2 \<rparr>,
     \<lparr> in_offset = 20, in_short = False, in_mask = 0xFFFF, in_value = 0x0100, in_no = - 1, in_yes = 0 \<rparr>]"

lemma ex_insns_wf: "program_wf ex_insns" "ex_insns \<noteq> []" "\<forall>e \<in> set ex_insns. in_offset e < 65536"
  by (auto simp: program_wf_def forward_def ex_insns_def jump_ok_def masked_def numeral_3_eq_3 less_Suc_eq)

text \<open>
  C20. The passes of \<open>optimize\<close> other than the dominator pass end on every well-formed program and keep its meaning: sorting conjunctions and removing instructions
  for every packet, combining instructions for every packet that is long enough for all tests.
\<close>

theorem optimize_passes_sound:
  assumes "program_wf (pr_insn p)" and "pr_insn p \<noteq> []"
  shows "(\<exists>ins. bubble_sort_and_exprs ms last_offset (pr_insn p) = Some ins \<and> program_wf ins \<and> (\<forall>d. run_insn ins d 0 = run_insn (pr_insn p) d 0)) \<and>
    (\<exists>ins. combine_compatible_states (pr_insn p) = Some ins \<and> program_wf ins \<and>
       (\<forall>d. (\<forall>e \<in> set (pr_insn p). required_length e \<le> length d) \<longrightarrow> run_insn ins d 0 = run_insn (pr_insn p) d 0)) \<and>
    (\<forall>d. program_out (remove_unused_states p) d = - run_insn (pr_insn p) d 0)"
proof (intro conjI)
  have f: "forward (pr_insn p)" "\<forall>e \<in> set (pr_insn p). masked e" using assms(1) by (auto simp: program_wf_def)
  obtain ins where "bubble_sort_and_exprs ms last_offset (pr_insn p) = Some ins" "sorted_from (pr_insn p) ins"
    using bubble_sort_ok [OF f(1)] by blast
  then show "\<exists>ins. bubble_sort_and_exprs ms last_offset (pr_insn p) = Some ins \<and> program_wf ins \<and> (\<forall>d. run_insn ins d 0 = run_insn (pr_insn p) d 0)"
    using f(2) masked_same_test unfolding sorted_from_def program_wf_def by blast
  show "\<exists>ins. combine_compatible_states (pr_insn p) = Some ins \<and> program_wf ins \<and>
      (\<forall>d. (\<forall>e \<in> set (pr_insn p). required_length e \<le> length d) \<longrightarrow> run_insn ins d 0 = run_insn (pr_insn p) d 0)"
    using combine_ok [OF assms(1)] assms(2) unfolding combined_def long_def [symmetric] by (metis length_greater_0_conv)
  show "\<forall>d. program_out (remove_unused_states p) d = - run_insn (pr_insn p) d 0"
    using remove_unused_meaning(1) [OF f assms(2)] by blast
qed

theorem optimize_passes_sound_witness:
  "let p = \<lparr> pr_insn = ex_insns, pr_output_everything = - 1, pr_safe_length = 0, pr_align_offset = 0 \<rparr> in
   program_wf (pr_insn p) \<and> (\<exists>ins. combine_compatible_states ex_insns = Some ins \<and> program_wf ins) \<and>
   (\<forall>d. program_out (remove_unused_states p) d = - run_insn ex_insns d 0)"
  using optimize_passes_sound [of "\<lparr> pr_insn = ex_insns, pr_output_everything = - 1, pr_safe_length = 0, pr_align_offset = 0 \<rparr>" "[]" 0] ex_insns_wf
  unfolding Let_def program.simps by blast

text \<open>
  C21. The matcher: after unused instructions are removed and the safe length is set, \<open>match\<close> ends, reads only inside the packet's buffer when there are three bytes
  of tailroom, and returns the output the program means, whether or not it takes the path that checks lengths.
\<close>

theorem program_match_computes:
  assumes "program_wf (pr_insn p)" "pr_insn p \<noteq> []" "\<forall>e \<in> set (pr_insn p). in_offset e < 65536" "pr_align_offset p < 65536"
    and "pr_align_offset p \<le> length (headroom_bytes q)" "3 \<le> length (tailroom_bytes q)" "plength q < 4294967296"
  shows "program_match (finish_optimize (remove_unused_states p)) q = Some (Inr (- run_insn (pr_insn p) (seen_bytes p q) 0))"
proof -
  have f: "forward (pr_insn p)" "\<forall>e \<in> set (pr_insn p). masked e" using assms(1) by (auto simp: program_wf_def)
  define p1 p2 where "p1 = remove_unused_states p" and "p2 = finish_optimize p1"
  note r = remove_unused_meaning [OF f assms(2), folded p1_def]
  have al: "pr_align_offset p1 = pr_align_offset p" "pr_align_offset p2 = pr_align_offset p"
    using r(3) by (auto simp: p2_def finish_optimize_def Let_def)
  have out: "program_out p2 d = - run_insn (pr_insn p) d 0" for d
    using finish_optimize_out [of p1 d] r(1,2) by (auto simp: p2_def)
  have "program_ok p2"
  proof (cases "pr_output_everything p1 \<ge> 0")
    case True
    then show ?thesis by (simp add: p2_def program_ok_def finish_optimize_def Let_def)
  next
    case False
    then have "\<forall>e \<in> set (pr_insn p1). in_offset e < 65536" using r(4) assms(3) by force
    then show ?thesis unfolding p2_def using r(2) al(1) assms(4) by (intro finish_optimize_ok) auto
  qed
  moreover have "seen_bytes p2 q = seen_bytes p q" using al by (simp add: seen_bytes_def)
  ultimately show ?thesis using program_match_out [of p2 q] al(2) assms(5-7) out by (simp add: p1_def p2_def)
qed

theorem program_match_computes_witness:
  "let p = \<lparr> pr_insn = ex_insns, pr_output_everything = - 1, pr_safe_length = 0, pr_align_offset = 0 \<rparr>;
       q = ex_packet\<lparr> pdata := replicate 12 0 @ [8, 6, 0, 0, 0, 0, 0, 0, 0, 1], tailroom_bytes := [0, 0, 0] \<rparr>
   in program_match (finish_optimize (remove_unused_states p)) q = Some (Inr (- run_insn ex_insns (pdata q) 0))"
  using program_match_computes [of "\<lparr> pr_insn = ex_insns, pr_output_everything = - 1, pr_safe_length = 0, pr_align_offset = 0 \<rparr>"
      "ex_packet\<lparr> pdata := replicate 12 0 @ [8, 6, 0, 0, 0, 0, 0, 0, 0, 1], tailroom_bytes := [0, 0, 0] \<rparr>"] ex_insns_wf
  by (simp add: seen_bytes_def)

end
