(* ===== verification/Click_Patterns.thy ===== *)
theory Click_Patterns
  imports Click_Classifier Click_Passes
begin

text \<open>
  What the patterns of a \<^verbatim>\<open>Classifier\<close> mean, byte by byte, and that the program built from them decides it: the meaning of the program
  on any packet, short ones included, is the first pattern that matches.
\<close>

section \<open>The meaning of patterns\<close>

definition byte_ok :: "byte list \<Rightarrow> nat \<Rightarrow> byte \<times> byte \<Rightarrow> bool" where
  "byte_ok d pos vm \<longleftrightarrow> snd vm = 0 \<or> pos < length d \<and> d ! pos AND snd vm = fst vm"

definition clause_ok :: "byte list \<Rightarrow> nat \<Rightarrow> clause \<Rightarrow> bool" where
  "clause_ok d align c \<longleftrightarrow>
     (cl_negated c \<longleftrightarrow> \<not> (\<forall>i < length (cl_bytes c). byte_ok d (nat (cl_offset c) + align + i) (cl_bytes c ! i)))"

fun first_match :: "byte list \<Rightarrow> nat \<Rightarrow> clause list list \<Rightarrow> nat option" where
  "first_match d align [] = None"
| "first_match d align (cs # css) =
     (if list_all (clause_ok d align) cs then Some 0 else map_option Suc (first_match d align css))"

text \<open>Clauses as the parser makes them, with offsets an instruction can hold.\<close>

definition clause_wf :: "nat \<Rightarrow> clause \<Rightarrow> bool" where
  "clause_wf align c \<longleftrightarrow> cl_bytes c \<noteq> [] \<and> cl_offset c \<ge> 0 \<and> cl_offset c + int align + int (length (cl_bytes c)) \<le> 65536 \<and>
     (\<forall>(v, m) \<in> set (cl_bytes c). v AND m = v)"

section \<open>Segments of a program\<close>

text \<open>A part of a program whose jumps stay inside it or leave with an output.\<close>

definition closed :: "insn list \<Rightarrow> nat \<Rightarrow> nat \<Rightarrow> bool" where
  "closed ins a b \<longleftrightarrow> (\<forall>i k. a \<le> i \<longrightarrow> i < b \<longrightarrow> (let j = in_j (ins ! i) k in j \<le> 0 \<or> int i < j \<and> j < int b))"

lemma closedD: "closed ins a b \<Longrightarrow> a \<le> i \<Longrightarrow> i < b \<Longrightarrow> branch d (ins ! i) \<le> 0 \<or> int i < branch d (ins ! i) \<and> branch d (ins ! i) < int b"
  by (simp add: closed_def branch_def Let_def)

lemma redirect_insn_simps [simp]:
  "in_j (redirect_insn s f e) b = redirect s f (in_j e b)"
  "insn_test d (redirect_insn s f e) = insn_test d e"
  "branch d (redirect_insn s f e) = redirect s f (branch d e)"
  "same_test (redirect_insn s f e) e"
  by (auto simp: redirect_insn_def in_j_def insn_test_def required_length_def branch_def same_test_def)

lemma redirect_pos [simp]: "j > 0 \<Longrightarrow> redirect s f j = j"
  by (simp add: redirect_def)

lemma segment_redirect:
  assumes c: "closed ins a b" and b: "b \<le> length ins" "length ins' = length ins"
    and r: "\<And>i. a \<le> i \<Longrightarrow> i < b \<Longrightarrow> ins' ! i = redirect_insn s f (ins ! i)"
    and s: "s \<le> 0 \<or> int b \<le> s" and f: "f \<le> 0 \<or> int b \<le> f"
  shows "a \<le> i \<Longrightarrow> i < b \<Longrightarrow> run_insn ins' d i =
    (let o' = run_insn ins d i in if o' = j_success then follow ins' d s else if o' = j_failure then follow ins' d f else o')"
proof (induction "b - i" arbitrary: i rule: less_induct)
  case less
  define j where "j = branch d (ins ! i)"
  have j: "j \<le> 0 \<or> int i < j \<and> j < int b" using closedD [OF c less.prems, of d] by (simp add: j_def)
  have j': "branch d (ins' ! i) = redirect s f j" using r [OF less.prems] by (simp add: j_def)
  have i: "i < length ins" "i < length ins'" using b less.prems by simp_all
  show ?case
  proof (cases "j \<le> 0")
    case True
    then have "run_insn ins d i = j" using i by (subst run_insn.simps) (simp add: j_def)
    moreover have "run_insn ins' d i = (if j = j_success then follow ins' d s else if j = j_failure then follow ins' d f else j)"
      using i j' True s f less.prems by (subst run_insn.simps) (auto simp: Let_def redirect_def follow_def)
    ultimately show ?thesis by (simp add: Let_def)
  next
    case False
    then have n: "nat j > i" "nat j < b" using j by auto
    have "run_insn ins d i = run_insn ins d (nat j)" "run_insn ins' d i = run_insn ins' d (nat j)"
      using i j' False j by (subst run_insn.simps, simp add: j_def Let_def)+
    then show ?thesis using less.hyps [of "nat j"] n less.prems by simp
  qed
qed

lemma segment_cong:
  assumes c: "closed ins a b" and b: "b \<le> length ins" "b \<le> length ins'" and e: "\<And>i. a \<le> i \<Longrightarrow> i < b \<Longrightarrow> ins' ! i = ins ! i"
  shows "a \<le> i \<Longrightarrow> i < b \<Longrightarrow> run_insn ins' d i = run_insn ins d i"
proof (induction "b - i" arbitrary: i rule: less_induct)
  case less
  define j where "j = branch d (ins ! i)"
  have j: "j \<le> 0 \<or> int i < j \<and> j < int b" using closedD [OF c less.prems, of d] by (simp add: j_def)
  have "run_insn ins d i = (if j > int i then run_insn ins d (nat j) else j)"
    "run_insn ins' d i = (if j > int i then run_insn ins' d (nat j) else j)"
    using b less.prems e by (subst run_insn.simps, simp add: j_def Let_def)+
  moreover have "j > int i \<Longrightarrow> run_insn ins' d (nat j) = run_insn ins d (nat j)"
    using less.hyps [of "nat j"] j less.prems by auto
  ultimately show ?case by simp
qed

lemma closed_cong: "closed ins a b \<Longrightarrow> (\<And>i. a \<le> i \<Longrightarrow> i < b \<Longrightarrow> ins' ! i = ins ! i) \<Longrightarrow> closed ins' a b"
  by (simp add: closed_def)

section \<open>Combining subtrees\<close>

text \<open>Segments that follow each other to the end of the program, by where they start, and the output of a conjunction or disjunction of them.\<close>

fun segs :: "insn list \<Rightarrow> nat list \<Rightarrow> bool" where
  "segs ins [] = True"
| "segs ins [t] = (t < length ins \<and> closed ins t (length ins))"
| "segs ins (t # u # ts) = (t < u \<and> closed ins t u \<and> segs ins (u # ts))"

fun chain :: "combiner \<Rightarrow> int \<Rightarrow> int \<Rightarrow> int list \<Rightarrow> int" where
  "chain c s f [] = f"
| "chain c s f [x] = redirect s f x"
| "chain c s f (x # y # xs) =
     (if x = j_success then if c = C_and then chain c s f (y # xs) else s
      else if x = j_failure then if c = C_and then f else chain c s f (y # xs) else x)"

lemma redirect_subtree_simps [simp]:
  "length (redirect_subtree a b s f ins) = length ins"
  "i < length ins \<Longrightarrow> redirect_subtree a b s f ins ! i = (if a \<le> i \<and> i < b then redirect_insn s f (ins ! i) else ins ! i)"
  by (simp_all add: redirect_subtree_def nth_enumerate_eq)

lemma closed_join: "closed ins a b \<Longrightarrow> closed ins b c \<Longrightarrow> b \<le> c \<Longrightarrow> closed ins a c"
proof -
  assume h: "closed ins a b" "closed ins b c" "b \<le> c"
  have "in_j (ins ! i) k \<le> 0 \<or> int i < in_j (ins ! i) k \<and> in_j (ins ! i) k < int c" if "a \<le> i" "i < c" for i k
  proof (cases "i < b")
    case True
    then have "in_j (ins ! i) k \<le> 0 \<or> int i < in_j (ins ! i) k \<and> in_j (ins ! i) k < int b" using h(1) that by (simp add: closed_def Let_def)
    then show ?thesis using h(3) by auto
  next
    case False
    then show ?thesis using h(2) that by (simp add: closed_def Let_def)
  qed
  then show "closed ins a c" by (simp add: closed_def Let_def)
qed

lemma segs_closed: "segs ins (t # ts) \<Longrightarrow> closed ins t (length ins) \<and> t < length ins \<and> (\<forall>u \<in> set ts. t < u \<and> u < length ins)"
proof (induction ts arbitrary: t)
  case (Cons u ts)
  then show ?case using closed_join [of ins t u "length ins"] by force
qed simp

lemma segs_cong: "segs ins (t # ts) \<Longrightarrow> length ins' = length ins \<Longrightarrow> (\<And>i. t \<le> i \<Longrightarrow> i < length ins \<Longrightarrow> ins' ! i = ins ! i) \<Longrightarrow> segs ins' (t # ts)"
proof (induction ts arbitrary: t)
  case Nil
  then show ?case using closed_cong [of ins t "length ins" ins'] by simp
next
  case (Cons u ts)
  have u: "u < length ins" using segs_closed [of ins u ts] Cons.prems(1) by simp
  have "closed ins' t u" using Cons.prems u by (intro closed_cong [of ins t u ins']) auto
  moreover have "segs ins' (u # ts)" using Cons.prems by (intro Cons.IH) auto
  ultimately show ?case using Cons.prems(1) by simp
qed

lemma closed_redirect:
  assumes "closed ins a b" "\<And>i. a \<le> i \<Longrightarrow> i < b \<Longrightarrow> ins' ! i = redirect_insn s f (ins ! i)"
    "s \<le> 0 \<or> int b \<le> s \<and> s < int c" "f \<le> 0 \<or> int b \<le> f \<and> f < int c" "b \<le> c"
    and rest: "closed ins' b c"
  shows "closed ins' a c"
proof -
  have "in_j (ins' ! i) k \<le> 0 \<or> int i < in_j (ins' ! i) k \<and> in_j (ins' ! i) k < int c" if i: "a \<le> i" "i < c" for i k
  proof (cases "i < b")
    case True
    have j: "in_j (ins ! i) k \<le> 0 \<or> int i < in_j (ins ! i) k \<and> in_j (ins ! i) k < int b" using assms(1) i(1) True by (simp add: closed_def Let_def)
    have e: "in_j (ins' ! i) k = redirect s f (in_j (ins ! i) k)" using assms(2) [OF i(1) True] by simp
    show ?thesis using j assms(3-5) True unfolding e by (auto simp: redirect_def)
  next
    case False
    then show ?thesis using rest i by (simp add: closed_def Let_def)
  qed
  then show ?thesis by (simp add: closed_def Let_def)
qed

lemma redirect_all_run:
  assumes c: "c = C_and \<or> c = C_or" and s: "s \<le> 0" and f: "f \<le> 0"
  shows "segs ins (t # ts) \<Longrightarrow>
    length (redirect_all c s f (t # ts) ins) = length ins \<and>
    (\<forall>i < t. redirect_all c s f (t # ts) ins ! i = ins ! i) \<and>
    (\<forall>i < length ins. same_test (redirect_all c s f (t # ts) ins ! i) (ins ! i)) \<and>
    closed (redirect_all c s f (t # ts) ins) t (length ins) \<and>
    (\<forall>d. run_insn (redirect_all c s f (t # ts) ins) d t = chain c s f (map (run_insn ins d) (t # ts)))"
proof (induction ts arbitrary: t ins)
  case Nil
  let ?ins = "redirect_subtree t (length ins) s f ins"
  have t: "t < length ins" "closed ins t (length ins)" using Nil by simp_all
  have "run_insn ?ins d t = redirect s f (run_insn ins d t)" for d
    using segment_redirect [OF t(2), of ?ins s f t d] t(1) s f by (simp add: Let_def redirect_def)
  moreover have "closed ?ins t (length ins)"
    using s f by (intro closed_redirect [OF t(2), of ?ins s f]) (auto simp: closed_def)
  ultimately show ?case using t by auto
next
  case (Cons u ts)
  define s1 f1 where "s1 = (if c = C_and then int u else s)" and "f1 = (if c = C_and then f else int u)"
  define ins1 where "ins1 = redirect_subtree t u s1 f1 ins"
  define ins' where "ins' = redirect_all c s f (u # ts) ins1"
  have h: "t < u" "closed ins t u" "segs ins (u # ts)" using Cons.prems by simp_all
  have u: "u < length ins" and cu: "closed ins u (length ins)" and us: "\<And>v. v \<in> set ts \<Longrightarrow> u < v \<and> v < length ins"
    using segs_closed [OF h(3)] by auto
  have same: "\<And>i. u \<le> i \<Longrightarrow> i < length ins \<Longrightarrow> ins1 ! i = ins ! i" "length ins1 = length ins" by (simp_all add: ins1_def)
  have step: "redirect_all c s f (t # u # ts) ins = ins'" using c by (auto simp: ins'_def ins1_def s1_def f1_def)
  note IH = Cons.IH [OF segs_cong [OF h(3) same(2,1)], folded ins'_def]
  have at: "ins' ! i = redirect_insn s1 f1 (ins ! i)" if "t \<le> i" "i < u" for i
    using IH that u same by (auto simp: ins1_def)
  have s1: "s1 \<le> 0 \<or> int u \<le> s1 \<and> s1 < int (length ins)" "f1 \<le> 0 \<or> int u \<le> f1 \<and> f1 < int (length ins)"
    using s f u by (auto simp: s1_def f1_def)
  have outs: "run_insn ins1 d v = run_insn ins d v" if "v \<in> set (u # ts)" for d v
    using segment_cong [OF cu, of ins1 v d] same us u that by (auto simp: less_imp_le)
  have "run_insn ins' d t = chain c s f (map (run_insn ins d) (t # u # ts))" for d
  proof -
    have "run_insn ins' d t = (let o' = run_insn ins d t in
        if o' = j_success then follow ins' d s1 else if o' = j_failure then follow ins' d f1 else o')"
      using segment_redirect [OF h(2), of ins' s1 f1 t d] at u h(1) IH same s1 by auto
    moreover have "run_insn ins' d u = chain c s f (map (run_insn ins d) (u # ts))"
      using IH outs [of _ d] by (simp cong: map_cong)
    ultimately show ?thesis using c s f h(1) by (auto simp: Let_def s1_def f1_def)
  qed
  moreover have "closed ins' t (length ins)"
    using IH same(2) u at s1 by (intro closed_redirect [OF h(2), of ins' s1 f1]) auto
  moreover have "same_test (ins' ! i) (ins ! i)" if "i < length ins" for i
  proof -
    have "same_test (ins1 ! i) (ins ! i)" using that by (simp add: ins1_def)
    then show ?thesis using IH same(2) that same_test_trans by metis
  qed
  ultimately show ?case using IH same h(1) u unfolding step by (auto simp: ins1_def)
qed

text \<open>The bookkeeping of the tree: the subtrees of the current level are where \<open>B\<close> has that level.\<close>

definition positions :: "int \<Rightarrow> int list \<Rightarrow> nat list" where
  "positions x B = filter (\<lambda>k. B ! k = x) [0..<length B]"

lemma back_to_parent_le: "back_to_parent tree lev n \<le> n"
  by (induction n) auto

lemma back_to_parent_stay: "m \<le> n \<Longrightarrow> (\<And>k. m < k \<Longrightarrow> k \<le> n \<Longrightarrow> tree ! k < 0 \<or> tree ! k \<ge> lev) \<Longrightarrow> back_to_parent tree lev n \<le> m"
proof (induction n)
  case (Suc n)
  show ?case
  proof (cases "m = Suc n")
    case True
    then show ?thesis using back_to_parent_le [of tree lev "Suc n"] by simp
  next
    case False
    then have "tree ! Suc n < 0 \<or> tree ! Suc n \<ge> lev" using Suc.prems by simp
    then show ?thesis using Suc False by simp
  qed
qed simp

lemma subtrees_positions:
  assumes A: "\<forall>a \<in> set A. a \<noteq> lev" and p: "ptr \<le> length A"
  shows "map (\<lambda>k. k - 1) (filter (\<lambda>k. (lev # A @ B) ! k = lev) [Suc ptr..<Suc (length A + length B)]) = map (\<lambda>k. length A + k) (positions lev B)"
proof -
  have "[Suc ptr..<Suc (length A + length B)] = [Suc ptr..<Suc (length A)] @ [Suc (length A)..<Suc (length A) + length B]"
    using p upt_add_eq_append [of "Suc ptr" "Suc (length A)" "length B"] by simp
  moreover have "filter (\<lambda>k. (lev # A @ B) ! k = lev) [Suc ptr..<Suc (length A)] = []"
    using A by (auto simp: filter_empty_conv nth_append nth_Cons split: nat.splits)
  moreover have "[Suc (length A)..<Suc (length A) + length B] = map (\<lambda>k. Suc (length A) + k) [0..<length B]"
    using map_add_upt [of "Suc (length A)" "length B"] by (simp add: add.commute)
  ultimately show ?thesis by (simp add: positions_def filter_map o_def nth_append cong: filter_cong)
qed

lemma relevel:
  assumes "B \<noteq> []"
  shows "(map (\<lambda>(k, l). if k = length A + 1 then y else if k \<ge> length A + 2 then - 1 else l) (enumerate 0 (x # A @ B)))[0 := y] =
    y # A @ y # replicate (length B - 1) (- 1)"
proof (rule nth_equalityI, goal_cases)
  case 1
  then show ?case using assms by (cases B) simp_all
next
  case (2 i)
  then have i: "i < Suc (length A + length B)" by simp
  show ?case
    using i assms by (cases i) (auto simp: nth_enumerate_eq nth_append nth_Cons split: nat.splits)
qed

lemma finish_subtree_tree:
  assumes n: "length (pr_insn p) = length A + length B" and A: "\<forall>a \<in> set A. a \<noteq> lev" and B: "\<forall>b \<in> set B. b < 0 \<or> b = lev"
    and ne: "B \<noteq> []" "B ! 0 = lev"
  shows "finish_subtree c s f (lev # A @ B, p) = ((lev - 1) # A @ (lev - 1) # replicate (length B - 1) (- 1),
    p\<lparr> pr_insn := redirect_all c s f (map (\<lambda>k. length A + k) (positions lev B)) (pr_insn p) \<rparr>)"
proof -
  define ptr where "ptr = back_to_parent (lev # A @ B) lev (length (pr_insn p))"
  have "(lev # A @ B) ! k < 0 \<or> (lev # A @ B) ! k \<ge> lev" if k: "length A < k" "k \<le> length A + length B" for k
  proof -
    have "(lev # A @ B) ! k = B ! (k - 1 - length A)" using k by (cases k) (auto simp: nth_append)
    moreover have "B ! (k - 1 - length A) \<in> set B" using k by (intro nth_mem) simp
    ultimately show ?thesis using B by auto
  qed
  then have ptr: "ptr \<le> length A" unfolding ptr_def n by (intro back_to_parent_stay) auto
  define sub where "sub = map (\<lambda>k. k - 1) (filter (\<lambda>k. (lev # A @ B) ! k = lev) [Suc ptr..<Suc (length (pr_insn p))])"
  have sub: "sub = map (\<lambda>k. length A + k) (positions lev B)" using subtrees_positions [OF A ptr, of B] n by (simp add: sub_def)
  have "[0..<length B] = 0 # [1..<length B]" using ne(1) by (simp add: upt_conv_Cons)
  then have "positions lev B = 0 # filter (\<lambda>k. B ! k = lev) [1..<length B]" using ne(2) by (simp add: positions_def)
  then have s0: "sub \<noteq> []" "sub ! 0 = length A" by (simp_all add: sub)
  show ?thesis
    using relevel [OF ne(1), of A "lev - 1" lev] s0(1) sub
    unfolding finish_subtree_def prod.case Let_def nth_Cons_0 ptr_def [symmetric] sub_def [symmetric] s0(2) by simp
qed

section \<open>The instructions of a clause\<close>

definition plain_insn :: "insn \<Rightarrow> bool" where
  "plain_insn e \<longleftrightarrow> \<not> in_short e \<and> in_no e = j_failure \<and> in_yes e = j_success \<and> masked e \<and> in_offset e < 65536"

lemma masked_bytes: "masked e \<longleftrightarrow> (\<forall>i < 4. byte_of (in_value e) i AND byte_of (in_mask e) i = byte_of (in_value e) i)"
  unfolding masked_def by (subst word_bytes_eq) simp

lemma test_byte_ok:
  assumes "\<not> in_short e" "masked e"
  shows "insn_test d e \<longleftrightarrow> (\<forall>i < 4. byte_ok d (in_offset e + i) (byte_of (in_value e) i, byte_of (in_mask e) i))"
proof (cases "required_length e \<le> length d")
  case True
  have "byte_at d (in_offset e + i) AND byte_of (in_mask e) i = byte_of (in_value e) i \<longleftrightarrow>
      byte_ok d (in_offset e + i) (byte_of (in_value e) i, byte_of (in_mask e) i)" if "i < 4" for i
    using that True masked_byte [OF assms(2), of i] by (auto simp: byte_ok_def byte_at_def required_length_le)
  then show ?thesis using True by (auto simp: insn_test_def test_bytes)
next
  case False
  then show ?thesis using assms(1) by (auto simp: insn_test_def byte_ok_def required_length_le)
qed

lemma byte_of_set_byte: "i < 4 \<Longrightarrow> k < 4 \<Longrightarrow> byte_of (set_byte i b w) k = (if k = i then b else byte_of w k)"
proof (rule bit_word_eqI)
  fix n assume ik: "i < 4" "k < 4" and n: "n < LENGTH(8)"
  have ff: "(0xFF :: u32) = Bit_Operations.mask 8" by (simp add: mask_eq_exp_minus_1)
  have push: "bit (push_bit (8 * i) (0xFF :: u32)) (8 * k + n) \<longleftrightarrow> k = i"
    unfolding ff bit_push_bit_iff bit_mask_iff using ik n by auto
  have b: "bit (push_bit (8 * i) (ucast b :: u32)) (8 * k + n) \<longleftrightarrow> k = i \<and> bit b n"
    unfolding bit_push_bit_iff bit_unsigned_iff using ik n bit_imp_le_length [of b "8 * k + n - 8 * i"] by (cases "k = i") auto
  have "bit (byte_of (set_byte i b w) k) n \<longleftrightarrow> bit (set_byte i b w) (8 * k + n)"
    using ik n by (simp add: byte_of_def bit_simps)
  also have "\<dots> \<longleftrightarrow> (if k = i then bit b n else bit w (8 * k + n))"
    using push b ik n by (auto simp: set_byte_def bit_or_iff bit_and_iff not_bits)
  also have "\<dots> \<longleftrightarrow> bit (if k = i then b else byte_of w k) n" using ik n by (simp add: byte_of_def bit_simps)
  finally show "bit (byte_of (set_byte i b w) k) n = bit (if k = i then b else byte_of w k) n" .
qed

text \<open>The last instruction has room for the byte at \<open>off\<close> and those after it.\<close>

definition open_at :: "int \<Rightarrow> insn list \<Rightarrow> bool" where
  "open_at off new \<longleftrightarrow> new \<noteq> [] \<and> in_offset (last new) = nat (off div 4 * 4) \<and>
     (\<forall>i < 4. nat (off mod 4) \<le> i \<longrightarrow> byte_of (in_mask (last new)) i = 0 \<and> byte_of (in_value (last new)) i = 0)"

lemma new_insn_open:
  assumes "0 \<le> off" "off < 65536"
  shows "plain_insn (new_insn (off div 4 * 4) 0 0)" "open_at off (new @ [new_insn (off div 4 * 4) 0 0])" "insn_test d (new_insn (off div 4 * 4) 0 0)"
proof -
  have "off div 4 * 4 mod 65536 = off div 4 * 4" using assms by (intro mod_pos_pos_trivial) auto
  then show "plain_insn (new_insn (off div 4 * 4) 0 0)" "open_at off (new @ [new_insn (off div 4 * 4) 0 0])" "insn_test d (new_insn (off div 4 * 4) 0 0)"
    using assms by (auto simp: plain_insn_def new_insn_def masked_def open_at_def insn_test_def required_length_def)
qed

lemma set_byte_insn:
  assumes o: "open_at off new" and p: "plain_insn (last new)" and off: "0 \<le> off" and v: "v AND m = v"
  defines "e \<equiv> (last new)\<lparr> in_mask := set_byte (nat (off mod 4)) m (in_mask (last new)), in_value := set_byte (nat (off mod 4)) v (in_value (last new)) \<rparr>"
  shows "plain_insn e" and "insn_test d e \<longleftrightarrow> insn_test d (last new) \<and> byte_ok d (nat off) (v, m)"
    and "(off + 1) mod 4 = 0 \<or> open_at (off + 1) (butlast new @ [e])"
proof -
  define k where "k = nat (off mod 4)"
  have k: "k < 4" by (simp add: k_def)
  have pos: "in_offset (last new) + k = nat off" using o off by (auto simp: open_at_def k_def nat_add_distrib [symmetric])
  have zero: "byte_of (in_mask (last new)) k = 0" "byte_of (in_value (last new)) k = 0" using o k by (auto simp: open_at_def k_def)
  have f: "in_mask e = set_byte k m (in_mask (last new))" "in_value e = set_byte k v (in_value (last new))" "in_offset e = in_offset (last new)"
    "in_short e = in_short (last new)" by (simp_all add: e_def k_def)
  have me: "masked e" using p v k by (auto simp: masked_bytes plain_insn_def f byte_of_set_byte)
  then show "plain_insn e" using p by (simp add: plain_insn_def e_def)
  have "insn_test d e \<longleftrightarrow> (\<forall>i < 4. if i = k then byte_ok d (nat off) (v, m) else
      byte_ok d (in_offset (last new) + i) (byte_of (in_value (last new)) i, byte_of (in_mask (last new)) i))"
    using test_byte_ok [of e d] me p k pos by (auto simp: f byte_of_set_byte plain_insn_def)
  also have "\<dots> \<longleftrightarrow> insn_test d (last new) \<and> byte_ok d (nat off) (v, m)"
    using test_byte_ok [of "last new" d] p zero k by (auto simp: plain_insn_def byte_ok_def)
  finally show "insn_test d e \<longleftrightarrow> insn_test d (last new) \<and> byte_ok d (nat off) (v, m)" .
  show "(off + 1) mod 4 = 0 \<or> open_at (off + 1) (butlast new @ [e])"
  proof (cases "(off + 1) mod 4 = 0")
    case False
    then have "(off + 1) div 4 = off div 4" "(off + 1) mod 4 = off mod 4 + 1" by presburger+
    then show ?thesis using o k by (auto simp: open_at_def f byte_of_set_byte k_def nat_add_distrib)
  qed simp
qed

text \<open>A program with instructions added.\<close>

definition extends :: "program \<Rightarrow> insn list \<Rightarrow> program \<Rightarrow> bool" where
  "extends p new p' \<longleftrightarrow> pr_insn p' = pr_insn p @ new \<and> pr_align_offset p' = pr_align_offset p"

lemma add_bytes_ok:
  assumes "0 \<le> off" "off + int (length bs) \<le> 65536" "\<forall>(v, m) \<in> set bs. v AND m = v" "first \<or> off mod 4 = 0 \<or> open_at off new"
    and "extends p new p1" "\<forall>e \<in> set new. plain_insn e"
  shows "\<exists>k new' p'. add_bytes off first bs (lev # L, p1) = (lev # L @ replicate k lev, p') \<and> extends p new' p' \<and> length new' = length new + k \<and>
    (first \<longrightarrow> bs \<noteq> [] \<longrightarrow> 0 < k) \<and> (\<forall>e \<in> set new'. plain_insn e) \<and>
    (\<forall>d. (\<forall>e \<in> set new'. insn_test d e) \<longleftrightarrow> (\<forall>e \<in> set new. insn_test d e) \<and> (\<forall>i < length bs. byte_ok d (nat off + i) (bs ! i)))"
  using assms
proof (induction bs arbitrary: off first new p1 L)
  case Nil
  then show ?case by (intro exI [of _ 0] exI [of _ new] exI [of _ p1]) simp
next
  case (Cons b bs)
  obtain v m where b: "b = (v, m)" by fastforce
  define fresh where "fresh \<longleftrightarrow> first \<or> off mod 4 = 0"
  define new1 where "new1 = (if fresh then new @ [new_insn (off div 4 * 4) 0 0] else new)"
  define p2 where "p2 = (if fresh then p1\<lparr> pr_insn := pr_insn p1 @ [new_insn (off div 4 * 4) 0 0], pr_output_everything := - 1 \<rparr> else p1)"
  define k1 where "k1 = (if fresh then 1 else 0 :: nat)"
  have off: "0 \<le> off" "off < 65536" "v AND m = v" using Cons.prems(1-3) b by auto
  note no = new_insn_open [OF off(1,2)]
  have open1: "open_at off new1" "\<forall>e \<in> set new1. plain_insn e" "extends p new1 p2" "length new1 = length new + k1"
    using no Cons.prems(4-6) by (auto simp: new1_def fresh_def p2_def extends_def k1_def)
  have t1: "(\<forall>e \<in> set new1. insn_test d e) \<longleftrightarrow> (\<forall>e \<in> set new. insn_test d e)" for d using no(3) by (auto simp: new1_def)
  have ne: "new1 \<noteq> []" using open1(1) by (simp add: open_at_def)
  define e where "e = (last new1)\<lparr> in_mask := set_byte (nat (off mod 4)) m (in_mask (last new1)), in_value := set_byte (nat (off mod 4)) v (in_value (last new1)) \<rparr>"
  define p3 where "p3 = p2\<lparr> pr_insn := butlast (pr_insn p2) @ [e] \<rparr>"
  define new2 where "new2 = butlast new1 @ [e]"
  have pl: "plain_insn (last new1)" using open1(2) ne by simp
  note sb = set_byte_insn [OF open1(1) pl off(1,3), folded e_def]
  have ex2: "extends p new2 p3" using open1(3) ne by (auto simp: extends_def p3_def new2_def butlast_append)
  have plain2: "\<forall>x \<in> set new2. plain_insn x" using open1(2) sb(1) in_set_butlastD [of _ new1] by (auto simp: new2_def)
  have t2: "(\<forall>x \<in> set new2. insn_test d x) \<longleftrightarrow> (\<forall>x \<in> set new1. insn_test d x) \<and> byte_ok d (nat off) (v, m)" for d
  proof -
    have "set new1 = insert (last new1) (set (butlast new1))" using ne by (metis append_butlast_last_id list.simps(15) rotate1.simps(2) set_rotate1)
    then show ?thesis using sb(2) [of d] by (auto simp: new2_def)
  qed
  have step: "add_bytes off first (b # bs) (lev # L, p1) = add_bytes (off + 1) False bs (lev # (L @ replicate k1 lev), p3)"
  proof -
    have "last (pr_insn p2) = last new1" using open1(3) ne by (simp add: extends_def)
    then show ?thesis by (auto simp: b fresh_def add_insn_def set_back_def Let_def p2_def p3_def k1_def e_def)
  qed
  have "\<exists>k new' p'. add_bytes (off + 1) False bs (lev # (L @ replicate k1 lev), p3) = (lev # (L @ replicate k1 lev) @ replicate k lev, p') \<and> extends p new' p' \<and>
      length new' = length new2 + k \<and> (False \<longrightarrow> bs \<noteq> [] \<longrightarrow> 0 < k) \<and> (\<forall>e \<in> set new'. plain_insn e) \<and>
      (\<forall>d. (\<forall>e \<in> set new'. insn_test d e) \<longleftrightarrow> (\<forall>e \<in> set new2. insn_test d e) \<and> (\<forall>i < length bs. byte_ok d (nat (off + 1) + i) (bs ! i)))"
    using Cons.prems(1-3) sb(3) ex2 plain2 by (intro Cons.IH) (auto simp: new2_def)
  then obtain k new' p' where r: "add_bytes (off + 1) False bs (lev # (L @ replicate k1 lev), p3) = (lev # (L @ replicate k1 lev) @ replicate k lev, p')"
      "extends p new' p'" "length new' = length new2 + k" "\<forall>e \<in> set new'. plain_insn e"
      "\<And>d. (\<forall>e \<in> set new'. insn_test d e) \<longleftrightarrow> (\<forall>e \<in> set new2. insn_test d e) \<and> (\<forall>i < length bs. byte_ok d (nat (off + 1) + i) (bs ! i))"
    by blast
  have bytes: "(\<forall>i < length (b # bs). byte_ok d (nat off + i) ((b # bs) ! i)) \<longleftrightarrow>
      byte_ok d (nat off) (v, m) \<and> (\<forall>i < length bs. byte_ok d (nat (off + 1) + i) (bs ! i))" for d
    using off(1) by (auto simp: b nth_Cons less_Suc_eq_0_disj nat_add_distrib split: nat.splits)
  have "length new2 = length new1" using ne by (cases new1 rule: rev_cases) (simp_all add: new2_def)
  then have "length new' = length new + (k1 + k)" using r(3) open1(4) by simp
  moreover have "first \<longrightarrow> 0 < k1 + k" by (simp add: k1_def fresh_def)
  ultimately show ?case
    using r step t1 t2 bytes
    by (intro exI [of _ "k1 + k"] exI [of _ new'] exI [of _ p']) (simp add: replicate_add)
qed

section \<open>Clauses, patterns and the program\<close>

text \<open>One instruction per subtree.\<close>

lemma run_plain: "i < length ins \<Longrightarrow> plain_insn (ins ! i) \<Longrightarrow> run_insn ins d i = (if insn_test d (ins ! i) then j_success else j_failure)"
  by (subst run_insn.simps) (simp add: plain_insn_def branch_def in_j_def Let_def)

lemma closed_plain: "(\<And>i. a \<le> i \<Longrightarrow> i < b \<Longrightarrow> plain_insn (ins ! i)) \<Longrightarrow> closed ins a b"
  by (auto simp: closed_def plain_insn_def in_j_def Let_def)

lemma segs_plain:
  assumes "\<And>i. a \<le> i \<Longrightarrow> i < length ins \<Longrightarrow> plain_insn (ins ! i)"
  shows "n > 0 \<Longrightarrow> a + n = length ins \<Longrightarrow> segs ins [a..<length ins]"
  using assms
proof (induction n arbitrary: a)
  case (Suc n)
  show ?case
  proof (cases n)
    case 0
    then show ?thesis using Suc.prems by (auto simp: upt_conv_Cons intro!: closed_plain)
  next
    case (Suc m)
    have "segs ins [Suc a..<length ins]" using Suc.IH [of "Suc a"] Suc.prems Suc by simp
    then have "segs ins (Suc a # [Suc (Suc a)..<length ins])" using Suc Suc.prems by (simp add: upt_conv_Cons)
    moreover have "closed ins a (Suc a)" using Suc.prems by (intro closed_plain) simp
    ultimately show ?thesis using Suc Suc.prems by (simp add: upt_conv_Cons)
  qed
qed simp

lemma chain_and:
  "xs \<noteq> [] \<Longrightarrow> \<forall>x \<in> set xs. x = j_success \<or> x = j_failure \<Longrightarrow> chain C_and s f xs = (if \<forall>x \<in> set xs. x = j_success then s else f)"
  by (induction C_and s f xs rule: chain.induct) (auto simp: redirect_def)

lemma positions_replicate: "positions lev (replicate k lev) = [0..<k]"
  by (simp add: positions_def cong: filter_cong)

text \<open>A finished part of the program at \<open>a\<close>: closed, with well-formed tests, and on every packet the output \<open>out\<close>.\<close>

definition part :: "insn list \<Rightarrow> nat \<Rightarrow> (byte list \<Rightarrow> int) \<Rightarrow> bool" where
  "part ins a out \<longleftrightarrow> a < length ins \<and> closed ins a (length ins) \<and> (\<forall>d. run_insn ins d a = out d) \<and>
     (\<forall>i. a \<le> i \<longrightarrow> i < length ins \<longrightarrow> masked (ins ! i) \<and> in_offset (ins ! i) < 65536)"

lemma conjunction_part:
  assumes s: "segs ins (t # ts)" and sf: "s \<le> 0" "f \<le> 0" and c: "c = C_and \<or> c = C_or"
    and m: "\<forall>i. t \<le> i \<longrightarrow> i < length ins \<longrightarrow> masked (ins ! i) \<and> in_offset (ins ! i) < 65536"
  shows "part (redirect_all c s f (t # ts) ins) t (\<lambda>d. chain c s f (map (run_insn ins d) (t # ts)))"
    and "take t (redirect_all c s f (t # ts) ins) = take t ins" and "length (redirect_all c s f (t # ts) ins) = length ins"
proof -
  note r = redirect_all_run [OF c sf s]
  have t: "t < length ins" using segs_closed [OF s] by simp
  show "length (redirect_all c s f (t # ts) ins) = length ins" using r by blast
  have "masked (redirect_all c s f (t # ts) ins ! i) \<and> in_offset (redirect_all c s f (t # ts) ins ! i) < 65536" if "t \<le> i" "i < length ins" for i
  proof -
    have "same_test (redirect_all c s f (t # ts) ins ! i) (ins ! i)" using r that by blast
    then show ?thesis using m that masked_same_test by (auto simp: same_test_def)
  qed
  then show "part (redirect_all c s f (t # ts) ins) t (\<lambda>d. chain c s f (map (run_insn ins d) (t # ts)))"
    using r t by (simp add: part_def del: redirect_all.simps)
  show "take t (redirect_all c s f (t # ts) ins) = take t ins"
    using r t by (intro nth_equalityI) (auto simp del: redirect_all.simps)
qed

lemma last_subtree_block:
  assumes "x \<noteq> - 1"
  shows "m \<le> k \<Longrightarrow> last_subtree (x # A @ x # replicate k (- 1)) (Suc (length A + m)) = Some (length A)"
proof (induction m)
  case 0
  show ?case by (simp add: nth_append)
next
  case (Suc m)
  have "(x # A @ x # replicate k (- 1)) ! Suc (length A + Suc m) = - 1" using Suc.prems by (simp add: nth_append)
  then show ?case using Suc assms by simp
qed

lemma negate_part:
  assumes pt: "part (pr_insn p) a out" and a: "length (pr_insn p) = Suc (a + k)" and A: "length A = a" and x: "x \<noteq> - 1"
    and o: "\<And>d. out d = j_success \<or> out d = j_failure"
  shows "\<exists>p'. negate_subtree False (x # A @ x # replicate k (- 1), p) = Inr (x # A @ x # replicate k (- 1), p') \<and>
    pr_align_offset p' = pr_align_offset p \<and> length (pr_insn p') = length (pr_insn p) \<and> take a (pr_insn p') = take a (pr_insn p) \<and>
    part (pr_insn p') a (\<lambda>d. if out d = j_success then j_failure else j_success)"
proof -
  define ins where "ins = pr_insn p"
  define ins' where "ins' = map (\<lambda>(i, e). if a \<le> i then (redirect_insn j_failure j_success e)\<lparr> in_short := in_short e \<rparr> else e) (enumerate 0 ins)"
  have at: "ins' ! i = (if a \<le> i then redirect_insn j_failure j_success (ins ! i) else ins ! i)" if "i < length ins" for i
    using that by (simp add: ins'_def nth_enumerate_eq redirect_insn_def)
  have len: "length ins' = length ins" by (simp add: ins'_def)
  have p: "a < length ins" "closed ins a (length ins)" "\<And>d. run_insn ins d a = out d"
    "\<And>i. a \<le> i \<Longrightarrow> i < length ins \<Longrightarrow> masked (ins ! i) \<and> in_offset (ins ! i) < 65536"
    using pt by (auto simp: part_def ins_def)
  have "last_subtree (x # A @ x # replicate k (- 1)) (length ins) = Some a"
    using last_subtree_block [OF x, of k k A] a A by (simp add: ins_def)
  then have neg: "negate_subtree False (x # A @ x # replicate k (- 1), p) = Inr (x # A @ x # replicate k (- 1), p\<lparr> pr_insn := ins' \<rparr>)"
    by (simp add: negate_subtree_def ins_def ins'_def cong: if_cong)
  have "run_insn ins' d a = (if out d = j_success then j_failure else j_success)" for d
    using segment_redirect [OF p(2), of ins' j_failure j_success a d] at len p(1,3) o [of d] by (auto simp: Let_def)
  moreover have "closed ins' a (length ins)"
    using at by (intro closed_redirect [OF p(2), of ins' j_failure j_success]) (auto simp: closed_def)
  moreover have "masked (ins' ! i) \<and> in_offset (ins' ! i) < 65536" if "a \<le> i" "i < length ins" for i
    using at [OF that(2)] that p(4) [OF that] masked_same_test [OF redirect_insn_simps(4)] by (simp add: redirect_insn_def)
  ultimately have "part ins' a (\<lambda>d. if out d = j_success then j_failure else j_success)" using len p(1) by (simp add: part_def)
  moreover have "take a ins' = take a ins" using at len p(1) by (intro nth_equalityI) auto
  ultimately show ?thesis using neg len by (simp add: ins_def)
qed

lemma plain_conjunction:
  assumes ins: "ins = pre @ new" "new \<noteq> []" "\<forall>e \<in> set new. plain_insn e"
  defines "n \<equiv> length pre"
  defines "ins' \<equiv> redirect_all C_and j_success j_failure [n..<length ins] ins"
  shows "part ins' n (\<lambda>d. if \<forall>e \<in> set new. insn_test d e then j_success else j_failure)" and "take n ins' = pre" and "length ins' = length ins"
proof -
  have plain: "plain_insn (ins ! i)" if "n \<le> i" "i < length ins" for i
    using that ins by (simp add: nth_append n_def)
  have n: "n < length ins" "n + length new = length ins" using ins by (simp_all add: n_def)
  then have ts: "[n..<length ins] = n # [Suc n..<length ins]" by (simp add: upt_conv_Cons)
  have sg: "segs ins [n..<length ins]" using segs_plain [of n ins "length new"] plain n ins(2) by simp
  have m: "\<forall>i. n \<le> i \<longrightarrow> i < length ins \<longrightarrow> masked (ins ! i) \<and> in_offset (ins ! i) < 65536"
    using plain by (auto simp: plain_insn_def)
  have cp: "part ins' n (\<lambda>d. chain C_and j_success j_failure (map (run_insn ins d) [n..<length ins]))"
    "take n ins' = take n ins" "length ins' = length ins"
    using conjunction_part [OF sg [unfolded ts], of j_success j_failure C_and] m unfolding ins'_def ts by simp_all
  show "take n ins' = pre" "length ins' = length ins" using cp(2,3) ins(1) by (simp_all add: n_def)
  have "chain C_and j_success j_failure (map (run_insn ins d) [n..<length ins]) = (if \<forall>e \<in> set new. insn_test d e then j_success else j_failure)" for d
  proof -
    have r: "run_insn ins d i = (if insn_test d (ins ! i) then j_success else j_failure)" if "i \<in> set [n..<length ins]" for i
      using run_plain [of i ins d] plain that by simp
    define xs where "xs = map (run_insn ins d) [n..<length ins]"
    have xs: "xs = map (\<lambda>i. if insn_test d (ins ! i) then j_success else j_failure) [n..<length ins]"
      using r unfolding xs_def by (intro map_cong refl) blast
    have "\<forall>x \<in> set xs. x = j_success \<or> x = j_failure" by (auto simp: xs)
    moreover have "xs \<noteq> []" using ts by (simp add: xs_def)
    ultimately have "chain C_and j_success j_failure xs = (if \<forall>x \<in> set xs. x = j_success then j_success else j_failure)" by (rule chain_and [rotated])
    moreover have "(\<forall>x \<in> set xs. x = j_success) \<longleftrightarrow> (\<forall>i \<in> set [n..<length ins]. insn_test d (ins ! i))"
      unfolding xs set_map ball_simps by (rule ball_cong) auto
    ultimately have "chain C_and j_success j_failure (map (run_insn ins d) [n..<length ins]) =
        (if \<forall>i \<in> set [n..<length ins]. insn_test d (ins ! i) then j_success else j_failure)"
      by (simp add: xs_def)
    moreover have "(\<forall>i \<in> set [n..<length ins]. insn_test d (ins ! i)) \<longleftrightarrow> (\<forall>e \<in> set new. insn_test d e)"
    proof -
      have "map ((!) ins) [n..<length ins] = drop n (map ((!) ins) [0..<length ins])" by (simp add: drop_map)
      also have "\<dots> = new" unfolding map_nth using ins(1) by (simp add: n_def)
      finally have "set new = (!) ins ` set [n..<length ins]" by (metis set_map)
      then show ?thesis by simp
    qed
    ultimately show ?thesis by simp
  qed
  then show "part ins' n (\<lambda>d. if \<forall>e \<in> set new. insn_test d e then j_success else j_failure)" using cp(1) by simp
qed

lemma build_clause_ok:
  assumes L: "length L = length (pr_insn p)" "\<forall>a \<in> set L. a \<noteq> 3" and wf: "clause_wf (pr_align_offset p) c"
  shows "\<exists>k p'. build_clause c (2 # L, p) = Inr (2 # L @ 2 # replicate k (- 1), p') \<and> pr_align_offset p' = pr_align_offset p \<and>
    length (pr_insn p') = Suc (length L + k) \<and> take (length L) (pr_insn p') = pr_insn p \<and>
    part (pr_insn p') (length L) (\<lambda>d. if clause_ok d (pr_align_offset p) c then j_success else j_failure)"
proof -
  let ?al = "pr_align_offset p" and ?n = "length L"
  define ok where "ok d \<longleftrightarrow> (\<forall>i < length (cl_bytes c). byte_ok d (nat (cl_offset c) + ?al + i) (cl_bytes c ! i))" for d
  have al: "nat (cl_offset c + int ?al) = nat (cl_offset c) + ?al" using wf by (simp add: clause_wf_def nat_add_distrib)
  obtain k new p1 where ab: "add_bytes (cl_offset c + int ?al) True (cl_bytes c) (3 # L, p) = (3 # L @ replicate k 3, p1)" "extends p new p1"
      "length new = k" "0 < k" "\<forall>e \<in> set new. plain_insn e" "\<And>d. (\<forall>e \<in> set new. insn_test d e) \<longleftrightarrow> ok d"
    using add_bytes_ok [of "cl_offset c + int ?al" "cl_bytes c" True "[]" p p 3 L] wf
    by (auto simp: clause_wf_def extends_def al ok_def)
  have ins1: "pr_insn p1 = pr_insn p @ new" "pr_align_offset p1 = ?al" "length (pr_insn p1) = ?n + k"
    using ab(2,3) L by (simp_all add: extends_def)
  define p2 where "p2 = p1\<lparr> pr_insn := redirect_all C_and j_success j_failure [?n..<?n + k] (pr_insn p1) \<rparr>"
  have fin: "finish_subtree C_and j_success j_failure (3 # L @ replicate k 3, p1) = (2 # L @ 2 # replicate (k - 1) (- 1), p2)"
    using finish_subtree_tree [of p1 L "replicate k 3" 3 C_and j_success j_failure] ins1(3) L(2) ab(4) map_add_upt [of ?n k]
    by (simp add: positions_replicate p2_def add.commute)
  have ne: "new \<noteq> []" using ab(3,4) by auto
  have pt: "part (pr_insn p2) ?n (\<lambda>d. if ok d then j_success else j_failure)"
    and len2: "length (pr_insn p2) = Suc (?n + (k - 1))" "take ?n (pr_insn p2) = pr_insn p" "pr_align_offset p2 = ?al"
    using plain_conjunction [OF ins1(1) ne ab(5)] ins1(2,3) ab(4,6) L(1) by (simp_all add: p2_def)
  have bc: "build_clause c (2 # L, p) = (if cl_negated c then negate_subtree False (2 # L @ 2 # replicate (k - 1) (- 1), p2)
      else Inr (2 # L @ 2 # replicate (k - 1) (- 1), p2))"
    using ab(1) fin by (simp add: build_clause_def Let_def start_def start_subtree_def)
  have co: "clause_ok d ?al c \<longleftrightarrow> (cl_negated c \<longleftrightarrow> \<not> ok d)" for d by (simp add: clause_ok_def ok_def)
  show ?thesis
  proof (cases "cl_negated c")
    case True
    have out: "(if (if ok d then j_success else j_failure) = j_success then j_failure else j_success) =
        (if clause_ok d ?al c then j_success else j_failure)" for d using True co by auto
    obtain p' where "negate_subtree False (2 # L @ 2 # replicate (k - 1) (- 1), p2) = Inr (2 # L @ 2 # replicate (k - 1) (- 1), p')"
      "pr_align_offset p' = ?al" "length (pr_insn p') = Suc (?n + (k - 1))" "take ?n (pr_insn p') = pr_insn p"
      "part (pr_insn p') ?n (\<lambda>d. if clause_ok d ?al c then j_success else j_failure)"
    proof -
      have "(if ok d then j_success else j_failure) = j_success \<or> (if ok d then j_success else j_failure) = j_failure" for d by simp
      from negate_part [OF pt len2(1) refl _ this, of 2] show thesis using that len2 unfolding out by auto
    qed
    then show ?thesis using bc True by (intro exI [of _ "k - 1"] exI [of _ p']) simp
  next
    case False
    then show ?thesis using pt bc len2 co by (intro exI [of _ "k - 1"] exI [of _ p2]) simp
  qed
qed

text \<open>Several finished parts after \<open>a\<close>, marked in \<open>B\<close> with their level, and the output of each.\<close>

definition stage :: "int \<Rightarrow> insn list \<Rightarrow> nat \<Rightarrow> int list \<Rightarrow> (byte list \<Rightarrow> int) list \<Rightarrow> bool" where
  "stage lev ins a B outs \<longleftrightarrow> length ins = a + length B \<and> (\<forall>b \<in> set B. b = - 1 \<or> b = lev) \<and> (B \<noteq> [] \<longrightarrow> B ! 0 = lev) \<and>
     segs ins (map ((+) a) (positions lev B)) \<and> (\<forall>d. map (run_insn ins d) (map ((+) a) (positions lev B)) = map (\<lambda>out. out d) outs) \<and>
     (\<forall>i. a \<le> i \<longrightarrow> i < length ins \<longrightarrow> masked (ins ! i) \<and> in_offset (ins ! i) < 65536)"

lemma positions_append: "lev \<noteq> - 1 \<Longrightarrow> positions lev (B @ lev # replicate k (- 1)) = positions lev B @ [length B]"
proof -
  assume l: "lev \<noteq> - 1"
  let ?B = "B @ lev # replicate k (- 1)"
  have "[0..<length ?B] = [0..<length B] @ length B # [Suc (length B)..<length ?B]"
    using upt_add_eq_append [of 0 "length B" "Suc k"] by (simp add: upt_conv_Cons)
  moreover have "filter (\<lambda>i. ?B ! i = lev) [0..<length B] = positions lev B"
    unfolding positions_def by (rule filter_cong) (simp_all add: nth_append)
  moreover have "filter (\<lambda>i. ?B ! i = lev) [Suc (length B)..<length ?B] = []"
    using l by (auto simp: filter_empty_conv nth_append nth_Cons split: nat.splits)
  ultimately show ?thesis unfolding positions_def by (simp add: nth_append)
qed

lemma segs_snoc:
  assumes n: "n = length ins" "take n ins' = ins" "n < length ins'" "closed ins' n (length ins')"
  shows "segs ins ts \<Longrightarrow> segs ins' (ts @ [n])"
proof (induction ts)
  case Nil
  then show ?case using n by simp
next
  case (Cons t ts)
  have same: "i < n \<Longrightarrow> ins' ! i = ins ! i" for i using n(2) by (metis nth_take)
  show ?case
  proof (cases ts)
    case Nil
    have "closed ins' t n" using same n(1) Cons.prems Nil by (intro closed_cong [of ins t n ins']) auto
    then show ?thesis using Cons.prems Nil n by simp
  next
    case (Cons u us)
    have h: "t < u" "closed ins t u" "segs ins (u # us)" using \<open>segs ins (t # ts)\<close> Cons by simp_all
    have "u < n" using segs_closed [OF h(3)] n(1) by simp
    then have "closed ins' t u" using same h(2) by (intro closed_cong [of ins t u ins']) auto
    moreover have "segs ins' (ts @ [n])" using Cons.IH h(3) Cons by simp
    ultimately show ?thesis using h(1) Cons by simp
  qed
qed

lemma stage_step:
  assumes st: "stage lev ins a B outs" and lev: "lev \<noteq> - 1" and pt: "part ins' (length ins) out"
    and t: "take (length ins) ins' = ins" and n: "length ins' = Suc (length ins + k)"
  shows "stage lev ins' a (B @ lev # replicate k (- 1)) (outs @ [out])"
proof -
  let ?ts = "map ((+) a) (positions lev B)"
  have s: "length ins = a + length B" "\<forall>b \<in> set B. b = - 1 \<or> b = lev" "B \<noteq> [] \<longrightarrow> B ! 0 = lev" "segs ins ?ts"
    "\<And>d. map (run_insn ins d) ?ts = map (\<lambda>out. out d) outs" "\<forall>i. a \<le> i \<longrightarrow> i < length ins \<longrightarrow> masked (ins ! i) \<and> in_offset (ins ! i) < 65536"
    using st by (auto simp: stage_def)
  have p: "closed ins' (length ins) (length ins')" "\<And>d. run_insn ins' d (length ins) = out d"
    "\<And>i. length ins \<le> i \<Longrightarrow> i < length ins' \<Longrightarrow> masked (ins' ! i) \<and> in_offset (ins' ! i) < 65536"
    using pt by (auto simp: part_def)
  have same: "i < length ins \<Longrightarrow> ins' ! i = ins ! i" for i using t by (metis nth_take)
  have ts: "map ((+) a) (positions lev (B @ lev # replicate k (- 1))) = ?ts @ [length ins]" using positions_append [OF lev] s(1) by simp
  have "segs ins' (?ts @ [length ins])" using segs_snoc [OF refl t _ p(1) s(4)] n by simp
  moreover have "map (run_insn ins' d) (?ts @ [length ins]) = map (\<lambda>out. out d) (outs @ [out])" for d
  proof -
    have "run_insn ins' d x = run_insn ins d x" if x: "x \<in> set ?ts" for x
    proof -
      obtain t0 ts0 where ts0: "?ts = t0 # ts0" using x by (cases ?ts) auto
      have c: "closed ins t0 (length ins)" "t0 \<le> x" "x < length ins" using segs_closed [of ins t0 ts0] s(4) x unfolding ts0 by (auto simp: less_imp_le)
      show ?thesis using segment_cong [OF c(1), of ins' x d] c(2,3) same n by simp
    qed
    then have "map (run_insn ins' d) ?ts = map (run_insn ins d) ?ts" by (intro map_cong refl) blast
    then show ?thesis unfolding map_append s(5) by (simp add: p(2))
  qed
  moreover have "masked (ins' ! i) \<and> in_offset (ins' ! i) < 65536" if "a \<le> i" "i < length ins'" for i
    using that p(3) s(6) same by (cases "i < length ins") auto
  moreover have "(B @ lev # replicate k (- 1)) ! 0 = lev" using s(3) by (cases B) auto
  ultimately show ?thesis using s(1,2) n ts unfolding stage_def by auto
qed

lemma stage_finish:
  assumes st: "stage lev ins a B outs" and ne: "B \<noteq> []" and sf: "s \<le> 0" "f \<le> 0" and c: "c = C_and \<or> c = C_or"
  defines "ins' \<equiv> redirect_all c s f (map ((+) a) (positions lev B)) ins"
  shows "part ins' a (\<lambda>d. chain c s f (map (\<lambda>out. out d) outs))" and "take a ins' = take a ins" and "length ins' = length ins"
proof -
  have "[0..<length B] = 0 # [1..<length B]" using ne by (simp add: upt_conv_Cons)
  moreover have "B ! 0 = lev" using st ne by (simp add: stage_def)
  ultimately obtain ts where ts: "map ((+) a) (positions lev B) = a # ts" by (auto simp: positions_def)
  have s: "segs ins (a # ts)" "\<And>d. map (run_insn ins d) (a # ts) = map (\<lambda>out. out d) outs"
    "\<forall>i. a \<le> i \<longrightarrow> i < length ins \<longrightarrow> masked (ins ! i) \<and> in_offset (ins ! i) < 65536"
    using st unfolding stage_def ts by auto
  note cp = conjunction_part [OF s(1) sf c s(3)]
  show "take a ins' = take a ins" "length ins' = length ins" using cp(2,3) unfolding ins'_def ts by auto
  show "part ins' a (\<lambda>d. chain c s f (map (\<lambda>out. out d) outs))" using cp(1) unfolding ins'_def ts s(2) .
qed

definition clause_out :: "nat \<Rightarrow> clause \<Rightarrow> byte list \<Rightarrow> int" where
  "clause_out align c d = (if clause_ok d align c then j_success else j_failure)"

definition pattern_out :: "nat \<Rightarrow> nat \<Rightarrow> clause list \<Rightarrow> byte list \<Rightarrow> int" where
  "pattern_out align slot cs d = (if list_all (clause_ok d align) cs then - int slot else j_failure)"

lemma build_clauses_ok:
  assumes "stage 2 (pr_insn p) (length A) B outs" "\<forall>a \<in> set A. a \<noteq> 3" "\<forall>c \<in> set cs. clause_wf (pr_align_offset p) c"
  shows "\<exists>B' p'. build_clauses cs (2 # A @ B, p) = Inr (2 # A @ B', p') \<and> pr_align_offset p' = pr_align_offset p \<and>
    take (length A) (pr_insn p') = take (length A) (pr_insn p) \<and> (cs \<noteq> [] \<longrightarrow> B' \<noteq> []) \<and>
    stage 2 (pr_insn p') (length A) B' (outs @ map (clause_out (pr_align_offset p)) cs)"
  using assms
proof (induction cs arbitrary: p B outs)
  case Nil
  then show ?case by auto
next
  case (Cons c cs)
  have len: "length (A @ B) = length (pr_insn p)" and B: "\<forall>b \<in> set (A @ B). b \<noteq> 3" using Cons.prems(1,2) by (auto simp: stage_def)
  obtain k p1 where p1: "build_clause c (2 # (A @ B), p) = Inr (2 # (A @ B) @ 2 # replicate k (- 1), p1)" "pr_align_offset p1 = pr_align_offset p"
      "length (pr_insn p1) = Suc (length (A @ B) + k)" "take (length (A @ B)) (pr_insn p1) = pr_insn p"
      "part (pr_insn p1) (length (A @ B)) (clause_out (pr_align_offset p) c)"
    using build_clause_ok [OF len B, of c] Cons.prems(3) unfolding clause_out_def by auto
  have "stage 2 (pr_insn p1) (length A) (B @ 2 # replicate k (- 1)) (outs @ [clause_out (pr_align_offset p) c])"
    using stage_step [OF Cons.prems(1)] p1(3-5) len by simp
  then obtain B' p' where r: "build_clauses cs (2 # A @ (B @ 2 # replicate k (- 1)), p1) = Inr (2 # A @ B', p')" "pr_align_offset p' = pr_align_offset p1"
      "take (length A) (pr_insn p') = take (length A) (pr_insn p1)" "cs \<noteq> [] \<longrightarrow> B' \<noteq> []"
      "stage 2 (pr_insn p') (length A) B' ((outs @ [clause_out (pr_align_offset p) c]) @ map (clause_out (pr_align_offset p1)) cs)"
    using Cons.IH [of p1 "B @ 2 # replicate k (- 1)" "outs @ [clause_out (pr_align_offset p) c]"] Cons.prems(2,3) p1(2) by auto
  have "take (length A) (pr_insn p1) = take (length A) (pr_insn p)" using arg_cong [OF p1(4), of "take (length A)"] by simp
  moreover have "B' \<noteq> []"
    using r(5) by (auto simp: stage_def positions_def)
  ultimately show ?case using p1(1,2) r by (intro exI [of _ B'] exI [of _ p']) simp
qed

lemma build_pattern_ok:
  assumes A: "length A = length (pr_insn p)" "\<forall>a \<in> set A. a = - 1 \<or> a = 1" and wf: "\<forall>c \<in> set cs. clause_wf (pr_align_offset p) c"
  shows "\<exists>k p'. build_pattern slot cs (1 # A, p) = Inr (1 # A @ 1 # replicate k (- 1), p') \<and> pr_align_offset p' = pr_align_offset p \<and>
    length (pr_insn p') = Suc (length A + k) \<and> take (length A) (pr_insn p') = pr_insn p \<and>
    part (pr_insn p') (length A) (pattern_out (pr_align_offset p) slot cs)"
proof -
  let ?al = "pr_align_offset p"
  have st0: "stage 2 (pr_insn p) (length A) [] []" using A(1) by (simp add: stage_def positions_def)
  have A3: "\<forall>a \<in> set A. a \<noteq> 3" "\<forall>a \<in> set A. a \<noteq> 2" using A(2) by auto
  obtain B p1 where p1: "build_clauses cs (2 # A, p) = Inr (2 # A @ B, p1)" "pr_align_offset p1 = ?al" "take (length A) (pr_insn p1) = pr_insn p"
      "cs \<noteq> [] \<longrightarrow> B \<noteq> []" "stage 2 (pr_insn p1) (length A) B (map (clause_out ?al) cs)"
    using build_clauses_ok [OF st0 A3(1) wf] A(1) by auto
  define tp2 where "tp2 = (if cs = [] then add_insn 0 0 0 (2 # A @ B, p1) else (2 # A @ B, p1))"
  obtain B2 p2 outs where p2: "tp2 = (2 # A @ B2, p2)" "pr_align_offset p2 = ?al" "take (length A) (pr_insn p2) = pr_insn p" "B2 \<noteq> []"
      "stage 2 (pr_insn p2) (length A) B2 outs" "\<And>d. chain C_and (- int slot) j_failure (map (\<lambda>out. out d) outs) = pattern_out ?al slot cs d"
  proof (cases "cs = []")
    case True
    then have B: "B = []" "p1 = p" using p1(1) by auto
    define e p2 where "e = new_insn 0 0 0" and "p2 = p\<lparr> pr_insn := pr_insn p @ [e], pr_output_everything := - 1 \<rparr>"
    have e: "plain_insn e" "\<And>d. insn_test d e" using new_insn_open [of 0] by (simp_all add: e_def)
    have "part (pr_insn p2) (length (pr_insn p)) (\<lambda>d. j_success)"
      using run_plain [of "length (pr_insn p)" "pr_insn p2"] e closed_plain [of "length (pr_insn p)" "Suc (length (pr_insn p))" "pr_insn p2"]
      by (auto simp: part_def p2_def nth_append plain_insn_def less_Suc_eq)
    then have st: "stage 2 (pr_insn p2) (length A) ([] @ 2 # replicate 0 (- 1)) ([] @ [\<lambda>d. j_success])"
      by (intro stage_step [OF st0]) (simp_all add: p2_def)
    have "tp2 = (2 # A @ [2], p2)" using True B by (simp add: tp2_def add_insn_def p2_def e_def)
    then show thesis
      using st A(1) by (intro that [of "[2]" p2 "[\<lambda>d. j_success]"]) (simp_all add: True p2_def pattern_out_def redirect_def)
  next
    case False
    have "chain C_and (- int slot) j_failure (map (\<lambda>out. out d) (map (clause_out ?al) cs)) = pattern_out ?al slot cs d" for d
    proof -
      let ?xs = "map (\<lambda>out. out d) (map (clause_out ?al) cs)"
      have "\<forall>x \<in> set ?xs. x = j_success \<or> x = j_failure" by (auto simp: clause_out_def)
      from chain_and [OF _ this] have "chain C_and (- int slot) j_failure ?xs = (if \<forall>x \<in> set ?xs. x = j_success then - int slot else j_failure)"
        using False by simp
      moreover have "(\<forall>x \<in> set ?xs. x = j_success) \<longleftrightarrow> list_all (clause_ok d ?al) cs"
        unfolding list_all_iff set_map ball_simps by (rule ball_cong) (simp_all add: clause_out_def)
      ultimately show ?thesis by (simp add: pattern_out_def)
    qed
    then show thesis using that [OF _ p1(2,3) _ p1(5)] p1(4) False by (simp add: tp2_def)
  qed
  have n2: "length (pr_insn p2) = length A + length B2" "\<forall>b \<in> set B2. b < 0 \<or> b = 2" "B2 ! 0 = 2"
    using p2(4,5) by (auto simp: stage_def)
  define p3 where "p3 = p2\<lparr> pr_insn := redirect_all C_and (- int slot) j_failure (map ((+) (length A)) (positions 2 B2)) (pr_insn p2) \<rparr>"
  have fin: "finish_subtree C_and (- int slot) j_failure (2 # A @ B2, p2) = (1 # A @ 1 # replicate (length B2 - 1) (- 1), p3)"
    using finish_subtree_tree [OF n2(1) A3(2) n2(2) p2(4) n2(3), of C_and "- int slot" j_failure] by (simp add: p3_def)
  have "part (pr_insn p3) (length A) (\<lambda>d. chain C_and (- int slot) j_failure (map (\<lambda>out. out d) outs))"
    "take (length A) (pr_insn p3) = take (length A) (pr_insn p2)" "length (pr_insn p3) = length (pr_insn p2)"
    using stage_finish [OF p2(5,4), of "- int slot" j_failure C_and] by (simp_all add: p3_def)
  moreover have "build_pattern slot cs (1 # A, p) = Inr (1 # A @ 1 # replicate (length B2 - 1) (- 1), p3)"
    using p1(1) p2(1) fin by (simp add: build_pattern_def start_def start_subtree_def tp2_def)
  moreover have "pattern_out ?al slot cs = (\<lambda>d. chain C_and (- int slot) j_failure (map (\<lambda>out. out d) outs))" using p2(6) by auto
  ultimately show ?thesis
    using p2(2-4) n2(1) by (intro exI [of _ "length B2 - 1"] exI [of _ p3]) (simp add: p3_def)
qed

fun pattern_outs :: "nat \<Rightarrow> nat \<Rightarrow> clause list list \<Rightarrow> (byte list \<Rightarrow> int) list" where
  "pattern_outs align slot [] = []"
| "pattern_outs align slot (cs # css) = pattern_out align slot cs # pattern_outs align (Suc slot) css"

lemma build_patterns_ok:
  assumes "stage 1 (pr_insn p) 0 B outs" "\<forall>cs \<in> set css. \<forall>c \<in> set cs. clause_wf (pr_align_offset p) c"
  shows "\<exists>B' p'. build_patterns slot css (1 # B, p) = Inr (1 # B', p') \<and> pr_align_offset p' = pr_align_offset p \<and>
    (css \<noteq> [] \<longrightarrow> B' \<noteq> []) \<and> stage 1 (pr_insn p') 0 B' (outs @ pattern_outs (pr_align_offset p) slot css)"
  using assms
proof (induction css arbitrary: slot p B outs)
  case Nil
  then show ?case by auto
next
  case (Cons cs css)
  have B: "length B = length (pr_insn p)" "\<forall>b \<in> set B. b = - 1 \<or> b = 1" using Cons.prems(1) by (auto simp: stage_def)
  obtain k p1 where p1: "build_pattern slot cs (1 # B, p) = Inr (1 # B @ 1 # replicate k (- 1), p1)" "pr_align_offset p1 = pr_align_offset p"
      "length (pr_insn p1) = Suc (length B + k)" "take (length B) (pr_insn p1) = pr_insn p"
      "part (pr_insn p1) (length B) (pattern_out (pr_align_offset p) slot cs)"
    using build_pattern_ok [OF B, of cs slot] Cons.prems(2) by auto
  have "stage 1 (pr_insn p1) 0 (B @ 1 # replicate k (- 1)) (outs @ [pattern_out (pr_align_offset p) slot cs])"
    using stage_step [OF Cons.prems(1)] p1(3-5) B(1) by simp
  then obtain B' p' where r: "build_patterns (Suc slot) css (1 # (B @ 1 # replicate k (- 1)), p1) = Inr (1 # B', p')"
      "pr_align_offset p' = pr_align_offset p1"
      "stage 1 (pr_insn p') 0 B' ((outs @ [pattern_out (pr_align_offset p) slot cs]) @ pattern_outs (pr_align_offset p1) (Suc slot) css)"
    using Cons.IH [of p1 "B @ 1 # replicate k (- 1)" "outs @ [pattern_out (pr_align_offset p) slot cs]" "Suc slot"] Cons.prems(2) p1(2) by auto
  have "B' \<noteq> []" using r(3) by (auto simp: stage_def positions_def)
  then show ?case using p1(1,2) r by (intro exI [of _ B'] exI [of _ p']) simp
qed

lemma chain_or:
  "css \<noteq> [] \<Longrightarrow> slot + length css < 2147483645 \<Longrightarrow>
    chain C_or j_never j_never (map (\<lambda>out. out d) (pattern_outs align slot css)) =
    (case first_match d align css of Some i \<Rightarrow> - int (slot + i) | None \<Rightarrow> j_never)"
proof (induction css arbitrary: slot)
  case (Cons cs css)
  show ?case
  proof (cases css)
    case Nil
    then show ?thesis using Cons.prems by (auto simp: pattern_out_def redirect_def)
  next
    case (Cons cs' css')
    then have "chain C_or j_never j_never (map (\<lambda>out. out d) (pattern_outs align slot (cs # css))) =
        (if list_all (clause_ok d align) cs then - int slot else chain C_or j_never j_never (map (\<lambda>out. out d) (pattern_outs align (Suc slot) css)))"
      using Cons.prems by (auto simp: pattern_out_def)
    then show ?thesis using Cons.IH [of "Suc slot"] Cons.prems Cons by (auto split: option.splits)
  qed
qed simp

text \<open>The program built from patterns decides which of them matches first.\<close>

definition program_sound :: "nat \<Rightarrow> clause list list \<Rightarrow> insn list \<Rightarrow> bool" where
  "program_sound align css ins \<longleftrightarrow> ins \<noteq> [] \<and> program_wf ins \<and> (\<forall>e \<in> set ins. in_offset e < 65536) \<and>
     (\<forall>d. run_insn ins d 0 = (case first_match d align css of Some i \<Rightarrow> - int i | None \<Rightarrow> j_never))"

lemma build_program_sound:
  assumes ne: "css \<noteq> []" "length css < 2147483645" and wf: "\<forall>cs \<in> set css. \<forall>c \<in> set cs. clause_wf align c"
  shows "\<exists>p. build_program align css = Inr p \<and> pr_align_offset p = align \<and> program_sound align css (pr_insn p)"
proof -
  have st0: "stage 1 (pr_insn (new_program align)) 0 [] []" by (simp add: stage_def positions_def new_program_def)
  have al: "pr_align_offset (new_program align) = align" by (simp add: new_program_def)
  obtain B p1 where p1: "build_patterns 0 css (1 # [], new_program align) = Inr (1 # B, p1)" "pr_align_offset p1 = align" "B \<noteq> []"
      "stage 1 (pr_insn p1) 0 B (pattern_outs align 0 css)"
    using build_patterns_ok [OF st0, of css 0] wf ne(1) by (auto simp: al)
  have z: "map ((+) 0) xs = xs" for xs :: "nat list" by (induction xs) simp_all
  define p2 where "p2 = p1\<lparr> pr_insn := redirect_all C_or j_never j_never (positions 1 B) (pr_insn p1) \<rparr>"
  have "finish_subtree C_or j_never j_never (1 # [] @ B, p1) = (0 # [] @ 0 # replicate (length B - 1) (- 1), p2)"
  proof -
    have "length (pr_insn p1) = length [] + length B" "\<forall>b \<in> set B. b < 0 \<or> b = 1" "B ! 0 = 1" using p1(3,4) by (auto simp: stage_def)
    from finish_subtree_tree [OF this(1) _ this(2) p1(3) this(3), of C_or j_never j_never] show ?thesis by (simp add: p2_def)
  qed
  then have bp: "build_program align css = Inr p2"
    using p1(1) by (simp add: build_program_def start_def start_subtree_def init_subtree_def)
  have pt: "part (pr_insn p2) 0 (\<lambda>d. chain C_or j_never j_never (map (\<lambda>out. out d) (pattern_outs align 0 css)))"
    using stage_finish [OF p1(4,3), of j_never j_never C_or] unfolding z by (simp add: p2_def)
  have "forward (pr_insn p2)" using pt by (intro forwardI) (auto simp: part_def closed_def jump_ok_def Let_def)
  then have "program_sound align css (pr_insn p2)"
    using pt chain_or [OF ne(1), of 0, unfolded add_0, OF ne(2)] by (auto simp: program_sound_def part_def program_wf_def in_set_conv_nth)
  then show ?thesis using bp p1(2) by (simp add: p2_def)
qed

section \<open>What the parser guarantees\<close>

text \<open>A parsed clause has bytes, a natural offset and values inside their masks; only the size of the offset is left to the configuration.\<close>

definition clause_fits :: "nat \<Rightarrow> clause \<Rightarrow> bool" where
  "clause_fits align c \<longleftrightarrow> cl_offset c + int align + int (length (cl_bytes c)) \<le> 65536"

definition clause_parsed :: "clause \<Rightarrow> bool" where
  "clause_parsed c \<longleftrightarrow> cl_bytes c \<noteq> [] \<and> cl_offset c \<ge> 0 \<and> (\<forall>(v, m) \<in> set (cl_bytes c). v AND m = v)"

lemma clause_wf_parsed: "clause_wf align c \<longleftrightarrow> clause_parsed c \<and> clause_fits align c"
  by (auto simp: clause_wf_def clause_parsed_def clause_fits_def)

lemma length_hex_bytes: "length (hex_bytes cs) = length cs div 2"
  by (induction cs rule: hex_bytes.induct) simp_all

lemma clause_bytes_masked: "(v, m) \<in> set (clause_bytes vs ms) \<Longrightarrow> v AND m = v"
  by (auto simp: clause_bytes_def value_mask_def Let_def and.assoc split: option.splits)

lemma decimal_nonneg: "\<forall>c \<in> set ds. isdigit c \<Longrightarrow> decimal ds \<ge> 0"
proof -
  have "\<forall>c \<in> set ds. isdigit c \<Longrightarrow> n \<ge> 0 \<Longrightarrow> foldl (\<lambda>n c. n * 10 + (of_char c - 48)) n ds \<ge> (0 :: int)" for n
  proof (induction ds arbitrary: n)
    case (Cons c ds)
    have "(48 :: nat) \<le> of_char c" using Cons.prems(1) by (auto simp: isdigit_def)
    then have "(48 :: int) \<le> of_char c" by (metis of_nat_le_iff of_nat_numeral of_nat_of_char)
    then show ?case using Cons by simp
  qed simp
  then show "\<forall>c \<in> set ds. isdigit c \<Longrightarrow> decimal ds \<ge> 0" by (simp add: decimal_def)
qed

lemma parse_value_parsed: "parse_value neg off s = Inr (c, s') \<Longrightarrow> off \<ge> 0 \<Longrightarrow> clause_parsed c"
proof -
  assume p: "parse_value neg off s = Inr (c, s')" and off: "off \<ge> 0"
  obtain vs ms where c: "c = \<lparr> cl_negated = neg, cl_offset = off, cl_bytes = clause_bytes vs ms \<rparr>" "length vs \<ge> 2"
      "ms \<noteq> None \<longrightarrow> length (the ms) = length vs"
    using p by (auto simp: parse_value_def Let_def split: if_splits)
  have "length (clause_bytes vs ms) = length vs div 2"
    using c(3) by (auto simp: clause_bytes_def length_hex_bytes split: option.splits)
  then have "clause_bytes vs ms \<noteq> []" using c(2) by auto
  then show ?thesis using c(1) off clause_bytes_masked by (auto simp: clause_parsed_def)
qed

lemma parse_clause_parsed: "parse_clause s = Inr (c, s') \<Longrightarrow> clause_parsed c"
proof -
  assume p: "parse_clause s = Inr (c, s')"
  obtain neg s1 s2 where "parse_value neg (decimal (takeWhile isdigit s1)) s2 = Inr (c, s')"
    using p by (auto simp: parse_clause_def Let_def split: if_splits)
  moreover have "decimal (takeWhile isdigit s1) \<ge> 0" by (rule decimal_nonneg) (auto dest: set_takeWhileD)
  ultimately show ?thesis by (rule parse_value_parsed)
qed

lemma parse_clauses_parsed: "parse_clauses s = Inr cs \<Longrightarrow> c \<in> set cs \<Longrightarrow> clause_parsed c"
proof (induction s arbitrary: cs rule: parse_clauses.induct)
  case (1 s)
  show ?case
  proof (cases "dropWhile isspace s = []")
    case True
    then show ?thesis using 1(2,3) by (simp add: parse_clauses.simps)
  next
    case False
    then obtain c0 s' cs' where c0: "parse_clause (dropWhile isspace s) = Inr (c0, s')" "parse_clauses s' = Inr cs'" "cs = c0 # cs'"
      using 1(2) by (auto simp: parse_clauses.simps [of s] split: sum.splits if_splits)
    then show ?thesis using 1(1) [OF False c0(1), of cs'] 1(3) parse_clause_parsed by auto
  qed
qed

lemma parse_patterns_parsed: "parse_patterns conf = Inr css \<Longrightarrow> \<forall>cs \<in> set css. \<forall>c \<in> set cs. clause_parsed c"
proof (induction conf arbitrary: css)
  case (Cons s conf)
  then show ?case using parse_clauses_parsed
    by (auto simp: parse_pattern_def split: sum.splits if_splits)
qed simp

lemma parse_patterns_length: "parse_patterns conf = Inr css \<Longrightarrow> length css = length conf"
  by (induction conf arbitrary: css) (auto split: sum.splits)

section \<open>The program of a configuration\<close>

text \<open>
  C19. What \<open>parse_program\<close> builds from patterns is right before it is optimised: it builds a program for every configuration whose offsets fit in 16 bits, and
  the meaning of the program on any packet, short ones included, is the output of the first pattern all of whose clauses match byte by byte, or to drop the packet when there is none.
\<close>

theorem classifier_program_correct:
  assumes "parse_patterns conf = Inr css" "conf \<noteq> []" "length conf < 2147483645" "\<forall>cs \<in> set css. \<forall>c \<in> set cs. clause_fits align c"
  shows "\<exists>p. build_program align css = Inr p \<and> program_wf (pr_insn p) \<and>
    (\<forall>d. run_insn (pr_insn p) d 0 = (case first_match d align css of Some i \<Rightarrow> - int i | None \<Rightarrow> j_never))"
proof -
  have "css \<noteq> []" "length css < 2147483645" using parse_patterns_length [OF assms(1)] assms(2,3) by auto
  moreover have "\<forall>cs \<in> set css. \<forall>c \<in> set cs. clause_wf align c"
    using parse_patterns_parsed [OF assms(1)] assms(4) by (auto simp: clause_wf_parsed)
  ultimately show ?thesis using build_program_sound [of css align] by (auto simp: program_sound_def)
qed

lemma ex_patterns_parse: "parse_patterns [''2/0F%0F !0/00'', ''-''] =
  Inr [[\<lparr> cl_negated = False, cl_offset = 2, cl_bytes = [(15, 15)] \<rparr>, \<lparr> cl_negated = True, cl_offset = 0, cl_bytes = [(0, 255)] \<rparr>], []]"
  by code_simp

theorem classifier_program_correct_witness:
  "\<exists>css p. parse_patterns [''2/0F%0F !0/00'', ''-''] = Inr css \<and> build_program 1 css = Inr p \<and>
     run_insn (pr_insn p) [0, 7, 1, 0xFF] 0 = 0 \<and> run_insn (pr_insn p) [0, 0, 1, 0xFF] 0 = - 1 \<and> run_insn (pr_insn p) [0, 7] 0 = - 1"
proof -
  define css :: "clause list list" where
    "css = [[\<lparr> cl_negated = False, cl_offset = 2, cl_bytes = [(15, 15)] \<rparr>, \<lparr> cl_negated = True, cl_offset = 0, cl_bytes = [(0, 255)] \<rparr>], []]"
  have m: "first_match [0, 7, 1, 0xFF] 1 css = Some 0" "first_match [0, 0, 1, 0xFF] 1 css = Some 1" "first_match [0, 7] 1 css = Some 1"
    by (simp_all add: css_def clause_ok_def byte_ok_def)
  have "\<forall>cs \<in> set css. \<forall>c \<in> set cs. clause_fits 1 c" by (simp add: css_def clause_fits_def)
  then obtain p where "build_program 1 css = Inr p" "\<And>d. run_insn (pr_insn p) d 0 = (case first_match d 1 css of Some i \<Rightarrow> - int i | None \<Rightarrow> j_never)"
    using classifier_program_correct [OF ex_patterns_parse, of 1] by (auto simp: css_def)
  then show ?thesis using ex_patterns_parse m by (intro exI [of _ css] exI [of _ p]) (simp add: css_def)
qed

end
