(* ===== verification/Click_ARPTable.thy ===== *)
theory Click_ARPTable
  imports Click_IPElements Click_HashTable
begin

text \<open>
  \<^verbatim>\<open>ARPTable\<close> (\<^verbatim>\<open>click/elements/ethernet/arptable.cc\<close>, \<^verbatim>\<open>arptable.hh\<close>), the table from IP to Ethernet addresses with
  the packets that wait for an address. The entries are in a hash container and, oldest first, in a list by age. An entry is identified by its IP address, which is its key in the container; the
  list \<^verbatim>\<open>_age\<close> is the list of these keys, and a member of it whose entry is gone would be a pointer to freed memory.
  Times are \<^verbatim>\<open>click_jiffies_t\<close>, 32-bit milliseconds that wrap around, and are compared by their signed difference. The current
  time is an argument, and so is whether the allocator for entries has memory. Entries and packets are counted by natural numbers:
  they are objects in memory, and the invariant shows that no counter is decremented below zero.
  Locks have no model, as there is one thread.
\<close>

section \<open>Entries\<close>

abbreviation CLICK_HZ :: u32 where "CLICK_HZ \<equiv> 1000"

definition jiffies_less :: "u32 \<Rightarrow> u32 \<Rightarrow> bool" where
  "jiffies_less a b \<longleftrightarrow> sint (a - b) < 0"

definition make_broadcast :: ethaddr where
  "make_broadcast = replicate 6 0xFF"

definition is_broadcast :: "ethaddr \<Rightarrow> bool" where
  "is_broadcast eth \<longleftrightarrow> eth = make_broadcast"

definition is_group :: "ethaddr \<Rightarrow> bool" where
  "is_group eth \<longleftrightarrow> (eth ! 0) AND 1 \<noteq> 0"

record ARPEntry =
  ae_eth :: ethaddr
  ae_known :: bool
  ae_live_at_j :: u32
  ae_polled_at_j :: u32
  ae_packets :: "packet list"

definition ae_expired :: "u32 \<Rightarrow> u32 \<Rightarrow> ARPEntry \<Rightarrow> bool" where
  "ae_expired now timeout_j ae \<longleftrightarrow> jiffies_less (ae_live_at_j ae + timeout_j) now \<and> timeout_j \<noteq> 0"

definition ae_usable :: "u32 \<Rightarrow> u32 \<Rightarrow> ARPEntry \<Rightarrow> bool" where
  "ae_usable now timeout_j ae \<longleftrightarrow> ae_known ae \<and> \<not> ae_expired now timeout_j ae"

definition new_entry :: "u32 \<Rightarrow> ARPEntry" where
  "new_entry now = \<lparr> ae_eth = make_broadcast, ae_known = False, ae_live_at_j = now,
     ae_polled_at_j = now - CLICK_HZ, ae_packets = [] \<rparr>"

section \<open>The table\<close>

record arp_table =
  at_table :: "(ipaddr, ARPEntry) hashtable"
  at_age :: "ipaddr list"
  at_entry_count :: nat
  at_packet_count :: nat
  at_entry_capacity :: nat
  at_packet_capacity :: nat
  at_timeout_j :: u32
  at_drops :: nat

definition arp_new :: arp_table where
  "arp_new = \<lparr> at_table = ht_empty, at_age = [], at_entry_count = 0, at_packet_count = 0,
     at_entry_capacity = 0, at_packet_capacity = 2048, at_timeout_j = 0, at_drops = 0 \<rparr>"

text \<open>A timestamp is given by its seconds and milliseconds.\<close>

definition set_timeout :: "u32 \<Rightarrow> u32 \<Rightarrow> arp_table \<Rightarrow> arp_table" where
  "set_timeout sec ms t = t\<lparr> at_timeout_j := (if sec \<ge> 0xFFFFFFFF div CLICK_HZ then 0 else sec * CLICK_HZ + ms) \<rparr>"

text \<open>
  \<open>configure\<close> after the argument parser, with the values it read if they were given. The result has the delay in seconds after which
  the expiry timer fires, if it is scheduled.
\<close>

definition arp_configure ::
  "nat option \<Rightarrow> nat option \<Rightarrow> (u32 \<times> u32) option \<Rightarrow> arp_table \<Rightarrow> arp_table \<times> u32 option" where
  "arp_configure cap entry_cap timeout t =
     (let t = t\<lparr> at_packet_capacity := (case cap of None \<Rightarrow> at_packet_capacity t | Some c \<Rightarrow> c),
                 at_entry_capacity := (case entry_cap of None \<Rightarrow> at_entry_capacity t | Some c \<Rightarrow> c) \<rparr>;
          t = (case timeout of None \<Rightarrow> set_timeout 300 0 t | Some (sec, ms) \<Rightarrow> set_timeout sec ms t)
      in (t, if at_timeout_j t \<noteq> 0 then Some (at_timeout_j t div CLICK_HZ) else None))"

definition at_get :: "arp_table \<Rightarrow> ipaddr \<Rightarrow> ARPEntry option" where
  "at_get t ip = ht_find ip_hashcode (at_table t) ip"

text \<open>An assignment to members of an entry, through a pointer to it.\<close>

definition at_update :: "ipaddr \<Rightarrow> ARPEntry \<Rightarrow> arp_table \<Rightarrow> arp_table" where
  "at_update ip ae t = t\<lparr> at_table := snd (ht_set ip_hashcode ip ae (at_table t)) \<rparr>"

text \<open>\<open>clear\<close>: every entry is erased in the order of the iteration, and the packets waiting in it are dropped.\<close>

definition arp_clear :: "arp_table \<Rightarrow> arp_table" where
  "arp_clear t =
     (let h = fst (ht_begin (at_table t)); es = ht_entries (at_table t)
      in t\<lparr> at_table := fold (ht_erase ip_hashcode) (map fst es) h,
            at_drops := at_drops t + sum_list (map (\<lambda>(_, ae). length (ae_packets ae)) es),
            at_entry_count := 0, at_packet_count := 0, at_age := [] \<rparr>)"

text \<open>\<open>take_state\<close> from another table: the pair of the new states of the two.\<close>

definition arp_take_state :: "arp_table \<Rightarrow> arp_table \<Rightarrow> arp_table \<times> arp_table" where
  "arp_take_state t u =
     (if ht_size (at_table t) > 0 then (t, u)
      else (t\<lparr> at_table := at_table u, at_age := at_age u, at_entry_count := at_entry_count u,
               at_packet_count := at_packet_count u, at_drops := at_drops u \<rparr>,
            u\<lparr> at_table := at_table t, at_age := at_age t, at_entry_count := 0, at_packet_count := 0 \<rparr>))"

section \<open>Making room\<close>

text \<open>The first loop of \<open>slim\<close>: delete entries from the front of the age list while they are expired or there are too many.\<close>

fun slim_entries :: "u32 \<Rightarrow> ipaddr list \<Rightarrow> arp_table \<Rightarrow> arp_table exec" where
  "slim_entries now [] t = Inr t"
| "slim_entries now (ip # age) t =
     (case at_get t ip of
        None \<Rightarrow> Inl Use_after_free
      | Some ae \<Rightarrow>
          if ae_expired now (at_timeout_j t) ae \<or> at_entry_capacity t \<noteq> 0 \<and> at_entry_count t > at_entry_capacity t
          then slim_entries now age
                 (t\<lparr> at_table := ht_erase ip_hashcode ip (at_table t), at_age := age,
                     at_packet_count := at_packet_count t - length (ae_packets ae),
                     at_drops := at_drops t + length (ae_packets ae), at_entry_count := at_entry_count t - 1 \<rparr>)
          else Inr t)"

text \<open>The inner loop of the second: drop the oldest packets of an entry while there are more than \<open>cap\<close> in all.\<close>

fun drop_oldest :: "nat \<Rightarrow> nat \<Rightarrow> packet list \<Rightarrow> nat \<times> packet list" where
  "drop_oldest cap n [] = (n, [])"
| "drop_oldest cap n (p # ps) = (if n > cap then drop_oldest cap (n - 1) ps else (n, p # ps))"

fun slim_packets :: "ipaddr list \<Rightarrow> arp_table \<Rightarrow> arp_table exec" where
  "slim_packets ks t =
     (if at_packet_capacity t \<noteq> 0 \<and> at_packet_count t > at_packet_capacity t
      then (case ks of
              [] \<Rightarrow> Inl Null_deref
            | ip # ks \<Rightarrow>
                (case at_get t ip of
                   None \<Rightarrow> Inl Use_after_free
                 | Some ae \<Rightarrow>
                     (let (n, ps) = drop_oldest (at_packet_capacity t) (at_packet_count t) (ae_packets ae)
                      in slim_packets ks
                           ((at_update ip (ae\<lparr> ae_packets := ps \<rparr>) t)\<lparr> at_packet_count := n,
                              at_drops := at_drops t + (at_packet_count t - n) \<rparr>))))
      else Inr t)"

declare slim_packets.simps [simp del]

definition slim :: "u32 \<Rightarrow> arp_table \<Rightarrow> arp_table exec" where
  "slim now t = ebind (slim_entries now (at_age t) t) (\<lambda>t. slim_packets (at_age t) t)"

text \<open>\<open>run_timer\<close>, with the delay in seconds after which the timer fires again.\<close>

definition arp_run_timer :: "u32 \<Rightarrow> arp_table \<Rightarrow> (arp_table \<times> u32 option) exec" where
  "arp_run_timer now t =
     ebind (slim now t) (\<lambda>t. Inr (t, if at_timeout_j t \<noteq> 0 then Some (at_timeout_j t div CLICK_HZ + 1) else None))"

section \<open>Lookup and insertion\<close>

text \<open>
  \<open>ensure\<close>: the flag says whether there is an entry now. The iterator of the failed lookup stays valid while \<open>slim\<close>
  erases other entries, as it points at the head of the bucket.
\<close>

definition ensure :: "bool \<Rightarrow> u32 \<Rightarrow> ipaddr \<Rightarrow> arp_table \<Rightarrow> (bool \<times> arp_table) exec" where
  "ensure room now ip t =
     (case at_get t ip of
        Some _ \<Rightarrow> Inr (True, t)
      | None \<Rightarrow>
          if \<not> room then Inr (False, t)
          else (let t = t\<lparr> at_entry_count := at_entry_count t + 1 \<rparr> in
                ebind (if at_entry_capacity t \<noteq> 0 \<and> at_entry_count t > at_entry_capacity t then slim now t else Inr t) (\<lambda>t.
                Inr (True, t\<lparr> at_table := ht_link ip_hashcode ip (new_entry now) (at_table t),
                              at_age := at_age t @ [ip] \<rparr>))))"

text \<open>\<^verbatim>\<open>if (ae->_age_link.next()) { _age.erase(ae); _age.push_back(ae); }\<close>\<close>

definition move_to_back :: "ipaddr \<Rightarrow> ipaddr list \<Rightarrow> ipaddr list" where
  "move_to_back ip age = (if last age = ip then age else remove1 ip age @ [ip])"

text \<open>
  \<open>insert\<close>: \<open>False\<close> is the result \<^verbatim>\<open>-ENOMEM\<close>. With \<open>drain\<close> the packets that waited are handed out through \<^verbatim>\<open>*head\<close>, which
  stays unset, \<open>None\<close>, on failure.
\<close>

definition arp_insert ::
  "bool \<Rightarrow> u32 \<Rightarrow> ipaddr \<Rightarrow> ethaddr \<Rightarrow> bool \<Rightarrow> arp_table \<Rightarrow> (bool \<times> packet list option \<times> arp_table) exec" where
  "arp_insert room now ip eth drain t =
     ebind (ensure room now ip t) (\<lambda>(ok, t).
       if \<not> ok then Inr (False, None, t)
       else (case at_get t ip of
          None \<Rightarrow> Inl Use_after_free
        | Some ae \<Rightarrow>
            (let ae' = ae\<lparr> ae_eth := eth, ae_known := \<not> is_broadcast eth, ae_live_at_j := now,
                           ae_polled_at_j := now - CLICK_HZ,
                           ae_packets := (if drain then [] else ae_packets ae) \<rparr>;
                 t = (at_update ip ae' t)\<lparr> at_age := move_to_back ip (at_age t),
                        at_packet_count := at_packet_count t - (if drain then length (ae_packets ae) else 0) \<rparr>
             in Inr (True, if drain then Some (ae_packets ae) else None,
                     t\<lparr> at_table := ht_balance ip_hashcode (at_table t) \<rparr>))))"

text \<open>Moving an entry forward over the younger part of the age list while the elements there are older.\<close>

definition move_forward :: "(ipaddr \<Rightarrow> bool) \<Rightarrow> ipaddr \<Rightarrow> ipaddr list \<Rightarrow> ipaddr list" where
  "move_forward older ip age =
     (let pre = takeWhile (\<lambda>k. k \<noteq> ip) age; post = drop (Suc (length pre)) age
      in pre @ takeWhile older post @ [ip] @ dropWhile older post)"

text \<open>
  The part of \<open>append_query\<close> that keeps the entry from expiring: an entry that is about to expire becomes live again just far
  enough and moves to its place in the age list.
\<close>

definition keep_live :: "u32 \<Rightarrow> ipaddr \<Rightarrow> ARPEntry \<Rightarrow> arp_table \<Rightarrow> arp_table" where
  "keep_live now ip ae t =
     (let live_min = now - at_timeout_j t in
      if at_timeout_j t \<noteq> 0 \<and> jiffies_less (ae_live_at_j ae) live_min
      then (at_update ip (ae\<lparr> ae_live_at_j := live_min \<rparr>) t)\<lparr> at_age := move_forward
             (\<lambda>k. case at_get t k of None \<Rightarrow> False | Some e \<Rightarrow> jiffies_less (ae_live_at_j e) live_min) ip (at_age t) \<rparr>
      else t)"

text \<open>The packet that is about to be stored is counted first; \<open>slim\<close> makes room when there are too many.\<close>

definition count_packet :: "u32 \<Rightarrow> arp_table \<Rightarrow> arp_table exec" where
  "count_packet now t =
     (let t = t\<lparr> at_packet_count := at_packet_count t + 1 \<rparr>
      in if at_packet_capacity t \<noteq> 0 \<and> at_packet_count t > at_packet_capacity t then slim now t else Inr t)"

datatype appended = No_memory | Again | Stored bool

text \<open>\<open>append_query\<close>: \<^verbatim>\<open>-ENOMEM\<close>, \<^verbatim>\<open>-EAGAIN\<close>, or the packet is stored, with the flag that a query is due.\<close>

definition append_query :: "bool \<Rightarrow> u32 \<Rightarrow> ipaddr \<Rightarrow> packet \<Rightarrow> arp_table \<Rightarrow> (appended \<times> arp_table) exec" where
  "append_query room now ip p t =
     ebind (ensure room now ip t) (\<lambda>(ok, t).
       if \<not> ok then Inr (No_memory, t)
       else (case at_get t ip of
          None \<Rightarrow> Inl Use_after_free
        | Some ae \<Rightarrow>
            if ae_usable now (at_timeout_j t) ae then Inr (Again, t)
            else ebind (count_packet now (keep_live now ip ae t)) (\<lambda>t.
              case at_get t ip of
                None \<Rightarrow> Inl Use_after_free
              | Some ae \<Rightarrow>
                  (let due = \<not> jiffies_less now (ae_polled_at_j ae + CLICK_HZ div 10);
                       ae' = ae\<lparr> ae_packets := ae_packets ae @ [p],
                                 ae_polled_at_j := (if due then now else ae_polled_at_j ae) \<rparr>;
                       t = at_update ip ae' t
                   in Inr (Stored due, t\<lparr> at_table := ht_balance ip_hashcode (at_table t) \<rparr>)))))"

text \<open>
  \<open>lookup(ip, eth, poll_timeout)\<close>: \<open>None\<close> is the result \<^verbatim>\<open>-1\<close>; otherwise the address and the flag that a poll is due.
\<close>

definition arp_lookup :: "u32 \<Rightarrow> ipaddr \<Rightarrow> u32 \<Rightarrow> arp_table \<Rightarrow> (ethaddr \<times> bool) option \<times> arp_table" where
  "arp_lookup now ip poll_timeout_j t =
     (case at_get t ip of
        None \<Rightarrow> (None, t)
      | Some ae \<Rightarrow>
          if ae_usable now (at_timeout_j t) ae
          then (let poll = poll_timeout_j \<noteq> 0 \<and> \<not> jiffies_less now (ae_live_at_j ae + poll_timeout_j) \<and>
                           \<not> jiffies_less now (ae_polled_at_j ae + CLICK_HZ div 10)
                in (Some (ae_eth ae, poll), if poll then at_update ip (ae\<lparr> ae_polled_at_j := now \<rparr>) t else t))
          else (None, t))"

definition arp_lookup_eth :: "u32 \<Rightarrow> ipaddr \<Rightarrow> arp_table \<Rightarrow> ethaddr \<times> arp_table" where
  "arp_lookup_eth now ip t =
     (case arp_lookup now ip 0 t of (Some (eth, _), t) \<Rightarrow> (eth, t) | (None, t) \<Rightarrow> (make_broadcast, t))"

definition reverse_lookup :: "ethaddr \<Rightarrow> arp_table \<Rightarrow> ipaddr \<times> arp_table" where
  "reverse_lookup eth t =
     (case find (\<lambda>(_, ae). ae_eth ae = eth) (ht_entries (at_table t)) of None \<Rightarrow> 0 | Some (ip, _) \<Rightarrow> ip,
      t\<lparr> at_table := fst (ht_begin (at_table t)) \<rparr>)"

text \<open>The write handlers \<open>insert\<close>, \<open>delete\<close> and \<open>clear\<close>, with the parsed arguments.\<close>

datatype arp_command = H_insert ipaddr ethaddr | H_delete ipaddr | H_clear

fun arp_write_handler :: "bool \<Rightarrow> u32 \<Rightarrow> arp_command \<Rightarrow> arp_table \<Rightarrow> arp_table exec" where
  "arp_write_handler room now (H_insert ip eth) t = ebind (arp_insert room now ip eth False t) (\<lambda>(_, _, t). Inr t)"
| "arp_write_handler room now (H_delete ip) t = ebind (arp_insert room now ip make_broadcast False t) (\<lambda>(_, _, t). Inr t)"
| "arp_write_handler room now H_clear t = Inr (arp_clear t)"

section \<open>The invariant\<close>

text \<open>
  The age list has every entry once, \<open>j\<close> packets are counted beyond those that wait and \<open>k\<close> entries beyond those in the
  table: \<open>slim\<close> runs while an operation has counted what it is about to add. A known address is not the broadcast address.
\<close>

definition load :: "(ipaddr \<Rightarrow> ARPEntry option) \<Rightarrow> ipaddr list \<Rightarrow> nat" where
  "load m age = sum_list (map (\<lambda>ip. case m ip of None \<Rightarrow> 0 | Some ae \<Rightarrow> length (ae_packets ae)) age)"

definition arp_wf :: "nat \<Rightarrow> nat \<Rightarrow> arp_table \<Rightarrow> bool" where
  "arp_wf j k t \<longleftrightarrow> ht_inv ip_hashcode (at_table t) \<and> distinct (at_age t) \<and> set (at_age t) = dom (at_get t) \<and>
     at_entry_count t = length (at_age t) + k \<and> at_packet_count t = load (at_get t) (at_age t) + j \<and>
     (\<forall>ip ae. at_get t ip = Some ae \<longrightarrow> ae_known ae \<longrightarrow> \<not> is_broadcast (ae_eth ae))"

definition arp_inv :: "arp_table \<Rightarrow> bool" where
  "arp_inv t \<longleftrightarrow> arp_wf 0 0 t \<and>
     (at_entry_capacity t \<noteq> 0 \<longrightarrow> at_entry_count t \<le> at_entry_capacity t) \<and>
     (at_packet_capacity t \<noteq> 0 \<longrightarrow> at_packet_count t \<le> at_packet_capacity t)"

lemma load_simps [simp]:
  "load m [] = 0"
  "load m (ip # age) = (case m ip of None \<Rightarrow> 0 | Some ae \<Rightarrow> length (ae_packets ae)) + load m age"
  "load m (age @ age') = load m age + load m age'"
  by (simp_all add: load_def)

lemma load_cong: "(\<And>ip. ip \<in> set age \<Longrightarrow> m ip = m' ip) \<Longrightarrow> load m age = load m' age"
  unfolding load_def by (rule arg_cong [of _ _ sum_list]) simp

lemma load_other [simp]: "ip \<notin> set age \<Longrightarrow> load (m(ip := x)) age = load m age"
  by (rule load_cong) auto

lemma load_restrict [simp]: "set age \<subseteq> S \<Longrightarrow> load (m |` S) age = load m age"
  by (rule load_cong) auto

lemma load_update:
  "distinct age \<Longrightarrow> ip \<in> set age \<Longrightarrow> m ip = Some ae \<Longrightarrow>
     load (m(ip \<mapsto> ae')) age + length (ae_packets ae) = load m age + length (ae_packets ae')"
  by (induction age) auto

lemma load_perm: "mset age = mset age' \<Longrightarrow> load m age = load m age'"
proof -
  assume "mset age = mset age'"
  then have "mset (map f age) = mset (map f age')" for f :: "ipaddr \<Rightarrow> nat" by (metis mset_map)
  then show ?thesis unfolding load_def by (metis sum_mset_sum_list)
qed

lemma at_get_update:
  "ht_inv ip_hashcode (at_table t) \<Longrightarrow> at_get (at_update ip ae t) = (at_get t)(ip \<mapsto> ae)"
  by (simp add: at_get_def [abs_def] at_update_def ht.lookup_put)

lemma at_update_simps [simp]:
  "at_age (at_update ip ae t) = at_age t" "at_entry_count (at_update ip ae t) = at_entry_count t"
  "at_packet_count (at_update ip ae t) = at_packet_count t" "at_timeout_j (at_update ip ae t) = at_timeout_j t"
  "at_entry_capacity (at_update ip ae t) = at_entry_capacity t"
  "at_packet_capacity (at_update ip ae t) = at_packet_capacity t" "at_drops (at_update ip ae t) = at_drops t"
  by (simp_all add: at_update_def)

lemma at_get_simps [simp]:
  "at_get (t\<lparr> at_age := a \<rparr>) = at_get t" "at_get (t\<lparr> at_entry_count := n \<rparr>) = at_get t"
  "at_get (t\<lparr> at_packet_count := n \<rparr>) = at_get t" "at_get (t\<lparr> at_drops := n \<rparr>) = at_get t"
  by (simp_all add: at_get_def [abs_def])

text \<open>Changing an entry's members, its packets among them, and reordering the age list.\<close>

lemma arp_wf_update:
  assumes "arp_wf j k t" and "at_get t ip = Some ae" and "ae_known ae' \<Longrightarrow> \<not> is_broadcast (ae_eth ae')"
    and "n + length (ae_packets ae) = at_packet_count t + length (ae_packets ae')" and "mset age = mset (at_age t)"
  shows "arp_wf j k ((at_update ip ae' t)\<lparr> at_age := age, at_packet_count := n \<rparr>)"
    "at_get ((at_update ip ae' t)\<lparr> at_age := age, at_packet_count := n \<rparr>) = (at_get t)(ip \<mapsto> ae')"
proof -
  have h: "ht_inv ip_hashcode (at_table t)" "distinct (at_age t)" "set (at_age t) = dom (at_get t)"
    using assms(1) by (simp_all add: arp_wf_def)
  show g: "at_get ((at_update ip ae' t)\<lparr> at_age := age, at_packet_count := n \<rparr>) = (at_get t)(ip \<mapsto> ae')"
    by (simp add: at_get_update [OF h(1)])
  have "ip \<in> set (at_age t)" using h(3) assms(2) by auto
  note l = load_update [where m = "at_get t", OF h(2) this assms(2), of ae'] load_perm [OF assms(5), of "(at_get t)(ip \<mapsto> ae')"]
  have "distinct age" "set age = set (at_age t)" "length age = length (at_age t)"
    using assms(5) h(2) by (metis mset_eq_imp_distinct_iff, metis mset_eq_setD, metis mset_eq_length)
  moreover have "ht_inv ip_hashcode (at_table (at_update ip ae' t))" using ht.invar_put [OF h(1)] by (simp add: at_update_def)
  ultimately show "arp_wf j k ((at_update ip ae' t)\<lparr> at_age := age, at_packet_count := n \<rparr>)"
    using assms(1-4) h(3) l g by (auto simp: arp_wf_def)
qed

lemma arp_wf_erase:
  assumes "arp_wf j k t" and "at_age t = ip # age" and "at_get t ip = Some ae"
  defines "t' \<equiv> t\<lparr> at_table := ht_erase ip_hashcode ip (at_table t), at_age := age,
      at_packet_count := at_packet_count t - length (ae_packets ae),
      at_drops := at_drops t + length (ae_packets ae), at_entry_count := at_entry_count t - 1 \<rparr>"
  shows "arp_wf j k t'" "at_get t' = at_get t |` set age"
proof -
  have h: "ht_inv ip_hashcode (at_table t)" "distinct (ip # age)" "set (ip # age) = dom (at_get t)"
    using assms(1,2) by (simp_all add: arp_wf_def)
  have e: "at_get t' = (at_get t)(ip := None)"
    by (simp add: t'_def at_get_def [abs_def] hc.lookup_del [OF h(1)])
  also have "\<dots> = at_get t |` set age"
    using h(2,3) by (fastforce simp: restrict_map_def fun_eq_iff)
  finally show g: "at_get t' = at_get t |` set age" .
  have "dom (at_get t') = set age" using h(3) by (auto simp: g)
  moreover have "\<not> is_broadcast (ae_eth ae')" if "at_get t' ip' = Some ae'" "ae_known ae'" for ip' ae'
    using that assms(1) by (auto simp: arp_wf_def g restrict_map_def split: if_splits)
  moreover have "at_packet_count t' = load (at_get t') age + j" "at_entry_count t' = length age + k"
    using assms(1-3) by (auto simp: arp_wf_def g) (auto simp: t'_def)
  moreover have "ht_inv ip_hashcode (at_table t')" "at_age t' = age"
    using hc.invar_del [OF h(1), of ip] by (simp_all add: t'_def)
  ultimately show "arp_wf j k t'" using h(2) by (simp add: arp_wf_def)
qed

text \<open>
  The first loop of \<open>slim\<close> keeps the invariant and removes a prefix of the age list: afterwards the oldest entry is not
  expired and there are not too many; when there were not, only expired entries have gone.
\<close>

lemma slim_entries_ok:
  assumes "arp_wf j k t" and "at_age t = age"
  shows "\<exists>t'. slim_entries now age t = Inr t' \<and> arp_wf j k t' \<and>
     (\<exists>n. at_age t' = drop n age \<and>
        (at_entry_capacity t = 0 \<or> at_entry_count t \<le> at_entry_capacity t \<longrightarrow>
           (\<forall>ip \<in> set (take n age). \<forall>ae. at_get t ip = Some ae \<longrightarrow> ae_expired now (at_timeout_j t) ae))) \<and>
     at_get t' = at_get t |` set (at_age t') \<and>
     at_timeout_j t' = at_timeout_j t \<and> at_entry_capacity t' = at_entry_capacity t \<and>
     at_packet_capacity t' = at_packet_capacity t \<and> at_packet_count t' \<le> at_packet_count t \<and>
     (at_age t' \<noteq> [] \<longrightarrow> (at_entry_capacity t \<noteq> 0 \<longrightarrow> at_entry_count t' \<le> at_entry_capacity t) \<and>
        (\<forall>ae. at_get t (at_age t' ! 0) = Some ae \<longrightarrow> \<not> ae_expired now (at_timeout_j t) ae))"
  using assms
proof (induction now age t rule: slim_entries.induct)
  case (1 now t)
  then show ?case by (auto simp: arp_wf_def)
next
  case (2 now ip age t)
  have ip: "ip \<in> dom (at_get t)" "ip \<notin> set age" "set (ip # age) = dom (at_get t)"
    using "2.prems" by (auto simp: arp_wf_def)
  then obtain ae where ae: "at_get t ip = Some ae" by blast
  let ?more = "ae_expired now (at_timeout_j t) ae \<or> at_entry_capacity t \<noteq> 0 \<and> at_entry_count t > at_entry_capacity t"
  show ?case
  proof (cases ?more)
    case False
    have "at_get t |` set (ip # age) = at_get t" using ip(3) by (simp add: restrict_map_def fun_eq_iff) (metis domIff)
    then show ?thesis using False "2.prems" ae by (intro exI [of _ t]) (auto intro: exI [of _ 0])
  next
    case True
    define t1 where "t1 = t\<lparr> at_table := ht_erase ip_hashcode ip (at_table t), at_age := age,
      at_packet_count := at_packet_count t - length (ae_packets ae),
      at_drops := at_drops t + length (ae_packets ae), at_entry_count := at_entry_count t - 1 \<rparr>"
    note w = arp_wf_erase [OF "2.prems"(1,2) ae, folded t1_def]
    have t1: "at_age t1 = age" "at_timeout_j t1 = at_timeout_j t" "at_entry_capacity t1 = at_entry_capacity t"
      "at_packet_capacity t1 = at_packet_capacity t" "at_packet_count t1 \<le> at_packet_count t"
      "at_entry_count t1 \<le> at_entry_count t"
      by (simp_all add: t1_def)
    from "2.IH" [OF ae True, folded t1_def, OF w(1) t1(1)] obtain t' n where
      s: "slim_entries now age t1 = Inr t'" and t': "arp_wf j k t'" "at_age t' = drop n age"
        "at_entry_capacity t1 = 0 \<or> at_entry_count t1 \<le> at_entry_capacity t1 \<longrightarrow>
           (\<forall>ip \<in> set (take n age). \<forall>ae. at_get t1 ip = Some ae \<longrightarrow> ae_expired now (at_timeout_j t1) ae)"
        "at_get t' = at_get t1 |` set (at_age t')"
        "at_timeout_j t' = at_timeout_j t1" "at_entry_capacity t' = at_entry_capacity t1"
        "at_packet_capacity t' = at_packet_capacity t1" "at_packet_count t' \<le> at_packet_count t1"
        "at_age t' \<noteq> [] \<longrightarrow> (at_entry_capacity t1 \<noteq> 0 \<longrightarrow> at_entry_count t' \<le> at_entry_capacity t1) \<and>
          (\<forall>ae. at_get t1 (at_age t' ! 0) = Some ae \<longrightarrow> \<not> ae_expired now (at_timeout_j t1) ae)" by blast
    have sub: "set (at_age t') \<subseteq> set age" using t'(2) by (simp add: set_drop_subset)
    then have g: "at_get t' = at_get t |` set (at_age t')"
      using t'(4) w(2) by (simp add: restrict_restrict Int_absorb1)
    have keep: "at_get t1 ip' = at_get t ip'" if "ip' \<in> set age" for ip' using w(2) that by simp
    have "at_get t1 (at_age t' ! 0) = at_get t (at_age t' ! 0)" if "at_age t' \<noteq> []"
      using that sub nth_mem [of 0 "at_age t'"] by (intro keep) auto
    moreover have "at_age t' = drop (Suc n) (ip # age)" using t'(2) by simp
    moreover have "\<forall>ip' \<in> set (take (Suc n) (ip # age)). \<forall>ae. at_get t ip' = Some ae \<longrightarrow> ae_expired now (at_timeout_j t) ae"
      if "at_entry_capacity t = 0 \<or> at_entry_count t \<le> at_entry_capacity t"
      using that True ae t'(3) t1 keep in_set_takeD [of _ n age] by (auto simp: t1_def)
    moreover have "slim_entries now (ip # age) t = Inr t'" using s ae True by (simp add: t1_def)
    ultimately show ?thesis using t'(1,5-9) g t1 by (intro exI [of _ t'] conjI exI [of _ "Suc n"]) auto
  qed
qed

lemma drop_oldest_eq: "drop_oldest cap n ps = (let d = min (length ps) (n - cap) in (n - d, drop d ps))"
  by (induction cap n ps rule: drop_oldest.induct) (auto simp: Let_def min_def not_less drop_Cons')

text \<open>The second loop never runs off the list: packets are dropped, oldest entry first, until their number is within the capacity.\<close>

definition trimmed :: "arp_table \<Rightarrow> arp_table \<Rightarrow> bool" where
  "trimmed t t' \<longleftrightarrow> (\<forall>ip. \<exists>d. at_get t' ip = map_option (\<lambda>ae. ae\<lparr> ae_packets := drop d (ae_packets ae) \<rparr>) (at_get t ip))"

lemma trimmed_refl [simp]: "trimmed t t"
proof -
  have "at_get t ip = map_option (\<lambda>ae. ae\<lparr> ae_packets := drop 0 (ae_packets ae) \<rparr>) (at_get t ip)" for ip
    by (cases "at_get t ip") simp_all
  then show ?thesis unfolding trimmed_def by blast
qed

lemma trimmed_step:
  assumes "at_get t1 = (at_get t)(ip \<mapsto> ae\<lparr> ae_packets := drop d (ae_packets ae) \<rparr>)" and "at_get t ip = Some ae"
    and "trimmed t1 t'"
  shows "trimmed t t'"
  unfolding trimmed_def
proof
  fix ip'
  obtain d' where d': "at_get t' ip' = map_option (\<lambda>ae. ae\<lparr> ae_packets := drop d' (ae_packets ae) \<rparr>) (at_get t1 ip')"
    using assms(3) unfolding trimmed_def by blast
  have "at_get t' ip' = map_option (\<lambda>ae. ae\<lparr> ae_packets := drop (if ip' = ip then d' + d else d') (ae_packets ae) \<rparr>) (at_get t ip')"
    using d' assms(1,2) by simp
  then show "\<exists>d. at_get t' ip' = map_option (\<lambda>ae. ae\<lparr> ae_packets := drop d (ae_packets ae) \<rparr>) (at_get t ip')" by blast
qed

lemma slim_packets_ok:
  assumes "arp_wf j k t" and "at_age t = pre @ ks" and "load (at_get t) pre = 0" and "j \<le> at_packet_capacity t"
  shows "\<exists>t'. slim_packets ks t = Inr t' \<and> arp_wf j k t' \<and> at_age t' = at_age t \<and> trimmed t t' \<and>
     at_timeout_j t' = at_timeout_j t \<and> at_entry_capacity t' = at_entry_capacity t \<and>
     at_packet_capacity t' = at_packet_capacity t \<and>
     at_packet_count t' = (if at_packet_capacity t = 0 then at_packet_count t else min (at_packet_count t) (at_packet_capacity t))"
  using assms
proof (induction ks arbitrary: pre t)
  case Nil
  then have "at_packet_count t \<le> at_packet_capacity t" by (simp add: arp_wf_def)
  with Nil show ?case by (simp add: slim_packets.simps [of "[]"])
next
  case (Cons ip ks)
  let ?cap = "at_packet_capacity t" and ?n = "at_packet_count t"
  have dis: "distinct (pre @ ip # ks)" and "ip \<in> dom (at_get t)" using Cons.prems(1,2) by (auto simp: arp_wf_def)
  then obtain ae where ae: "at_get t ip = Some ae" by blast
  show ?case
  proof (cases "?cap \<noteq> 0 \<and> ?n > ?cap")
    case False
    then show ?thesis using Cons.prems by (subst slim_packets.simps) auto
  next
    case True
    define d where "d = min (length (ae_packets ae)) (?n - ?cap)"
    define t1 where "t1 = (at_update ip (ae\<lparr> ae_packets := drop d (ae_packets ae) \<rparr>) t)\<lparr> at_packet_count := ?n - d, at_drops := at_drops t + (?n - (?n - d)) \<rparr>"
    have dn: "d \<le> ?n" "d \<le> length (ae_packets ae)" by (simp_all add: d_def)
    have kn: "ae_known ae \<Longrightarrow> \<not> is_broadcast (ae_eth ae)" using Cons.prems(1) ae by (auto simp: arp_wf_def)
    note u = arp_wf_update [OF Cons.prems(1) ae, of "ae\<lparr> ae_packets := drop d (ae_packets ae) \<rparr>" "?n - d" "at_age t"]
    have w: "arp_wf j k t1" "at_get t1 = (at_get t)(ip \<mapsto> ae\<lparr> ae_packets := drop d (ae_packets ae) \<rparr>)"
      using u dn kn by (auto simp: arp_wf_def t1_def)
    have s: "slim_packets (ip # ks) t = slim_packets ks t1"
      using True ae by (subst slim_packets.simps) (simp add: drop_oldest_eq Let_def t1_def d_def)
    have t1: "at_age t1 = at_age t" "at_timeout_j t1 = at_timeout_j t" "at_entry_capacity t1 = at_entry_capacity t"
      "at_packet_capacity t1 = ?cap" "at_packet_count t1 = ?n - d" by (simp_all add: t1_def)
    show ?thesis
    proof (cases "d = length (ae_packets ae)")
      case True
      have "load (at_get t1) (pre @ [ip]) = 0" using Cons.prems(3) dis True by (simp add: w(2))
      moreover have "at_age t1 = (pre @ [ip]) @ ks" using Cons.prems(2) t1(1) by simp
      ultimately obtain t' where "slim_packets ks t1 = Inr t'" "arp_wf j k t'" "at_age t' = at_age t1" "trimmed t1 t'"
          "at_timeout_j t' = at_timeout_j t1" "at_entry_capacity t' = at_entry_capacity t1"
          "at_packet_capacity t' = at_packet_capacity t1"
          "at_packet_count t' = (if at_packet_capacity t1 = 0 then at_packet_count t1 else min (at_packet_count t1) (at_packet_capacity t1))"
        using Cons.IH [OF w(1), of "pre @ [ip]"] Cons.prems(4) t1(4) by auto
      moreover from this have "trimmed t t'" using trimmed_step [OF w(2) ae] by simp
      ultimately show ?thesis using s t1 \<open>?cap \<noteq> 0 \<and> ?n > ?cap\<close> by (auto simp: d_def)
    next
      case False
      then have "?n - d = ?cap" using True dn by (auto simp: d_def min_def split: if_splits)
      moreover from this have "slim_packets ks t1 = Inr t1" using t1 by (subst slim_packets.simps) simp
      ultimately show ?thesis using s w(1) t1 True trimmed_step [OF w(2) ae trimmed_refl]
        by (intro exI [of _ t1]) simp
    qed
  qed
qed

text \<open>\<open>slim\<close> as a whole.\<close>

lemma slim_ok:
  assumes "arp_wf j k t" and "j \<le> at_packet_capacity t"
  shows "\<exists>t'. slim now t = Inr t' \<and> arp_wf j k t' \<and> at_timeout_j t' = at_timeout_j t \<and>
     at_entry_capacity t' = at_entry_capacity t \<and> at_packet_capacity t' = at_packet_capacity t \<and>
     at_packet_count t' \<le> at_packet_count t \<and>
     (at_packet_capacity t \<noteq> 0 \<longrightarrow> at_packet_count t' \<le> at_packet_capacity t) \<and>
     (at_age t' \<noteq> [] \<longrightarrow> at_entry_capacity t \<noteq> 0 \<longrightarrow> at_entry_count t' \<le> at_entry_capacity t) \<and>
     (\<exists>n. at_age t' = drop n (at_age t) \<and>
        (at_entry_capacity t = 0 \<or> at_entry_count t \<le> at_entry_capacity t \<longrightarrow>
           (\<forall>ip \<in> set (take n (at_age t)). \<forall>ae. at_get t ip = Some ae \<longrightarrow> ae_expired now (at_timeout_j t) ae))) \<and>
     (at_age t' \<noteq> [] \<longrightarrow> (\<forall>ae. at_get t (at_age t' ! 0) = Some ae \<longrightarrow> \<not> ae_expired now (at_timeout_j t) ae)) \<and>
     (\<forall>ip \<in> set (at_age t'). \<exists>d. at_get t' ip = map_option (\<lambda>ae. ae\<lparr> ae_packets := drop d (ae_packets ae) \<rparr>) (at_get t ip))"
proof -
  from slim_entries_ok [OF assms(1) refl, of now] obtain t1 where
    s: "slim_entries now (at_age t) t = Inr t1" and w: "arp_wf j k t1" and g: "at_get t1 = at_get t |` set (at_age t1)"
    and t1: "at_timeout_j t1 = at_timeout_j t" "at_entry_capacity t1 = at_entry_capacity t"
      "at_packet_capacity t1 = at_packet_capacity t" "at_packet_count t1 \<le> at_packet_count t"
      "\<exists>n. at_age t1 = drop n (at_age t) \<and>
        (at_entry_capacity t = 0 \<or> at_entry_count t \<le> at_entry_capacity t \<longrightarrow>
           (\<forall>ip \<in> set (take n (at_age t)). \<forall>ae. at_get t ip = Some ae \<longrightarrow> ae_expired now (at_timeout_j t) ae))"
      "at_age t1 \<noteq> [] \<longrightarrow> (at_entry_capacity t \<noteq> 0 \<longrightarrow> at_entry_count t1 \<le> at_entry_capacity t) \<and>
        (\<forall>ae. at_get t (at_age t1 ! 0) = Some ae \<longrightarrow> \<not> ae_expired now (at_timeout_j t) ae)" by blast
  from slim_packets_ok [OF w, of "[]" "at_age t1"] assms(2) t1(3) obtain t' where
    p: "slim_packets (at_age t1) t1 = Inr t'" "arp_wf j k t'" "at_age t' = at_age t1" "trimmed t1 t'"
      "at_timeout_j t' = at_timeout_j t1" "at_entry_capacity t' = at_entry_capacity t1"
      "at_packet_capacity t' = at_packet_capacity t1"
      "at_packet_count t' = (if at_packet_capacity t1 = 0 then at_packet_count t1 else min (at_packet_count t1) (at_packet_capacity t1))"
    by auto
  have "at_entry_count t' = at_entry_count t1" using p(2,3) w by (simp add: arp_wf_def)
  moreover have "\<exists>d. at_get t' ip = map_option (\<lambda>ae. ae\<lparr> ae_packets := drop d (ae_packets ae) \<rparr>) (at_get t ip)"
    if "ip \<in> set (at_age t')" for ip
    using that p(3,4) g unfolding trimmed_def by (metis restrict_in)
  ultimately show ?thesis using s p t1 by (intro exI [of _ t'] conjI) (simp_all add: slim_def, auto)
qed

section \<open>The operations keep the invariant\<close>

text \<open>What an operation on the entry for an address may do to the others: they can go, and lose their oldest packets.\<close>

definition kept :: "ipaddr \<Rightarrow> arp_table \<Rightarrow> arp_table \<Rightarrow> bool" where
  "kept ip t t' \<longleftrightarrow> (\<forall>ip' ae'. at_get t' ip' = Some ae' \<longrightarrow> ip' \<noteq> ip \<longrightarrow>
     (\<exists>ae d. at_get t ip' = Some ae \<and> ae' = ae\<lparr> ae_packets := drop d (ae_packets ae) \<rparr>))"

lemma kept_trans: "kept ip t t' \<Longrightarrow> kept ip t' t'' \<Longrightarrow> kept ip t t''"
  unfolding kept_def by (metis (no_types, lifting) ARPEntry.surjective ARPEntry.update_convs(5) ARPEntry.select_convs(5) drop_drop)

lemma kept_same: "(\<And>ip'. ip' \<noteq> ip \<Longrightarrow> at_get t' ip' = at_get t ip') \<Longrightarrow> kept ip t t'"
proof -
  assume e: "\<And>ip'. ip' \<noteq> ip \<Longrightarrow> at_get t' ip' = at_get t ip'"
  have "ae = ae\<lparr> ae_packets := drop 0 (ae_packets ae) \<rparr>" for ae :: ARPEntry by simp
  with e show ?thesis unfolding kept_def by metis
qed

lemma slim_kept: "arp_wf j k t \<Longrightarrow> j \<le> at_packet_capacity t \<Longrightarrow> slim now t = Inr t' \<Longrightarrow> kept ip t t'"
proof -
  assume a: "arp_wf j k t" "j \<le> at_packet_capacity t" "slim now t = Inr t'"
  from slim_ok [OF a(1,2), of now] a(3) have "arp_wf j k t'"
    and d: "\<forall>ip \<in> set (at_age t'). \<exists>d. at_get t' ip = map_option (\<lambda>ae. ae\<lparr> ae_packets := drop d (ae_packets ae) \<rparr>) (at_get t ip)" by auto
  then have "set (at_age t') = dom (at_get t')" by (simp add: arp_wf_def)
  show ?thesis unfolding kept_def
  proof (intro allI impI)
    fix ip' ae'
    assume "at_get t' ip' = Some ae'"
    moreover from this obtain d where "at_get t' ip' = map_option (\<lambda>ae. ae\<lparr> ae_packets := drop d (ae_packets ae) \<rparr>) (at_get t ip')"
      using d \<open>set (at_age t') = dom (at_get t')\<close> by blast
    ultimately show "\<exists>ae d. at_get t ip' = Some ae \<and> ae' = ae\<lparr> ae_packets := drop d (ae_packets ae) \<rparr>" by auto
  qed
qed

lemma arp_inv_empty:
  "at_table t = ht_empty \<Longrightarrow> at_age t = [] \<Longrightarrow> at_entry_count t = 0 \<Longrightarrow> at_packet_count t = 0 \<Longrightarrow> arp_inv t"
  using ht.invar_new [of ip_hashcode]
  by (auto simp: arp_inv_def arp_wf_def at_get_def ht.lookup_new dom_def)

lemma arp_wf_link:
  fixes now :: u32
  assumes "arp_wf j (Suc k) t" and "at_get t ip = None"
  defines "t' \<equiv> t\<lparr> at_table := ht_link ip_hashcode ip (new_entry now) (at_table t), at_age := at_age t @ [ip] \<rparr>"
  shows "arp_wf j k t'" "at_get t' = (at_get t)(ip \<mapsto> new_entry now)"
proof -
  have h: "ht_inv ip_hashcode (at_table t)" "ht_find ip_hashcode (at_table t) ip = None" and ip: "ip \<notin> set (at_age t)"
    using assms(1,2) by (auto simp: arp_wf_def at_get_def)
  show g: "at_get t' = (at_get t)(ip \<mapsto> new_entry now)"
    by (simp add: t'_def at_get_def [abs_def] hc.lookup_link [OF h])
  have "\<not> is_broadcast (ae_eth ae)" if "at_get t' ip' = Some ae" "ae_known ae" for ip' ae
    using that assms(1) by (auto simp: arp_wf_def g new_entry_def split: if_splits)
  moreover have "load (at_get t') (at_age t @ [ip]) = load (at_get t) (at_age t)"
    using ip by (simp add: g new_entry_def)
  moreover have "set (at_age t @ [ip]) = dom (at_get t')" "distinct (at_age t @ [ip])"
    using assms(1) ip by (simp_all add: arp_wf_def g)
  moreover have "at_age t' = at_age t @ [ip]" "at_entry_count t' = at_entry_count t" "at_packet_count t' = at_packet_count t"
    "ht_inv ip_hashcode (at_table t')"
    using hc.invar_link [OF h] by (simp_all add: t'_def)
  ultimately show "arp_wf j k t'" using assms(1) by (simp add: arp_wf_def)
qed

lemma ensure_ok:
  assumes "arp_inv t"
  shows "\<exists>t'. ensure room now ip t = Inr (room \<or> at_get t ip \<noteq> None, t') \<and> arp_inv t' \<and>
     at_timeout_j t' = at_timeout_j t \<and> at_packet_capacity t' = at_packet_capacity t \<and>
     at_entry_capacity t' = at_entry_capacity t \<and> at_packet_count t' \<le> at_packet_count t \<and>
     at_get t' ip = (if at_get t ip = None \<and> room then Some (new_entry now) else at_get t ip) \<and> kept ip t t'"
proof (cases "at_get t ip = None \<and> room")
  case False
  then show ?thesis using assms kept_same [of ip t t] by (auto simp: ensure_def split: option.split)
next
  case True
  define t1 where "t1 = t\<lparr> at_entry_count := at_entry_count t + 1 \<rparr>"
  have w1: "arp_wf 0 (Suc 0) t1" and g1: "at_get t1 = at_get t"
    and c1: "at_timeout_j t1 = at_timeout_j t" "at_packet_capacity t1 = at_packet_capacity t"
      "at_entry_capacity t1 = at_entry_capacity t" "at_packet_count t1 = at_packet_count t" "at_age t1 = at_age t"
    using assms by (simp_all add: arp_inv_def arp_wf_def t1_def)
  define m where "m = (if at_entry_capacity t1 \<noteq> 0 \<and> at_entry_count t1 > at_entry_capacity t1 then slim now t1 else Inr t1)"
  have "\<exists>t2. m = Inr t2 \<and> arp_wf 0 (Suc 0) t2 \<and> at_timeout_j t2 = at_timeout_j t \<and>
      at_packet_capacity t2 = at_packet_capacity t \<and> at_entry_capacity t2 = at_entry_capacity t \<and>
      (at_entry_capacity t \<noteq> 0 \<longrightarrow> at_entry_count t2 \<le> at_entry_capacity t) \<and>
      at_packet_count t2 \<le> at_packet_count t \<and> set (at_age t2) \<subseteq> set (at_age t) \<and> kept ip t t2"
  proof (cases "at_entry_capacity t1 \<noteq> 0 \<and> at_entry_count t1 > at_entry_capacity t1")
    case False
    then have "m = Inr t1" unfolding m_def by (rule if_not_P)
    moreover have "kept ip t t1" by (rule kept_same) (simp add: g1)
    ultimately show ?thesis using w1 c1 False by auto
  next
    case big: True
    from slim_ok [OF w1 le0, of now] obtain t2 where
      t2: "slim now t1 = Inr t2" "arp_wf 0 (Suc 0) t2" "at_timeout_j t2 = at_timeout_j t1" "at_entry_capacity t2 = at_entry_capacity t1"
        "at_packet_capacity t2 = at_packet_capacity t1" "at_packet_count t2 \<le> at_packet_count t1"
        "at_age t2 \<noteq> [] \<longrightarrow> at_entry_capacity t1 \<noteq> 0 \<longrightarrow> at_entry_count t2 \<le> at_entry_capacity t1"
        "\<exists>n. at_age t2 = drop n (at_age t1)" by blast
    have "at_entry_count t2 \<le> at_entry_capacity t"
      using t2(2,7) big c1 by (cases "at_age t2 = []") (auto simp: arp_wf_def)
    moreover have "set (at_age t2) \<subseteq> set (at_age t)" using t2(8) c1(5) by (auto dest: in_set_dropD)
    moreover have "m = Inr t2" using big t2(1) by (simp add: m_def)
    moreover have "kept ip t t2" using kept_trans [OF kept_same slim_kept [OF w1 le0 t2(1)]] g1 by simp
    ultimately show ?thesis using t2(2-6) c1 by auto
  qed
  then obtain t2 where m: "m = Inr t2" and t2: "arp_wf 0 (Suc 0) t2" "at_timeout_j t2 = at_timeout_j t"
      "at_packet_capacity t2 = at_packet_capacity t" "at_entry_capacity t2 = at_entry_capacity t"
      "at_entry_capacity t \<noteq> 0 \<longrightarrow> at_entry_count t2 \<le> at_entry_capacity t"
      "at_packet_count t2 \<le> at_packet_count t" "set (at_age t2) \<subseteq> set (at_age t)" "kept ip t t2" by blast
  have "ip \<notin> set (at_age t)" using True assms by (auto simp: arp_inv_def arp_wf_def)
  then have "at_get t2 ip = None" using t2(1,7) by (auto simp: arp_wf_def)
  note l = arp_wf_link [OF t2(1) this, of now]
  have e: "ensure room now ip t = Inr (True, t2\<lparr> at_table := ht_link ip_hashcode ip (new_entry now) (at_table t2),
      at_age := at_age t2 @ [ip] \<rparr>)"
    unfolding ensure_def Let_def t1_def [symmetric] m_def [symmetric] m using True by simp
  have "kept ip t (t2\<lparr> at_table := ht_link ip_hashcode ip (new_entry now) (at_table t2), at_age := at_age t2 @ [ip] \<rparr>)"
    by (rule kept_trans [OF t2(8) kept_same]) (simp only: l(2), simp)
  then show ?thesis using e l t2(1-7) True assms by (auto simp: arp_inv_def)
qed

lemma arp_wf_balance:
  assumes "arp_wf j k t"
  shows "arp_wf j k (t\<lparr> at_table := ht_balance ip_hashcode (at_table t) \<rparr>)"
    "at_get (t\<lparr> at_table := ht_balance ip_hashcode (at_table t) \<rparr>) = at_get t"
proof -
  have h: "ht_inv ip_hashcode (at_table t)" using assms by (simp add: arp_wf_def)
  show g: "at_get (t\<lparr> at_table := ht_balance ip_hashcode (at_table t) \<rparr>) = at_get t"
    by (simp add: at_get_def [abs_def] hc.lookup_tidy [OF h])
  show "arp_wf j k (t\<lparr> at_table := ht_balance ip_hashcode (at_table t) \<rparr>)"
    using assms hc.invar_tidy [OF h] by (simp add: arp_wf_def g)
qed

lemma mset_move_to_back: "ip \<in> set age \<Longrightarrow> mset (move_to_back ip age) = mset age"
  by (simp add: move_to_back_def)

lemma mset_move_forward: "ip \<in> set age \<Longrightarrow> mset (move_forward older ip age) = mset age"
proof -
  assume "ip \<in> set age"
  then obtain xs ys where age: "age = xs @ ip # ys" "ip \<notin> set xs" by (metis split_list_first)
  have "takeWhile (\<lambda>k. k \<noteq> ip) age = xs" using age by (auto simp: takeWhile_append)
  moreover have "mset (takeWhile older ys) + mset (dropWhile older ys) = mset ys"
    by (metis mset_append takeWhile_dropWhile_id)
  ultimately show ?thesis by (simp add: move_forward_def Let_def age)
qed

text \<open>The packets that wait for an address.\<close>

definition waiting :: "arp_table \<Rightarrow> ipaddr \<Rightarrow> packet list" where
  "waiting t ip = (case at_get t ip of None \<Rightarrow> [] | Some ae \<Rightarrow> ae_packets ae)"

lemma arp_insert_ok:
  assumes "arp_inv t" and "room \<or> at_get t ip \<noteq> None"
  shows "\<exists>t'. arp_insert room now ip eth drain t = Inr (True, if drain then Some (waiting t ip) else None, t') \<and>
     arp_inv t' \<and> at_timeout_j t' = at_timeout_j t \<and>
     at_get t' ip = Some \<lparr> ae_eth = eth, ae_known = (\<not> is_broadcast eth), ae_live_at_j = now,
       ae_polled_at_j = now - CLICK_HZ, ae_packets = (if drain then [] else waiting t ip) \<rparr> \<and> kept ip t t'"
proof -
  from ensure_ok [OF assms(1), of room now ip] assms(2) obtain t1 where
    e: "ensure room now ip t = Inr (True, t1)" and i: "arp_inv t1" and c: "at_timeout_j t1 = at_timeout_j t"
    and g: "at_get t1 ip = (if at_get t ip = None \<and> room then Some (new_entry now) else at_get t ip)" and kp: "kept ip t t1" by auto
  obtain ae where ae: "at_get t1 ip = Some ae" "ae_packets ae = waiting t ip"
    using g assms(2) by (cases "at_get t ip") (auto simp: waiting_def new_entry_def)
  define ae' where "ae' = ae\<lparr> ae_eth := eth, ae_known := \<not> is_broadcast eth, ae_live_at_j := now,
      ae_polled_at_j := now - CLICK_HZ, ae_packets := (if drain then [] else ae_packets ae) \<rparr>"
  define n where "n = at_packet_count t1 - (if drain then length (ae_packets ae) else 0)"
  have w: "arp_wf 0 0 t1" and ip: "ip \<in> set (at_age t1)" "distinct (at_age t1)" using i ae by (auto simp: arp_inv_def arp_wf_def)
  have "length (ae_packets ae) \<le> at_packet_count t1"
    using load_update [where m = "at_get t1", OF ip(2,1) ae(1), of "ae\<lparr> ae_packets := [] \<rparr>"] w by (simp add: arp_wf_def)
  then have n: "n + length (ae_packets ae) = at_packet_count t1 + length (ae_packets ae')"
    by (simp add: n_def ae'_def)
  define t2 where "t2 = (at_update ip ae' t1)\<lparr> at_age := move_to_back ip (at_age t1), at_packet_count := n \<rparr>"
  have "ae_known ae' \<Longrightarrow> \<not> is_broadcast (ae_eth ae')" by (simp add: ae'_def)
  note u = arp_wf_update [OF w ae(1) this n mset_move_to_back [OF ip(1)], folded t2_def]
  note b = arp_wf_balance [OF u(1)]
  have t2: "at_entry_count t2 = at_entry_count t1" "at_packet_count t2 \<le> at_packet_count t1" "at_timeout_j t2 = at_timeout_j t1"
    "at_entry_capacity t2 = at_entry_capacity t1" "at_packet_capacity t2 = at_packet_capacity t1"
    by (simp_all add: t2_def n_def)
  have "arp_insert room now ip eth drain t =
      Inr (True, if drain then Some (waiting t ip) else None, t2\<lparr> at_table := ht_balance ip_hashcode (at_table t2) \<rparr>)"
    using ae by (simp add: arp_insert_def e Let_def t2_def ae'_def n_def)
  moreover have "arp_inv (t2\<lparr> at_table := ht_balance ip_hashcode (at_table t2) \<rparr>)"
    using i b(1) t2 by (auto simp: arp_inv_def)
  moreover have "at_get (t2\<lparr> at_table := ht_balance ip_hashcode (at_table t2) \<rparr>) ip = Some \<lparr> ae_eth = eth,
      ae_known = (\<not> is_broadcast eth), ae_live_at_j = now, ae_polled_at_j = now - CLICK_HZ,
      ae_packets = (if drain then [] else waiting t ip) \<rparr>"
    using b(2) u(2) ae(2) by (simp add: ae'_def)
  moreover have "kept ip t (t2\<lparr> at_table := ht_balance ip_hashcode (at_table t2) \<rparr>)"
    by (rule kept_trans [OF kp kept_same]) (simp add: b(2) u(2))
  ultimately show ?thesis using c t2(3) by (intro exI) auto
qed

text \<open>When there is no memory for a new entry, \<open>insert\<close> fails and nothing changes.\<close>

lemma arp_insert_no_memory:
  "\<not> room \<Longrightarrow> at_get t ip = None \<Longrightarrow> arp_insert room now ip eth drain t = Inr (False, None, t)"
  by (simp add: arp_insert_def ensure_def)

lemma jiffies_less_irrefl [simp]: "\<not> jiffies_less a a"
  by (simp add: jiffies_less_def)

lemma keep_live_ok:
  assumes "arp_inv t" and "at_get t ip = Some ae"
  shows "arp_inv (keep_live now ip ae t)" "at_timeout_j (keep_live now ip ae t) = at_timeout_j t"
    "at_packet_capacity (keep_live now ip ae t) = at_packet_capacity t"
    "\<exists>live. at_get (keep_live now ip ae t) ip = Some (ae\<lparr> ae_live_at_j := live \<rparr>) \<and>
       \<not> ae_expired now (at_timeout_j t) (ae\<lparr> ae_live_at_j := live \<rparr>)"
    "at_packet_count (keep_live now ip ae t) = at_packet_count t" "kept ip t (keep_live now ip ae t)"
proof -
  let ?min = "now - at_timeout_j t" and ?t = "keep_live now ip ae t"
  have w: "arp_wf 0 0 t" and ip: "ip \<in> set (at_age t)" using assms by (auto simp: arp_inv_def arp_wf_def)
  have "arp_inv ?t \<and> at_timeout_j ?t = at_timeout_j t \<and> at_packet_capacity ?t = at_packet_capacity t \<and>
    (\<exists>live. at_get ?t ip = Some (ae\<lparr> ae_live_at_j := live \<rparr>) \<and> \<not> ae_expired now (at_timeout_j t) (ae\<lparr> ae_live_at_j := live \<rparr>)) \<and> kept ip t ?t"
  proof (cases "at_timeout_j t \<noteq> 0 \<and> jiffies_less (ae_live_at_j ae) ?min")
    case True
    let ?older = "\<lambda>k. case at_get t k of None \<Rightarrow> False | Some e \<Rightarrow> jiffies_less (ae_live_at_j e) ?min"
    let ?age = "move_forward ?older ip (at_age t)" and ?ae = "ae\<lparr> ae_live_at_j := ?min \<rparr>"
    have k: "?t = (at_update ip ?ae t)\<lparr> at_age := ?age, at_packet_count := at_packet_count t \<rparr>"
      using True by (simp add: keep_live_def Let_def at_update_def)
    have "ae_known ?ae \<Longrightarrow> \<not> is_broadcast (ae_eth ?ae)" using w assms(2) by (auto simp: arp_wf_def)
    note u = arp_wf_update [OF w assms(2) this _ mset_move_forward [OF ip], of "at_packet_count t" ?older, folded k]
    have "ae_expired now (at_timeout_j t) ?ae = False" by (simp add: ae_expired_def)
    moreover have "arp_inv ?t" using assms(1) u(1) by (auto simp: arp_inv_def) (simp_all add: k)
    moreover have "kept ip t ?t" by (rule kept_same) (simp add: u(2))
    ultimately show ?thesis using u(2) k by (auto intro: exI [of _ ?min])
  next
    case False
    have d: "ae_live_at_j ae + at_timeout_j t - now = ae_live_at_j ae - ?min" by simp
    have "\<not> ae_expired now (at_timeout_j t) ae" using False unfolding ae_expired_def jiffies_less_def d by blast
    moreover have "?t = t" using False by (auto simp: keep_live_def Let_def)
    ultimately show ?thesis using assms kept_same [of ip t t] by (auto intro: exI [of _ "ae_live_at_j ae"])
  qed
  then show "arp_inv ?t" "at_timeout_j ?t = at_timeout_j t" "at_packet_capacity ?t = at_packet_capacity t"
    "\<exists>live. at_get ?t ip = Some (ae\<lparr> ae_live_at_j := live \<rparr>) \<and> \<not> ae_expired now (at_timeout_j t) (ae\<lparr> ae_live_at_j := live \<rparr>)" "kept ip t ?t"
    by blast+
  show "at_packet_count ?t = at_packet_count t" by (simp add: keep_live_def Let_def)
qed

text \<open>Making room for one more packet, counted already, when the entry it is for is not expired.\<close>

lemma count_packet_ok:
  assumes "arp_inv t" and "at_get t ip = Some ae" and "\<not> ae_expired now (at_timeout_j t) ae"
  shows "\<exists>t2 d. count_packet now t = Inr t2 \<and>
     arp_wf 1 0 t2 \<and> at_timeout_j t2 = at_timeout_j t \<and> at_entry_capacity t2 = at_entry_capacity t \<and>
     at_packet_capacity t2 = at_packet_capacity t \<and>
     (at_entry_capacity t \<noteq> 0 \<longrightarrow> at_entry_count t2 \<le> at_entry_capacity t) \<and>
     (at_packet_capacity t \<noteq> 0 \<longrightarrow> at_packet_count t2 \<le> at_packet_capacity t) \<and>
     at_get t2 ip = Some (ae\<lparr> ae_packets := drop d (ae_packets ae) \<rparr>) \<and>
     (at_packet_capacity t = 0 \<or> at_packet_count t < at_packet_capacity t \<longrightarrow> d = 0 \<and> at_packet_count t2 = at_packet_count t + 1) \<and>
     kept ip t t2"
proof -
  define t1 where "t1 = t\<lparr> at_packet_count := at_packet_count t + 1 \<rparr>"
  have u: "count_packet now t =
      (if at_packet_capacity t1 \<noteq> 0 \<and> at_packet_count t1 > at_packet_capacity t1 then slim now t1 else Inr t1)"
    by (simp add: count_packet_def t1_def Let_def)
  have w: "arp_wf 1 0 t1" and g: "at_get t1 = at_get t"
    and c: "at_age t1 = at_age t" "at_timeout_j t1 = at_timeout_j t" "at_entry_capacity t1 = at_entry_capacity t"
      "at_packet_capacity t1 = at_packet_capacity t" "at_entry_count t1 = at_entry_count t"
    using assms(1) by (simp_all add: arp_inv_def arp_wf_def t1_def)
  have e: "at_entry_capacity t \<noteq> 0 \<longrightarrow> at_entry_count t \<le> at_entry_capacity t" using assms(1) by (simp add: arp_inv_def)
  show ?thesis
  proof (cases "at_packet_capacity t1 \<noteq> 0 \<and> at_packet_count t1 > at_packet_capacity t1")
    case False
    then have "count_packet now t = Inr t1" unfolding u by (rule if_not_P)
    moreover have "at_get t1 ip = Some (ae\<lparr> ae_packets := drop 0 (ae_packets ae) \<rparr>)" using assms(2) g by simp
    moreover have "at_packet_capacity t \<noteq> 0 \<longrightarrow> at_packet_count t1 \<le> at_packet_capacity t" using False c(4) by auto
    moreover have "kept ip t t1" by (rule kept_same) (simp add: g)
    ultimately show ?thesis using w c e by (intro exI [of _ t1] exI [of _ 0]) (simp add: t1_def)
  next
    case True
    then have "1 \<le> at_packet_capacity t1" by simp
    from slim_ok [OF w this, of now] obtain t2 n where
      s: "slim now t1 = Inr t2" and t2: "arp_wf 1 0 t2" "at_timeout_j t2 = at_timeout_j t1"
        "at_entry_capacity t2 = at_entry_capacity t1" "at_packet_capacity t2 = at_packet_capacity t1"
        "at_packet_capacity t1 \<noteq> 0 \<longrightarrow> at_packet_count t2 \<le> at_packet_capacity t1"
        "at_age t2 \<noteq> [] \<longrightarrow> at_entry_capacity t1 \<noteq> 0 \<longrightarrow> at_entry_count t2 \<le> at_entry_capacity t1"
        "at_age t2 = drop n (at_age t1)"
        "at_entry_capacity t1 = 0 \<or> at_entry_count t1 \<le> at_entry_capacity t1 \<longrightarrow>
           (\<forall>ip \<in> set (take n (at_age t1)). \<forall>ae. at_get t1 ip = Some ae \<longrightarrow> ae_expired now (at_timeout_j t1) ae)"
        "\<forall>ip \<in> set (at_age t2). \<exists>d. at_get t2 ip = map_option (\<lambda>ae. ae\<lparr> ae_packets := drop d (ae_packets ae) \<rparr>) (at_get t1 ip)"
      by blast
    have "ip \<notin> set (take n (at_age t1))" using t2(8) e c assms(2,3) g by auto
    moreover have "ip \<in> set (at_age t1)" using w assms(2) g by (auto simp: arp_wf_def)
    ultimately have ip: "ip \<in> set (at_age t2)" unfolding t2(7) by (metis Un_iff append_take_drop_id set_append)
    then obtain d where "at_get t2 ip = Some (ae\<lparr> ae_packets := drop d (ae_packets ae) \<rparr>)" using t2(9) assms(2) g by auto
    moreover have "at_age t2 \<noteq> []" using ip by auto
    moreover have "count_packet now t = Inr t2" using True s by (simp add: u)
    moreover have "\<not> (at_packet_capacity t = 0 \<or> at_packet_count t < at_packet_capacity t)" using True by (simp add: t1_def)
    moreover have "kept ip t t2" using kept_trans [OF kept_same slim_kept [OF w \<open>1 \<le> at_packet_capacity t1\<close> s]] g by simp
    ultimately show ?thesis using t2(1-6) c True by (intro exI [of _ t2] exI [of _ d]) auto
  qed
qed

lemma arp_wf_count_shift:
  "arp_wf (Suc j) k (t\<lparr> at_packet_count := Suc n \<rparr>) \<longleftrightarrow> arp_wf j k (t\<lparr> at_packet_count := n \<rparr>)"
  by (simp add: arp_wf_def)

lemma append_query_ok:
  assumes "arp_inv t" and "room \<or> at_get t ip \<noteq> None"
    and "\<forall>ae. at_get t ip = Some ae \<longrightarrow> \<not> ae_usable now (at_timeout_j t) ae"
  shows "\<exists>due t' ae d. append_query room now ip p t = Inr (Stored due, t') \<and> arp_inv t' \<and> at_timeout_j t' = at_timeout_j t \<and>
     at_get t' ip = Some ae \<and> ae_packets ae = drop d (waiting t ip) @ [p] \<and>
     (at_get t ip = None \<longrightarrow> due \<and> \<not> ae_known ae) \<and> (\<forall>ae0. at_get t ip = Some ae0 \<longrightarrow> ae_known ae = ae_known ae0) \<and>
     at_packet_capacity t' = at_packet_capacity t \<and>
     (at_packet_capacity t = 0 \<or> at_packet_count t < at_packet_capacity t \<longrightarrow> d = 0 \<and> at_packet_count t' \<le> at_packet_count t + 1) \<and>
     (\<forall>ae0. at_get t ip = Some ae0 \<longrightarrow> ae_eth ae = ae_eth ae0) \<and> kept ip t t'"
proof -
  from ensure_ok [OF assms(1), of room now ip] assms(2) obtain t1 where
    e: "ensure room now ip t = Inr (True, t1)" and i: "arp_inv t1" and c: "at_timeout_j t1 = at_timeout_j t"
    and cc: "at_packet_capacity t1 = at_packet_capacity t" "at_packet_count t1 \<le> at_packet_count t"
    and g: "at_get t1 ip = (if at_get t ip = None \<and> room then Some (new_entry now) else at_get t ip)" and kp: "kept ip t t1" by auto
  obtain ae where ae: "at_get t1 ip = Some ae" "ae_packets ae = waiting t ip" "\<not> ae_usable now (at_timeout_j t1) ae"
      "at_get t ip = None \<Longrightarrow> ae = new_entry now" "\<And>ae0. at_get t ip = Some ae0 \<Longrightarrow> ae = ae0"
    using g assms(2) assms(3) c by (cases "at_get t ip") (auto simp: waiting_def new_entry_def ae_usable_def)
  note k = keep_live_ok [OF i ae(1), of now]
  from k(4) obtain live where l: "at_get (keep_live now ip ae t1) ip = Some (ae\<lparr> ae_live_at_j := live \<rparr>)"
    "\<not> ae_expired now (at_timeout_j (keep_live now ip ae t1)) (ae\<lparr> ae_live_at_j := live \<rparr>)" using k(2) by auto
  from count_packet_ok [OF k(1) l] obtain t2 d where r: "count_packet now (keep_live now ip ae t1) = Inr t2"
    and t2: "arp_wf 1 0 t2" "at_timeout_j t2 = at_timeout_j t1"
      "at_entry_capacity t2 \<noteq> 0 \<longrightarrow> at_entry_count t2 \<le> at_entry_capacity t2"
      "at_packet_capacity t2 \<noteq> 0 \<longrightarrow> at_packet_count t2 \<le> at_packet_capacity t2"
      "at_get t2 ip = Some (ae\<lparr> ae_live_at_j := live, ae_packets := drop d (ae_packets ae) \<rparr>)"
      "at_packet_capacity t2 = at_packet_capacity t1"
      "at_packet_capacity t1 = 0 \<or> at_packet_count t1 < at_packet_capacity t1 \<longrightarrow> d = 0 \<and> at_packet_count t2 = at_packet_count t1 + 1"
      "kept ip (keep_live now ip ae t1) t2"
    using k(2,3,5) by auto
  define ae2 where "ae2 = ae\<lparr> ae_live_at_j := live, ae_packets := drop d (ae_packets ae) \<rparr>"
  define due where "due = (\<not> jiffies_less now (ae_polled_at_j ae2 + CLICK_HZ div 10))"
  define ae3 where "ae3 = ae2\<lparr> ae_packets := ae_packets ae2 @ [p], ae_polled_at_j := (if due then now else ae_polled_at_j ae2) \<rparr>"
  define t3 where "t3 = at_update ip ae3 t2"
  have g2: "at_get t2 ip = Some ae2" using t2(5) by (simp add: ae2_def)
  have "ae_known ae3 \<Longrightarrow> \<not> is_broadcast (ae_eth ae3)" using t2(1) g2 by (auto simp: arp_wf_def ae3_def)
  note u = arp_wf_update [OF t2(1) g2 this, of "Suc (at_packet_count t2)" "at_age t2"]
  have w3: "arp_wf 0 0 t3" "at_get t3 = (at_get t2)(ip \<mapsto> ae3)"
    using u arp_wf_count_shift [of 0 0 "at_packet_count t2" "at_update ip ae3 t2"]
    by (simp_all add: t3_def ae3_def at_update_def)
  note b = arp_wf_balance [OF w3(1)]
  have "append_query room now ip p t = Inr (Stored due, t3\<lparr> at_table := ht_balance ip_hashcode (at_table t3) \<rparr>)"
    using r g2 ae(1,3) by (simp add: append_query_def e Let_def t3_def ae3_def due_def)
  moreover have "arp_inv (t3\<lparr> at_table := ht_balance ip_hashcode (at_table t3) \<rparr>)"
    using b(1) t2(3,4) by (simp add: arp_inv_def) (simp add: t3_def)
  moreover have "at_get (t3\<lparr> at_table := ht_balance ip_hashcode (at_table t3) \<rparr>) ip = Some ae3"
    using b(2) w3(2) by simp
  moreover have "ae_packets ae3 = drop d (waiting t ip) @ [p]" using ae(2) by (simp add: ae3_def ae2_def)
  moreover have "at_get t ip = None \<longrightarrow> due \<and> \<not> ae_known ae3"
    using ae(4) by (simp add: due_def ae3_def ae2_def new_entry_def jiffies_less_def)
  moreover have "\<forall>ae0. at_get t ip = Some ae0 \<longrightarrow> ae_known ae3 = ae_known ae0"
    using ae(5) by (simp add: ae3_def ae2_def)
  moreover have "at_packet_capacity (t3\<lparr> at_table := ht_balance ip_hashcode (at_table t3) \<rparr>) = at_packet_capacity t"
    using t2(6) cc(1) by (simp add: t3_def)
  moreover have "at_packet_capacity t = 0 \<or> at_packet_count t < at_packet_capacity t \<longrightarrow>
      d = 0 \<and> at_packet_count (t3\<lparr> at_table := ht_balance ip_hashcode (at_table t3) \<rparr>) \<le> at_packet_count t + 1"
    using t2(7) cc by (auto simp: t3_def)
  moreover have "at_timeout_j (t3\<lparr> at_table := ht_balance ip_hashcode (at_table t3) \<rparr>) = at_timeout_j t"
    using t2(2) c by (simp add: t3_def)
  moreover have "\<forall>ae0. at_get t ip = Some ae0 \<longrightarrow> ae_eth ae3 = ae_eth ae0"
    using ae(5) by (simp add: ae3_def ae2_def)
  moreover have "kept ip t (t3\<lparr> at_table := ht_balance ip_hashcode (at_table t3) \<rparr>)"
    by (rule kept_trans [OF kept_trans [OF kp k(6)] kept_trans [OF t2(8) kept_same]]) (simp add: b(2) w3(2))
  ultimately show ?thesis by (intro exI conjI)
qed

lemma arp_wf_begin:
  assumes "arp_wf j k t"
  shows "arp_wf j k (t\<lparr> at_table := fst (ht_begin (at_table t)) \<rparr>)"
    "at_get (t\<lparr> at_table := fst (ht_begin (at_table t)) \<rparr>) = at_get t"
proof -
  have h: "ht_inv ip_hashcode (at_table t)" using assms by (simp add: arp_wf_def)
  show g: "at_get (t\<lparr> at_table := fst (ht_begin (at_table t)) \<rparr>) = at_get t"
    using ht_begin_keeps(2) [OF h] by (simp add: at_get_def [abs_def])
  show "arp_wf j k (t\<lparr> at_table := fst (ht_begin (at_table t)) \<rparr>)"
    using assms ht_begin_keeps(1) [OF h] by (simp add: arp_wf_def g)
qed

lemma arp_clear_ok: "arp_inv t \<Longrightarrow> arp_inv (arp_clear t) \<and> at_get (arp_clear t) = Map.empty"
proof -
  assume "arp_inv t"
  then have h: "ht_inv ip_hashcode (at_table t)" by (simp add: arp_inv_def arp_wf_def)
  note b = ht_begin_keeps [OF h]
  have "ht_find ip_hashcode (at_table t) k = None" if "k \<notin> fst ` set (ht_entries (at_table t))" for k
    using that ht.entries_map [OF h] by (metis map_of_eq_None_iff)
  then have "at_get (arp_clear t) = Map.empty"
    using hc.fold_del [OF b(1), of "map fst (ht_entries (at_table t))"] b(2)
    by (auto simp: at_get_def [abs_def] arp_clear_def Let_def)
  moreover have "ht_inv ip_hashcode (at_table (arp_clear t))"
    using hc.fold_del [OF b(1)] by (simp add: arp_clear_def Let_def)
  moreover have "at_age (arp_clear t) = []" "at_entry_count (arp_clear t) = 0" "at_packet_count (arp_clear t) = 0"
    by (simp_all add: arp_clear_def Let_def)
  ultimately show ?thesis by (simp add: arp_inv_def arp_wf_def)
qed

lemma arp_lookup_ok:
  assumes "arp_inv t"
  shows "arp_inv (snd (arp_lookup now ip poll t))" "waiting (snd (arp_lookup now ip poll t)) = waiting t"
    "at_timeout_j (snd (arp_lookup now ip poll t)) = at_timeout_j t"
    "fst (arp_lookup now ip poll t) = None \<longleftrightarrow> (\<forall>ae. at_get t ip = Some ae \<longrightarrow> \<not> ae_usable now (at_timeout_j t) ae)"
    "fst (arp_lookup now ip poll t) = None \<Longrightarrow> snd (arp_lookup now ip poll t) = t"
    "fst (arp_lookup now ip poll t) = Some (eth, due) \<Longrightarrow> \<not> is_broadcast eth"
proof -
  have w: "arp_wf 0 0 t" using assms by (simp add: arp_inv_def)
  have "arp_inv (at_update ip (ae\<lparr> ae_polled_at_j := now \<rparr>) t) \<and> waiting (at_update ip (ae\<lparr> ae_polled_at_j := now \<rparr>) t) = waiting t"
    if ae: "at_get t ip = Some ae" for ae
  proof -
    have "ae_known ae \<Longrightarrow> \<not> is_broadcast (ae_eth ae)" using w ae by (auto simp: arp_wf_def)
    then have "arp_wf 0 0 (at_update ip (ae\<lparr> ae_polled_at_j := now \<rparr>) t)"
      "at_get (at_update ip (ae\<lparr> ae_polled_at_j := now \<rparr>) t) = (at_get t)(ip \<mapsto> ae\<lparr> ae_polled_at_j := now \<rparr>)"
      using arp_wf_update [OF w ae, of "ae\<lparr> ae_polled_at_j := now \<rparr>" "at_packet_count t" "at_age t"]
      by (simp_all add: at_update_def)
    then show ?thesis using assms ae by (auto simp: arp_inv_def waiting_def fun_eq_iff)
  qed
  then show "arp_inv (snd (arp_lookup now ip poll t))" "waiting (snd (arp_lookup now ip poll t)) = waiting t"
    using assms by (auto simp: arp_lookup_def Let_def split: option.split)
  show "at_timeout_j (snd (arp_lookup now ip poll t)) = at_timeout_j t"
    "fst (arp_lookup now ip poll t) = None \<longleftrightarrow> (\<forall>ae. at_get t ip = Some ae \<longrightarrow> \<not> ae_usable now (at_timeout_j t) ae)"
    by (auto simp: arp_lookup_def Let_def split: option.split)
  show "fst (arp_lookup now ip poll t) = None \<Longrightarrow> snd (arp_lookup now ip poll t) = t"
    by (auto simp: arp_lookup_def Let_def split: option.splits if_splits)
  show "fst (arp_lookup now ip poll t) = Some (eth, due) \<Longrightarrow> \<not> is_broadcast eth"
    using w by (auto simp: arp_lookup_def Let_def ae_usable_def arp_wf_def split: option.splits if_splits)
qed

lemma arp_timer_ok:
  assumes "arp_inv t"
  shows "\<exists>t' delay. arp_run_timer now t = Inr (t', delay) \<and> arp_inv t'"
proof -
  have w: "arp_wf 0 0 t" using assms by (simp add: arp_inv_def)
  from slim_ok [OF w le0, of now] obtain t' where
    s: "slim now t = Inr t'" "arp_wf 0 0 t'" "at_entry_capacity t' = at_entry_capacity t" "at_packet_capacity t' = at_packet_capacity t"
      "at_packet_count t' \<le> at_packet_count t" "at_age t' \<noteq> [] \<longrightarrow> at_entry_capacity t \<noteq> 0 \<longrightarrow> at_entry_count t' \<le> at_entry_capacity t"
    by blast
  have "at_entry_capacity t \<noteq> 0 \<longrightarrow> at_entry_count t' \<le> at_entry_capacity t"
    using s(2,6) by (cases "at_age t' = []") (auto simp: arp_wf_def)
  then show ?thesis using s assms by (auto simp: arp_run_timer_def arp_inv_def)
qed

section \<open>Every sequence of operations\<close>

text \<open>The operations of the table with their arguments, and a run of any number of them.\<close>

datatype arp_op =
    Op_insert bool u32 ipaddr ethaddr bool
  | Op_append bool u32 ipaddr packet
  | Op_lookup u32 ipaddr u32
  | Op_reverse ethaddr
  | Op_timer u32
  | Op_command bool u32 arp_command

fun arp_apply :: "arp_op \<Rightarrow> arp_table \<Rightarrow> arp_table exec" where
  "arp_apply (Op_insert room now ip eth drain) t = ebind (arp_insert room now ip eth drain t) (\<lambda>(_, _, t). Inr t)"
| "arp_apply (Op_append room now ip p) t = ebind (append_query room now ip p t) (\<lambda>(_, t). Inr t)"
| "arp_apply (Op_lookup now ip poll) t = Inr (snd (arp_lookup now ip poll t))"
| "arp_apply (Op_reverse eth) t = Inr (snd (reverse_lookup eth t))"
| "arp_apply (Op_timer now) t = ebind (arp_run_timer now t) (\<lambda>(t, _). Inr t)"
| "arp_apply (Op_command room now c) t = arp_write_handler room now c t"

fun arp_run :: "arp_op list \<Rightarrow> arp_table \<Rightarrow> arp_table exec" where
  "arp_run [] t = Inr t"
| "arp_run (c # cs) t = ebind (arp_apply c t) (arp_run cs)"

lemma arp_insert_inv:
  "arp_inv t \<Longrightarrow> \<exists>t'. ebind (arp_insert room now ip eth drain t) (\<lambda>(_, _, t). Inr t) = Inr t' \<and> arp_inv t'"
proof (cases "room \<or> at_get t ip \<noteq> None")
  case True
  assume "arp_inv t"
  from arp_insert_ok [OF this True, of now eth drain] show ?thesis by auto
qed (simp add: arp_insert_no_memory)

lemma append_query_inv:
  "arp_inv t \<Longrightarrow> \<exists>r t'. append_query room now ip p t = Inr (r, t') \<and> arp_inv t'"
proof -
  assume i: "arp_inv t"
  consider "room \<or> at_get t ip \<noteq> None" "\<forall>ae. at_get t ip = Some ae \<longrightarrow> \<not> ae_usable now (at_timeout_j t) ae"
    | "\<not> room" "at_get t ip = None" | ae where "at_get t ip = Some ae" "ae_usable now (at_timeout_j t) ae" by blast
  then show ?thesis
  proof cases
    case 1
    from append_query_ok [OF i this, of p] show ?thesis by blast
  qed (use i in \<open>simp_all add: append_query_def ensure_def\<close>)
qed

lemma arp_apply_inv: "arp_inv t \<Longrightarrow> \<exists>t'. arp_apply c t = Inr t' \<and> arp_inv t'"
proof -
  assume i: "arp_inv t"
  show ?thesis
  proof (cases c)
    case (Op_append room now ip p)
    then show ?thesis using append_query_inv [OF i, of room now ip p] by auto
  next
    case (Op_reverse eth)
    have "arp_wf 0 0 t" using i by (simp add: arp_inv_def)
    from arp_wf_begin(1) [OF this] show ?thesis
      using i Op_reverse by (simp add: arp_inv_def reverse_lookup_def)
  next
    case (Op_timer now)
    then show ?thesis using arp_timer_ok [OF i, of now] by auto
  next
    case (Op_command room now cmd)
    then show ?thesis using arp_insert_inv [OF i] arp_clear_ok [OF i] by (cases cmd) auto
  qed (use arp_insert_inv [OF i] arp_lookup_ok(1) [OF i] in auto)
qed

lemma arp_configure_inv: "arp_inv (fst (arp_configure cap entry_cap timeout arp_new))"
  by (rule arp_inv_empty) (simp_all add: arp_configure_def Let_def set_timeout_def arp_new_def split: option.split prod.split)


end
