(* ===== verification/Click_ARPResponder.thy ===== *)
theory Click_ARPResponder
  imports Click_ARPTable Click_Sort
begin

text \<open>
  \<^verbatim>\<open>ARPResponder\<close> (\<^verbatim>\<open>click/elements/ethernet/arpresponder.cc\<close>): the element that answers ARP requests for the addresses it is
  configured with. The words of a configuration are given by what they parse to, as an IP prefix and as an Ethernet address. The theory has the
  ARP packets both elements write, the responder's operations, and what its lookups find after the entries have been sorted.
\<close>

section \<open>ARP packets\<close>

abbreviation (input) ETHERTYPE_IP :: u16 where "ETHERTYPE_IP \<equiv> 0x0800"
abbreviation (input) ETHERTYPE_ARP :: u16 where "ETHERTYPE_ARP \<equiv> 0x0806"
abbreviation (input) ARPHRD_ETHER :: u16 where "ARPHRD_ETHER \<equiv> 1"
abbreviation (input) ARPOP_REQUEST :: u16 where "ARPOP_REQUEST \<equiv> 1"
abbreviation (input) ARPOP_REPLY :: u16 where "ARPOP_REPLY \<equiv> 2"

text \<open>The Ethernet header and the ARP body, as the two elements write them.\<close>

definition arp_frame :: "ethaddr \<Rightarrow> ethaddr \<Rightarrow> u16 \<Rightarrow> ethaddr \<Rightarrow> byte list \<Rightarrow> ethaddr \<Rightarrow> byte list \<Rightarrow> byte list" where
  "arp_frame dhost shost arpop sha spa tha tpa =
     dhost @ shost @ bytes16 (htons ETHERTYPE_ARP) @
     bytes16 (htons ARPHRD_ETHER) @ bytes16 (htons ETHERTYPE_IP) @ [6, 4] @ bytes16 (htons arpop) @
     sha @ spa @ tha @ tpa"

definition arp_is :: "u16 \<Rightarrow> byte list \<Rightarrow> bool exec" where
  "arp_is arpop d =
     ebind (read16 d 12) (\<lambda>ty. ebind (read16 d 14) (\<lambda>hrd. ebind (read16 d 16) (\<lambda>pro. ebind (read16 d 20) (\<lambda>x.
       Inr (ntohs ty = ETHERTYPE_ARP \<and> ntohs hrd = ARPHRD_ETHER \<and> ntohs pro = ETHERTYPE_IP \<and> ntohs x = arpop)))))"

section \<open>\<^verbatim>\<open>ARPResponder\<close>\<close>

record arp_binding =
  ab_dst :: ipaddr
  ab_mask :: ipaddr
  ab_ena :: ethaddr

datatype add_error = More_than_one_eth | Expected_ip_eth | Missing_ip | Missing_eth

type_synonym conf_word = "(ipaddr \<times> ipaddr) option \<times> ethaddr option"

text \<open>The first loop of \<open>add\<close>: the prefixes in order and the Ethernet address, if any.\<close>

fun add_words :: "conf_word list \<Rightarrow> (ipaddr \<times> ipaddr) list \<Rightarrow> ethaddr option \<Rightarrow>
    add_error + (ipaddr \<times> ipaddr) list \<times> ethaddr option" where
  "add_words [] ps ena = Inr (ps, ena)"
| "add_words ((Some (addr, m), _) # ws) ps ena = add_words ws (ps @ [(addr AND m, m)]) ena"
| "add_words ((None, Some e) # ws) ps ena = (if ena \<noteq> None then Inl More_than_one_eth else add_words ws ps (Some e))"
| "add_words ((None, None) # ws) ps ena = Inl Expected_ip_eth"

definition responder_add :: "conf_word list \<Rightarrow> arp_binding list \<Rightarrow> add_error + arp_binding list" where
  "responder_add ws v =
     (case add_words ws [] None of
        Inl err \<Rightarrow> Inl err
      | Inr (ps, ena) \<Rightarrow>
          (let ena = (case ena of Some e \<Rightarrow> Some e | None \<Rightarrow> (case filter (\<lambda>e. e \<noteq> None) (map snd ws) of [] \<Rightarrow> None | e # _ \<Rightarrow> e)) in
           if ps = [] then Inl Missing_ip
           else (case ena of
                   None \<Rightarrow> Inl Missing_eth
                 | Some e \<Rightarrow> Inr (v @ map (\<lambda>(d, m). \<lparr> ab_dst = d, ab_mask = m, ab_ena = e \<rparr>) ps))))"

definition entry_compare :: "arp_binding list \<Rightarrow> nat \<Rightarrow> nat \<Rightarrow> int" where
  "entry_compare v a b =
     (let ea = v ! a; eb = v ! b in
      if ab_dst ea = ab_dst eb \<and> ab_mask ea = ab_mask eb then int b - int a
      else if (ab_dst ea AND ab_mask eb) = ab_dst eb then - 1
      else if (ab_dst eb AND ab_mask ea) = ab_dst ea then 1
      else int a - int b)"

text \<open>The loop of \<open>normalize\<close> that leaves out entries equal to their predecessor.\<close>

fun drop_repeats :: "arp_binding list \<Rightarrow> arp_binding list \<Rightarrow> arp_binding list" where
  "drop_repeats nv [] = nv"
| "drop_repeats nv (e # es) =
     drop_repeats (if nv = [] \<or> ab_dst (last nv) \<noteq> ab_dst e \<or> ab_mask (last nv) \<noteq> ab_mask e then nv @ [e] else nv) es"

definition normalize :: "arp_binding list \<Rightarrow> arp_binding list exec" where
  "normalize v = ebind (click_qsort (entry_compare v) [0..<length v]) (\<lambda>perm. Inr (drop_repeats [] (map (nth v) perm)))"

text \<open>\<open>configure\<close>: all arguments are added, those with errors are skipped; any error makes it fail.\<close>

fun add_all :: "conf_word list list \<Rightarrow> arp_binding list \<Rightarrow> nat \<Rightarrow> arp_binding list \<times> nat" where
  "add_all [] v errs = (v, errs)"
| "add_all (ws # conf) v errs = (case responder_add ws v of Inl _ \<Rightarrow> add_all conf v (errs + 1) | Inr v \<Rightarrow> add_all conf v errs)"

definition responder_configure :: "conf_word list list \<Rightarrow> arp_binding list \<Rightarrow> (bool \<times> arp_binding list) exec" where
  "responder_configure conf old =
     (case add_all conf [] 0 of (v, errs) \<Rightarrow>
        if errs = 0 then ebind (normalize v) (\<lambda>v. Inr (True, v)) else Inr (False, old))"

definition responder_add_handler :: "conf_word list \<Rightarrow> arp_binding list \<Rightarrow> (bool \<times> arp_binding list) exec" where
  "responder_add_handler ws old =
     (case responder_add ws old of Inl _ \<Rightarrow> Inr (False, old) | Inr v \<Rightarrow> ebind (normalize v) (\<lambda>v. Inr (True, v)))"

fun erase_binding :: "ipaddr \<Rightarrow> ipaddr \<Rightarrow> arp_binding list \<Rightarrow> arp_binding list option" where
  "erase_binding a m [] = None"
| "erase_binding a m (e # es) =
     (if ab_dst e = a \<and> ab_mask e = m then Some es else map_option (Cons e) (erase_binding a m es))"

definition responder_remove_handler :: "(ipaddr \<times> ipaddr) option \<Rightarrow> arp_binding list \<Rightarrow> bool \<times> arp_binding list" where
  "responder_remove_handler w v =
     (case w of
        None \<Rightarrow> (False, v)
      | Some (addr, m) \<Rightarrow> (case erase_binding (addr AND m) m v of None \<Rightarrow> (False, v) | Some v \<Rightarrow> (True, v)))"

definition responder_lookup :: "arp_binding list \<Rightarrow> ipaddr \<Rightarrow> ethaddr option" where
  "responder_lookup v addr = map_option ab_ena (find (\<lambda>e. (addr AND ab_mask e) = ab_dst e) v)"

text \<open>\<open>make_response\<close>; the device and VLAN annotations have no model.\<close>

definition make_response :: "allocator \<Rightarrow> ethaddr \<Rightarrow> byte list \<Rightarrow> ethaddr \<Rightarrow> byte list \<Rightarrow> packet option exec" where
  "make_response mem target_eth target_ip src_eth src_ip =
     (case packet_make mem default_headroom None 42 0 of
        None \<Rightarrow> Inr None
      | Some q \<Rightarrow> ebind (set_mac_header (length (headroom_bytes q)) 14 q) (\<lambda>q.
          Inr (Some (q\<lparr> pdata := arp_frame target_eth src_eth ARPOP_REPLY src_eth src_ip target_eth target_ip \<rparr>))))"

text \<open>\<open>simple_action\<close>: the response, or the packet itself on the second output if there is one.\<close>

definition responder_simple_action ::
  "allocator \<Rightarrow> nat \<Rightarrow> arp_binding list \<Rightarrow> packet \<Rightarrow> (packet option \<times> (nat \<times> packet) list) exec" where
  "responder_simple_action mem noutputs v p =
     ebind (if plength p \<ge> 42 then arp_is ARPOP_REQUEST (pdata p) else Inr False) (\<lambda>request.
     ebind (if request
            then ebind (read32 (pdata p) 38) (\<lambda>ipa. case responder_lookup v ipa of
                   None \<Rightarrow> Inr None
                 | Some ena \<Rightarrow>
                     ebind (read_bytes (pdata p) 22 6) (\<lambda>sha. ebind (read_bytes (pdata p) 28 4) (\<lambda>spa.
                     ebind (read_bytes (pdata p) 38 4) (\<lambda>tpa. make_response mem sha spa ena tpa))))
            else Inr None) (\<lambda>q.
     Inr (q, if q = None \<and> noutputs > 1 then [(1, p)] else [])))"

section \<open>The entries of a responder\<close>

definition covers :: "arp_binding \<Rightarrow> ipaddr \<Rightarrow> bool" where
  "covers e addr \<longleftrightarrow> (addr AND ab_mask e) = ab_dst e"

lemma responder_lookup_covers: "responder_lookup v addr = map_option ab_ena (find (\<lambda>e. covers e addr) v)"
  by (simp add: responder_lookup_def covers_def)

lemma find_append: "find P (xs @ ys) = (case find P xs of None \<Rightarrow> find P ys | Some x \<Rightarrow> Some x)"
  by (induction xs) auto

text \<open>Leaving out repeated prefixes changes no lookup.\<close>

lemma find_drop_repeats: "find (\<lambda>e. covers e addr) (drop_repeats nv es) = find (\<lambda>e. covers e addr) (nv @ es)"
proof (induction nv es rule: drop_repeats.induct)
  case (2 nv e es)
  show ?case
  proof (cases "nv = [] \<or> ab_dst (last nv) \<noteq> ab_dst e \<or> ab_mask (last nv) \<noteq> ab_mask e")
    case True
    then show ?thesis using "2.IH" by simp
  next
    case False
    then have "last nv \<in> set nv" "covers (last nv) addr \<longleftrightarrow> covers e addr" by (simp_all add: covers_def)
    then have "covers e addr \<Longrightarrow> find (\<lambda>e. covers e addr) nv \<noteq> None" unfolding find_None_iff by blast
    then have "find (\<lambda>e. covers e addr) (nv @ e # es) = find (\<lambda>e. covers e addr) (nv @ es)"
      by (auto simp: find_append split: option.split)
    then show ?thesis using "2.IH" False by simp
  qed
qed simp

lemma set_drop_repeats: "set (drop_repeats nv es) \<subseteq> set nv \<union> set es"
  by (induction nv es rule: drop_repeats.induct) (auto split: if_splits)

text \<open>
  What \<open>normalize\<close> does to lookups: an address finds an entry exactly if one covers it; and if the comparison is consistent on the
  entries, the entry found is the most specific one, and of several with the same prefix the last.
\<close>

lemma normalize_ok:
  assumes "length v < 2 ^ 64"
  shows "\<exists>w. normalize v = Inr w \<and> set w \<subseteq> set v \<and>
     (\<forall>addr. find (\<lambda>e. covers e addr) w = None \<longleftrightarrow> find (\<lambda>e. covers e addr) v = None) \<and>
     (consistent_on {0..<length v} (entry_compare v) \<longrightarrow>
        (\<forall>addr e. find (\<lambda>e. covers e addr) w = Some e \<longrightarrow>
           (\<exists>i < length v. e = v ! i \<and> (\<forall>j < length v. covers (v ! j) addr \<and> (ab_mask (v ! j) AND ab_mask e) = ab_mask e \<longrightarrow>
              ab_mask (v ! j) = ab_mask e \<and> ab_dst (v ! j) = ab_dst e \<and> j \<le> i))))"
proof -
  from click_qsort_ok [of "[0..<length v]" "entry_compare v"] assms obtain perm where
    q: "click_qsort (entry_compare v) [0..<length v] = Inr perm" "mset perm = mset [0..<length v]"
      "consistent_on {0..<length v} (entry_compare v) \<longrightarrow> ordered (entry_compare v) 0 (length perm) perm" by auto
  have sp: "set perm = {0..<length v}" using mset_eq_setD [OF q(2)] by simp
  have sv: "set (map (nth v) perm) = set v" using sp by (simp add: set_conv_nth [of v] image_def)  (metis atLeastLessThan_iff le0)
  define w where "w = drop_repeats [] (map (nth v) perm)"
  have f: "find (\<lambda>e. covers e addr) w = find (\<lambda>e. covers e addr) (map (nth v) perm)" for addr
    by (simp add: w_def find_drop_repeats)
  have "find (\<lambda>e. covers e addr) w = None \<longleftrightarrow> find (\<lambda>e. covers e addr) v = None" for addr
    unfolding f find_None_iff using sv by blast
  moreover have "set w \<subseteq> set v" using set_drop_repeats [of "[]" "map (nth v) perm"] sv by (simp add: w_def)
  moreover have "\<exists>i < length v. e = v ! i \<and> (\<forall>j < length v. covers (v ! j) addr \<and> (ab_mask (v ! j) AND ab_mask e) = ab_mask e \<longrightarrow>
      ab_mask (v ! j) = ab_mask e \<and> ab_dst (v ! j) = ab_dst e \<and> j \<le> i)"
    if c: "consistent_on {0..<length v} (entry_compare v)" and e: "find (\<lambda>e. covers e addr) w = Some e" for addr e
  proof -
    from e [unfolded f find_Some_iff] obtain k where k: "k < length perm" "e = v ! (perm ! k)" "covers e addr"
      "\<forall>j < k. \<not> covers (v ! (perm ! j)) addr" by auto
    let ?i = "perm ! k"
    have i: "?i < length v" using nth_mem [OF k(1)] sp by simp
    have "ab_mask (v ! j) = ab_mask e \<and> ab_dst (v ! j) = ab_dst e \<and> j \<le> ?i"
      if j: "j < length v" "covers (v ! j) addr" "(ab_mask (v ! j) AND ab_mask e) = ab_mask e" for j
    proof -
      obtain m where m: "m < length perm" "perm ! m = j" using j(1) sp by (metis atLeastLessThan_iff in_set_conv_nth le0)
      have "k \<le> m" using k(4) j(2) m by (meson not_le)
      then have "k = m \<or> entry_compare v ?i j \<le> 0" using q(3) c m k(1) by (auto simp: ordered_def le_less)
      moreover have le: "entry_compare v ?i ?i \<le> 0" by (simp add: entry_compare_def)
      ultimately have ij: "entry_compare v ?i j \<le> 0" using m(2) by auto
      have "ab_dst (v ! j) AND ab_mask e = addr AND (ab_mask (v ! j) AND ab_mask e)"
        unfolding j(2) [unfolded covers_def, symmetric] by (simp add: and.assoc)
      also have "\<dots> = ab_dst e" using j(3) k(3) by (simp add: covers_def)
      finally have "ab_dst (v ! j) AND ab_mask e = ab_dst e" .
      then have ji: "ab_dst (v ! j) = ab_dst e \<and> ab_mask (v ! j) = ab_mask e \<or> entry_compare v j ?i = - 1"
        using k(2) by (auto simp: entry_compare_def Let_def)
      have "0 \<le> entry_compare v j ?i" using consistent_flip [OF c, of j ?i] i j(1) ij by simp
      then have same: "ab_dst (v ! j) = ab_dst e \<and> ab_mask (v ! j) = ab_mask e" using ji by auto
      then have "entry_compare v ?i j = int j - int ?i" using k(2) by (simp add: entry_compare_def)
      with ij same show ?thesis by simp
    qed
    with i k(2) show ?thesis by blast
  qed
  ultimately show ?thesis using q(1) by (intro exI [of _ w]) (simp add: normalize_def w_def)
qed

text \<open>
  C25. What a responder answers. A configuration without errors is accepted whatever the order of its entries; then an address is answered
  exactly if one of the configured prefixes covers it, with the Ethernet address of such a prefix. If the comparison that sorts the entries is
  consistent on them, it is the most specific prefix, and the last one given when a prefix was given more than once.
\<close>

theorem responder_lookup_correct:
  assumes "add_all conf [] 0 = (v, 0)" and "length v < 2 ^ 64"
  shows "\<exists>w. responder_configure conf old = Inr (True, w) \<and>
     (\<forall>addr. (responder_lookup w addr = None) = (\<nexists>e. e \<in> set v \<and> (addr AND ab_mask e) = ab_dst e)) \<and>
     (\<forall>addr ena. responder_lookup w addr = Some ena \<longrightarrow> (\<exists>e \<in> set v. (addr AND ab_mask e) = ab_dst e \<and> ab_ena e = ena)) \<and>
     (consistent_on {0..<length v} (entry_compare v) \<longrightarrow> (\<forall>addr ena. responder_lookup w addr = Some ena \<longrightarrow>
        (\<exists>i < length v. ab_ena (v ! i) = ena \<and> (addr AND ab_mask (v ! i)) = ab_dst (v ! i) \<and>
           (\<forall>j < length v. (addr AND ab_mask (v ! j)) = ab_dst (v ! j) \<and> (ab_mask (v ! j) AND ab_mask (v ! i)) = ab_mask (v ! i) \<longrightarrow>
              ab_mask (v ! j) = ab_mask (v ! i) \<and> ab_dst (v ! j) = ab_dst (v ! i) \<and> j \<le> i))))"
proof -
  from normalize_ok [OF assms(2)] obtain w where
    w: "normalize v = Inr w" "set w \<subseteq> set v"
      "\<forall>addr. find (\<lambda>e. covers e addr) w = None \<longleftrightarrow> find (\<lambda>e. covers e addr) v = None"
      "consistent_on {0..<length v} (entry_compare v) \<longrightarrow>
        (\<forall>addr e. find (\<lambda>e. covers e addr) w = Some e \<longrightarrow>
           (\<exists>i < length v. e = v ! i \<and> (\<forall>j < length v. covers (v ! j) addr \<and> (ab_mask (v ! j) AND ab_mask e) = ab_mask e \<longrightarrow>
              ab_mask (v ! j) = ab_mask e \<and> ab_dst (v ! j) = ab_dst e \<and> j \<le> i)))" by blast
  have c: "responder_configure conf old = Inr (True, w)" using assms(1) w(1) by (simp add: responder_configure_def)
  have s: "\<exists>e. find (\<lambda>e. covers e addr) w = Some e \<and> e \<in> set v \<and> covers e addr \<and> ab_ena e = ena"
    if "responder_lookup w addr = Some ena" for addr ena
  proof -
    from that obtain e where e: "find (\<lambda>e. covers e addr) w = Some e" "ab_ena e = ena" by (auto simp: responder_lookup_covers)
    then have "e \<in> set w" "covers e addr" by (auto simp: find_Some_iff)
    with e w(2) show ?thesis by blast
  qed
  have n: "(responder_lookup w addr = None) = (\<nexists>e. e \<in> set v \<and> (addr AND ab_mask e) = ab_dst e)" for addr
    using w(3) unfolding responder_lookup_covers by (simp add: find_None_iff covers_def)
  have l: "\<exists>i < length v. ab_ena (v ! i) = ena \<and> (addr AND ab_mask (v ! i)) = ab_dst (v ! i) \<and>
      (\<forall>j < length v. (addr AND ab_mask (v ! j)) = ab_dst (v ! j) \<and> (ab_mask (v ! j) AND ab_mask (v ! i)) = ab_mask (v ! i) \<longrightarrow>
         ab_mask (v ! j) = ab_mask (v ! i) \<and> ab_dst (v ! j) = ab_dst (v ! i) \<and> j \<le> i)"
    if co: "consistent_on {0..<length v} (entry_compare v)" and lu: "responder_lookup w addr = Some ena" for addr ena
  proof -
    obtain e where e: "find (\<lambda>e. covers e addr) w = Some e" "covers e addr" "ab_ena e = ena" using s [OF lu] by blast
    then obtain i where i: "i < length v" "e = v ! i" "\<forall>j < length v. covers (v ! j) addr \<and> (ab_mask (v ! j) AND ab_mask e) = ab_mask e \<longrightarrow>
        ab_mask (v ! j) = ab_mask e \<and> ab_dst (v ! j) = ab_dst e \<and> j \<le> i" using w(4) co by blast
    show ?thesis
      using e(2,3) i(1) i(3) [unfolded covers_def i(2)] unfolding covers_def i(2) by (intro exI [of _ i] conjI)
  qed
  have t: "\<exists>e \<in> set v. (addr AND ab_mask e) = ab_dst e \<and> ab_ena e = ena" if "responder_lookup w addr = Some ena" for addr ena
    using s [OF that] by (auto simp: covers_def)
  show ?thesis by (intro exI [of _ w] conjI allI impI c n t l)
qed

definition ex_eth :: "byte \<Rightarrow> ethaddr" where
  "ex_eth b = [0, 0x50, 0xBA, 0x85, 0x84, b]"

definition ex_binding :: "ipaddr \<Rightarrow> ipaddr \<Rightarrow> byte \<Rightarrow> arp_binding" where
  "ex_binding a m b = \<lparr> ab_dst = a, ab_mask = m, ab_ena = ex_eth b \<rparr>"

text \<open>The configuration of a responder in \<^verbatim>\<open>router.click\<close>: one name that is both an IP and an Ethernet address.\<close>

definition ex_word :: "ipaddr \<Rightarrow> byte \<Rightarrow> conf_word" where
  "ex_word a b = (Some (a, 0xFFFFFFFF), Some (ex_eth b))"

lemma and_full_mask [simp]: "a AND 0xFFFFFFFF = (a :: ipaddr)"
proof -
  have "(0xFFFFFFFF :: ipaddr) = - 1" by simp
  then show ?thesis by (metis and.right_neutral)
qed

lemma ex_add_all: "add_all [[ex_word a b]] [] 0 = ([ex_binding a 0xFFFFFFFF b], 0)"
  by (simp add: responder_add_def ex_word_def ex_binding_def)

lemma ex_responder_lookup:
  assumes "\<forall>addr. (responder_lookup w addr = None) = (\<nexists>e. e \<in> set [ex_binding a 0xFFFFFFFF b] \<and> (addr AND ab_mask e) = ab_dst e)"
    and "\<forall>addr ena. responder_lookup w addr = Some ena \<longrightarrow>
       (\<exists>e \<in> set [ex_binding a 0xFFFFFFFF b]. (addr AND ab_mask e) = ab_dst e \<and> ab_ena e = ena)"
  shows "responder_lookup w a = Some (ex_eth b)" and "addr \<noteq> a \<Longrightarrow> responder_lookup w addr = None"
proof -
  have n: "(responder_lookup w x = None) = (x \<noteq> a)" for x using assms(1) by (simp add: ex_binding_def)
  then obtain ena where e: "responder_lookup w a = Some ena" by blast
  with assms(2) [rule_format, OF e] show "responder_lookup w a = Some (ex_eth b)" by (simp add: ex_binding_def)
  show "addr \<noteq> a \<Longrightarrow> responder_lookup w addr = None" using n by blast
qed

theorem responder_lookup_correct_witness:
  "\<exists>w. responder_configure [[ex_word 0xFE02A8C0 1]] [] = Inr (True, w) \<and>
     responder_lookup w 0xFE02A8C0 = Some (ex_eth 1) \<and> responder_lookup w 0x0102A8C0 = None"
proof -
  have "length [ex_binding 0xFE02A8C0 0xFFFFFFFF 1] < 2 ^ 64" by simp
  from responder_lookup_correct [OF ex_add_all this, of "[]"] obtain w where
    w: "responder_configure [[ex_word 0xFE02A8C0 1]] [] = Inr (True, w)"
      "\<forall>addr. (responder_lookup w addr = None) = (\<nexists>e. e \<in> set [ex_binding 0xFE02A8C0 0xFFFFFFFF 1] \<and> (addr AND ab_mask e) = ab_dst e)"
      "\<forall>addr ena. responder_lookup w addr = Some ena \<longrightarrow>
         (\<exists>e \<in> set [ex_binding 0xFE02A8C0 0xFFFFFFFF 1]. (addr AND ab_mask e) = ab_dst e \<and> ab_ena e = ena)"
    by (elim exE conjE)
  then show ?thesis using ex_responder_lookup [OF w(2,3)] by (intro exI [of _ w] conjI) simp_all
qed

text \<open>
  Specific prefixes can come last. The comparison that orders a responder's entries is not transitive: three prefixes are given, the
  third within the first and the second unrelated, and the order stays as it is. An address of the third is answered with the Ethernet
  address of the first.
\<close>

lemma responder_specific_last:
  "(case responder_configure [[(Some (0x0000000A, 0x000000FF), None), (None, Some (ex_eth 1))],
        [(Some (0x00000014, 0x000000FF), None), (None, Some (ex_eth 2))],
        [(Some (0x0000010A, 0x0000FFFF), None), (None, Some (ex_eth 3))]] [] of
      Inl _ \<Rightarrow> None | Inr (ok, w) \<Rightarrow> if ok then responder_lookup w 0x0100010A else None) = Some (ex_eth 1)"
  by code_simp

end
