(* ===== verification/Click_ARPQuerier.thy ===== *)
theory Click_ARPQuerier
  imports Click_ARPResponder
begin

text \<open>
  \<^verbatim>\<open>ARPQuerier\<close> (\<^verbatim>\<open>click/elements/ethernet/arpquerier.cc\<close>): the element that finds the Ethernet address of the next hop, keeping packets in
  its \<^verbatim>\<open>ARPTable\<close> meanwhile. The time is read once for each packet.
  The theory ends with the resolution of an address from end to end, by a querier and a responder.
\<close>

section \<open>\<^verbatim>\<open>ARPQuerier\<close>\<close>

record arp_querier =
  aq_table :: arp_table
  aq_my_en :: ethaddr
  aq_my_ip :: ipaddr
  aq_my_bcast_ip :: ipaddr
  aq_poll_timeout_j :: u32
  aq_broadcast_poll :: bool
  aq_queries :: nat
  aq_drops :: nat
  aq_responses :: nat
  aq_my_arpt :: bool
  aq_zero_warned :: bool
  aq_noutputs :: nat

text \<open>The optional arguments of \<open>configure\<close>, \<open>None\<close> where one is not given, timeouts as seconds and milliseconds.\<close>

record aq_options =
  op_capacity :: "nat option"
  op_entry_capacity :: "nat option"
  op_timeout :: "(u32 \<times> u32) option"
  op_broadcast :: "ipaddr option"
  op_table :: "arp_table option"
  op_poll_timeout :: "(u32 \<times> u32) option"
  op_broadcast_poll :: "bool option"

definition poll_jiffies :: "u32 \<times> u32 \<Rightarrow> u32" where
  "poll_jiffies ts = (case ts of (sec, ms) \<Rightarrow> if sec \<ge> 0xFFFFFFFF div CLICK_HZ then 0 else sec * CLICK_HZ + ms)"

definition broadcast_of :: "ipaddr \<Rightarrow> ipaddr \<Rightarrow> ipaddr option \<Rightarrow> ipaddr" where
  "broadcast_of my_ip my_mask given =
     (case given of
        Some b \<Rightarrow> b
      | None \<Rightarrow> (let b = my_ip OR NOT my_mask in if b = my_ip then 0xFFFFFFFF else b))"

definition aq_configure :: "aq_options \<Rightarrow> ipaddr \<Rightarrow> ipaddr \<Rightarrow> ethaddr \<Rightarrow> nat \<Rightarrow> arp_querier" where
  "aq_configure ops my_ip my_mask my_en noutputs =
     \<lparr> aq_table = (case op_table ops of
          Some t \<Rightarrow> t
        | None \<Rightarrow> fst (arp_configure (op_capacity ops) (op_entry_capacity ops) (op_timeout ops) arp_new)),
       aq_my_en = my_en, aq_my_ip = my_ip, aq_my_bcast_ip = broadcast_of my_ip my_mask (op_broadcast ops),
       aq_poll_timeout_j = poll_jiffies (case op_poll_timeout ops of None \<Rightarrow> (60, 0) | Some ts \<Rightarrow> ts),
       aq_broadcast_poll = (case op_broadcast_poll ops of None \<Rightarrow> False | Some b \<Rightarrow> b),
       aq_queries = 0, aq_drops = 0, aq_responses = 0, aq_my_arpt = (op_table ops = None), aq_zero_warned = False,
       aq_noutputs = noutputs \<rparr>"

definition aq_live_reconfigure :: "aq_options \<Rightarrow> ipaddr \<Rightarrow> ipaddr \<Rightarrow> ethaddr \<Rightarrow> arp_querier \<Rightarrow> arp_querier" where
  "aq_live_reconfigure ops my_ip my_mask my_en q =
     (let t = aq_table q;
          t = (if (my_ip \<noteq> aq_my_ip q \<or> my_en \<noteq> aq_my_en q) \<and> aq_my_arpt q then arp_clear t else t);
          own = (\<lambda>f x t. case x of Some x \<Rightarrow> if aq_my_arpt q then f x t else t | None \<Rightarrow> t);
          t = own (\<lambda>c t. t\<lparr> at_packet_capacity := c \<rparr>) (op_capacity ops) t;
          t = own (\<lambda>c t. t\<lparr> at_entry_capacity := c \<rparr>) (op_entry_capacity ops) t;
          t = (case op_timeout ops of Some (sec, ms) \<Rightarrow> if aq_my_arpt q then set_timeout sec ms t else t | None \<Rightarrow> t)
      in q\<lparr> aq_table := t, aq_my_ip := my_ip, aq_my_en := my_en,
            aq_my_bcast_ip := broadcast_of my_ip my_mask (op_broadcast ops),
            aq_broadcast_poll := (case op_broadcast_poll ops of None \<Rightarrow> aq_broadcast_poll q | Some b \<Rightarrow> b),
            aq_poll_timeout_j := (case op_poll_timeout ops of
               None \<Rightarrow> poll_jiffies (aq_poll_timeout_j q div CLICK_HZ, aq_poll_timeout_j q mod CLICK_HZ)
             | Some ts \<Rightarrow> poll_jiffies ts) \<rparr>)"

text \<open>\<open>take_state\<close>: the pair of the new states of this element and of the old one.\<close>

definition aq_take_state :: "arp_querier \<Rightarrow> arp_querier \<Rightarrow> arp_querier \<times> arp_querier" where
  "aq_take_state q old =
     (if aq_my_ip q \<noteq> aq_my_ip old \<or> aq_my_en q \<noteq> aq_my_en old \<or> aq_my_bcast_ip q \<noteq> aq_my_bcast_ip old then (q, old)
      else (let (t, u) = (if aq_my_arpt q \<and> aq_my_arpt old then arp_take_state (aq_table q) (aq_table old)
                          else (aq_table q, aq_table old))
            in (q\<lparr> aq_table := t, aq_queries := aq_queries old, aq_drops := aq_drops old, aq_responses := aq_responses old \<rparr>,
                old\<lparr> aq_table := u \<rparr>)))"

text \<open>What the MAC header pointer reaches, and a change there.\<close>

definition mac_view :: "packet \<Rightarrow> byte list exec" where
  "mac_view p = (case mac_header p of None \<Rightarrow> Inl Null_deref | Some off \<Rightarrow> Inr (drop off (buffer p)))"

definition on_mac :: "(byte list \<Rightarrow> byte list exec) \<Rightarrow> packet \<Rightarrow> packet exec" where
  "on_mac f p =
     (case mac_header p of
        None \<Rightarrow> Inl Null_deref
      | Some off \<Rightarrow> ebind (f (drop off (buffer p))) (\<lambda>v. Inr (set_buffer (take off (buffer p) @ v) p)))"

definition send_query_for ::
  "allocator \<Rightarrow> arp_querier \<Rightarrow> packet \<Rightarrow> bool \<Rightarrow> (arp_querier \<times> (nat \<times> packet) list) exec" where
  "send_query_for mem aq p ether_dhost_valid =
     (case packet_make mem (default_headroom - 14) None 42 0 of
        None \<Rightarrow> Inr (aq, [])
      | Some q \<Rightarrow>
          ebind (set_mac_header (length (headroom_bytes q)) 14 q) (\<lambda>q.
          ebind (if ether_dhost_valid \<and> \<not> aq_broadcast_poll aq then ebind (mac_view p) (\<lambda>h. read_bytes h 0 6)
                 else Inr make_broadcast) (\<lambda>dhost.
          Inr (aq\<lparr> aq_queries := aq_queries aq + 1 \<rparr>,
               [(aq_noutputs aq - 1, q\<lparr> pdata := arp_frame dhost (aq_my_en aq) ARPOP_REQUEST (aq_my_en aq)
                   (bytes32 (aq_my_ip aq)) (replicate 6 0) (bytes32 (dst_ip_anno p)) \<rparr>)]))))"

text \<open>The end of \<open>handle_ip\<close>: our address as source, and out.\<close>

definition aq_emit :: "arp_querier \<Rightarrow> ethaddr \<Rightarrow> packet \<Rightarrow> packet exec" where
  "aq_emit aq dst_eth q =
     ebind (on_mac (\<lambda>h. write_bytes h 0 dst_eth) q) (\<lambda>q. on_mac (\<lambda>h. write_bytes h 6 (aq_my_en aq)) q)"

definition multicast_eth :: "ipaddr \<Rightarrow> ethaddr" where
  "multicast_eth dst = (let addr = ntohl dst in
     [0x01, 0x00, 0x5E, ucast (drop_bit 16 addr) AND 0x7F, ucast (drop_bit 8 addr), ucast addr])"

text \<open>
  \<open>handle_ip\<close> from the label \<open>retry_read_lock\<close> on. The jump back to it is taken when the address has become known between the
  lookup and \<open>append_query\<close>. When there is no memory for an entry the packet is neither stored nor freed.
\<close>

partial_function (option) aq_resolve ::
  "allocator \<Rightarrow> bool \<Rightarrow> u32 \<Rightarrow> arp_querier \<Rightarrow> packet \<Rightarrow> (arp_querier \<times> (nat \<times> packet) list) run" where
  "aq_resolve mem room now aq q =
     (let dst = dst_ip_anno q in
      case arp_lookup now dst (aq_poll_timeout_j aq) (aq_table aq) of (r, t) \<Rightarrow>
      let aq = aq\<lparr> aq_table := t \<rparr> in
      case r of
        Some (eth, due) \<Rightarrow>
          dbind (on_mac (\<lambda>h. write_bytes h 0 eth) q) (\<lambda>q'.
          if is_broadcast eth then Some (Inl Assert_failed)
          else dbind (if due then send_query_for mem aq q' True else Inr (aq, [])) (\<lambda>(aq, outs).
               dbind (aq_emit aq eth q) (\<lambda>q. Some (Inr (aq, outs @ [(0, q)])))))
      | None \<Rightarrow>
          if dst = 0xFFFFFFFF \<or> dst = aq_my_bcast_ip aq then
            dbind (aq_emit aq make_broadcast q) (\<lambda>q. Some (Inr (aq, [(0, q)])))
          else if is_multicast dst then
            dbind (aq_emit aq (multicast_eth dst) q) (\<lambda>q. Some (Inr (aq, [(0, q)])))
          else if dst = 0 then
            Some (Inr (aq\<lparr> aq_zero_warned := True, aq_drops := aq_drops aq + 1 \<rparr>, []))
          else
            dbind (append_query room now dst q (aq_table aq)) (\<lambda>(r, t).
            let aq = aq\<lparr> aq_table := t \<rparr> in
            case r of
              Again \<Rightarrow> aq_resolve mem room now aq q
            | No_memory \<Rightarrow> Some (Inr (aq, []))
            | Stored due \<Rightarrow> dbind (if due then send_query_for mem aq q False else Inr (aq, [])) (\<lambda>r. Some (Inr r))))"

definition handle_ip ::
  "allocator \<Rightarrow> bool \<Rightarrow> u32 \<Rightarrow> arp_querier \<Rightarrow> packet \<Rightarrow> bool \<Rightarrow> (arp_querier \<times> (nat \<times> packet) list) run" where
  "handle_ip mem room now aq p response =
     (if aq_my_ip aq = 0 then Some (Inr (aq\<lparr> aq_drops := aq_drops aq + 1 \<rparr>, []))
      else if response then
        (if shared p then Some (Inl Assert_failed)
         else dbind (uniqueify mem p) (\<lambda>q. case q of
                None \<Rightarrow> Some (Inl Null_deref)
              | Some q \<Rightarrow> aq_resolve mem room now aq q))
      else dbind (push_mac_header mem 14 p) (\<lambda>q. case q of
             None \<Rightarrow> Some (Inr (aq\<lparr> aq_drops := aq_drops aq + 1 \<rparr>, []))
           | Some q \<Rightarrow> dbind (on_mac (\<lambda>h. write16 h 12 (htons ETHERTYPE_IP)) q) (aq_resolve mem room now aq)))"

text \<open>The packets that waited go out in the order of their arrival.\<close>

fun send_cached :: "allocator \<Rightarrow> bool \<Rightarrow> u32 \<Rightarrow> arp_querier \<Rightarrow> packet list \<Rightarrow> (arp_querier \<times> (nat \<times> packet) list) run" where
  "send_cached mem room now aq [] = Some (Inr (aq, []))"
| "send_cached mem room now aq (p # ps) =
     rbind (handle_ip mem room now aq p True) (\<lambda>(aq, outs).
     rbind (send_cached mem room now aq ps) (\<lambda>(aq, outs'). Some (Inr (aq, outs @ outs'))))"

text \<open>
  \<open>handle_response\<close>. When \<open>insert\<close> has no memory it does not set \<open>cached_packet\<close>, which the loop then reads.
\<close>

definition handle_response ::
  "allocator \<Rightarrow> bool \<Rightarrow> u32 \<Rightarrow> arp_querier \<Rightarrow> packet \<Rightarrow> (arp_querier \<times> (nat \<times> packet) list) run" where
  "handle_response mem room now aq p =
     (if plength p < 42 then Some (Inr (aq, []))
      else (let aq = aq\<lparr> aq_responses := aq_responses aq + 1 \<rparr> in
        dbind (read32 (pdata p) 28) (\<lambda>ipa. dbind (read_bytes (pdata p) 22 6) (\<lambda>ena.
        dbind (arp_is ARPOP_REPLY (pdata p)) (\<lambda>reply.
        if reply \<and> \<not> is_group ena
        then dbind (arp_insert room now ipa ena True (aq_table aq)) (\<lambda>(_, cached, t).
               case cached of
                 None \<Rightarrow> Some (Inl Uninitialised)
               | Some ps \<Rightarrow> send_cached mem room now (aq\<lparr> aq_table := t \<rparr>) ps)
        else Some (Inr (aq, [])))))))"

definition aq_push ::
  "allocator \<Rightarrow> bool \<Rightarrow> u32 \<Rightarrow> nat \<Rightarrow> arp_querier \<Rightarrow> packet \<Rightarrow> (arp_querier \<times> (nat \<times> packet) list) run" where
  "aq_push mem room now port aq p =
     (if port = 0 then handle_ip mem room now aq p False else handle_response mem room now aq p)"

text \<open>The write handlers, with their parsed arguments: those of the table, and the two addresses that are set directly.\<close>

datatype aq_command = AQ_insert ipaddr ethaddr | AQ_delete ipaddr | AQ_clear | AQ_broadcast ipaddr | AQ_ipaddr ipaddr

fun aq_write_handler :: "bool \<Rightarrow> u32 \<Rightarrow> aq_command \<Rightarrow> arp_querier \<Rightarrow> arp_querier exec" where
  "aq_write_handler room now (AQ_insert ip eth) aq =
     ebind (arp_write_handler room now (H_insert ip eth) (aq_table aq)) (\<lambda>t. Inr (aq\<lparr> aq_table := t \<rparr>))"
| "aq_write_handler room now (AQ_delete ip) aq =
     ebind (arp_write_handler room now (H_delete ip) (aq_table aq)) (\<lambda>t. Inr (aq\<lparr> aq_table := t \<rparr>))"
| "aq_write_handler room now AQ_clear aq =
     Inr (aq\<lparr> aq_queries := 0, aq_drops := 0, aq_responses := 0, aq_table := arp_clear (aq_table aq) \<rparr>)"
| "aq_write_handler room now (AQ_broadcast ip) aq = Inr (aq\<lparr> aq_my_bcast_ip := ip \<rparr>)"
| "aq_write_handler room now (AQ_ipaddr ip) aq = Inr (aq\<lparr> aq_my_ip := ip \<rparr>)"

section \<open>Packets on their way\<close>

text \<open>A packet with room for its Ethernet header at the start of the data, the type filled in, and the body after it.\<close>

definition held :: "ipaddr \<Rightarrow> byte list \<Rightarrow> packet \<Rightarrow> bool" where
  "held dst body q \<longleftrightarrow> \<not> shared q \<and> mac_header q = Some (length (headroom_bytes q)) \<and> dst_ip_anno q = dst \<and>
     14 \<le> plength q \<and> drop 12 (pdata q) = bytes16 (htons ETHERTYPE_IP) @ body"

lemma on_mac_write:
  assumes "mac_header q = Some (length (headroom_bytes q))" and "i + length vs \<le> plength q"
  shows "on_mac (\<lambda>h. write_bytes h i vs) q = Inr (q\<lparr> pdata := take i (pdata q) @ vs @ drop (i + length vs) (pdata q) \<rparr>)"
  using assms by (simp add: on_mac_def write_bytes_def buffer_def set_buffer_def Let_def)

lemma aq_emit_held:
  assumes "held dst body q" and "length eth = 6" and "length (aq_my_en aq) = 6"
  shows "aq_emit aq eth q = Inr (q\<lparr> pdata := eth @ aq_my_en aq @ bytes16 (htons ETHERTYPE_IP) @ body \<rparr>)"
proof -
  have h: "mac_header q = Some (length (headroom_bytes q))" "14 \<le> plength q" "drop 12 (pdata q) = bytes16 (htons ETHERTYPE_IP) @ body"
    using assms(1) by (simp_all add: held_def)
  let ?q = "q\<lparr> pdata := eth @ drop 6 (pdata q) \<rparr>"
  have "on_mac (\<lambda>h. write_bytes h 0 eth) q = Inr ?q" using on_mac_write [OF h(1), of 0 eth] h(2) assms(2) by simp
  moreover have "on_mac (\<lambda>h. write_bytes h 6 (aq_my_en aq)) ?q = Inr (q\<lparr> pdata := eth @ aq_my_en aq @ drop 12 (pdata q) \<rparr>)"
    using on_mac_write [of ?q 6 "aq_my_en aq"] h(1,2) assms(2,3) by simp
  ultimately show ?thesis using h(3) by (simp add: aq_emit_def)
qed

lemma stamp_pushed:
  assumes m: "mem_ok mem" and q: "packet_push mem 14 p = Inr (Some q)"
  shows "\<exists>q q'. push_mac_header mem 14 p = Inr (Some q) \<and> on_mac (\<lambda>h. write16 h 12 (htons ETHERTYPE_IP)) q = Inr q' \<and>
     held (dst_ip_anno p) (pdata p) q'"
proof -
  note f = packet_push_ok [OF m q]
  obtain pre where pre: "length pre = 14" "pdata q = pre @ pdata p" using f(1) by blast
  let ?q = "q\<lparr> mac_header := Some (length (headroom_bytes q)), network_header := Some (length (headroom_bytes q) + 14) \<rparr>"
  have s: "push_mac_header mem 14 p = Inr (Some ?q)"
    using q pre by (simp add: push_mac_header_def set_mac_header_def buffer_def)
  have w: "on_mac (\<lambda>h. write16 h 12 (htons ETHERTYPE_IP)) ?q =
      Inr (?q\<lparr> pdata := take 12 (pdata ?q) @ bytes16 (htons ETHERTYPE_IP) @ drop 14 (pdata ?q) \<rparr>)"
    using on_mac_write [of ?q 12 "bytes16 (htons ETHERTYPE_IP)"] pre by simp
  have "held (dst_ip_anno p) (pdata p) (?q\<lparr> pdata := take 12 (pdata ?q) @ bytes16 (htons ETHERTYPE_IP) @ drop 14 (pdata ?q) \<rparr>)"
    using pre f(2,3) by (simp add: held_def shared_def)
  with s w show ?thesis by blast
qed

lemma stamp_held:
  assumes "has_memory mem"
  shows "\<exists>q q'. push_mac_header mem 14 p = Inr (Some q) \<and> on_mac (\<lambda>h. write16 h 12 (htons ETHERTYPE_IP)) q = Inr q' \<and>
     held (dst_ip_anno p) (pdata p) q'"
  using packet_push_has_memory [OF assms, of 14 p] stamp_pushed [of mem p] assms by (auto simp: has_memory_def)

text \<open>A query for an address, broadcast.\<close>

definition query_frame :: "arp_querier \<Rightarrow> ipaddr \<Rightarrow> byte list" where
  "query_frame aq dst = arp_frame make_broadcast (aq_my_en aq) ARPOP_REQUEST (aq_my_en aq) (bytes32 (aq_my_ip aq))
     (replicate 6 0) (bytes32 dst)"

lemma length_arp_frame [simp]:
  "length (arp_frame dhost shost arpop sha spa tha tpa) =
     16 + length dhost + length shost + length sha + length spa + length tha + length tpa - 6"
  by (simp add: arp_frame_def)

lemma send_query_ok:
  assumes "has_memory mem"
  shows "\<exists>q. send_query_for mem aq p False = Inr (aq\<lparr> aq_queries := aq_queries aq + 1 \<rparr>, [(aq_noutputs aq - 1, q)]) \<and>
     pdata q = query_frame aq (dst_ip_anno p) \<and> \<not> shared q"
proof -
  have m: "mem_ok mem" using assms by (simp add: has_memory_def)
  obtain q where q: "packet_make mem (default_headroom - 14) None 42 0 = Some q"
    using packet_make_has_memory [OF assms] by blast
  note f = packet_make_fields [OF m q]
  have "set_mac_header (length (headroom_bytes q)) 14 q = Inr (q\<lparr> mac_header := Some (length (headroom_bytes q)),
      network_header := Some (length (headroom_bytes q) + 14) \<rparr>)"
    using f(1) by (simp add: set_mac_header_def buffer_def)
  then show ?thesis using q f(3) by (auto simp: send_query_for_def query_frame_def shared_def)
qed

section \<open>Waiting for an address\<close>

text \<open>The addresses that are looked up in the table: not zero, no broadcast, no multicast.\<close>

definition plain_dst :: "arp_querier \<Rightarrow> ipaddr \<Rightarrow> bool" where
  "plain_dst aq dst \<longleftrightarrow> dst \<noteq> 0 \<and> dst \<noteq> 0xFFFFFFFF \<and> dst \<noteq> aq_my_bcast_ip aq \<and> \<not> is_multicast dst"

definition same_setup :: "arp_querier \<Rightarrow> arp_querier \<Rightarrow> bool" where
  "same_setup aq aq' \<longleftrightarrow> aq_my_en aq' = aq_my_en aq \<and> aq_my_ip aq' = aq_my_ip aq \<and> aq_my_bcast_ip aq' = aq_my_bcast_ip aq \<and>
     aq_poll_timeout_j aq' = aq_poll_timeout_j aq \<and> aq_noutputs aq' = aq_noutputs aq \<and>
     at_timeout_j (aq_table aq') = at_timeout_j (aq_table aq) \<and>
     at_packet_capacity (aq_table aq') = at_packet_capacity (aq_table aq)"

lemma same_setup_trans: "same_setup a b \<Longrightarrow> same_setup b c \<Longrightarrow> same_setup a c"
  by (simp add: same_setup_def)

text \<open>The bodies of the packets that wait for an address not known yet.\<close>

definition pending :: "arp_querier \<Rightarrow> ipaddr \<Rightarrow> byte list list \<Rightarrow> bool" where
  "pending aq dst bodies \<longleftrightarrow> arp_inv (aq_table aq) \<and> list_all2 (held dst) bodies (waiting (aq_table aq) dst) \<and>
     (\<forall>ae. at_get (aq_table aq) dst = Some ae \<longrightarrow> \<not> ae_known ae)"

definition spare :: "arp_querier \<Rightarrow> nat \<Rightarrow> bool" where
  "spare aq n \<longleftrightarrow> at_packet_capacity (aq_table aq) = 0 \<or> at_packet_count (aq_table aq) + n \<le> at_packet_capacity (aq_table aq)"

lemma resolve_unknown:
  assumes "has_memory mem" and "pending aq dst bodies" and "spare aq (Suc n)" and "plain_dst aq dst" and "held dst body q"
  shows "\<exists>aq' outs. aq_resolve mem True now aq q = Some (Inr (aq', outs)) \<and> pending aq' dst (bodies @ [body]) \<and>
     spare aq' n \<and> same_setup aq aq' \<and> (at_get (aq_table aq) dst = None \<longrightarrow> outs \<noteq> []) \<and>
     (\<forall>x \<in> set outs. fst x = aq_noutputs aq - 1 \<and> pdata (snd x) = query_frame aq dst) \<and>
     at_get (aq_table aq') dst \<noteq> None"
proof -
  let ?t = "aq_table aq"
  have nk: "\<forall>ae. at_get ?t dst = Some ae \<longrightarrow> \<not> ae_usable now (at_timeout_j ?t) ae"
    using assms(2) by (auto simp: pending_def ae_usable_def)
  have inv: "arp_inv ?t" using assms(2) by (simp add: pending_def)
  have dq: "dst_ip_anno q = dst" using assms(5) by (simp add: held_def)
  have lk: "arp_lookup now dst (aq_poll_timeout_j aq) ?t = (None, ?t)"
    using arp_lookup_ok(4,5) [OF inv, of now dst "aq_poll_timeout_j aq"] nk
    by (cases "arp_lookup now dst (aq_poll_timeout_j aq) ?t") auto
  from append_query_ok [where room = True and p = q and ip = dst, OF inv disjI1 [OF TrueI] nk] obtain due t' ae d where
    ap: "append_query True now dst q ?t = Inr (Stored due, t')" and t': "arp_inv t'" "at_timeout_j t' = at_timeout_j ?t"
      "at_get t' dst = Some ae" "ae_packets ae = drop d (waiting ?t dst) @ [q]" "at_get ?t dst = None \<longrightarrow> due \<and> \<not> ae_known ae"
      "\<forall>ae0. at_get ?t dst = Some ae0 \<longrightarrow> ae_known ae = ae_known ae0" "at_packet_capacity t' = at_packet_capacity ?t"
      "at_packet_capacity ?t = 0 \<or> at_packet_count ?t < at_packet_capacity ?t \<longrightarrow> d = 0 \<and> at_packet_count t' \<le> at_packet_count ?t + 1"
    by (elim exE conjE) (rule that)
  have d: "d = 0" "at_packet_count t' \<le> at_packet_count ?t + 1" using t'(8) assms(3) by (auto simp: spare_def)
  define aq1 where "aq1 = aq\<lparr> aq_table := t' \<rparr>"
  from send_query_ok [OF assms(1), of aq1 q] obtain qry where
    qry: "send_query_for mem aq1 q False = Inr (aq1\<lparr> aq_queries := aq_queries aq1 + 1 \<rparr>, [(aq_noutputs aq1 - 1, qry)])"
      "pdata qry = query_frame aq1 dst" using dq by auto
  define aq2 where "aq2 = (if due then aq1\<lparr> aq_queries := aq_queries aq1 + 1 \<rparr> else aq1)"
  define outs where "outs = (if due then [(aq_noutputs aq - 1, qry)] else [])"
  have "aq_resolve mem True now aq q = Some (Inr (aq2, outs))"
    using assms(4) lk ap qry(1)
    by (subst aq_resolve.simps) (simp add: dq plain_dst_def aq1_def aq2_def outs_def)
  moreover have "waiting t' dst = waiting ?t dst @ [q]" using t'(3,4) d(1) by (simp add: waiting_def)
  moreover have "\<not> ae_known ae" using t'(5,6) assms(2) by (cases "at_get ?t dst") (auto simp: pending_def)
  ultimately have "pending aq2 dst (bodies @ [body])"
    using assms(2,5) t'(1,3) by (auto simp: pending_def aq2_def aq1_def intro!: list_all2_appendI)
  moreover have "spare aq2 n" using assms(3) t'(7) d(2) by (auto simp: spare_def aq2_def aq1_def)
  moreover have "same_setup aq aq2" using t'(2,7) by (simp add: same_setup_def aq2_def aq1_def)
  moreover have "at_get (aq_table aq2) dst \<noteq> None" using t'(3) by (simp add: aq2_def aq1_def)
  moreover have "query_frame aq1 dst = query_frame aq dst" by (simp add: query_frame_def aq1_def)
  ultimately show ?thesis
    using \<open>aq_resolve mem True now aq q = Some (Inr (aq2, outs))\<close> t'(5) qry(2) by (intro exI [of _ aq2] exI [of _ outs]) (auto simp: outs_def)
qed

text \<open>Any number of packets for the same address, pushed one after the other at the times given.\<close>

fun aq_pushes :: "allocator \<Rightarrow> (u32 \<times> packet) list \<Rightarrow> arp_querier \<Rightarrow> (arp_querier \<times> (nat \<times> packet) list) run" where
  "aq_pushes mem [] aq = Some (Inr (aq, []))"
| "aq_pushes mem ((now, p) # ps) aq =
     rbind (aq_push mem True now 0 aq p) (\<lambda>(aq, outs).
     rbind (aq_pushes mem ps aq) (\<lambda>(aq, outs'). Some (Inr (aq, outs @ outs'))))"

lemma aq_pushes_ok:
  assumes "has_memory mem"
  shows "pending aq dst bodies \<Longrightarrow> spare aq (length ps) \<Longrightarrow> plain_dst aq dst \<Longrightarrow> aq_my_ip aq \<noteq> 0 \<Longrightarrow>
     \<forall>x \<in> set ps. dst_ip_anno (snd x) = dst \<Longrightarrow>
     \<exists>aq' outs. aq_pushes mem ps aq = Some (Inr (aq', outs)) \<and> pending aq' dst (bodies @ map (\<lambda>x. pdata (snd x)) ps) \<and>
       same_setup aq aq' \<and> (ps \<noteq> [] \<longrightarrow> at_get (aq_table aq') dst \<noteq> None) \<and>
       (ps \<noteq> [] \<longrightarrow> at_get (aq_table aq) dst = None \<longrightarrow> outs \<noteq> []) \<and>
       (\<forall>x \<in> set outs. fst x = aq_noutputs aq - 1 \<and> pdata (snd x) = query_frame aq dst)"
proof (induction ps arbitrary: aq bodies)
  case Nil
  then show ?case by (simp add: same_setup_def)
next
  case (Cons x ps)
  obtain now p where x: "x = (now, p)" by fastforce
  from stamp_held [OF assms, of p] obtain q q' where
    q: "push_mac_header mem 14 p = Inr (Some q)" "on_mac (\<lambda>h. write16 h 12 (htons ETHERTYPE_IP)) q = Inr q'"
      "held dst (pdata p) q'" using Cons.prems(5) x by auto
  from resolve_unknown [OF assms Cons.prems(1) _ Cons.prems(3) q(3), of "length ps" now] Cons.prems(2) obtain aq1 outs1 where
    r: "aq_resolve mem True now aq q' = Some (Inr (aq1, outs1))" "pending aq1 dst (bodies @ [pdata p])" "spare aq1 (length ps)"
      "same_setup aq aq1" "at_get (aq_table aq) dst = None \<longrightarrow> outs1 \<noteq> []"
      "\<forall>x \<in> set outs1. fst x = aq_noutputs aq - 1 \<and> pdata (snd x) = query_frame aq dst" "at_get (aq_table aq1) dst \<noteq> None"
    by auto
  have h: "aq_push mem True now 0 aq p = Some (Inr (aq1, outs1))"
    using q(1,2) r(1) Cons.prems(4) by (simp add: aq_push_def handle_ip_def)
  have s: "plain_dst aq1 dst" "aq_my_ip aq1 \<noteq> 0" "aq_noutputs aq1 = aq_noutputs aq" "query_frame aq1 dst = query_frame aq dst"
    using r(4) Cons.prems(3,4) by (simp_all add: same_setup_def plain_dst_def query_frame_def)
  from Cons.IH [OF r(2,3) s(1,2)] Cons.prems(5) obtain aq2 outs2 where
    "aq_pushes mem ps aq1 = Some (Inr (aq2, outs2))" "pending aq2 dst ((bodies @ [pdata p]) @ map (\<lambda>x. pdata (snd x)) ps)"
      "same_setup aq1 aq2" "ps \<noteq> [] \<longrightarrow> at_get (aq_table aq2) dst \<noteq> None"
      "\<forall>x \<in> set outs2. fst x = aq_noutputs aq - 1 \<and> pdata (snd x) = query_frame aq dst"
    using s(3,4) by auto
  moreover from this have "at_get (aq_table aq2) dst \<noteq> None" using r(7) by (cases "ps = []") auto
  ultimately show ?case
    using h r(5,6) same_setup_trans [OF r(4)] by (intro exI [of _ aq2] exI [of _ "outs1 @ outs2"]) (auto simp: x)
qed

section \<open>The answer\<close>

lemma arp_frame_reads:
  assumes "length dhost = 6" "length shost = 6" "length sha = 6" "length spa = 4" "length tha = 6" "length tpa = 4"
  shows "arp_is x (arp_frame dhost shost arpop sha spa tha tpa) = Inr (arpop = x)"
    "read_bytes (arp_frame dhost shost arpop sha spa tha tpa) 22 6 = Inr sha"
    "read_bytes (arp_frame dhost shost arpop sha spa tha tpa) 28 4 = Inr spa"
    "read_bytes (arp_frame dhost shost arpop sha spa tha tpa) 38 4 = Inr tpa"
    "spa = bytes32 a \<Longrightarrow> read32 (arp_frame dhost shost arpop sha spa tha tpa) 28 = Inr a"
    "tpa = bytes32 b \<Longrightarrow> read32 (arp_frame dhost shost arpop sha spa tha tpa) 38 = Inr b"
proof -
  let ?f = "arp_frame dhost shost arpop sha spa tha tpa"
  have "read16 ?f 12 = Inr (htons ETHERTYPE_ARP)" "read16 ?f 14 = Inr (htons ARPHRD_ETHER)"
    "read16 ?f 16 = Inr (htons ETHERTYPE_IP)" "read16 ?f 20 = Inr (htons arpop)"
    using assms by (simp_all add: arp_frame_def buf_simps bytes16_def read16_def nth_append)
  then show "arp_is x ?f = Inr (arpop = x)" by (auto simp: arp_is_def)
  show "read_bytes ?f 22 6 = Inr sha" "read_bytes ?f 28 4 = Inr spa" "read_bytes ?f 38 4 = Inr tpa"
    using assms by (simp_all add: arp_frame_def read_bytes_def bytes16_def)
  show "spa = bytes32 a \<Longrightarrow> read32 ?f 28 = Inr a" "tpa = bytes32 b \<Longrightarrow> read32 ?f 38 = Inr b"
    using assms by (simp_all add: arp_frame_def bytes16_def bytes32_def read32_def nth_append)
qed

lemma responder_answers:
  assumes "has_memory mem" and "pdata q = query_frame aq dst" and "length (aq_my_en aq) = 6"
    and "responder_lookup v dst = Some ena" and "length ena = 6"
  shows "\<exists>rep. responder_simple_action mem n v q = Inr (Some rep, []) \<and>
     pdata rep = arp_frame (aq_my_en aq) ena ARPOP_REPLY ena (bytes32 dst) (aq_my_en aq) (bytes32 (aq_my_ip aq))"
proof -
  have m: "mem_ok mem" using assms(1) by (simp add: has_memory_def)
  obtain r where r: "packet_make mem default_headroom None 42 0 = Some r" using packet_make_has_memory [OF assms(1)] by blast
  note f = packet_make_fields [OF m r]
  have s: "set_mac_header (length (headroom_bytes r)) 14 r = Inr (r\<lparr> mac_header := Some (length (headroom_bytes r)),
      network_header := Some (length (headroom_bytes r) + 14) \<rparr>)"
    using f(1) by (simp add: set_mac_header_def buffer_def)
  have l: "length make_broadcast = 6" "length (replicate 6 (0 :: byte)) = 6" by (simp_all add: make_broadcast_def)
  note a = arp_frame_reads [OF l(1) assms(3,3) length_bytes(2) l(2) length_bytes(2)]
  have "plength q = 42" using assms(2,3) l(1) by (simp add: query_frame_def)
  then show ?thesis
    using assms(2,4) a r s by (simp add: responder_simple_action_def query_frame_def make_response_def)
qed

lemma sint_small:
  fixes w :: u32
  assumes "w < 0x80000000"
  shows "0 \<le> sint w" "w \<noteq> 0 \<Longrightarrow> sint (- w) < 0"
proof -
  define u where "u = uint w"
  have "0 \<le> u" "u < 2147483648" using assms by (simp_all add: word_less_def u_def)
  then have s: "signed_take_bit 31 (uint w) = uint w" "signed_take_bit 31 (- uint w) = - uint w"
    unfolding u_def [symmetric] by (simp_all add: signed_take_bit_int_eq_self)
  show "0 \<le> sint w" using s(1) by (simp add: sint_uint)
  have "sint (- w) = signed_take_bit 31 (take_bit 32 (- uint w))" by (simp add: sint_uint uint_word_ariths take_bit_eq_mod)
  also have "\<dots> = - uint w" using s(2) by (simp add: signed_take_bit_take_bit)
  finally have "sint (- w) = - u" by (simp add: u_def)
  moreover have "w \<noteq> 0 \<Longrightarrow> u \<noteq> 0" unfolding u_def by (metis unsigned_0 word_uint_eqI)
  ultimately show "w \<noteq> 0 \<Longrightarrow> sint (- w) < 0" using \<open>0 \<le> u\<close> by linarith
qed

lemma sint_large: "0x80000000 \<le> (w :: u32) \<Longrightarrow> sint w < 0"
proof -
  assume "0x80000000 \<le> w"
  then have u: "2147483648 \<le> uint w" "uint w < 4294967296" using uint_bounded [of w] by (simp_all add: word_le_def)
  have "sint w = take_bit 32 (uint w + 2147483648) - 2147483648"
    by (simp add: sint_uint signed_take_bit_eq_take_bit_shift)
  also have "take_bit 32 (uint w + 2147483648) = (uint w - 2147483648 + 4294967296) mod 4294967296"
    by (simp add: take_bit_eq_mod add.commute)
  also have "\<dots> = uint w - 2147483648" unfolding mod_add_self2 using u by (intro mod_pos_pos_trivial) simp_all
  finally show "sint w < 0" using u by simp
qed

text \<open>An entry set at this time is usable at this time, and no poll is due.\<close>

lemma fresh_lookup:
  assumes "at_get t dst = Some \<lparr> ae_eth = eth, ae_known = True, ae_live_at_j = now, ae_polled_at_j = b, ae_packets = ps \<rparr>"
    and "at_timeout_j t < 0x80000000" and "poll < 0x80000000"
  shows "arp_lookup now dst poll t = (Some (eth, False), t)"
proof -
  have "\<not> jiffies_less (now + at_timeout_j t) now" using sint_small(1) [OF assms(2)] by (simp add: jiffies_less_def)
  moreover have "poll \<noteq> 0 \<longrightarrow> jiffies_less now (now + poll)" using sint_small(2) [OF assms(3)] by (simp add: jiffies_less_def)
  ultimately show ?thesis using assms(1) by (auto simp: arp_lookup_def ae_usable_def ae_expired_def Let_def)
qed

lemma resolve_known:
  assumes "arp_lookup now dst (aq_poll_timeout_j aq) (aq_table aq) = (Some (eth, False), aq_table aq)" and "held dst body q"
    and "\<not> is_broadcast eth" and "length eth = 6" and "length (aq_my_en aq) = 6"
  shows "aq_resolve mem room now aq q =
     Some (Inr (aq, [(0, q\<lparr> pdata := eth @ aq_my_en aq @ bytes16 (htons ETHERTYPE_IP) @ body \<rparr>)]))"
proof -
  have q: "dst_ip_anno q = dst" "mac_header q = Some (length (headroom_bytes q))" "14 \<le> plength q"
    using assms(2) by (simp_all add: held_def)
  have "on_mac (\<lambda>h. write_bytes h 0 eth) q = Inr (q\<lparr> pdata := eth @ drop 6 (pdata q) \<rparr>)"
    using on_mac_write [OF q(2), of 0 eth] q(3) assms(4) by simp
  then show ?thesis
    using assms(1,3) q(1) aq_emit_held [OF assms(2,4,5)] by (subst aq_resolve.simps) simp
qed

lemma send_cached_ok:
  assumes "arp_lookup now dst (aq_poll_timeout_j aq) (aq_table aq) = (Some (eth, False), aq_table aq)"
    and "\<not> is_broadcast eth" and "length eth = 6" and "length (aq_my_en aq) = 6" and "aq_my_ip aq \<noteq> 0"
  shows "list_all2 (held dst) bodies qs \<Longrightarrow> \<exists>rels. send_cached mem room now aq qs = Some (Inr (aq, map (Pair 0) rels)) \<and>
     map pdata rels = map (\<lambda>b. eth @ aq_my_en aq @ bytes16 (htons ETHERTYPE_IP) @ b) bodies"
proof (induction bodies qs rule: list_all2_induct)
  case (Cons b bs q qs)
  then obtain rels where "send_cached mem room now aq qs = Some (Inr (aq, map (Pair 0) rels))"
    "map pdata rels = map (\<lambda>b. eth @ aq_my_en aq @ bytes16 (htons ETHERTYPE_IP) @ b) bs" by blast
  moreover have "handle_ip mem room now aq q True =
      Some (Inr (aq, [(0, q\<lparr> pdata := eth @ aq_my_en aq @ bytes16 (htons ETHERTYPE_IP) @ b \<rparr>)]))"
    using resolve_known [OF assms(1) Cons.hyps(1) assms(2-4)] Cons.hyps(1) assms(5)
    by (simp add: handle_ip_def held_def uniqueify_unshared)
  ultimately show ?case
    by (intro exI [of _ "q\<lparr> pdata := eth @ aq_my_en aq @ bytes16 (htons ETHERTYPE_IP) @ b \<rparr> # rels"]) simp
qed simp

text \<open>A reply releases every packet that waits for the address, in order.\<close>

lemma reply_releases:
  assumes "pending aq dst bodies" and "at_get (aq_table aq) dst \<noteq> None"
    and "at_timeout_j (aq_table aq) < 0x80000000" and "aq_poll_timeout_j aq < 0x80000000"
    and "length ena = 6" and "\<not> is_group ena" and "length (aq_my_en aq) = 6" and "aq_my_ip aq \<noteq> 0"
    and "pdata rep = arp_frame (aq_my_en aq) ena ARPOP_REPLY ena (bytes32 dst) (aq_my_en aq) (bytes32 (aq_my_ip aq))"
  shows "\<exists>aq' rels. aq_push mem room now 1 aq rep = Some (Inr (aq', map (Pair 0) rels)) \<and>
     map pdata rels = map (\<lambda>b. ena @ aq_my_en aq @ bytes16 (htons ETHERTYPE_IP) @ b) bodies \<and>
     arp_inv (aq_table aq') \<and> arp_lookup now dst (aq_poll_timeout_j aq) (aq_table aq') = (Some (ena, False), aq_table aq') \<and>
     waiting (aq_table aq') dst = []"
proof -
  let ?t = "aq_table aq"
  note a = arp_frame_reads [OF assms(7,5,5) length_bytes(2) assms(7) length_bytes(2)]
  have nb: "\<not> is_broadcast ena" using assms(6) by (auto simp: is_group_def is_broadcast_def make_broadcast_def)
  have inv: "arp_inv ?t" using assms(1) by (simp add: pending_def)
  from arp_insert_ok [OF inv disjI2 [OF assms(2)], of room now ena True] obtain t' where
    ins: "arp_insert room now dst ena True ?t = Inr (True, Some (waiting ?t dst), t')" and t': "arp_inv t'"
      "at_timeout_j t' = at_timeout_j ?t"
      "at_get t' dst = Some \<lparr> ae_eth = ena, ae_known = True, ae_live_at_j = now, ae_polled_at_j = now - CLICK_HZ, ae_packets = [] \<rparr>"
    using nb by auto
  define aq1 where "aq1 = aq\<lparr> aq_responses := aq_responses aq + 1, aq_table := t' \<rparr>"
  have s: "aq_table aq1 = t'" "aq_my_en aq1 = aq_my_en aq" "aq_poll_timeout_j aq1 = aq_poll_timeout_j aq" "aq_my_ip aq1 = aq_my_ip aq"
    by (simp_all add: aq1_def)
  have lk: "arp_lookup now dst (aq_poll_timeout_j aq1) (aq_table aq1) = (Some (ena, False), aq_table aq1)"
    using fresh_lookup [OF t'(3)] t'(2) assms(3,4) by (simp add: s)
  from send_cached_ok [OF lk nb assms(5), of bodies "waiting ?t dst" mem room] assms(1,7,8) obtain rels where
    "send_cached mem room now aq1 (waiting ?t dst) = Some (Inr (aq1, map (Pair 0) rels))"
    "map pdata rels = map (\<lambda>b. ena @ aq_my_en aq @ bytes16 (htons ETHERTYPE_IP) @ b) bodies"
    by (auto simp: s pending_def)
  moreover have "aq_push mem room now 1 aq rep = send_cached mem room now aq1 (waiting ?t dst)"
    using a(1) [of ARPOP_REPLY] a(2,5) ins assms(5-7) by (simp add: aq_push_def handle_response_def assms(9) aq1_def)
  moreover have "waiting t' dst = []" using t'(3) by (simp add: waiting_def)
  ultimately show ?thesis using lk t'(1) s(1,3) by (intro exI [of _ aq1] exI [of _ rels]) auto
qed

text \<open>
  C17. Address resolution from end to end. A querier gets packets for an address that it does not know, at any times; it has
  room for them. It holds them back and sends queries, at least one; any of these queries, pushed to a responder whose configuration covers the address, is
  answered, and the answer pushed back to the querier, at any time, releases all the packets in the order of their arrival, each with the responder's
  Ethernet address as destination, the querier's own as source, and its data unchanged. From then on the address is known and nothing waits.
\<close>

theorem arp_resolution:
  assumes "has_memory mem" and "arp_inv (aq_table aq)" and "at_get (aq_table aq) dst = None"
    and "plain_dst aq dst" and "aq_my_ip aq \<noteq> 0" and "length (aq_my_en aq) = 6"
    and "at_timeout_j (aq_table aq) < 0x80000000" and "aq_poll_timeout_j aq < 0x80000000"
    and "ps \<noteq> []" and "\<forall>x \<in> set ps. dst_ip_anno (snd x) = dst" and "spare aq (length ps)"
    and "responder_lookup v dst = Some ena" and "length ena = 6" and "\<not> is_group ena"
  shows "\<exists>aq1 outs. aq_pushes mem ps aq = Some (Inr (aq1, outs)) \<and> outs \<noteq> [] \<and>
     (\<forall>x \<in> set outs. fst x = aq_noutputs aq - 1 \<and>
        (\<exists>rep aq2 rels. responder_simple_action mem n v (snd x) = Inr (Some rep, []) \<and>
           aq_push mem room now 1 aq1 rep = Some (Inr (aq2, map (Pair 0) rels)) \<and>
           map pdata rels = map (\<lambda>y. ena @ aq_my_en aq @ bytes16 (htons ETHERTYPE_IP) @ pdata (snd y)) ps \<and>
           fst (arp_lookup now dst (aq_poll_timeout_j aq) (aq_table aq2)) = Some (ena, False) \<and> waiting (aq_table aq2) dst = []))"
proof -
  have "pending aq dst []" using assms(2,3) by (simp add: pending_def waiting_def)
  from aq_pushes_ok [OF assms(1) this assms(11,4,5,10)] assms(3,9) obtain aq1 outs where
    p: "aq_pushes mem ps aq = Some (Inr (aq1, outs))" "pending aq1 dst (map (\<lambda>x. pdata (snd x)) ps)" "same_setup aq aq1"
      "at_get (aq_table aq1) dst \<noteq> None" "outs \<noteq> []"
      "\<forall>x \<in> set outs. fst x = aq_noutputs aq - 1 \<and> pdata (snd x) = query_frame aq dst" by auto
  have s: "aq_my_en aq1 = aq_my_en aq" "aq_my_ip aq1 = aq_my_ip aq" "aq_poll_timeout_j aq1 = aq_poll_timeout_j aq"
    "at_timeout_j (aq_table aq1) = at_timeout_j (aq_table aq)"
    using p(3) by (simp_all add: same_setup_def)
  have "\<exists>rep aq2 rels. responder_simple_action mem n v (snd x) = Inr (Some rep, []) \<and>
       aq_push mem room now 1 aq1 rep = Some (Inr (aq2, map (Pair 0) rels)) \<and>
       map pdata rels = map (\<lambda>y. ena @ aq_my_en aq @ bytes16 (htons ETHERTYPE_IP) @ pdata (snd y)) ps \<and>
       fst (arp_lookup now dst (aq_poll_timeout_j aq) (aq_table aq2)) = Some (ena, False) \<and> waiting (aq_table aq2) dst = []"
    if x: "x \<in> set outs" for x
  proof -
    have "pdata (snd x) = query_frame aq dst" using p(6) x by blast
    from responder_answers [OF assms(1) this assms(6,12,13), of n] obtain rep where
      rep: "responder_simple_action mem n v (snd x) = Inr (Some rep, [])"
        "pdata rep = arp_frame (aq_my_en aq1) ena ARPOP_REPLY ena (bytes32 dst) (aq_my_en aq1) (bytes32 (aq_my_ip aq1))"
      by (auto simp: s)
    from reply_releases [OF p(2,4) _ _ assms(13,14) _ _ rep(2), of mem room now] assms(5-8) obtain aq2 rels where
      r: "aq_push mem room now 1 aq1 rep = Some (Inr (aq2, map (Pair 0) rels))"
        "map pdata rels = map (\<lambda>b. ena @ aq_my_en aq @ bytes16 (htons ETHERTYPE_IP) @ b) (map (\<lambda>x. pdata (snd x)) ps)"
        "arp_lookup now dst (aq_poll_timeout_j aq) (aq_table aq2) = (Some (ena, False), aq_table aq2)"
        "waiting (aq_table aq2) dst = []"
      by (auto simp: s)
    show ?thesis using rep(1) r by (intro exI [of _ rep] exI [of _ aq2] exI [of _ rels]) simp
  qed
  with p show ?thesis by blast
qed

text \<open>The querier of \<^verbatim>\<open>router.click\<close> on the first client network, in its initial state, and a packet for a client there.\<close>

definition ex_options :: aq_options where
  "ex_options = \<lparr> op_capacity = None, op_entry_capacity = None, op_timeout = None, op_broadcast = None, op_table = None,
     op_poll_timeout = None, op_broadcast_poll = None \<rparr>"

definition ex_querier :: arp_querier where
  "ex_querier = aq_configure ex_options 0xFE02A8C0 0x00FFFFFF (ex_eth 1) 1"

definition ex_client_packet :: packet where
  "ex_client_packet = ex_packet\<lparr> dst_ip_anno := 0x0102A8C0 \<rparr>"

definition ex_arrivals :: "(u32 \<times> packet) list" where
  "ex_arrivals = [(5, ex_client_packet), (7, ex_client_packet)]"

lemma ex_not_multicast: "\<not> is_multicast 0x0102A8C0"
  by code_simp

lemma ex_querier_ok:
  "arp_inv (aq_table ex_querier)" "at_get (aq_table ex_querier) 0x0102A8C0 = None" "plain_dst ex_querier 0x0102A8C0"
  "aq_my_ip ex_querier = 0xFE02A8C0" "aq_my_en ex_querier = ex_eth 1" "at_timeout_j (aq_table ex_querier) = 300000"
  "aq_poll_timeout_j ex_querier = 60000" "spare ex_querier (Suc (Suc 0))" "aq_noutputs ex_querier = 1"
  using arp_configure_inv [of None None None]
  by (simp_all add: ex_querier_def ex_options_def aq_configure_def plain_dst_def broadcast_of_def poll_jiffies_def spare_def
      arp_configure_def set_timeout_def arp_new_def at_get_def ht_find_empty ex_not_multicast)

theorem arp_resolution_witness:
  "\<exists>aq1 outs x rep aq2 rels. aq_pushes ex_mem ex_arrivals ex_querier = Some (Inr (aq1, outs)) \<and>
     x \<in> set outs \<and> responder_simple_action ex_mem 1 [ex_binding 0x0102A8C0 0xFFFFFFFF 2] (snd x) = Inr (Some rep, []) \<and>
     aq_push ex_mem True 9 1 aq1 rep = Some (Inr (aq2, map (Pair 0) rels)) \<and>
     map pdata rels = replicate 2 (ex_eth 2 @ ex_eth 1 @ [8, 0] @ pdata ex_client_packet)"
proof -
  have "has_memory ex_mem" by (rule ex_mem_ok)
  moreover have "responder_lookup [ex_binding 0x0102A8C0 0xFFFFFFFF 2] 0x0102A8C0 = Some (ex_eth 2)" "length (ex_eth b) = 6" "\<not> is_group (ex_eth b)" for b
    by (simp_all add: responder_lookup_def ex_binding_def ex_eth_def is_group_def)
  ultimately have "\<exists>aq1 outs. aq_pushes ex_mem ex_arrivals ex_querier = Some (Inr (aq1, outs)) \<and> outs \<noteq> [] \<and>
     (\<forall>x \<in> set outs. fst x = aq_noutputs ex_querier - 1 \<and>
        (\<exists>rep aq2 rels. responder_simple_action ex_mem 1 [ex_binding 0x0102A8C0 0xFFFFFFFF 2] (snd x) = Inr (Some rep, []) \<and>
           aq_push ex_mem True 9 1 aq1 rep = Some (Inr (aq2, map (Pair 0) rels)) \<and>
           map pdata rels = map (\<lambda>y. ex_eth 2 @ aq_my_en ex_querier @ bytes16 (htons ETHERTYPE_IP) @ pdata (snd y)) ex_arrivals \<and>
           fst (arp_lookup 9 0x0102A8C0 (aq_poll_timeout_j ex_querier) (aq_table aq2)) = Some (ex_eth 2, False) \<and>
           waiting (aq_table aq2) 0x0102A8C0 = []))"
    by (intro arp_resolution) (simp_all add: ex_querier_ok ex_arrivals_def ex_client_packet_def)
  then obtain aq1 outs where o: "aq_pushes ex_mem ex_arrivals ex_querier = Some (Inr (aq1, outs))" "outs \<noteq> []"
    "\<And>x. x \<in> set outs \<Longrightarrow> \<exists>rep aq2 rels. responder_simple_action ex_mem 1 [ex_binding 0x0102A8C0 0xFFFFFFFF 2] (snd x) = Inr (Some rep, []) \<and>
       aq_push ex_mem True 9 1 aq1 rep = Some (Inr (aq2, map (Pair 0) rels)) \<and>
       map pdata rels = map (\<lambda>y. ex_eth 2 @ aq_my_en ex_querier @ bytes16 (htons ETHERTYPE_IP) @ pdata (snd y)) ex_arrivals" by blast
  from o(2) obtain x where x: "x \<in> set outs" using list.set_sel(1) by blast
  have e: "map (\<lambda>y. ex_eth 2 @ aq_my_en ex_querier @ bytes16 (htons ETHERTYPE_IP) @ pdata (snd y)) ex_arrivals
      = replicate 2 (ex_eth 2 @ ex_eth 1 @ [8, 0] @ pdata ex_client_packet)"
  proof -
    have "bytes16 (htons ETHERTYPE_IP) = [8, 0]" by (simp add: bytes16_def htons_def)
    then show ?thesis by (simp add: ex_arrivals_def ex_querier_ok(5) numeral_2_eq_2)
  qed
  show ?thesis using o(1) x o(3) [OF x, unfolded e] by blast
qed

end
