(* ===== verification/Click_LinkInput.thy ===== *)
theory Click_LinkInput
  imports Click_Patterns Click_ARPQuerier
begin

text \<open>
  The link-layer input of the hosts and of the router (\<^verbatim>\<open>scripts/routers/client.click\<close>, \<^verbatim>\<open>server.click\<close>, \<^verbatim>\<open>router.click\<close>): the two
  configurations of \<^verbatim>\<open>Classifier\<close> there, compiled by the model, decide every frame correctly.
\<close>

section \<open>The configurations of the scripts\<close>

definition host_patterns :: "string list" where
  "host_patterns = [''12/0806 20/0001'', ''12/0806 20/0002'', ''12/0800'']"

definition router_patterns :: "string list" where
  "router_patterns = [''12/0806 20/0001'', ''12/0806 20/0002'', ''-'']"

definition arp_clauses :: "byte \<Rightarrow> clause list" where
  "arp_clauses b = [\<lparr> cl_negated = False, cl_offset = 12, cl_bytes = [(8, 255), (6, 255)] \<rparr>,
     \<lparr> cl_negated = False, cl_offset = 20, cl_bytes = [(0, 255), (b, 255)] \<rparr>]"

definition ip_clauses :: "clause list" where
  "ip_clauses = [\<lparr> cl_negated = False, cl_offset = 12, cl_bytes = [(8, 255), (0, 255)] \<rparr>]"

lemma parse_script_patterns:
  "parse_patterns host_patterns = Inr [arp_clauses 1, arp_clauses 2, ip_clauses]"
  "parse_patterns router_patterns = Inr [arp_clauses 1, arp_clauses 2, []]"
  by code_simp+

text \<open>The programs they compile to.\<close>

definition test16 :: "nat \<Rightarrow> u32 \<Rightarrow> int \<Rightarrow> int \<Rightarrow> insn" where
  "test16 off v no yes = \<lparr> in_offset = off, in_short = False, in_mask = 0xFFFF, in_value = v, in_no = no, in_yes = yes \<rparr>"

definition host_program :: program where
  "host_program = \<lparr> pr_insn = [test16 12 0x0608 3 1, test16 20 0x0100 2 0, test16 20 0x0200 j_never (- 1), test16 12 0x0008 j_never (- 2)],
     pr_output_everything = - 1, pr_safe_length = 22, pr_align_offset = 0 \<rparr>"

definition router_program :: program where
  "router_program = \<lparr> pr_insn = [test16 12 0x0608 (- 2) 1, test16 20 0x0100 2 0, test16 20 0x0200 (- 2) (- 1)],
     pr_output_everything = - 1, pr_safe_length = 22, pr_align_offset = 0 \<rparr>"

lemma host_compiled: "dbind (build_program 0 [arp_clauses 1, arp_clauses 2, ip_clauses]) (optimize [] 0x7FFFFFFF) = Some (Inr host_program)"
  by code_simp

lemma router_compiled: "dbind (build_program 0 [arp_clauses 1, arp_clauses 2, []]) (optimize [] 0x7FFFFFFF) = Some (Inr router_program)"
  by code_simp

lemma configure_compiled:
  assumes "parse_patterns conf = Inr css" "length conf = n" "dbind (build_program 0 css) (optimize [] 0x7FFFFFFF) = Some (Inr prog)"
  shows "classifier_configure n None conf old = Some (Inr (True, prog))"
proof -
  obtain p where "build_program 0 css = Inr p" "optimize [] 0x7FFFFFFF p = Some (Inr prog)"
    using assms(3) by (cases "build_program 0 css") auto
  then show ?thesis using assms(1,2) by (simp add: classifier_configure_def align_of_def)
qed

section \<open>What the compiled programs decide\<close>

definition arp_op_is :: "byte list \<Rightarrow> byte \<Rightarrow> bool" where
  "arp_op_is d op \<longleftrightarrow> length d \<ge> 22 \<and> d ! 12 = 8 \<and> d ! 13 = 6 \<and> d ! 20 = 0 \<and> d ! 21 = op"

definition is_ip_frame :: "byte list \<Rightarrow> bool" where
  "is_ip_frame d \<longleftrightarrow> length d \<ge> 14 \<and> d ! 12 = 8 \<and> d ! 13 = 0"

lemma test16_ok:
  assumes "v AND 0xFFFF = v"
  shows "insn_test d (test16 off v no yes) \<longleftrightarrow> off + 1 < length d \<and> d ! off = byte_of v 0 \<and> d ! (off + 1) = byte_of v 1"
proof -
  have b: "byte_of 0xFFFF 0 = 0xFF" "byte_of 0xFFFF (Suc 0) = 0xFF" "byte_of 0xFFFF 2 = 0" "byte_of 0xFFFF 3 = 0" by (simp_all add: byte_of_def)
  have m: "masked (test16 off v no yes)" using assms by (simp add: masked_def test16_def)
  have "(0xFF :: byte) = - 1" by simp
  then have ff: "x AND 0xFF = x" for x :: byte by (metis and.right_neutral)
  show ?thesis
    using test_byte_ok [OF _ m, of d] by (auto simp: test16_def less_4 b byte_ok_def ff)
qed

lemma run_steps:
  "i < length ins \<Longrightarrow> run_insn ins d i =
    (let j = (if insn_test d (ins ! i) then in_yes (ins ! i) else in_no (ins ! i)) in if j > int i then run_insn ins d (nat j) else j)"
  by (subst run_insn.simps) (simp add: branch_def in_j_def)

lemma test16_simps [simp]: "in_yes (test16 off v no yes) = yes" "in_no (test16 off v no yes) = no" "in_offset (test16 off v no yes) = off"
  "in_mask (test16 off v no yes) = 0xFFFF" "in_value (test16 off v no yes) = v" "required_length (test16 off v no yes) = off + 2"
  by (simp_all add: test16_def required_length_def byte_of_def)

lemma word_22_le: "n < 4294967296 \<Longrightarrow> (22 :: u32) \<le> of_nat n \<Longrightarrow> 22 \<le> n"
  by (simp add: word_le_nat_alt unat_of_nat)

lemma byte_numerals: "(1544 :: byte) = 8" "(256 :: byte) = 0" "(512 :: byte) = 0"
  by simp_all

lemma testing_script_programs: "testing (pr_insn host_program)" "testing (pr_insn router_program)"
  by (simp_all add: testing_def forward_def jump_ok_def masked_def host_program_def router_program_def All_less_Suc)

lemma script_programs_ok: "program_ok host_program" "program_ok router_program"
proof -
  have "required_length e \<le> 22" if "e \<in> set (pr_insn host_program) \<union> set (pr_insn router_program)" for e
    using that by (auto simp: host_program_def router_program_def)
  moreover have "pr_safe_length host_program = 22" "pr_safe_length router_program = 22" "pr_insn host_program \<noteq> []" "pr_insn router_program \<noteq> []"
    "pr_align_offset host_program = 0" "pr_align_offset router_program = 0"
    by (simp_all add: host_program_def router_program_def)
  ultimately show "program_ok host_program" "program_ok router_program"
    using testing_script_programs word_22_le unfolding program_ok_def by (metis UnCI add_0_right le_trans)+
qed

lemma host_out: "program_out host_program d =
    (if arp_op_is d 1 then 0 else if arp_op_is d 2 then 1 else if is_ip_frame d then 2 else 2147483647)"
proof -
  define ins where "ins = pr_insn host_program"
  have n: "length ins = 4" "ins ! 0 = test16 12 0x0608 3 1" "ins ! 1 = test16 20 0x0100 2 0" "ins ! 2 = test16 20 0x0200 j_never (- 1)"
    "ins ! 3 = test16 12 0x0008 j_never (- 2)" by (simp_all add: ins_def host_program_def)
  have t: "insn_test d (test16 12 0x0608 a b) \<longleftrightarrow> 13 < length d \<and> d ! 12 = 8 \<and> d ! 13 = 6"
    "insn_test d (test16 20 0x0100 a b) \<longleftrightarrow> 21 < length d \<and> d ! 20 = 0 \<and> d ! 21 = 1"
    "insn_test d (test16 20 0x0200 a b) \<longleftrightarrow> 21 < length d \<and> d ! 20 = 0 \<and> d ! 21 = 2"
    "insn_test d (test16 12 0x0008 a b) \<longleftrightarrow> 13 < length d \<and> d ! 12 = 8 \<and> d ! 13 = 0" for a b
    by (simp_all add: test16_ok byte_of_def byte_numerals)
  have r3: "run_insn ins d 3 = (if is_ip_frame d then - 2 else j_never)" using run_steps [of 3 ins d] n t by (auto simp: is_ip_frame_def)
  have r2: "run_insn ins d 2 = (if 21 < length d \<and> d ! 20 = 0 \<and> d ! 21 = 2 then - 1 else j_never)" using run_steps [of 2 ins d] n t by simp
  have r1: "run_insn ins d 1 = (if 21 < length d \<and> d ! 20 = 0 \<and> d ! 21 = 1 then 0 else run_insn ins d 2)" using run_steps [of 1 ins d] n t by simp
  have r0: "run_insn ins d 0 = (if 13 < length d \<and> d ! 12 = 8 \<and> d ! 13 = 6 then run_insn ins d 1 else run_insn ins d 3)"
    using run_steps [of 0 ins d] n t by simp
  have "program_out host_program d = - run_insn ins d 0" by (simp add: program_out_def ins_def host_program_def)
  then show ?thesis unfolding r0 r1 r2 r3 by (auto simp: arp_op_is_def is_ip_frame_def)
qed

lemma router_out: "program_out router_program d = (if arp_op_is d 1 then 0 else if arp_op_is d 2 then 1 else 2)"
proof -
  define ins where "ins = pr_insn router_program"
  have n: "length ins = 3" "ins ! 0 = test16 12 0x0608 (- 2) 1" "ins ! 1 = test16 20 0x0100 2 0" "ins ! 2 = test16 20 0x0200 (- 2) (- 1)"
    by (simp_all add: ins_def router_program_def)
  have t: "insn_test d (test16 12 0x0608 a b) \<longleftrightarrow> 13 < length d \<and> d ! 12 = 8 \<and> d ! 13 = 6"
    "insn_test d (test16 20 0x0100 a b) \<longleftrightarrow> 21 < length d \<and> d ! 20 = 0 \<and> d ! 21 = 1"
    "insn_test d (test16 20 0x0200 a b) \<longleftrightarrow> 21 < length d \<and> d ! 20 = 0 \<and> d ! 21 = 2" for a b
    by (simp_all add: test16_ok byte_of_def byte_numerals)
  have r2: "run_insn ins d 2 = (if 21 < length d \<and> d ! 20 = 0 \<and> d ! 21 = 2 then - 1 else - 2)" using run_steps [of 2 ins d] n t by simp
  have r1: "run_insn ins d 1 = (if 21 < length d \<and> d ! 20 = 0 \<and> d ! 21 = 1 then 0 else run_insn ins d 2)" using run_steps [of 1 ins d] n t by simp
  have r0: "run_insn ins d 0 = (if 13 < length d \<and> d ! 12 = 8 \<and> d ! 13 = 6 then run_insn ins d 1 else - 2)"
    using run_steps [of 0 ins d] n t by simp
  have "program_out router_program d = - run_insn ins d 0" by (simp add: program_out_def ins_def router_program_def)
  then show ?thesis unfolding r0 r1 r2 by (auto simp: arp_op_is_def)
qed

lemma classifier_push_out:
  assumes "program_ok p" "pr_align_offset p = 0" "3 \<le> length (tailroom_bytes q)" "plength q < 4294967296"
  shows "bytes_classifier_push n p q =
    Some (Inr (let out = program_out p (pdata q) in if 0 \<le> out \<and> out < int n then [(nat out, q)] else []))"
  using program_match_out [of p q] assms by (simp add: bytes_classifier_push_def seen_bytes_def Let_def)



end
