(* ===== verification/Click_ARPSafety.thy ===== *)
theory Click_ARPSafety
  imports Click_ARPQuerier
begin

text \<open>
  The ARP querier on any input: every sequence of packets, responses, timer events and handler calls is handled to the end. The last section has the
  situations in which the table and the querier do fail.
\<close>

section \<open>The querier on any input\<close>

text \<open>What holds of every entry: a known address has its six bytes, and the packets that wait have room for the Ethernet header.\<close>

definition entry_ok :: "ipaddr \<Rightarrow> ARPEntry \<Rightarrow> bool" where
  "entry_ok ip ae \<longleftrightarrow> (ae_known ae \<longrightarrow> length (ae_eth ae) = 6) \<and> (\<forall>q \<in> set (ae_packets ae). \<exists>body. held ip body q)"

definition table_ok :: "arp_table \<Rightarrow> bool" where
  "table_ok t \<longleftrightarrow> arp_inv t \<and> (\<forall>ip ae. at_get t ip = Some ae \<longrightarrow> entry_ok ip ae)"

definition aq_inv :: "arp_querier \<Rightarrow> bool" where
  "aq_inv aq \<longleftrightarrow> table_ok (aq_table aq) \<and> length (aq_my_en aq) = 6"

lemma table_ok_kept:
  assumes "table_ok t" and "arp_inv t'" and "kept ip t t'" and "\<And>ae. at_get t' ip = Some ae \<Longrightarrow> entry_ok ip ae"
  shows "table_ok t'"
proof -
  have "entry_ok ip' ae'" if "at_get t' ip' = Some ae'" "ip' \<noteq> ip" for ip' ae'
  proof -
    from assms(3) that obtain ae d where "at_get t ip' = Some ae" "ae' = ae\<lparr> ae_packets := drop d (ae_packets ae) \<rparr>"
      unfolding kept_def by blast
    then show ?thesis using assms(1) by (auto simp: table_ok_def entry_ok_def dest: in_set_dropD)
  qed
  then show ?thesis using assms(2,4) unfolding table_ok_def by metis
qed

lemma table_ok_waiting: "table_ok t \<Longrightarrow> q \<in> set (waiting t ip) \<Longrightarrow> \<exists>body. held ip body q"
  by (cases "at_get t ip") (auto simp: table_ok_def entry_ok_def waiting_def)

lemma table_ok_insert:
  assumes "table_ok t" and "length eth = 6"
  shows "(room \<or> at_get t ip \<noteq> None \<longrightarrow> (\<exists>t'. arp_insert room now ip eth drain t = Inr (True, if drain then Some (waiting t ip) else None, t') \<and> table_ok t')) \<and>
     (\<not> room \<and> at_get t ip = None \<longrightarrow> arp_insert room now ip eth drain t = Inr (False, None, t))"
proof (cases "room \<or> at_get t ip \<noteq> None")
  case True
  have inv: "arp_inv t" using assms(1) by (simp add: table_ok_def)
  from arp_insert_ok [OF inv True, of now eth drain] obtain t' where
    t': "arp_insert room now ip eth drain t = Inr (True, if drain then Some (waiting t ip) else None, t')" "arp_inv t'" "kept ip t t'"
      "at_get t' ip = Some \<lparr> ae_eth = eth, ae_known = (\<not> is_broadcast eth), ae_live_at_j = now,
         ae_polled_at_j = now - CLICK_HZ, ae_packets = (if drain then [] else waiting t ip) \<rparr>" by blast
  then have "table_ok t'"
    using table_ok_kept [OF assms(1) t'(2,3)] table_ok_waiting [OF assms(1)] assms(2) by (simp add: entry_ok_def)
  with t'(1) True show ?thesis by blast
next
  case False
  then show ?thesis using arp_insert_no_memory [of room t ip now eth drain] by simp
qed

lemma table_ok_append:
  assumes "table_ok t" and "held ip body q" and "\<forall>ae. at_get t ip = Some ae \<longrightarrow> \<not> ae_usable now (at_timeout_j t) ae"
  shows "\<exists>r t'. append_query room now ip q t = Inr (r, t') \<and> r \<noteq> Again \<and> table_ok t'"
proof (cases "room \<or> at_get t ip \<noteq> None")
  case True
  have inv: "arp_inv t" using assms(1) by (simp add: table_ok_def)
  from append_query_ok [OF inv True assms(3), of q] obtain due t' ae d where
    t': "append_query room now ip q t = Inr (Stored due, t')" "arp_inv t'" "at_get t' ip = Some ae"
      "ae_packets ae = drop d (waiting t ip) @ [q]" "at_get t ip = None \<longrightarrow> due \<and> \<not> ae_known ae"
      "\<forall>ae0. at_get t ip = Some ae0 \<longrightarrow> ae_known ae = ae_known ae0"
      "\<forall>ae0. at_get t ip = Some ae0 \<longrightarrow> ae_eth ae = ae_eth ae0" "kept ip t t'" by (elim exE conjE) (rule that)
  have "ae_known ae \<longrightarrow> length (ae_eth ae) = 6"
    using t'(5,6,7) assms(1) by (cases "at_get t ip") (auto simp: table_ok_def entry_ok_def)
  then have "entry_ok ip ae" using table_ok_waiting [OF assms(1)] t'(4) assms(2) by (auto simp: entry_ok_def dest: in_set_dropD)
  then have "table_ok t'" using table_ok_kept [OF assms(1) t'(2,8)] t'(3) by simp
  with t'(1) show ?thesis by blast
next
  case False
  then show ?thesis using assms(1) by (simp add: append_query_def ensure_def)
qed

lemma table_ok_lookup:
  assumes "table_ok t"
  shows "table_ok (snd (arp_lookup now ip poll t))"
    "fst (arp_lookup now ip poll t) = Some (eth, due) \<Longrightarrow> length eth = 6 \<and> \<not> is_broadcast eth"
proof -
  have inv: "arp_inv t" using assms by (simp add: table_ok_def)
  then have h: "ht_inv ip_hashcode (at_table t)" by (simp add: arp_inv_def arp_wf_def)
  show "fst (arp_lookup now ip poll t) = Some (eth, due) \<Longrightarrow> length eth = 6 \<and> \<not> is_broadcast eth"
    using arp_lookup_ok(6) [OF inv] assms
    by (auto simp: arp_lookup_def table_ok_def entry_ok_def ae_usable_def Let_def split: option.splits if_splits)
  have "\<And>ae. at_get t ip = Some ae \<Longrightarrow> entry_ok ip (ae\<lparr> ae_polled_at_j := now \<rparr>)"
    using assms by (auto simp: table_ok_def entry_ok_def)
  then show "table_ok (snd (arp_lookup now ip poll t))"
    using arp_lookup_ok(1) [OF inv, of now ip poll] assms
    by (auto simp: arp_lookup_def table_ok_def Let_def at_get_update [OF h] split: option.splits if_splits)
qed

lemma send_query_total:
  assumes "mem_ok mem" and "mac_header q = Some (length (headroom_bytes q))" and "14 \<le> plength q"
  shows "\<exists>n outs. send_query_for mem aq q v = Inr (aq\<lparr> aq_queries := n \<rparr>, outs)"
proof (cases "packet_make mem (default_headroom - 14) None 42 0")
  case None
  then have "send_query_for mem aq q v = Inr (aq\<lparr> aq_queries := aq_queries aq \<rparr>, [])" by (simp add: send_query_for_def)
  then show ?thesis by blast
next
  case (Some r)
  note f = packet_make_fields [OF assms(1) Some]
  have "set_mac_header (length (headroom_bytes r)) 14 r = Inr (r\<lparr> mac_header := Some (length (headroom_bytes r)),
      network_header := Some (length (headroom_bytes r) + 14) \<rparr>)"
    using f(1) by (simp add: set_mac_header_def buffer_def)
  moreover have "mac_view q = Inr (pdata q @ tailroom_bytes q)" using assms(2) by (simp add: mac_view_def buffer_def)
  moreover have "\<exists>d. read_bytes (pdata q @ tailroom_bytes q) 0 6 = Inr d" using assms(3) by (simp add: read_bytes_def)
  ultimately show ?thesis using Some by (auto simp: send_query_for_def)
qed

text \<open>A packet that is ready goes out or waits, whatever the state: the table's answer \<^verbatim>\<open>-EAGAIN\<close> does not come.\<close>

lemma resolve_total:
  assumes "mem_ok mem" and "aq_inv aq" and "held dst body q"
  shows "\<exists>aq' outs. aq_resolve mem room now aq q = Some (Inr (aq', outs)) \<and> aq_inv aq'"
proof -
  have t: "table_ok (aq_table aq)" and en: "length (aq_my_en aq) = 6" using assms(2) by (simp_all add: aq_inv_def)
  have q: "dst_ip_anno q = dst" "mac_header q = Some (length (headroom_bytes q))" "14 \<le> plength q"
    using assms(3) by (simp_all add: held_def)
  obtain r t1 where l: "arp_lookup now dst (aq_poll_timeout_j aq) (aq_table aq) = (r, t1)" by fastforce
  have t1: "table_ok t1" using table_ok_lookup(1) [OF t, of now dst "aq_poll_timeout_j aq"] l by simp
  define aq1 where "aq1 = aq\<lparr> aq_table := t1 \<rparr>"
  have i1: "aq_inv aq1" "aq_my_en aq1 = aq_my_en aq" "aq_table aq1 = t1" using t1 en by (simp_all add: aq1_def aq_inv_def)
  have em: "\<exists>q'. aq_emit aq' eth q = Inr q'" if "length eth = 6" "aq_my_en aq' = aq_my_en aq" for aq' eth
    using aq_emit_held [OF assms(3) that(1), of aq'] that(2) en by simp
  show ?thesis
  proof (cases r)
    case (Some x)
    then obtain eth due where x: "r = Some (eth, due)" by (cases x) auto
    have eth: "length eth = 6" "\<not> is_broadcast eth" using table_ok_lookup(2) [OF t, of now dst "aq_poll_timeout_j aq"] l x by auto
    define q1 where "q1 = q\<lparr> pdata := eth @ drop 6 (pdata q) \<rparr>"
    have w: "on_mac (\<lambda>h. write_bytes h 0 eth) q = Inr q1" using on_mac_write [OF q(2), of 0 eth] q(3) eth(1) by (simp add: q1_def)
    have "mac_header q1 = Some (length (headroom_bytes q1))" "14 \<le> plength q1" using q eth(1) by (simp_all add: q1_def)
    from send_query_total [OF assms(1) this, of aq1 True]
    have "\<exists>n outs. (if due then send_query_for mem aq1 q1 True else Inr (aq1, [])) = Inr (aq1\<lparr> aq_queries := n \<rparr>, outs)"
      by (cases due) (auto intro: exI [of _ "aq_queries aq1"])
    then obtain n outs where
      "(if due then send_query_for mem aq1 q1 True else Inr (aq1, [])) = Inr (aq1\<lparr> aq_queries := n \<rparr>, outs)" by blast
    moreover obtain q' where "aq_emit (aq1\<lparr> aq_queries := n \<rparr>) eth q = Inr q'"
      using em [OF eth(1), of "aq1\<lparr> aq_queries := n \<rparr>"] i1(2) by auto
    moreover have "aq_inv (aq1\<lparr> aq_queries := n \<rparr>)" using i1(1) by (simp add: aq_inv_def)
    ultimately show ?thesis using l x w q(1) eth(2) unfolding aq1_def by (subst aq_resolve.simps) (simp add: Let_def)
  next
    case None
    obtain qb qm where e: "aq_emit aq1 make_broadcast q = Inr qb" "aq_emit aq1 (multicast_eth dst) q = Inr qm"
      using em [of make_broadcast aq1] em [of "multicast_eth dst" aq1] i1(2) by (auto simp: make_broadcast_def multicast_eth_def Let_def)
    have nu: "\<forall>ae. at_get t1 dst = Some ae \<longrightarrow> \<not> ae_usable now (at_timeout_j t1) ae"
      using arp_lookup_ok(4,5) [of "aq_table aq" now dst "aq_poll_timeout_j aq"] t l None by (auto simp: table_ok_def)
    from table_ok_append [OF t1 assms(3) nu, of room] obtain ans t2 where
      a: "append_query room now dst q t1 = Inr (ans, t2)" "ans \<noteq> Again" "table_ok t2" by blast
    define aq2 where "aq2 = aq1\<lparr> aq_table := t2 \<rparr>"
    have i2: "aq_inv aq2" using a(3) en by (simp add: aq2_def aq_inv_def aq1_def)
    from send_query_total [OF assms(1) q(2,3), of aq2 False] obtain n outs where
      s: "send_query_for mem aq2 q False = Inr (aq2\<lparr> aq_queries := n \<rparr>, outs)" by blast
    have i3: "aq_inv (aq2\<lparr> aq_queries := n \<rparr>)" "aq_inv (aq1\<lparr> aq_zero_warned := True, aq_drops := aq_drops aq1 + 1 \<rparr>)"
      using i1(1) i2 by (simp_all add: aq_inv_def)
    consider "dst = 0xFFFFFFFF \<or> dst = aq_my_bcast_ip aq" | "\<not> (dst = 0xFFFFFFFF \<or> dst = aq_my_bcast_ip aq)" "is_multicast dst"
      | "\<not> (dst = 0xFFFFFFFF \<or> dst = aq_my_bcast_ip aq)" "\<not> is_multicast dst" "dst = 0" | "plain_dst aq dst"
      unfolding plain_dst_def by blast
    then show ?thesis
    proof cases
      case 1
      then have "aq_resolve mem room now aq q = Some (Inr (aq1, [(0, qb)]))"
        using l None e(1) q(1) unfolding aq1_def by (subst aq_resolve.simps) auto
      then show ?thesis using i1(1) by blast
    next
      case 2
      then have "aq_resolve mem room now aq q = Some (Inr (aq1, [(0, qm)]))"
        using l None e(2) q(1) unfolding aq1_def by (subst aq_resolve.simps) simp
      then show ?thesis using i1(1) by blast
    next
      case 3
      then have "aq_resolve mem room now aq q = Some (Inr (aq1\<lparr> aq_zero_warned := True, aq_drops := aq_drops aq1 + 1 \<rparr>, []))"
        using l None q(1) unfolding aq1_def by (subst aq_resolve.simps) simp
      then show ?thesis using i3(2) by blast
    next
      case 4
      then have "aq_resolve mem room now aq q = Some (Inr (if ans = Stored True then (aq2\<lparr> aq_queries := n \<rparr>, outs) else (aq2, [])))"
        using l None q(1) a(1,2) s unfolding aq1_def aq2_def plain_dst_def
        by (subst aq_resolve.simps) (cases ans; simp)
      then show ?thesis using i2 i3(1) by (cases "ans = Stored True") auto
    qed
  qed
qed

lemma handle_ip_total:
  assumes "mem_ok mem" and "aq_inv aq" and "response \<longrightarrow> (\<exists>dst body. held dst body p)"
  shows "\<exists>aq' outs. handle_ip mem room now aq p response = Some (Inr (aq', outs)) \<and> aq_inv aq'"
proof -
  have drop: "aq_inv (aq\<lparr> aq_drops := n \<rparr>)" for n using assms(2) by (simp add: aq_inv_def)
  consider "aq_my_ip aq = 0" | "aq_my_ip aq \<noteq> 0" response | "aq_my_ip aq \<noteq> 0" "\<not> response" by blast
  then show ?thesis
  proof cases
    case 1
    then show ?thesis using drop by (simp add: handle_ip_def)
  next
    case 2
    then obtain dst body where h: "held dst body p" using assms(3) by blast
    then show ?thesis using resolve_total [OF assms(1,2) h, of room now] 2 by (simp add: handle_ip_def held_def uniqueify_unshared)
  next
    case 3
    show ?thesis
    proof (cases "packet_push mem 14 p = Inr None")
      case True
      then show ?thesis using 3 drop by (simp add: handle_ip_def push_mac_header_def)
    next
      case False
      then obtain q where "packet_push mem 14 p = Inr (Some q)" using packet_push_total [of mem 14 p] by (metis option.exhaust)
      from stamp_pushed [OF assms(1) this] obtain q1 q2 where
        "push_mac_header mem 14 p = Inr (Some q1)" "on_mac (\<lambda>h. write16 h 12 (htons ETHERTYPE_IP)) q1 = Inr q2"
        "held (dst_ip_anno p) (pdata p) q2" by blast
      then show ?thesis using resolve_total [OF assms(1,2), of _ _ q2 room now] 3 by (simp add: handle_ip_def)
    qed
  qed
qed

lemma send_cached_total:
  assumes "mem_ok mem"
  shows "aq_inv aq \<Longrightarrow> \<forall>p \<in> set ps. \<exists>dst body. held dst body p \<Longrightarrow>
     \<exists>aq' outs. send_cached mem room now aq ps = Some (Inr (aq', outs)) \<and> aq_inv aq'"
proof (induction ps arbitrary: aq)
  case (Cons p ps)
  from handle_ip_total [OF assms Cons.prems(1), of True p room now] Cons.prems(2) obtain aq1 outs1 where
    "handle_ip mem room now aq p True = Some (Inr (aq1, outs1))" "aq_inv aq1" by auto
  with Cons.IH [of aq1] Cons.prems(2) show ?case by auto
qed simp

lemma handle_response_total:
  assumes "mem_ok mem" and "aq_inv aq"
  shows "\<exists>aq' outs. handle_response mem True now aq p = Some (Inr (aq', outs)) \<and> aq_inv aq'"
proof -
  define aq1 where "aq1 = aq\<lparr> aq_responses := aq_responses aq + 1 \<rparr>"
  have i: "aq_inv aq1" "table_ok (aq_table aq1)" using assms(2) by (simp_all add: aq1_def aq_inv_def)
  show ?thesis
  proof (cases "plength p < 42")
    case False
    then obtain ipa reply where r: "read32 (pdata p) 28 = Inr ipa" "arp_is ARPOP_REPLY (pdata p) = Inr reply"
      by (simp add: read32_def arp_is_def read16_def)
    define ena where "ena = take 6 (drop 22 (pdata p))"
    have e: "read_bytes (pdata p) 22 6 = Inr ena" "length ena = 6" using False by (simp_all add: read_bytes_def ena_def)
    from table_ok_insert [OF i(2) e(2), of True ipa now True] obtain t' where
      ins: "arp_insert True now ipa ena True (aq_table aq1) = Inr (True, Some (waiting (aq_table aq1) ipa), t')" "table_ok t'" by auto
    have "aq_inv (aq1\<lparr> aq_table := t' \<rparr>)" using i(1) ins(2) by (simp add: aq_inv_def)
    from send_cached_total [OF assms(1) this] table_ok_waiting [OF i(2)] obtain aq' outs where
      "send_cached mem True now (aq1\<lparr> aq_table := t' \<rparr>) (waiting (aq_table aq1) ipa) = Some (Inr (aq', outs))" "aq_inv aq'" by blast
    then have "handle_response mem True now aq p = Some (Inr (if reply \<and> \<not> is_group ena then (aq', outs) else (aq1, [])))"
      using False r e(1) ins(1) by (auto simp: handle_response_def aq1_def Let_def)
    then show ?thesis using \<open>aq_inv aq'\<close> i(1) by (cases "reply \<and> \<not> is_group ena") auto
  qed (use assms(2) in \<open>simp add: handle_response_def\<close>)
qed

text \<open>Everything that can happen to a querier, and a run of any number of these events.\<close>

datatype aq_event =
    Ev_ip bool u32 packet
  | Ev_response u32 packet
  | Ev_timer u32
  | Ev_command bool u32 aq_command
  | Ev_reconfigure aq_options ipaddr ipaddr ethaddr

fun aq_handle :: "allocator \<Rightarrow> aq_event \<Rightarrow> arp_querier \<Rightarrow> (arp_querier \<times> (nat \<times> packet) list) run" where
  "aq_handle mem (Ev_ip room now p) aq = aq_push mem room now 0 aq p"
| "aq_handle mem (Ev_response now p) aq = aq_push mem True now 1 aq p"
| "aq_handle mem (Ev_timer now) aq = dbind (arp_run_timer now (aq_table aq)) (\<lambda>(t, _). Some (Inr (aq\<lparr> aq_table := t \<rparr>, [])))"
| "aq_handle mem (Ev_command room now c) aq = dbind (aq_write_handler room now c aq) (\<lambda>aq. Some (Inr (aq, [])))"
| "aq_handle mem (Ev_reconfigure ops ip m en) aq = Some (Inr (aq_live_reconfigure ops ip m en aq, []))"

fun aq_events :: "allocator \<Rightarrow> aq_event list \<Rightarrow> arp_querier \<Rightarrow> (arp_querier \<times> (nat \<times> packet) list) run" where
  "aq_events mem [] aq = Some (Inr (aq, []))"
| "aq_events mem (ev # evs) aq =
     rbind (aq_handle mem ev aq) (\<lambda>(aq, outs). rbind (aq_events mem evs aq) (\<lambda>(aq, outs'). Some (Inr (aq, outs @ outs'))))"

text \<open>Ethernet addresses have six bytes; a change of the configuration leaves the capacities of the table alone.\<close>

fun event_ok :: "aq_event \<Rightarrow> bool" where
  "event_ok (Ev_command room now (AQ_insert ip eth)) = (length eth = 6)"
| "event_ok (Ev_reconfigure ops ip m en) = (length en = 6 \<and> op_capacity ops = None \<and> op_entry_capacity ops = None)"
| "event_ok _ = True"

lemma table_ok_slim: "table_ok t \<Longrightarrow> \<exists>t' delay. arp_run_timer now t = Inr (t', delay) \<and> table_ok t'"
proof -
  assume t: "table_ok t"
  then have inv: "arp_inv t" and w: "arp_wf 0 0 t" by (simp_all add: table_ok_def arp_inv_def)
  from arp_timer_ok [OF inv, of now] obtain t' delay where
    r: "arp_run_timer now t = Inr (t', delay)" and i: "arp_inv t'" by blast
  then have s: "slim now t = Inr t'" by (auto simp: arp_run_timer_def ebind_Inr_conv)
  have "entry_ok ip ae" if a: "at_get t' ip = Some ae" for ip ae
  proof -
    have "ip \<noteq> ip + 1" by simp
    with slim_kept [OF w le0 s, of "ip + 1"] a obtain ae0 d where
      "at_get t ip = Some ae0" "ae = ae0\<lparr> ae_packets := drop d (ae_packets ae0) \<rparr>" unfolding kept_def by blast
    then show ?thesis using t by (auto simp: table_ok_def entry_ok_def dest: in_set_dropD)
  qed
  then show ?thesis using r i by (simp add: table_ok_def)
qed

lemma set_timeout_keeps:
  "at_get (set_timeout sec ms t) = at_get t" "arp_inv (set_timeout sec ms t) = arp_inv t" "table_ok (set_timeout sec ms t) = table_ok t"
proof -
  show g: "at_get (set_timeout sec ms t) = at_get t" by (simp add: at_get_def [abs_def] set_timeout_def)
  then have "arp_wf 0 0 (set_timeout sec ms t) = arp_wf 0 0 t" by (simp add: arp_wf_def) (simp add: set_timeout_def)
  then show "arp_inv (set_timeout sec ms t) = arp_inv t" by (simp add: arp_inv_def) (simp add: set_timeout_def)
  with g show "table_ok (set_timeout sec ms t) = table_ok t" by (simp add: table_ok_def)
qed

lemma table_ok_clear: "table_ok t \<Longrightarrow> table_ok (arp_clear t)"
  using arp_clear_ok by (simp add: table_ok_def)

lemma aq_reconfigure_inv:
  assumes "aq_inv aq" and "length en = 6" and "op_capacity ops = None" and "op_entry_capacity ops = None"
  shows "aq_inv (aq_live_reconfigure ops ip m en aq)"
  using assms table_ok_clear [of "aq_table aq"]
  by (auto simp: aq_inv_def aq_live_reconfigure_def Let_def set_timeout_keeps split: option.split prod.split)

lemma aq_handle_total:
  assumes "mem_ok mem" and "aq_inv aq" and "event_ok ev"
  shows "\<exists>aq' outs. aq_handle mem ev aq = Some (Inr (aq', outs)) \<and> aq_inv aq'"
proof (cases ev)
  case (Ev_ip room now p)
  then show ?thesis using handle_ip_total [OF assms(1,2), of False p room now] by (simp add: aq_push_def)
next
  case (Ev_response now p)
  then show ?thesis using handle_response_total [OF assms(1,2), of now p] by (simp add: aq_push_def)
next
  case (Ev_timer now)
  have "table_ok (aq_table aq)" using assms(2) by (simp add: aq_inv_def)
  from table_ok_slim [OF this, of now] show ?thesis using assms(2) Ev_timer by (auto simp: aq_inv_def)
next
  case (Ev_reconfigure ops ip m en)
  then show ?thesis using aq_reconfigure_inv [OF assms(2)] assms(3) by simp
next
  case (Ev_command room now c)
  have t: "table_ok (aq_table aq)" using assms(2) by (simp add: aq_inv_def)
  have ins: "\<exists>t'. arp_write_handler room now (H_insert ip eth) (aq_table aq) = Inr t' \<and> table_ok t'" if "length eth = 6" for ip eth
    using table_ok_insert [OF t that, of room ip now False] t by (cases "room \<or> at_get (aq_table aq) ip \<noteq> None") auto
  have "length make_broadcast = 6" by (simp add: make_broadcast_def)
  from ins [OF this] have del: "\<exists>t'. arp_write_handler room now (H_delete ip) (aq_table aq) = Inr t' \<and> table_ok t'" for ip by simp
  have "\<exists>aq'. aq_write_handler room now c aq = Inr aq' \<and> aq_inv aq'"
  proof (cases c)
    case (AQ_insert ip eth)
    then have "length eth = 6" using assms(3) Ev_command by simp
    from ins [OF this, of ip] obtain t' where "arp_write_handler room now (H_insert ip eth) (aq_table aq) = Inr t'" "table_ok t'" by blast
    then show ?thesis using assms(2) AQ_insert by (simp add: aq_inv_def del: arp_write_handler.simps)
  next
    case (AQ_delete ip)
    from del [of ip] obtain t' where "arp_write_handler room now (H_delete ip) (aq_table aq) = Inr t'" "table_ok t'" by blast
    then show ?thesis using assms(2) AQ_delete by (simp add: aq_inv_def del: arp_write_handler.simps)
  qed (use assms(2) table_ok_clear [OF t] in \<open>simp_all add: aq_inv_def\<close>)
  then show ?thesis using Ev_command by auto
qed

text \<open>
  C23. The querier is safe. Whatever packets, responses, timer events, handler calls and changes of its addresses and timeouts a configured querier
  gets, in any order and at any times, with packets that cannot be allocated and entries that cannot be stored for outgoing traffic, it
  handles each of them to the end: no assertion fails, no pointer is null or dangling, the retry loop ends, and the table stays consistent.
\<close>

theorem arp_querier_safe:
  assumes "mem_ok mem" and "length my_en = 6" and "op_table ops = None" and "\<forall>ev \<in> set evs. event_ok ev"
  shows "\<exists>aq outs. aq_events mem evs (aq_configure ops my_ip my_mask my_en n) = Some (Inr (aq, outs)) \<and>
     arp_inv (aq_table aq) \<and> (\<nexists>ip q. q \<in> set (waiting (aq_table aq) ip) \<and> (shared q \<or> dst_ip_anno q \<noteq> ip))"
proof -
  have "aq_inv (aq_configure ops my_ip my_mask my_en n)"
    using arp_configure_inv assms(2,3)
    by (auto simp: aq_inv_def table_ok_def aq_configure_def at_get_def arp_configure_def Let_def arp_new_def set_timeout_def ht_find_empty
        split: option.split prod.split)
  moreover have "\<exists>aq' outs. aq_events mem evs aq = Some (Inr (aq', outs)) \<and> aq_inv aq'" if "aq_inv aq" for aq
    using that assms(4)
  proof (induction evs arbitrary: aq)
    case (Cons ev evs)
    from aq_handle_total [OF assms(1) Cons.prems(1), of ev] Cons.prems(2) obtain aq1 outs1 where
      "aq_handle mem ev aq = Some (Inr (aq1, outs1))" "aq_inv aq1" by auto
    with Cons.IH [of aq1] Cons.prems(2) show ?case by auto
  qed simp
  ultimately obtain aq outs where
    r: "aq_events mem evs (aq_configure ops my_ip my_mask my_en n) = Some (Inr (aq, outs))" and i: "aq_inv aq" by blast
  have "\<not> shared q \<and> dst_ip_anno q = ip" if "q \<in> set (waiting (aq_table aq) ip)" for ip q
    using table_ok_waiting [of "aq_table aq" q ip] that i by (auto simp: aq_inv_def held_def)
  then show ?thesis using r i by (auto simp: aq_inv_def table_ok_def)
qed

theorem arp_querier_safe_witness:
  "\<exists>aq outs. aq_events (\<lambda>_. None) [Ev_ip True 1 ex_client_packet, Ev_command True 2 (AQ_insert 0x0102A8C0 (ex_eth 3)), Ev_timer 3, Ev_response 4 ex_packet]
     ex_querier = Some (Inr (aq, outs)) \<and> arp_inv (aq_table aq)"
proof -
  have "mem_ok (\<lambda>_. None)" by (simp add: mem_ok_def)
  then show ?thesis
    using arp_querier_safe [of "\<lambda>_. None" "ex_eth 1" ex_options
        "[Ev_ip True 1 ex_client_packet, Ev_command True 2 (AQ_insert 0x0102A8C0 (ex_eth 3)), Ev_timer 3, Ev_response 4 ex_packet]" "0xFE02A8C0" "0x00FFFFFF" 1]
    unfolding ex_querier_def [symmetric] by (fastforce simp: ex_eth_def ex_options_def simp del: aq_events.simps)
qed

section \<open>Where the elements fail\<close>

text \<open>
  Very long timeouts. The times of the table are compared by their signed difference, so a timeout of half the range of the clock or more
  (about 25 days) counts as passed at once: an address that has just been inserted is not found, even at the same moment. Only
  timeouts near the whole range are taken to mean that entries never expire.
\<close>

lemma arp_long_timeout_unusable:
  assumes "arp_inv t" and "sec < 0xFFFFFFFF div CLICK_HZ" and "0x80000000 \<le> sec * CLICK_HZ + ms"
  shows "\<exists>cached t'. arp_insert True now ip eth drain (set_timeout sec ms t) = Inr (True, cached, t') \<and>
     fst (arp_lookup now ip poll t') = None"
proof -
  let ?t = "set_timeout sec ms t"
  have i: "arp_inv ?t" using assms(1) by (simp add: set_timeout_keeps)
  have j: "at_timeout_j ?t = sec * CLICK_HZ + ms" using assms(2) by (simp add: set_timeout_def not_le [symmetric])
  from arp_insert_ok [OF i, of True ip now eth drain] obtain cached t' where
    t': "arp_insert True now ip eth drain ?t = Inr (True, cached, t')" "at_timeout_j t' = at_timeout_j ?t"
      "at_get t' ip = Some \<lparr> ae_eth = eth, ae_known = (\<not> is_broadcast eth), ae_live_at_j = now,
         ae_polled_at_j = now - CLICK_HZ, ae_packets = (if drain then [] else waiting ?t ip) \<rparr>" by blast
  have "jiffies_less (now + at_timeout_j t') now" "at_timeout_j t' \<noteq> 0"
    using sint_large [OF assms(3)] assms(3) by (auto simp: jiffies_less_def t'(2) j)
  then show ?thesis using t'(1,3) by (simp add: arp_lookup_def ae_usable_def ae_expired_def)
qed

theorem arp_long_timeout_unusable_witness:
  "\<exists>cached t'. arp_insert True 0 0x0102A8C0 (ex_eth 1) False (set_timeout 2592000 0 arp_new) = Inr (True, cached, t') \<and>
     fst (arp_lookup 0 0x0102A8C0 0 t') = None"
proof -
  have "arp_inv arp_new" by (rule arp_inv_empty) (simp_all add: arp_new_def)
  then show ?thesis by (rule arp_long_timeout_unusable) simp_all
qed

text \<open>
  C36. A capacity lowered at run time. When the new entry capacity is below the number of entries and the table is full of packets, the next packet
  for the oldest entry is appended to an entry that has been deallocated in the same call.
\<close>

theorem arp_shrunk_capacity_use_after_free:
  assumes "arp_wf 0 0 t" and "at_age t = ip # rest" and "at_get t ip = Some ae" and "\<not> ae_known ae" and "at_timeout_j t = 0"
    and "at_packet_capacity t \<noteq> 0" and "at_packet_count t = at_packet_capacity t" and "0 < c" and "c < at_entry_count t"
  shows "append_query room now ip p (t\<lparr> at_entry_capacity := c \<rparr>) = Inl Use_after_free"
proof -
  let ?t = "t\<lparr> at_entry_capacity := c \<rparr>"
  define t1 where "t1 = ?t\<lparr> at_packet_count := at_packet_count t + 1 \<rparr>"
  have g: "at_get t1 = at_get t" "at_get ?t = at_get t" by (simp_all add: at_get_def [abs_def] t1_def)
  have w: "arp_wf 1 0 t1" "1 \<le> at_packet_capacity t1" using assms(1,6) g(1) by (simp_all add: arp_wf_def t1_def)
  from slim_ok [OF w, of now] obtain t2 n where t2: "slim now t1 = Inr t2" "arp_wf 1 0 t2" "at_age t2 = drop n (at_age t1)"
      "at_age t2 \<noteq> [] \<longrightarrow> at_entry_capacity t1 \<noteq> 0 \<longrightarrow> at_entry_count t2 \<le> at_entry_capacity t1" by blast
  have t1: "at_age t1 = ip # rest" "at_entry_capacity t1 = c" using assms(2) by (simp_all add: t1_def)
  have "n \<noteq> 0"
  proof
    assume "n = 0"
    with t2 have "at_entry_count t2 = length (at_age t)" "at_entry_count t2 \<le> c" using assms(2,8) t1 by (auto simp: arp_wf_def)
    then show False using assms(1,9) by (simp add: arp_wf_def)
  qed
  then have "set (at_age t2) \<subseteq> set rest" using t2(3) t1(1) by (cases n) (auto dest: in_set_dropD)
  then have "at_get t2 ip = None" using t2(2) assms(1,2) by (auto simp: arp_wf_def)
  moreover have "keep_live now ip ae ?t = ?t" using assms(5) by (simp add: keep_live_def Let_def)
  moreover have "count_packet now ?t = Inr t2" using assms(6,7) t2(1) by (simp add: count_packet_def t1_def Let_def)
  ultimately show ?thesis using assms(3,4) g(2) by (simp add: append_query_def ensure_def ae_usable_def)
qed

definition ex_arp_entry :: "packet list \<Rightarrow> ARPEntry" where
  "ex_arp_entry ps = (new_entry 0)\<lparr> ae_packets := ps \<rparr>"

definition ex_full_table :: arp_table where
  "ex_full_table = arp_new\<lparr> at_table := ht_link ip_hashcode 2 (ex_arp_entry []) (ht_link ip_hashcode 1 (ex_arp_entry [ex_packet]) ht_empty),
     at_age := [1, 2], at_entry_count := 2, at_packet_count := 1, at_packet_capacity := 1 \<rparr>"

lemma ex_full_table_ok: "arp_wf 0 0 ex_full_table" "at_get ex_full_table 1 = Some (ex_arp_entry [ex_packet])"
proof -
  let ?h = "ht_link ip_hashcode 1 (ex_arp_entry [ex_packet]) ht_empty"
  have h1: "ht_inv ip_hashcode ?h" "ht_find ip_hashcode ?h = [1 \<mapsto> ex_arp_entry [ex_packet]]"
    by (simp_all add: hc.invar_link ht.invar_new ht.lookup_new hc.lookup_link) (simp add: fun_eq_iff ht.lookup_new)
  then have "ht_find ip_hashcode ?h 2 = None" by simp
  note h2 = hc.invar_link [OF h1(1) this] hc.lookup_link [OF h1(1) this]
  have g: "at_get ex_full_table = [1 \<mapsto> ex_arp_entry [ex_packet], 2 \<mapsto> ex_arp_entry []]"
    by (simp add: at_get_def [abs_def] ex_full_table_def h2(2) h1(2))
  then show "at_get ex_full_table 1 = Some (ex_arp_entry [ex_packet])" by simp
  show "arp_wf 0 0 ex_full_table" unfolding arp_wf_def g using h2(1)
    by (auto simp: ex_full_table_def ex_arp_entry_def new_entry_def split: if_splits)
qed

theorem arp_shrunk_capacity_use_after_free_witness:
  "append_query True 5 1 ex_packet (ex_full_table\<lparr> at_entry_capacity := 1 \<rparr>) = Inl Use_after_free"
  by (rule arp_shrunk_capacity_use_after_free [OF ex_full_table_ok(1) _ ex_full_table_ok(2)])
     (simp_all add: ex_full_table_def ex_arp_entry_def new_entry_def arp_new_def)

text \<open>
  No memory for the entry of a response. A reply from an address that has no entry, when none can be allocated, makes the querier walk a
  list of packets from a pointer that was never set.
\<close>

lemma aq_response_no_memory:
  assumes "length dhost = 6" and "length shost = 6" and "length sha = 6" and "length tha = 6" and "length tpa = 4" and "\<not> is_group sha"
    and "pdata p = arp_frame dhost shost ARPOP_REPLY sha (bytes32 ip) tha tpa" and "at_get (aq_table aq) ip = None"
  shows "aq_push mem False now 1 aq p = Some (Inl Uninitialised)"
proof -
  note a = arp_frame_reads [OF assms(1,2,3) length_bytes(2) assms(4,5)]
  show ?thesis
    using a(1) [of ARPOP_REPLY] a(2) a(5) [OF refl] assms arp_insert_no_memory [of False "aq_table aq" ip now sha True]
    by (simp add: aq_push_def handle_response_def)
qed

theorem aq_response_no_memory_witness:
  "aq_push ex_mem False 5 1 ex_querier (ex_packet\<lparr> pdata := arp_frame (ex_eth 1) (ex_eth 2) ARPOP_REPLY (ex_eth 2) (bytes32 0x0102A8C0)
      (ex_eth 1) (bytes32 0xFE02A8C0) \<rparr>) = Some (Inl Uninitialised)"
  by (rule aq_response_no_memory [OF _ _ _ _ _ _ _ ex_querier_ok(2)]) (simp_all add: ex_eth_def is_group_def)

end
