(* ===== verification/Link_Exchange.thy ===== *)
theory Link_Exchange
  imports Click_LinkInput Click_ARPSafety
begin

text \<open>
  The link-layer input of the stations (\<^verbatim>\<open>scripts/routers/client.click\<close>, \<^verbatim>\<open>router.click\<close>), composed from the models of
  its elements: \<^verbatim>\<open>HostEtherFilter -> Classifier\<close>, with requests to \<^verbatim>\<open>ARPResponder\<close>, replies to \<^verbatim>\<open>ARPQuerier\<close> and the rest
  to the IP path. The theory shows that the router and a host resolve each other's addresses through these inputs.
\<close>

section \<open>The input paths\<close>

record station =
  st_filter :: host_ether_filter
  st_program :: program
  st_bindings :: "arp_binding list"
  st_querier :: arp_querier

datatype link_out = To_link nat packet | To_ip packet

definition link_classify :: "station \<Rightarrow> packet \<Rightarrow> (nat \<times> packet) list run" where
  "link_classify st p =
     dbind (hostetherfilter_simple_action (st_filter st) p) (\<lambda>(q, _). case q of
         None \<Rightarrow> Some (Inr [])
       | Some q \<Rightarrow> bytes_classifier_push 3 (st_program st) q)"

definition answer_request :: "allocator \<Rightarrow> nat \<Rightarrow> station \<Rightarrow> packet \<Rightarrow> link_out list exec" where
  "answer_request mem i st q =
     ebind (responder_simple_action mem 1 (st_bindings st) q) (\<lambda>(rep, _). Inr (case rep of None \<Rightarrow> [] | Some r \<Rightarrow> [To_link i r]))"

definition take_reply :: "allocator \<Rightarrow> bool \<Rightarrow> u32 \<Rightarrow> nat \<Rightarrow> station \<Rightarrow> packet \<Rightarrow> (station \<times> link_out list) run" where
  "take_reply mem room now i st q =
     rbind (aq_push mem room now 1 (st_querier st) q) (\<lambda>(aq, outs).
       Some (Inr (st\<lparr> st_querier := aq \<rparr>, map (\<lambda>(_, r). To_link i r) outs)))"

text \<open>A host has one interface, number 0.\<close>

definition host_link_input :: "allocator \<Rightarrow> bool \<Rightarrow> u32 \<Rightarrow> station \<Rightarrow> packet \<Rightarrow> (station \<times> link_out list) run" where
  "host_link_input mem room now st p =
     rbind (link_classify st p) (\<lambda>outs. case outs of
         [] \<Rightarrow> Some (Inr (st, []))
       | (port, q) # _ \<Rightarrow>
           if port = 0 then dbind (answer_request mem 0 st q) (\<lambda>out. Some (Inr (st, out)))
           else if port = 1 then take_reply mem room now 0 st q
           else Some (Inr (st, [To_ip q])))"

text \<open>The router has three; \<^verbatim>\<open>arpt :: Tee(3)\<close> copies a reply to the queriers of all of them.\<close>

fun take_replies :: "allocator \<Rightarrow> (nat \<Rightarrow> bool) \<Rightarrow> u32 \<Rightarrow> (nat \<times> packet) list \<Rightarrow> station list \<Rightarrow> (station list \<times> link_out list) run" where
  "take_replies mem room now [] sts = Some (Inr (sts, []))"
| "take_replies mem room now ((j, q) # qs) sts =
     rbind (take_reply mem (room j) now j (sts ! j) q) (\<lambda>(st, out).
     rbind (take_replies mem room now qs (sts[j := st])) (\<lambda>(sts, out'). Some (Inr (sts, out @ out'))))"

definition router_link_input ::
  "allocator \<Rightarrow> (nat \<Rightarrow> bool) \<Rightarrow> u32 \<Rightarrow> nat \<Rightarrow> station list \<Rightarrow> packet \<Rightarrow> (station list \<times> link_out list) run" where
  "router_link_input mem room now i sts p =
     rbind (link_classify (sts ! i) p) (\<lambda>outs. case outs of
         [] \<Rightarrow> Some (Inr (sts, []))
       | (port, q) # _ \<Rightarrow>
           if port = 0 then dbind (answer_request mem i (sts ! i) q) (\<lambda>out. Some (Inr (sts, out)))
           else if port = 1 then take_replies mem room now (tee_push 3 q) sts
           else Some (Inr (sts, [To_ip (paint_simple_action (of_nat (i + 1)) q)])))"

section \<open>Stations as the scripts configure them\<close>

definition script_filter :: "ethaddr \<Rightarrow> host_ether_filter" where
  "script_filter addr = \<lparr> hef_addr = addr, hef_offset = 0, hef_drop_own = False, hef_drop_other = True, hef_noutputs = 1 \<rparr>"

definition configured :: "string list \<Rightarrow> ethaddr \<Rightarrow> station \<Rightarrow> bool" where
  "configured patterns addr st \<longleftrightarrow> st_filter st = script_filter addr \<and>
     classifier_configure 3 None patterns (new_program 0) = Some (Inr (True, st_program st))"

lemma configured_programs:
  "configured host_patterns addr st \<Longrightarrow> st_program st = host_program"
  "configured router_patterns addr st \<Longrightarrow> st_program st = router_program"
  using configure_compiled [OF parse_script_patterns(1) _ host_compiled, of 3] configure_compiled [OF parse_script_patterns(2) _ router_compiled, of 3]
  by (simp_all add: configured_def host_patterns_def router_patterns_def)

lemma filter_accepts:
  assumes "14 \<le> plength p" "take 6 (pdata p) = addr \<or> take 6 (pdata p) = make_broadcast"
  shows "\<exists>t. hostetherfilter_simple_action (script_filter addr) p = Inr (Some (p\<lparr> packet_type_anno := t \<rparr>), [])"
  using assms by (auto simp: hostetherfilter_simple_action_def script_filter_def data_view_def Let_def make_broadcast_def numeral_eq_Suc)

lemma arp_frame_op:
  assumes "length dhost = 6" "length shost = 6" "length sha = 6" "length spa = 4" "length tha = 6" "length tpa = 4"
  shows "arp_op_is (arp_frame dhost shost ARPOP_REQUEST sha spa tha tpa) b \<longleftrightarrow> b = 1"
    "arp_op_is (arp_frame dhost shost ARPOP_REPLY sha spa tha tpa) b \<longleftrightarrow> b = 2"
    "take 6 (arp_frame dhost shost x sha spa tha tpa) = dhost" "length (arp_frame dhost shost x sha spa tha tpa) = 42"
  using assms by (auto simp: arp_op_is_def arp_frame_def bytes16_def htons_def nth_append)

lemma classify_request:
  assumes "configured patterns addr st" "patterns \<in> {host_patterns, router_patterns}" "3 \<le> length (tailroom_bytes p)"
    "plength p = 42" "arp_op_is (pdata p) b" "b = 1 \<or> b = 2" "take 6 (pdata p) = addr \<or> take 6 (pdata p) = make_broadcast"
  shows "\<exists>q. link_classify st p = Some (Inr [(if b = 1 then 0 else 1, q)]) \<and> pdata q = pdata p"
proof -
  from filter_accepts [of p addr] assms(4,7) obtain t where
    t: "hostetherfilter_simple_action (st_filter st) p = Inr (Some (p\<lparr> packet_type_anno := t \<rparr>), [])"
    using assms(1) by (auto simp: configured_def)
  let ?q = "p\<lparr> packet_type_anno := t \<rparr>"
  have al: "pr_align_offset host_program = 0" "pr_align_offset router_program = 0" by (simp_all add: host_program_def router_program_def)
  have "\<not> arp_op_is (pdata p) 1" if "b = 2" using that assms(5) by (simp add: arp_op_is_def)
  then have out: "program_out host_program (pdata p) = (if b = 1 then 0 else 1)" "program_out router_program (pdata p) = (if b = 1 then 0 else 1)"
    using assms(5,6) by (auto simp: host_out router_out)
  have "st_program st = host_program \<or> st_program st = router_program" using configured_programs assms(1,2) by auto
  then have "bytes_classifier_push 3 (st_program st) ?q = Some (Inr [(if b = 1 then 0 else 1, ?q)])"
    using classifier_push_out [OF script_programs_ok(1) al(1), of ?q 3] classifier_push_out [OF script_programs_ok(2) al(2), of ?q 3] assms(3,4) out
    by (auto simp: Let_def)
  then show ?thesis using t by (simp add: link_classify_def)
qed

section \<open>Requests and replies on the input paths\<close>

lemma request_frame:
  assumes "length (aq_my_en aq) = 6"
  shows "arp_op_is (query_frame aq dst) 1" "take 6 (query_frame aq dst) = make_broadcast" "length (query_frame aq dst) = 42"
  using arp_frame_op [of make_broadcast "aq_my_en aq" "aq_my_en aq" "bytes32 (aq_my_ip aq)" "replicate 6 0" "bytes32 dst"] assms
  by (simp_all add: query_frame_def length_bytes make_broadcast_def)

text \<open>Either kind of station answers a request for an address of its responder.\<close>

lemma request_answered:
  assumes "has_memory mem" "pdata q = query_frame aq dst" "length (aq_my_en aq) = 6" "responder_lookup (st_bindings st) dst = Some ena" "length ena = 6"
    and "configured patterns addr st" "patterns \<in> {host_patterns, router_patterns}" "3 \<le> length (tailroom_bytes q)"
  shows "\<exists>q' rep. link_classify st q = Some (Inr [(0, q')]) \<and> answer_request mem i st q' = Inr [To_link i rep] \<and>
    pdata rep = arp_frame (aq_my_en aq) ena ARPOP_REPLY ena (bytes32 dst) (aq_my_en aq) (bytes32 (aq_my_ip aq))"
proof -
  from classify_request [OF assms(6-8), of 1] request_frame [OF assms(3), of dst] assms(2) obtain q' where
    q': "link_classify st q = Some (Inr [(0, q')])" "pdata q' = pdata q" by auto
  from responder_answers [OF assms(1) _ assms(3-5), of q' 1] q'(2) assms(2) obtain rep where
    "responder_simple_action mem 1 (st_bindings st) q' = Inr (Some rep, [])"
    "pdata rep = arp_frame (aq_my_en aq) ena ARPOP_REPLY ena (bytes32 dst) (aq_my_en aq) (bytes32 (aq_my_ip aq))" by auto
  then show ?thesis using q'(1) by (simp add: answer_request_def)
qed

lemma reply_classified:
  assumes "pdata r = arp_frame my_en ena ARPOP_REPLY ena (bytes32 dst) my_en (bytes32 my_ip)" "length my_en = 6" "length ena = 6"
    and "configured patterns my_en st" "patterns \<in> {host_patterns, router_patterns}" "3 \<le> length (tailroom_bytes r)"
  shows "\<exists>q. link_classify st r = Some (Inr [(1, q)]) \<and> pdata q = pdata r"
proof -
  have "arp_op_is (pdata r) 2" "take 6 (pdata r) = my_en" "plength r = 42"
    using arp_frame_op [of my_en ena ena "bytes32 dst" my_en "bytes32 my_ip"] assms(1-3) by (simp_all add: length_bytes)
  then show ?thesis using classify_request [OF assms(4-6), of 2] by simp
qed

text \<open>What a list of outputs puts on a link.\<close>

definition sent_on :: "nat \<Rightarrow> link_out list \<Rightarrow> packet list" where
  "sent_on i outs = concat (map (\<lambda>x. case x of To_link j r \<Rightarrow> if j = i then [r] else [] | To_ip _ \<Rightarrow> []) outs)"

lemma sent_on_append [simp]: "sent_on i (xs @ ys) = sent_on i xs @ sent_on i ys"
  by (simp add: sent_on_def)

lemma sent_on_links [simp]: "sent_on i (map (To_link j) rs) = (if j = i then rs else [])"
  by (induction rs) (auto simp: sent_on_def)

text \<open>The state of a querier that has resolved an address, and what it has sent.\<close>

definition resolved :: "u32 \<Rightarrow> ipaddr \<Rightarrow> ethaddr \<Rightarrow> arp_querier \<Rightarrow> byte list list \<Rightarrow> arp_querier \<Rightarrow> packet list \<Rightarrow> bool" where
  "resolved now dst ena aq bodies aq' rels \<longleftrightarrow>
     map pdata rels = map (\<lambda>b. ena @ aq_my_en aq @ bytes16 (htons ETHERTYPE_IP) @ b) bodies \<and>
     fst (arp_lookup now dst (aq_poll_timeout_j aq) (aq_table aq')) = Some (ena, False) \<and> waiting (aq_table aq') dst = []"

lemma reply_taken:
  assumes "pending (st_querier st) dst bodies" "at_get (aq_table (st_querier st)) dst \<noteq> None"
    and "at_timeout_j (aq_table (st_querier st)) < 0x80000000" "aq_poll_timeout_j (st_querier st) < 0x80000000"
    and "length ena = 6" "\<not> is_group ena" "length (aq_my_en (st_querier st)) = 6" "aq_my_ip (st_querier st) \<noteq> 0"
    and "pdata r = arp_frame (aq_my_en (st_querier st)) ena ARPOP_REPLY ena (bytes32 dst) (aq_my_en (st_querier st)) (bytes32 (aq_my_ip (st_querier st)))"
  shows "\<exists>aq' rels. take_reply mem room now i st r = Some (Inr (st\<lparr> st_querier := aq' \<rparr>, map (To_link i) rels)) \<and>
    resolved now dst ena (st_querier st) bodies aq' rels"
proof -
  from reply_releases [OF assms, of mem room now] obtain aq' rels where
    a: "aq_push mem room now 1 (st_querier st) r = Some (Inr (aq', map (Pair 0) rels))" "resolved now dst ena (st_querier st) bodies aq' rels"
    by (fastforce simp: resolved_def)
  have "take_reply mem room now i st r = Some (Inr (st\<lparr> st_querier := aq' \<rparr>, map (To_link i) rels))" using a(1) by (simp add: take_reply_def o_def)
  with a(2) show ?thesis by blast
qed

lemma other_reply_taken:
  assumes "mem_ok mem" "aq_inv (st_querier st)"
  shows "\<exists>aq' rels. take_reply mem True now j st r = Some (Inr (st\<lparr> st_querier := aq' \<rparr>, map (To_link j) rels))"
proof -
  from handle_response_total [OF assms, of now r] obtain aq' outs where "handle_response mem True now (st_querier st) r = Some (Inr (aq', outs))" by blast
  then have "take_reply mem True now j st r = Some (Inr (st\<lparr> st_querier := aq' \<rparr>, map (To_link j) (map snd outs)))"
    by (simp add: take_reply_def aq_push_def case_prod_unfold o_def)
  then show ?thesis by blast
qed

lemma tee_push_3: "\<exists>a b c. tee_push 3 q = [(0, a), (1, b), (2, c)] \<and> pdata a = pdata q \<and> pdata b = pdata q \<and> pdata c = pdata q"
  by (auto simp: tee_push_def numeral_2_eq_2 clone_def Let_def)

text \<open>A reply goes to all three queriers; what the querier of interface \<open>i\<close> releases goes to its link.\<close>

lemma replies_taken:
  assumes "length sts = 3" "i < 3" "mem_ok mem" "\<And>j. j < 3 \<Longrightarrow> j \<noteq> i \<Longrightarrow> aq_inv (st_querier (sts ! j))"
    and rel: "\<And>r. pdata r = pdata q \<Longrightarrow> \<exists>aq' rels. take_reply mem True now i (sts ! i) r = Some (Inr ((sts ! i)\<lparr> st_querier := aq' \<rparr>, map (To_link i) rels)) \<and> R aq' rels"
  shows "\<exists>sts' outs. take_replies mem (\<lambda>_. True) now (tee_push 3 q) sts = Some (Inr (sts', outs)) \<and> length sts' = 3 \<and>
    R (st_querier (sts' ! i)) (sent_on i outs)"
proof -
  have t: "\<exists>aq' rels. take_reply mem True now j (sts ! j) r = Some (Inr ((sts ! j)\<lparr> st_querier := aq' \<rparr>, map (To_link j) rels)) \<and> (j = i \<longrightarrow> R aq' rels)"
    if "j < 3" "pdata r = pdata q" for j r
    using rel [OF that(2)] other_reply_taken [OF assms(3) assms(4) [OF that(1)], of now j r] by (cases "j = i") auto
  obtain a b c where abc: "tee_push 3 q = [(0, a), (1, b), (2, c)]" "pdata a = pdata q" "pdata b = pdata q" "pdata c = pdata q" using tee_push_3 by blast
  obtain aq0 r0 where r0: "take_reply mem True now 0 (sts ! 0) a = Some (Inr ((sts ! 0)\<lparr> st_querier := aq0 \<rparr>, map (To_link 0) r0))" "0 = i \<longrightarrow> R aq0 r0"
    using t [of 0 a] abc(2) by auto
  obtain aq1 r1 where r1: "take_reply mem True now 1 (sts ! 1) b = Some (Inr ((sts ! 1)\<lparr> st_querier := aq1 \<rparr>, map (To_link 1) r1))" "1 = i \<longrightarrow> R aq1 r1"
    using t [of 1 b] abc(3) by auto
  obtain aq2 r2 where r2: "take_reply mem True now 2 (sts ! 2) c = Some (Inr ((sts ! 2)\<lparr> st_querier := aq2 \<rparr>, map (To_link 2) r2))" "2 = i \<longrightarrow> R aq2 r2"
    using t [of 2 c] abc(4) by auto
  have "i = 0 \<or> i = 1 \<or> i = 2" using assms(2) by linarith
  then show ?thesis using r0 r1 r2 assms(1) by (auto simp: abc(1))
qed

text \<open>A querier that waits for an address, its clock in range.\<close>

definition awaiting :: "ipaddr \<Rightarrow> byte list list \<Rightarrow> arp_querier \<Rightarrow> bool" where
  "awaiting dst bodies aq \<longleftrightarrow> pending aq dst bodies \<and> at_get (aq_table aq) dst \<noteq> None \<and> at_timeout_j (aq_table aq) < 0x80000000 \<and>
     aq_poll_timeout_j aq < 0x80000000 \<and> length (aq_my_en aq) = 6 \<and> aq_my_ip aq \<noteq> 0"

definition reply_to :: "arp_querier \<Rightarrow> ipaddr \<Rightarrow> ethaddr \<Rightarrow> byte list" where
  "reply_to aq dst ena = arp_frame (aq_my_en aq) ena ARPOP_REPLY ena (bytes32 dst) (aq_my_en aq) (bytes32 (aq_my_ip aq))"

lemma host_answers:
  assumes "has_memory mem" "pdata q = query_frame aq dst" "length (aq_my_en aq) = 6" "responder_lookup (st_bindings h) dst = Some ena" "length ena = 6"
    and "configured host_patterns addr h" "3 \<le> length (tailroom_bytes q)"
  shows "\<exists>rep. host_link_input mem room now h q = Some (Inr (h, [To_link 0 rep])) \<and> pdata rep = reply_to aq dst ena"
proof -
  from request_answered [OF assms(1-6) _ assms(7), of 0] obtain q' rep where
    "link_classify h q = Some (Inr [(0, q')])" "answer_request mem 0 h q' = Inr [To_link 0 rep]" "pdata rep = reply_to aq dst ena"
    unfolding reply_to_def by blast
  then show ?thesis by (intro exI [of _ rep]) (simp add: host_link_input_def)
qed

lemma router_takes_reply:
  assumes "length sts = 3" "i < 3" "mem_ok mem" and others: "\<And>j. j < 3 \<Longrightarrow> j \<noteq> i \<Longrightarrow> aq_inv (st_querier (sts ! j))"
    and w: "awaiting dst bodies (st_querier (sts ! i))" and "configured router_patterns (aq_my_en (st_querier (sts ! i))) (sts ! i)"
    and "length ena = 6" "\<not> is_group ena" "pdata r = reply_to (st_querier (sts ! i)) dst ena" "3 \<le> length (tailroom_bytes r)"
  shows "\<exists>sts' out. router_link_input mem (\<lambda>_. True) now i sts r = Some (Inr (sts', out)) \<and>
    resolved now dst ena (st_querier (sts ! i)) bodies (st_querier (sts' ! i)) (sent_on i out)"
proof -
  define st where "st = sts ! i"
  note w = w [folded st_def, unfolded awaiting_def]
  from reply_classified [of r "aq_my_en (st_querier st)" ena dst "aq_my_ip (st_querier st)" router_patterns st] obtain r' where
    r': "link_classify st r = Some (Inr [(1, r')])" "pdata r' = pdata r"
    using assms(6-10) w by (auto simp: st_def reply_to_def)
  have "\<exists>aq' rels. take_reply mem True now i st c = Some (Inr (st\<lparr> st_querier := aq' \<rparr>, map (To_link i) rels)) \<and>
      resolved now dst ena (st_querier st) bodies aq' rels" if "pdata c = pdata r'" for c
    using reply_taken [of st dst bodies ena c mem True now i] w that r'(2) assms(7-9) by (simp add: st_def reply_to_def)
  from replies_taken [OF assms(1-3) others this [unfolded st_def]] obtain sts' out where
    "take_replies mem (\<lambda>_. True) now (tee_push 3 r') sts = Some (Inr (sts', out))"
    "resolved now dst ena (st_querier (sts ! i)) bodies (st_querier (sts' ! i)) (sent_on i out)" by blast
  then show ?thesis using r'(1) by (simp add: router_link_input_def st_def)
qed

lemma queries_sent:
  assumes "has_memory mem" "aq_inv aq" "at_get (aq_table aq) dst = None" "plain_dst aq dst" "aq_my_ip aq \<noteq> 0"
    and "at_timeout_j (aq_table aq) < 0x80000000" "aq_poll_timeout_j aq < 0x80000000"
    and "ps \<noteq> []" "\<forall>x \<in> set ps. dst_ip_anno (snd x) = dst" "spare aq (length ps)"
  shows "\<exists>aq1 outs. aq_pushes mem ps aq = Some (Inr (aq1, outs)) \<and> outs \<noteq> [] \<and> awaiting dst (map (\<lambda>x. pdata (snd x)) ps) aq1 \<and>
    same_setup aq aq1 \<and> (\<forall>x \<in> set outs. pdata (snd x) = query_frame aq dst)"
proof -
  have len: "length (aq_my_en aq) = 6" and ai: "arp_inv (aq_table aq)" using assms(2) by (auto simp: aq_inv_def table_ok_def)
  have "pending aq dst []" using ai assms(3) by (simp add: pending_def waiting_def)
  from aq_pushes_ok [OF assms(1) this assms(10,4,5,9)] assms(3,8) obtain aq1 outs where
    p: "aq_pushes mem ps aq = Some (Inr (aq1, outs))" "pending aq1 dst (map (\<lambda>x. pdata (snd x)) ps)" "same_setup aq aq1"
      "at_get (aq_table aq1) dst \<noteq> None" "outs \<noteq> []" "\<forall>x \<in> set outs. pdata (snd x) = query_frame aq dst" by auto
  then have "awaiting dst (map (\<lambda>x. pdata (snd x)) ps) aq1" using assms(5-7) len by (simp add: awaiting_def same_setup_def)
  with p show ?thesis by blast
qed

section \<open>Resolution between the router and a host\<close>

text \<open>
  C18. The router resolves a host through the input paths of both. The querier of an interface of the router gets packets for a host that it does not know. Every
  frame it sends, arriving at the host as any packet with these bytes, passes the host's filter and classifier and is answered on the link; the
  answer, arriving at the router's interface, passes its filter and classifier and the tee, and releases the packets on that link, in order and addressed to the host.
  The queriers of the other interfaces, in whatever consistent state, take their copy without failing.
\<close>

theorem router_resolves_host:
  assumes "has_memory mem" and "length sts = 3" and "i < 3" and "\<forall>j < 3. aq_inv (st_querier (sts ! j))"
    and "st_querier (sts ! i) = aq" and "configured router_patterns (aq_my_en aq) (sts ! i)" and "configured host_patterns ena h"
    and "at_get (aq_table aq) dst = None" and "plain_dst aq dst" and "aq_my_ip aq \<noteq> 0"
    and "at_timeout_j (aq_table aq) < 0x80000000" and "aq_poll_timeout_j aq < 0x80000000"
    and "ps \<noteq> []" and "\<forall>x \<in> set ps. dst_ip_anno (snd x) = dst" and "spare aq (length ps)"
    and "responder_lookup (st_bindings h) dst = Some ena" and "length ena = 6" and "\<not> is_group ena"
  shows "\<exists>aq1 outs. aq_pushes mem ps aq = Some (Inr (aq1, outs)) \<and> outs \<noteq> [] \<and>
    (\<forall>x \<in> set outs. \<forall>q. pdata q = pdata (snd x) \<and> 3 \<le> length (tailroom_bytes q) \<longrightarrow>
      (\<exists>rep. host_link_input mem room now h q = Some (Inr (h, [To_link 0 rep])) \<and>
        (\<forall>r. pdata r = pdata rep \<and> 3 \<le> length (tailroom_bytes r) \<longrightarrow>
          (\<exists>sts' out. router_link_input mem (\<lambda>_. True) now i (sts[i := (sts ! i)\<lparr> st_querier := aq1 \<rparr>]) r = Some (Inr (sts', out)) \<and>
             resolved now dst ena aq (map (\<lambda>y. pdata (snd y)) ps) (st_querier (sts' ! i)) (sent_on i out)))))"
proof -
  have inv: "aq_inv aq" using assms(3-5) by blast
  from queries_sent [OF assms(1) inv assms(8-15)] obtain aq1 outs where
    p: "aq_pushes mem ps aq = Some (Inr (aq1, outs))" "outs \<noteq> []" "awaiting dst (map (\<lambda>x. pdata (snd x)) ps) aq1"
      "same_setup aq aq1" "\<And>x. x \<in> set outs \<Longrightarrow> pdata (snd x) = query_frame aq dst" by blast
  have same: "aq_my_en aq1 = aq_my_en aq" "reply_to aq dst ena = reply_to aq1 dst ena" "resolved now dst ena aq1 = resolved now dst ena aq"
    using p(4) by (auto simp: same_setup_def reply_to_def resolved_def fun_eq_iff)
  have len: "length (aq_my_en aq) = 6" using inv by (simp add: aq_inv_def)
  define sts1 where "sts1 = sts[i := (sts ! i)\<lparr> st_querier := aq1 \<rparr>]"
  have sts1: "length sts1 = 3" "st_querier (sts1 ! i) = aq1" "configured router_patterns (aq_my_en aq1) (sts1 ! i)"
    "\<And>j. j < 3 \<Longrightarrow> j \<noteq> i \<Longrightarrow> aq_inv (st_querier (sts1 ! j))"
    using assms(2-4,6) same(1) by (simp_all add: sts1_def configured_def)
  have m: "mem_ok mem" using assms(1) by (simp add: has_memory_def)
  note takes = router_takes_reply [OF sts1(1) assms(3) m sts1(4), of dst "map (\<lambda>y. pdata (snd y)) ps" ena, unfolded sts1(2),
      OF _ _ p(3) sts1(3) assms(17,18), simplified]
  show ?thesis
  proof (rule exI [of _ aq1], rule exI [of _ outs], intro conjI ballI allI impI)
    show "aq_pushes mem ps aq = Some (Inr (aq1, outs))" "outs \<noteq> []" by (fact p)+
    fix x :: "nat \<times> packet" and q :: packet
    assume x: "x \<in> set outs" and q: "pdata q = pdata (snd x) \<and> 3 \<le> length (tailroom_bytes q)"
    then have "pdata q = query_frame aq dst" using p(5) by simp
    from host_answers [OF assms(1) this len assms(16,17,7) conjunct2 [OF q], of room now] obtain rep where
      rep: "host_link_input mem room now h q = Some (Inr (h, [To_link 0 rep]))" "pdata rep = reply_to aq1 dst ena" using same(2) by auto
    show "\<exists>rep. host_link_input mem room now h q = Some (Inr (h, [To_link 0 rep])) \<and>
        (\<forall>r. pdata r = pdata rep \<and> 3 \<le> length (tailroom_bytes r) \<longrightarrow>
          (\<exists>sts' out. router_link_input mem (\<lambda>_. True) now i (sts[i := (sts ! i)\<lparr> st_querier := aq1 \<rparr>]) r = Some (Inr (sts', out)) \<and>
             resolved now dst ena aq (map (\<lambda>y. pdata (snd y)) ps) (st_querier (sts' ! i)) (sent_on i out)))"
      using takes rep unfolding sts1_def [symmetric] same(3) [symmetric] by (intro exI [of _ rep]) simp
  qed
qed

text \<open>The router of \<^verbatim>\<open>router.click\<close> with the example querier on its interfaces, and a client as host.\<close>

definition ex_port :: station where
  "ex_port = \<lparr> st_filter = script_filter (ex_eth 1), st_program = router_program, st_bindings = [ex_binding 0xFE02A8C0 0xFFFFFFFF 1], st_querier = ex_querier \<rparr>"

definition ex_host :: station where
  "ex_host = \<lparr> st_filter = script_filter (ex_eth 2), st_program = host_program, st_bindings = [ex_binding 0x0102A8C0 0xFFFFFFFF 2], st_querier = ex_querier \<rparr>"

lemma ex_stations_ok:
  "configured router_patterns (ex_eth 1) ex_port" "configured host_patterns (ex_eth 2) ex_host" "st_querier ex_port = ex_querier"
  "st_bindings ex_host = [ex_binding 0x0102A8C0 0xFFFFFFFF 2]"
  using configure_compiled [OF parse_script_patterns(1) _ host_compiled, of 3] configure_compiled [OF parse_script_patterns(2) _ router_compiled, of 3]
  by (simp_all add: configured_def ex_port_def ex_host_def host_patterns_def router_patterns_def)

lemma ex_querier_inv: "aq_inv ex_querier"
proof -
  have "at_get (aq_table ex_querier) ip = None" for ip
    by (simp add: ex_querier_def ex_options_def aq_configure_def arp_configure_def set_timeout_def arp_new_def at_get_def ht_find_empty)
  then show ?thesis using ex_querier_ok(1,5) by (simp add: aq_inv_def table_ok_def ex_eth_def)
qed

theorem router_resolves_host_witness:
  "\<exists>aq1 outs x rep sts' out. aq_pushes ex_mem ex_arrivals ex_querier = Some (Inr (aq1, outs)) \<and> x \<in> set outs \<and>
     host_link_input ex_mem True 9 ex_host ((snd x)\<lparr> tailroom_bytes := [0, 0, 0] \<rparr>) = Some (Inr (ex_host, [To_link 0 rep])) \<and>
     router_link_input ex_mem (\<lambda>_. True) 9 1 [ex_port, ex_port\<lparr> st_querier := aq1 \<rparr>, ex_port] (rep\<lparr> tailroom_bytes := [0, 0, 0] \<rparr>) = Some (Inr (sts', out)) \<and>
     resolved 9 0x0102A8C0 (ex_eth 2) ex_querier (map (\<lambda>y. pdata (snd y)) ex_arrivals) (st_querier (sts' ! 1)) (sent_on 1 out)"
proof -
  let ?sts = "[ex_port, ex_port, ex_port]"
  have lk: "responder_lookup [ex_binding 0x0102A8C0 0xFFFFFFFF 2] 0x0102A8C0 = Some (ex_eth 2)" "length (ex_eth b) = 6" "\<not> is_group (ex_eth b)" for b
    by (simp_all add: responder_lookup_def ex_binding_def ex_eth_def is_group_def)
  have "\<exists>aq1 outs. aq_pushes ex_mem ex_arrivals ex_querier = Some (Inr (aq1, outs)) \<and> outs \<noteq> [] \<and>
    (\<forall>x \<in> set outs. \<forall>q. pdata q = pdata (snd x) \<and> 3 \<le> length (tailroom_bytes q) \<longrightarrow>
      (\<exists>rep. host_link_input ex_mem True 9 ex_host q = Some (Inr (ex_host, [To_link 0 rep])) \<and>
        (\<forall>r. pdata r = pdata rep \<and> 3 \<le> length (tailroom_bytes r) \<longrightarrow>
          (\<exists>sts' out. router_link_input ex_mem (\<lambda>_. True) 9 1 (?sts[1 := (?sts ! 1)\<lparr> st_querier := aq1 \<rparr>]) r = Some (Inr (sts', out)) \<and>
             resolved 9 0x0102A8C0 (ex_eth 2) ex_querier (map (\<lambda>y. pdata (snd y)) ex_arrivals) (st_querier (sts' ! 1)) (sent_on 1 out)))))"
    using ex_mem_ok lk by (intro router_resolves_host) (simp_all add: ex_querier_ok ex_stations_ok ex_querier_inv ex_arrivals_def ex_client_packet_def nth_Cons')
  then obtain aq1 outs where p: "aq_pushes ex_mem ex_arrivals ex_querier = Some (Inr (aq1, outs))" "outs \<noteq> []"
    and all: "\<And>x q. x \<in> set outs \<Longrightarrow> pdata q = pdata (snd x) \<and> 3 \<le> length (tailroom_bytes q) \<Longrightarrow>
      \<exists>rep. host_link_input ex_mem True 9 ex_host q = Some (Inr (ex_host, [To_link 0 rep])) \<and>
        (\<forall>r. pdata r = pdata rep \<and> 3 \<le> length (tailroom_bytes r) \<longrightarrow>
          (\<exists>sts' out. router_link_input ex_mem (\<lambda>_. True) 9 1 (?sts[1 := (?sts ! 1)\<lparr> st_querier := aq1 \<rparr>]) r = Some (Inr (sts', out)) \<and>
             resolved 9 0x0102A8C0 (ex_eth 2) ex_querier (map (\<lambda>y. pdata (snd y)) ex_arrivals) (st_querier (sts' ! 1)) (sent_on 1 out)))" by blast
  from p(2) obtain x where x: "x \<in> set outs" using list.set_sel(1) by blast
  from all [OF x, of "(snd x)\<lparr> tailroom_bytes := [0, 0, 0] \<rparr>"] obtain rep where
    rep: "host_link_input ex_mem True 9 ex_host ((snd x)\<lparr> tailroom_bytes := [0, 0, 0] \<rparr>) = Some (Inr (ex_host, [To_link 0 rep]))"
      "\<And>r. pdata r = pdata rep \<and> 3 \<le> length (tailroom_bytes r) \<Longrightarrow>
        \<exists>sts' out. router_link_input ex_mem (\<lambda>_. True) 9 1 (?sts[1 := (?sts ! 1)\<lparr> st_querier := aq1 \<rparr>]) r = Some (Inr (sts', out)) \<and>
          resolved 9 0x0102A8C0 (ex_eth 2) ex_querier (map (\<lambda>y. pdata (snd y)) ex_arrivals) (st_querier (sts' ! 1)) (sent_on 1 out)" by auto
  have e: "?sts[1 := (?sts ! 1)\<lparr> st_querier := aq1 \<rparr>] = [ex_port, ex_port\<lparr> st_querier := aq1 \<rparr>, ex_port]" by simp
  have "pdata (rep\<lparr> tailroom_bytes := [0, 0, 0] \<rparr>) = pdata rep \<and> 3 \<le> length (tailroom_bytes (rep\<lparr> tailroom_bytes := [0, 0, 0] \<rparr>))" by simp
  from rep(2) [OF this, unfolded e] show ?thesis using p(1) x rep(1) by blast
qed

end
