(* ===== verification/Click_Miscompile.thy ===== *)
theory Click_Miscompile
  imports Click_LinkInput
begin

text \<open>
  A configuration of \<^verbatim>\<open>Classifier\<close> that the dominator pass of \<^verbatim>\<open>Program::optimize\<close> (\<^verbatim>\<open>click/elements/standard/classification.cc\<close>) compiles to a program
  with another meaning. The other passes keep the meaning of every program (theory \<open>Click_Passes\<close>).
\<close>

section \<open>The configuration\<close>

definition mixed_patterns :: "string list" where
  "mixed_patterns = [''4/18%18 4/20%20'', ''!4/30%30 4/98%98'', ''0/01 4/10%10'', ''-'']"

definition bits :: "bool \<Rightarrow> int \<Rightarrow> byte \<Rightarrow> byte \<Rightarrow> clause" where
  "bits neg off v m = \<lparr> cl_negated = neg, cl_offset = off, cl_bytes = [(v, m)] \<rparr>"

definition mixed_clauses :: "clause list list" where
  "mixed_clauses = [[bits False 4 0x18 0x18, bits False 4 0x20 0x20], [bits True 4 0x30 0x30, bits False 4 0x98 0x98],
     [bits False 0 1 0xFF, bits False 4 0x10 0x10], []]"

definition test_bits :: "nat \<Rightarrow> bool \<Rightarrow> u32 \<Rightarrow> u32 \<Rightarrow> int \<Rightarrow> int \<Rightarrow> insn" where
  "test_bits off sh v m no yes = \<lparr> in_offset = off, in_short = sh, in_mask = m, in_value = v, in_no = no, in_yes = yes \<rparr>"

definition mixed_program :: program where
  "mixed_program = \<lparr> pr_insn = [test_bits 4 False 24 24 3 1, test_bits 4 True 0 32 0 2, test_bits 4 False 152 152 3 (- 1), test_bits 0 False 1 255 (- 3) (- 2)],
     pr_output_everything = - 1, pr_safe_length = 5, pr_align_offset = 0 \<rparr>"

lemma mixed_parse: "parse_patterns mixed_patterns = Inr mixed_clauses"
  by code_simp

text \<open>The compilation in stages: the tree built, the dominator pass after three, five and all seven instructions, and the rest.\<close>

definition mixed_tree :: "insn list" where
  "mixed_tree = [test_bits 4 False 24 24 2 1, test_bits 4 False 32 32 2 0, test_bits 4 False 48 48 3 4, test_bits 4 False 152 152 4 (- 1),
     test_bits 0 False 1 255 6 5, test_bits 4 False 16 16 6 (- 2), test_bits 0 False 0 0 j_never (- 3)]"

definition mixed_state :: "insn list \<Rightarrow> int list \<Rightarrow> nat list \<Rightarrow> nat list \<Rightarrow> int list \<Rightarrow> int list \<Rightarrow> int list \<Rightarrow> dom_opt" where
  "mixed_state ins dm ds dls first next prev = \<lparr> do_insn = ins, do_known_length = [0, 5, 0, 0, 0, 1, 0], do_insn_id = [0, 1, 2, 3, 4, 5, 6],
     do_dom = dm, do_dom_start = ds, do_domlist_start = dls, do_pred_first = first, do_pred_next = next, do_pred_prev = prev \<rparr>"

definition mixed_state3 :: dom_opt where
  "mixed_state3 = mixed_state (mixed_tree[1 := test_bits 4 False 32 32 3 0, 2 := test_bits 4 False 48 48 4 4]) [0, 1, 2, 0, 4] [0, 1, 3, 5] [0, 1, 2, 3]
       [- 1, 1, 0, 2, 4, 9, 10] [- 1, - 1, - 1, - 1, 6, - 1, 5, - 1, - 1, - 1, 8, - 1, - 1, - 1]
       [- 1, - 1, - 1, - 1, - 1, 6, 4, - 1, 10, - 1, - 1, - 1, - 1, - 1]"

definition mixed_state5 :: dom_opt where
  "mixed_state5 = mixed_state ((do_insn mixed_state3)[4 := test_bits 0 False 1 255 (- 3) (- 2)]) [0, 1, 2, 0, 5, 1, 2, 6, 0, 5, 8, 1, 2, 6, 8, 0, 5, 8] [0, 1, 3, 5, 8, 11, 15, 18] [0, 1, 2, 3, 4, 7]
       [- 1, 1, 0, 2, 4, - 1, 10] [- 1, - 1, - 1, - 1, 6, - 1, 5, - 1, - 1, - 1, - 1, - 1, - 1, - 1]
       [- 1, - 1, - 1, - 1, - 1, 6, 4, - 1, 10, - 1, - 1, - 1, - 1, - 1]"

definition mixed_state7 :: dom_opt where
  "mixed_state7 = mixed_state ((do_insn mixed_state5)[5 := test_bits 4 False 16 16 j_never j_never, 6 := test_bits 0 False 0 0 j_never j_never]) [0, 1, 2, 0, 5, 1, 2, 6, 0, 5, 8, 1, 2, 6, 8, 0, 5, 8] [0, 1, 3, 5, 8, 11, 15, 18] [0, 1, 2, 3, 4, 7, 7, 7]
       [- 1, 1, 0, 2, 4, - 1, - 1] [- 1, - 1, - 1, - 1, 6, - 1, 5, - 1, - 1, - 1, - 1, - 1, - 1, - 1]
       [- 1, - 1, - 1, - 1, - 1, 6, 4, - 1, 10, - 1, - 1, - 1, - 1, - 1]"

lemma mixed_built: "build_program 0 mixed_clauses = Inr \<lparr> pr_insn = mixed_tree, pr_output_everything = - 1, pr_safe_length = 0xFFFFFFFF, pr_align_offset = 0 \<rparr>"
  by code_simp

lemma mixed_sorted: "bubble_sort_and_exprs [] 0x7FFFFFFF mixed_tree = Some mixed_tree"
  by code_simp

lemma mixed_new: "dom_new mixed_tree = Inr (mixed_state mixed_tree [] [0] [0] [] [] [])"
  by code_simp

lemma mixed_run3: "dom_run_all [0, 1, 2] (mixed_state mixed_tree [] [0] [0] [] [] []) = Some (Inr mixed_state3)"
  by code_simp

lemma mixed_run5: "dom_run_all [3, 4] mixed_state3 = Some (Inr mixed_state5)"
  by code_simp

lemma mixed_run7: "dom_run_all [5, 6] mixed_state5 = Some (Inr mixed_state7)"
  by code_simp

lemma mixed_finished: "Option.bind (combine_compatible_states (do_insn mixed_state7)) (\<lambda>ins. Some (Inr (finish_optimize (remove_unused_states
      \<lparr> pr_insn = ins, pr_output_everything = - 1, pr_safe_length = 0xFFFFFFFF, pr_align_offset = 0 \<rparr>)))) = Some (Inr mixed_program :: program exec)"
  by code_simp

lemma dom_run_all_append: "dom_run_all (xs @ ys) s = rbind (dom_run_all xs s) (dom_run_all ys)"
proof (induction xs arbitrary: s)
  case (Cons x xs)
  then show ?case by (cases "dom_run x s") (auto simp: dbind_def split: sum.splits)
qed simp

lemma mixed_dominators: "dom_run_all [0..<length mixed_tree] (mixed_state mixed_tree [] [0] [0] [] [] []) = Some (Inr mixed_state7)"
proof -
  have "[0..<length mixed_tree] = [0, 1, 2] @ [3, 4] @ [5, 6]" by (simp add: mixed_tree_def upt_rec)
  then show ?thesis by (simp only: dom_run_all_append mixed_run3 mixed_run5 mixed_run7 dbind_simps)
qed

lemma mixed_compiled: "dbind (build_program 0 mixed_clauses) (optimize [] 0x7FFFFFFF) = Some (Inr mixed_program)"
  using mixed_finished by (simp add: mixed_built optimize_def mixed_sorted mixed_new mixed_dominators)

lemma test_bits_simps [simp]: "in_yes (test_bits off sh v m no yes) = yes" "in_no (test_bits off sh v m no yes) = no"
  "in_offset (test_bits off sh v m no yes) = off" "in_mask (test_bits off sh v m no yes) = m" "in_value (test_bits off sh v m no yes) = v"
  "in_short (test_bits off sh v m no yes) = sh"
  by (simp_all add: test_bits_def)

lemma mixed_ok: "program_ok mixed_program"
proof -
  have "testing (pr_insn mixed_program)" by (simp add: testing_def forward_def jump_ok_def masked_def mixed_program_def All_less_Suc)
  moreover have "required_length e \<le> 5" if "e \<in> set (pr_insn mixed_program)" for e
    using that by (auto simp: mixed_program_def required_length_def byte_of_def)
  moreover have "5 \<le> n" if "n < 4294967296" "(5 :: u32) \<le> of_nat n" for n using that by (simp add: word_le_nat_alt unat_of_nat)
  moreover have "pr_safe_length mixed_program = 5" "pr_insn mixed_program \<noteq> []" "pr_align_offset mixed_program = 0" by (simp_all add: mixed_program_def)
  ultimately show ?thesis unfolding program_ok_def by (metis add_0_right le_trans)
qed

lemma bits_ok: "clause_ok d 0 (bits neg off v m) \<longleftrightarrow> (neg \<longleftrightarrow> \<not> byte_ok d (nat off) (v, m))"
  by (simp add: clause_ok_def bits_def)

lemma byte_bits_imp: "m AND k = k \<Longrightarrow> x AND m = m \<Longrightarrow> x AND k = (k :: byte)"
  by (metis and.assoc)

lemma mixed_out:
  assumes "5 \<le> length d" "d ! 0 = 1" "d ! 4 AND 0x10 = 0"
  shows "program_out mixed_program d = 2" and "first_match d 0 mixed_clauses = Some 3"
proof -
  define ins where "ins = pr_insn mixed_program"
  have n: "length ins = 4" "ins ! 0 = test_bits 4 False 24 24 3 1" "ins ! 3 = test_bits 0 False 1 255 (- 3) (- 2)"
    by (simp_all add: ins_def mixed_program_def)
  have not: "d ! 4 AND 0x18 \<noteq> 0x18" "d ! 4 AND 0x98 \<noteq> 0x98" "d ! 4 AND 0x10 \<noteq> 0x10"
    using assms(3) byte_bits_imp [of "0x18" "0x10" "d ! 4"] byte_bits_imp [of "0x98" "0x10" "d ! 4"] by auto
  have t: "\<not> insn_test d (ins ! 0)" "insn_test d (ins ! 3)"
    using test_byte_ok [of "ins ! 0" d] test_byte_ok [of "ins ! 3" d] not(1) assms(1,2)
    by (auto simp: n masked_def less_4 byte_ok_def byte_of_def)
  have "run_insn ins d 0 = - 2" using run_steps [of 0 ins d] run_steps [of 3 ins d] n t by simp
  then show "program_out mixed_program d = 2" by (simp add: program_out_def ins_def mixed_program_def)
  show "first_match d 0 mixed_clauses = Some 3" using assms not by (simp add: mixed_clauses_def bits_ok byte_ok_def)
qed

text \<open>
  C39. The optimiser changes what a configuration means. \<^verbatim>\<open>Classifier(4/18%18 4/20%20, !4/30%30 4/98%98, 0/01 4/10%10, -)\<close> sends
  every packet whose first byte is 1 and whose fifth byte has not the bit \<^verbatim>\<open>0x10\<close> to output 2, although the first pattern it matches is the last one: the
  dominator pass has dropped the test \<^verbatim>\<open>4/10%10\<close> of the third pattern, because the lists of predecessors are built in descending order and extended
  in ascending order.
\<close>

theorem classifier_miscompiles:
  assumes "5 \<le> plength q" "pdata q ! 0 = 1" "pdata q ! 4 AND 0x10 = 0" "3 \<le> length (tailroom_bytes q)" "plength q < 4294967296"
  shows "\<exists>css prog. parse_patterns mixed_patterns = Inr css \<and> classifier_configure 4 None mixed_patterns old = Some (Inr (True, prog)) \<and>
    first_match (pdata q) 0 css = Some 3 \<and> bytes_classifier_push 4 prog q = Some (Inr [(2, q)])"
proof (intro exI conjI)
  show "parse_patterns mixed_patterns = Inr mixed_clauses" by (rule mixed_parse)
  show "classifier_configure 4 None mixed_patterns old = Some (Inr (True, mixed_program))"
    using configure_compiled [OF mixed_parse _ mixed_compiled] by (simp add: mixed_patterns_def)
  show "first_match (pdata q) 0 mixed_clauses = Some 3" using mixed_out(2) [OF assms(1-3)] .
  have "pr_align_offset mixed_program = 0" by (simp add: mixed_program_def)
  from classifier_push_out [OF mixed_ok this assms(4,5), of 4] show "bytes_classifier_push 4 mixed_program q = Some (Inr [(2, q)])"
    using mixed_out(1) [OF assms(1-3)] by simp
qed

theorem classifier_miscompiles_witness:
  "let q = ex_packet\<lparr> pdata := [1, 0, 0, 0, 0, 0], tailroom_bytes := [0, 0, 0] \<rparr> in
   \<exists>css prog. parse_patterns mixed_patterns = Inr css \<and> classifier_configure 4 None mixed_patterns (new_program 0) = Some (Inr (True, prog)) \<and>
    first_match (pdata q) 0 css = Some 3 \<and> bytes_classifier_push 4 prog q = Some (Inr [(2, q)])"
  using classifier_miscompiles [of "ex_packet\<lparr> pdata := [1, 0, 0, 0, 0, 0], tailroom_bytes := [0, 0, 0] \<rparr>" "new_program 0"]
  by (simp add: Let_def)

section \<open>Short packets\<close>

definition short_patterns :: "string list" where
  "short_patterns = [''4/40%40 !5/80%80'', ''-'']"

definition short_clauses :: "clause list list" where
  "short_clauses = [[bits False 4 0x40 0x40, bits True 5 0x80 0x80], []]"

definition short_program :: program where
  "short_program = \<lparr> pr_insn = [test_bits 4 False 64 32832 (- 1) 0], pr_output_everything = - 1, pr_safe_length = 6, pr_align_offset = 0 \<rparr>"

lemma short_parse: "parse_patterns short_patterns = Inr short_clauses"
  by code_simp

lemma short_compiled: "dbind (build_program 0 short_clauses) (optimize [] 0x7FFFFFFF) = Some (Inr short_program)"
  by code_simp

lemma short_ok: "program_ok short_program"
proof -
  have "testing (pr_insn short_program)" by (simp add: testing_def forward_def jump_ok_def masked_def short_program_def)
  moreover have "required_length e \<le> 6" if "e \<in> set (pr_insn short_program)" for e
    using that by (auto simp: short_program_def required_length_def byte_of_def)
  moreover have "6 \<le> n" if "n < 4294967296" "(6 :: u32) \<le> of_nat n" for n using that by (simp add: word_le_nat_alt unat_of_nat)
  moreover have "pr_safe_length short_program = 6" "pr_insn short_program \<noteq> []" "pr_align_offset short_program = 0" by (simp_all add: short_program_def)
  ultimately show ?thesis unfolding program_ok_def by (metis add_0_right le_trans)
qed

lemma short_out:
  assumes "length d = 5" "d ! 4 AND 0x40 = 0x40"
  shows "program_out short_program d = 1" and "first_match d 0 short_clauses = Some 0"
proof -
  define ins where "ins = pr_insn short_program"
  have n: "length ins = 1" "ins ! 0 = test_bits 4 False 64 32832 (- 1) 0" by (simp_all add: ins_def short_program_def)
  have t: "\<not> insn_test d (ins ! 0)" using test_byte_ok [of "ins ! 0" d] assms by (auto simp: n masked_def less_4 byte_ok_def byte_of_def)
  have "run_insn ins d 0 = - 1" using run_steps [of 0 ins d] n t by simp
  then show "program_out short_program d = 1" by (simp add: program_out_def ins_def short_program_def)
  show "first_match d 0 short_clauses = Some 0" using assms by (simp add: short_clauses_def bits_ok byte_ok_def)
qed

text \<open>
  Negated tests and short packets. In \<^verbatim>\<open>Classifier(4/40%40 !5/80%80, -)\<close> a packet of five bytes has no sixth byte, so the negated clause holds of it; yet a packet
  of five bytes that passes the first clause goes to output 1. The two tests have been combined to one although
  they differ in what a packet that is too short means.
\<close>

lemma classifier_short_negation:
  assumes "plength q = 5" "pdata q ! 4 AND 0x40 = 0x40" "3 \<le> length (tailroom_bytes q)"
  shows "\<exists>css prog. parse_patterns short_patterns = Inr css \<and> classifier_configure 2 None short_patterns old = Some (Inr (True, prog)) \<and>
    first_match (pdata q) 0 css = Some 0 \<and> bytes_classifier_push 2 prog q = Some (Inr [(1, q)])"
proof (intro exI conjI)
  show "parse_patterns short_patterns = Inr short_clauses" by (rule short_parse)
  show "classifier_configure 2 None short_patterns old = Some (Inr (True, short_program))"
    using configure_compiled [OF short_parse _ short_compiled] by (simp add: short_patterns_def)
  show "first_match (pdata q) 0 short_clauses = Some 0" using short_out(2) [OF assms(1,2)] .
  have "pr_align_offset short_program = 0" by (simp add: short_program_def)
  from classifier_push_out [OF short_ok this assms(3), of 2] show "bytes_classifier_push 2 short_program q = Some (Inr [(1, q)])"
    using short_out(1) [OF assms(1,2)] assms(1) by simp
qed

theorem classifier_short_negation_witness:
  "let q = ex_packet\<lparr> pdata := [0, 0, 0, 0, 0x40], tailroom_bytes := [0, 0, 0] \<rparr> in
   \<exists>css prog. parse_patterns short_patterns = Inr css \<and> classifier_configure 2 None short_patterns (new_program 0) = Some (Inr (True, prog)) \<and>
    first_match (pdata q) 0 css = Some 0 \<and> bytes_classifier_push 2 prog q = Some (Inr [(1, q)])"
  using classifier_short_negation [of "ex_packet\<lparr> pdata := [0, 0, 0, 0, 0x40], tailroom_bytes := [0, 0, 0] \<rparr>" "new_program 0"]
  by (simp add: Let_def)

end
