(* ===== verification/Spec2Isabelle.thy ===== *)
theory Spec2Isabelle
  imports IGMP_Client IGMP_Elements Click_IPElements Click_RouteControl Click_TransportChecksum Unicast_Path Link_Exchange Click_Miscompile
begin

text \<open>
  A verification development of an IGMPv3 implementation for the Click modular router.

  \<^bold>\<open>The program.\<close> The project's own elements are in \<^verbatim>\<open>src/elements\<close>; they run inside Click, whose sources are
  vendored in \<^verbatim>\<open>src/click\<close>, and the configurations in \<^verbatim>\<open>src/scripts/routers\<close> wire them together. A client joins and leaves
  multicast groups through two write handlers of \<^verbatim>\<open>IGMPClient\<close>; the element keeps its memberships in an
  \<^verbatim>\<open>IGMPClientDB\<close>, sends a membership report for every change (twice, with a random delay before the second) and answers the queries
  of the router. The router's \<^verbatim>\<open>IGMPRouterClassifier\<close> splits IGMP messages from multicast and unicast traffic;
  \<^verbatim>\<open>IGMPRouter\<close> applies the reports to an \<^verbatim>\<open>IGMPRouterDB\<close>, one client database per client address, and sends
  group queries after a leave; \<^verbatim>\<open>IGMPRouterSender\<close> lets multicast traffic out on a network when a client there
  accepts it. Unicast traffic goes to a routing table and from there along a forwarding path per interface. Frames enter every station through
  \<^verbatim>\<open>HostEtherFilter\<close> and a byte-pattern \<^verbatim>\<open>Classifier\<close>, which sends ARP requests to \<^verbatim>\<open>ARPResponder\<close>, ARP replies to \<^verbatim>\<open>ARPQuerier\<close> and the rest to the
  IP path; outgoing packets get their Ethernet addresses from \<^verbatim>\<open>ARPQuerier\<close>.

  \<^bold>\<open>Theories.\<close> Every operation is a HOL function of the state it reads, returning the state it leaves. A C++
  statement that has no defined result is a value \<open>Inl\<close> of the type \<open>exec\<close>, and a loop that need not end is a
  partial function whose result \<open>None\<close> is divergence.

  \<^item> \<open>Prelude\<close>: faults, sequencing (\<open>ebind\<close>, \<open>rbind\<close>), byte order, reading and writing of little-endian
    buffers; the simp collections \<open>buf_simps\<close> and \<open>exec_simps\<close>.
  \<^item> \<open>Click_Checksum\<close>: \<^verbatim>\<open>click_in_cksum\<close> and \<^verbatim>\<open>click_update_in_cksum\<close> with the ones'-complement sum they
    compute. Filling a checksum field makes a buffer verify, and an incremental update keeps it verifying.
  \<^item> \<open>Click_TransportChecksum\<close>: checksums with a pseudo-header, and incremental updates that are exact also for data that is zero.
  \<^item> \<open>Click_HashTable\<close>: \<^verbatim>\<open>HashTable\<close> over \<^verbatim>\<open>HashContainer\<close> with growth, iteration, and copying. The
    locale \<open>assoc_table\<close> is the contract the databases rely on; its interpretation \<open>ht\<close> proves it of the chained table.
  \<^item> \<open>Click_Vector\<close>: \<^verbatim>\<open>Vector\<close> with its array of initialised and raw cells, which refines lists.
  \<^item> \<open>Click_IPAddress\<close>: \<^verbatim>\<open>IPAddress\<close>, prefixes and masks, printing and parsing.
  \<^item> \<open>Click_Packet\<close>: packets with headroom, tailroom, sharing, header pointers and annotations.
  \<^item> \<open>IGMP_Packets\<close>, \<open>IGMP_ClientDB\<close>, \<open>IGMP_RouterDB\<close>: the wire structures and the two databases. The locale
    \<open>membership_store\<close> (interpreted as \<open>cdb\<close>) is what the client and the router need of a client database, and
    \<open>multicast_db\<close> (interpreted as \<open>rdb\<close>) what the forwarding elements need of the router database.
  \<^item> \<open>IGMP_Report\<close>, \<open>IGMP_Query\<close>: generation and reading of reports and queries, byte by byte, with the round
    trips between them.
  \<^item> \<open>IGMP_Client\<close>, \<open>IGMP_Router\<close>: the two elements with their pending timers. The router's packets and timer
    firings are the step relation \<open>router_step\<close>; its invariant holds in every reachable state.
  \<^item> \<open>IGMP_Elements\<close>: \<^verbatim>\<open>IGMPRouterClassifier\<close>, \<^verbatim>\<open>IGMPRouterSender\<close>, \<^verbatim>\<open>IGMPClassifier\<close>, \<^verbatim>\<open>SetIPSrc\<close>.
  \<^item> \<open>Click_IPElements\<close>, \<open>Click_RouteTable\<close>, \<open>Click_Fragmenter\<close>, \<open>Click_ICMP\<close>: the Click elements on the
    packets' way: \<^verbatim>\<open>CheckIPHeader\<close>, \<^verbatim>\<open>SetIPChecksum\<close>, \<^verbatim>\<open>DecIPTTL\<close>, \<^verbatim>\<open>FixIPSrc\<close>, \<^verbatim>\<open>IPEncap\<close>, \<^verbatim>\<open>EtherEncap\<close>,
    \<^verbatim>\<open>HostEtherFilter\<close>, \<^verbatim>\<open>DropBroadcasts\<close>, \<^verbatim>\<open>Strip\<close>, \<^verbatim>\<open>Paint\<close>, \<^verbatim>\<open>PaintTee\<close>, \<^verbatim>\<open>Tee\<close>; \<^verbatim>\<open>StaticIPLookup\<close> over
    \<^verbatim>\<open>LinearIPLookup\<close>, whose slots with their chains and cache implement a map from prefixes to routes (the locale
    \<open>route_map\<close>, interpreted as \<open>rt\<close>); \<^verbatim>\<open>IPFragmenter\<close>; \<^verbatim>\<open>IPGWOptions\<close> and \<^verbatim>\<open>ICMPError\<close>.
  \<^item> \<open>Click_RouteControl\<close>: the handlers of the routing table. A transaction of \<^verbatim>\<open>ctrl\<close> is carried out as a whole or not at all.
  \<^item> \<open>Unicast_Path\<close>: the forwarding path of one interface of the router, composed of those elements.
  \<^item> \<open>Click_Sort\<close>: \<^verbatim>\<open>click_qsort\<close> with its explicit stack. It ends with the same elements and within its stack for any comparison function, and sorts when the comparison is consistent.
  \<^item> \<open>Click_ARPTable\<close>, \<open>Click_ARPResponder\<close>, \<open>Click_ARPQuerier\<close>, \<open>Click_ARPSafety\<close>: address resolution. The table keeps entries by age, with
    the packets that wait for them, under two capacities; its invariant is kept by every operation. The querier, with any events in any order, never fails, and a
    querier and a responder together resolve an address and release what waits for it.
  \<^item> \<open>Click_Classification\<close>, \<open>Click_Dominators\<close>, \<open>Click_Classifier\<close>: \<^verbatim>\<open>Classifier\<close>: patterns are parsed, built into a tree of tests on words, optimised by
    \<^verbatim>\<open>Program::optimize\<close>, and matched.
  \<^item> \<open>Click_Decision\<close>, \<open>Click_Passes\<close>, \<open>Click_Patterns\<close>: what a program decides (\<open>run_insn\<close>), which the two matchers compute without reading beyond the buffer;
    the passes other than the dominator pass end and keep it (combining tests, for packets that are not short); and the program built from
    patterns decides the first pattern that matches.
  \<^item> \<open>Click_LinkInput\<close>, \<open>Click_Miscompile\<close>: the two configurations of the scripts, compiled and shown right for every packet, and two configurations that the optimiser
    compiles to programs with another meaning.
  \<^item> \<open>Link_Exchange\<close>: the link-layer inputs of host and router, through which the router resolves a host.
  \<^item> This theory: the paths of IGMP and multicast packets through the configurations, and the properties from
    end to end: a join handled by a client makes the router accept the group for that client, a leave removes it and is
    followed by a group query, a query sent by the router is answered by the client, and multicast traffic
    leaves on a network exactly when a client there is a member.

  \<^bold>\<open>Arguments.\<close> The allocator is an argument (\<open>has_memory\<close> says that it does not fail); so are random numbers,
  the time of day, the results of Click's argument parser and the hash function of addresses where it does not matter. A timer is an
  entry of a list in the state, and its firing is an operation on that state. Code that runs between two timer firings is
  not interrupted, as in a Click driver with one thread.

  \<^bold>\<open>Bounds.\<close> There is no fuel. Loops over lists are structural; loops over words and buffers have a
  measure; the two loops of \<^verbatim>\<open>IPFragmenter\<close> are partial functions, as one of them need not end
  (\<open>Click_Fragmenter.fragment_options_diverge\<close>), and where they end this is part of the theorem
  (\<open>Click_Fragmenter.fragment_reassembles\<close>). The retry loop of \<^verbatim>\<open>ARPQuerier\<close>, the loop of \<^verbatim>\<open>ctrl\<close> over its lines and the loops of
  the optimiser and the matchers are partial functions too. That they end is proved where they do: for every event of a querier, for texts without blank
  lines (with one, \<open>Click_RouteControl.ctrl_blank_diverges\<close>), and for all passes but the dominator pass, which is only run on configurations.

  \<^bold>\<open>Not modelled.\<close> Click's framework (elements, ports, scheduler, argument parsing, strings), which is the
  environment of the code above; kernel-level variants of packets; the read handlers for counters; the log output of
  \<^verbatim>\<open>print\<close> functions; drivers, tools and the Click elements that the configurations do not use.
  Of modelled components: \<^verbatim>\<open>CompressedProgram\<close> of the classifier (only \<^verbatim>\<open>IPFilter\<close>
  uses it), what prints programs and tables, and a general soundness theorem for the dominator pass, which \<open>Click_Miscompile\<close> refutes.
\<close>

section \<open>The paths of the configuration\<close>

text \<open>The way of a report out of a client: \<^verbatim>\<open>igmpClient -> IPEncap -> EtherEncap\<close> (\<^verbatim>\<open>scripts/routers/client.click\<close>).\<close>

definition client_output :: "allocator \<Rightarrow> ip_encap \<Rightarrow> byte list \<Rightarrow> packet \<Rightarrow> (ip_encap \<times> packet option) exec" where
  "client_output mem e ethh p =
     ebind (ipencap_simple_action mem e p) (\<lambda>(e, q). case q of
        None \<Rightarrow> Inr (e, None)
      | Some q \<Rightarrow> ebind (etherencap_smaction mem ethh q) (\<lambda>q. Inr (e, q)))"

text \<open>
  The shared input path of the router: \<^verbatim>\<open>Strip(14) -> CheckIPHeader -> igmpClassifier\<close>, with output 2 of the
  classifier wired to \<^verbatim>\<open>igmpRouter\<close> (\<^verbatim>\<open>scripts/routers/router.click\<close>). The result has the pushes on the
  classifier's other outputs, and on port 2 what the router element itself puts out.
\<close>

definition router_ip_input ::
  "allocator \<Rightarrow> int \<Rightarrow> ProcessReport \<Rightarrow> check_ip_header \<Rightarrow> router \<Rightarrow> packet \<Rightarrow>
     (check_ip_header \<times> router \<times> (nat \<times> packet) list) exec" where
  "router_ip_input mem now pr0 ck r p =
     ebind (checkip_simple_action ck (strip_simple_action 14 p)) (\<lambda>(ck, q, _). case q of
        None \<Rightarrow> Inr (ck, r, [])
      | Some q \<Rightarrow>
          ebind (router_classifier_push (r_db r) q) (\<lambda>outs.
            if map fst outs = [2]
            then ebind (router_push mem now pr0 r (Some q)) (\<lambda>(r, out). Inr (ck, r, map (Pair 2) out))
            else Inr (ck, r, outs)))"

text \<open>
  The way of a query out of the router, for one client network: \<^verbatim>\<open>SetIPSrc -> SetIPChecksum -> EtherEncap\<close>
  (\<^verbatim>\<open>scripts/routers/router.click\<close>).
\<close>

definition query_output :: "allocator \<Rightarrow> ipaddr \<Rightarrow> byte list \<Rightarrow> packet \<Rightarrow> packet option exec" where
  "query_output mem addr ethh p =
     ebind (setipsrc_push mem addr p) (\<lambda>outs. case outs of
        [(_, p)] \<Rightarrow> ebind (setipchecksum_simple_action mem p) (\<lambda>q. case q of
             None \<Rightarrow> Inr None
           | Some q \<Rightarrow> etherencap_smaction mem ethh q)
      | _ \<Rightarrow> Inr None)"

text \<open>
  The input path of a client: \<^verbatim>\<open>Strip(14) -> CheckIPHeader -> StaticIPLookup\<close>, whose output 1 leads to
  \<^verbatim>\<open>IGMPClassifier\<close>, whose output 2 leads to \<^verbatim>\<open>IGMPClient\<close> (\<^verbatim>\<open>scripts/routers/client.click\<close>). The pushes of the
  classifier are taken in order; those to its other outputs, and what the client element puts out, are
  returned.
\<close>

fun client_deliver ::
  "allocator \<Rightarrow> (int \<Rightarrow> int) \<Rightarrow> int \<Rightarrow> ProcessQuery \<Rightarrow> (nat \<times> packet) list \<Rightarrow> client \<Rightarrow> (client \<times> (nat \<times> packet) list) exec" where
  "client_deliver mem draw now pq0 [] c = Inr (c, [])"
| "client_deliver mem draw now pq0 ((port, p) # outs) c =
     ebind (if port = 2 then client_push mem draw now pq0 c (Some p) else Inr (c, [p])) (\<lambda>(c, sent).
     ebind (client_deliver mem draw now pq0 outs c) (\<lambda>(c, rest). Inr (c, map (Pair port) sent @ rest)))"

definition client_ip_input ::
  "allocator \<Rightarrow> (int \<Rightarrow> int) \<Rightarrow> int \<Rightarrow> ProcessQuery \<Rightarrow> check_ip_header \<Rightarrow> rtable \<Rightarrow> client \<Rightarrow> packet \<Rightarrow>
     (check_ip_header \<times> rtable \<times> client \<times> (nat \<times> packet) list) exec" where
  "client_ip_input mem draw now pq0 ck rt c p =
     ebind (checkip_simple_action ck (strip_simple_action 14 p)) (\<lambda>(ck, q, _). case q of
        None \<Rightarrow> Inr (ck, rt, c, [])
      | Some q \<Rightarrow>
          ebind (rt_push 2 rt q) (\<lambda>(rt, routes). case routes of
             [(port, q)] \<Rightarrow>
               if port = 1
               then ebind (classifier_push (c_db c) q) (\<lambda>outs.
                    ebind (client_deliver mem draw now pq0 outs c) (\<lambda>(c, outs). Inr (ck, rt, c, outs)))
               else Inr (ck, rt, c, routes)
           | _ \<Rightarrow> Inr (ck, rt, c, [])))"

text \<open>The routes of a client: itself, its network, and everything else by way of the gateway to output 1.\<close>

definition client_routes :: "ipaddr \<Rightarrow> ipaddr \<Rightarrow> ipaddr \<Rightarrow> ipaddr \<Rightarrow> iproute list" where
  "client_routes addr net msk gateway =
     [\<lparr> rt_addr = addr, rt_mask = 0xFFFFFFFF, rt_gw = 0, rt_port = 0, rt_extra = 0 \<rparr>,
      \<lparr> rt_addr = net, rt_mask = msk, rt_gw = 0, rt_port = 0, rt_extra = 0 \<rparr>,
      \<lparr> rt_addr = 0, rt_mask = 0, rt_gw = gateway, rt_port = 1, rt_extra = 0 \<rparr>]"

text \<open>
  The way of multicast traffic through the router: output 1 of \<^verbatim>\<open>IGMPRouterClassifier\<close> leads to \<^verbatim>\<open>Tee(2)\<close> and its
  outputs to one \<^verbatim>\<open>IGMPRouterSender\<close> per client network. The result tells for each network what is sent to it.
\<close>

definition multicast_forward :: "router_db \<Rightarrow> sender \<Rightarrow> sender \<Rightarrow> packet \<Rightarrow> (packet list \<times> packet list) exec" where
  "multicast_forward db s1 s2 p =
     ebind (router_classifier_push db p) (\<lambda>outs.
       if map fst outs = [1]
       then (case tee_push 2 (snd (hd outs)) of
               [(_, p1), (_, p2)] \<Rightarrow>
                 ebind (sender_push db s1 p1) (\<lambda>o1. ebind (sender_push db s2 p2) (\<lambda>o2.
                   Inr (map snd o1, map snd o2)))
             | _ \<Rightarrow> Inr ([], []))
       else Inr ([], []))"

section \<open>Reports on their way\<close>

lemma sole_handle_pull: "sole_handle (packet_pull n p) = sole_handle p"
  by (simp add: sole_handle_def packet_pull_def Let_def)

text \<open>The configuration a report needs to get through: IGMP, no annotation, an Ethernet header of 14 bytes.\<close>

definition igmp_encap :: "ip_encap \<Rightarrow> byte list \<Rightarrow> bool" where
  "igmp_encap e ethh \<longleftrightarrow> ie_proto e = 2 \<and> \<not> ie_use_dst_anno e \<and> length ethh = 14"

lemma client_output_ok:
  assumes "has_memory mem" and "igmp_encap e ethh"
  shows "\<exists>q h. client_output mem e ethh p = Inr (e\<lparr> ie_id := ie_id e + 1 \<rparr>, Some q) \<and> \<not> shared q \<and>
     pdata q = ethh @ h @ pdata p \<and> valid_header h \<and> h ! 9 = 2 \<and>
     read16 h 2 = Inr (htons (of_nat (plength p + 20))) \<and> read32 h 12 = Inr (ie_src e) \<and> read32 h 16 = Inr (ie_dst e)"
proof -
  obtain q c where i: "ipencap_simple_action mem e p = Inr (e\<lparr> ie_id := ie_id e + 1 \<rparr>, Some q)"
    and h: "framed q (ipencap_header e (htons (of_nat (plength p + 20))) (htons (ucast (ie_id e))) c (ie_dst e)) (pdata p)"
      "valid_header (ipencap_header e (htons (of_nat (plength p + 20))) (htons (ucast (ie_id e))) c (ie_dst e))"
    using ipencap_ok [OF assms(1), of e p] assms(2) by (auto simp: igmp_encap_def Let_def)
  let ?h = "ipencap_header e (htons (of_nat (plength p + 20))) (htons (ucast (ie_id e))) c (ie_dst e)"
  obtain f where f: "etherencap_smaction mem ethh q = Inr (Some f)" "pdata f = ethh @ pdata q" "\<not> shared f"
    using etherencap_strip [OF assms(1), of ethh q] etherencap_unshared [of mem ethh q] assms
    by (auto simp: igmp_encap_def has_memory_def)
  have "?h ! 9 = 2" using assms(2) by (simp add: ipencap_header_def igmp_encap_def nth_append)
  with i f h ipencap_header_reads [of e _ _ c "ie_dst e" "[]"] show ?thesis
    by (intro exI [of _ f] exI [of _ ?h]) (simp add: client_output_def framed_def)
qed

text \<open>A report that fits into an IP packet has few enough records and sources for their 16-bit counts.\<close>

lemma report_fits:
  assumes "length (report_bytes rs c) < 65536"
  shows "length rs < 65536" "\<forall>g \<in> set rs. length (gr_sources g) < 65536"
proof -
  have s: "sum_list (map calculateGrouprecordSize rs) < 65536" using assms by (simp add: length_report_bytes)
  have "length rs \<le> sum_list (map calculateGrouprecordSize rs)"
    by (induction rs) (auto simp: calculateGrouprecordSize_def sizeof_igmpv3grouprecord_def)
  with s show "length rs < 65536" by simp
  have "calculateGrouprecordSize g \<le> sum_list (map calculateGrouprecordSize rs)" if "g \<in> set rs" for g
    using that by (intro member_le_sum_list) simp_all
  with s show "\<forall>g \<in> set rs. length (gr_sources g) < 65536"
    by (fastforce simp: calculateGrouprecordSize_def)
qed

lemma router_ip_input_report:
  assumes "has_memory mem" and "rdb_inv (r_db r)" and "pr_records pr0 = []" and "sole_handle p"
    and "pdata p = ethh @ h @ body" and "body = report_bytes rs (click_in_cksum (report_bytes rs 0))"
    and "length ethh = 14" and "valid_header h" and "h ! 9 = 2" and "length body + 20 < 65536"
    and "read16 h 2 = Inr (htons (of_nat (length body + 20)))" and "read32 h 12 = Inr ca" and "read32 h 16 = Inr dst"
    and "ck_offset ck = 0" and "ca \<notin> set (bad_src ck)"
  shows "\<exists>r'. router_ip_input mem now pr0 ck r p = Inr (ck, r', []) \<and> apply_records mem now ca rs r = Inr r' \<and>
     r_db r' = fold (record_effect ca) rs (r_db r) \<and> rdb_inv (r_db r')"
proof -
  define q where "q = strip_simple_action 14 p"
  have q: "pdata q = h @ body" "sole_handle q"
    using assms(4,5,7) by (simp_all add: q_def strip_simple_action_def sole_handle_pull) (simp add: packet_pull_def)
  have l: "length h = 20" using assms(8) by (simp add: valid_header_def)
  let ?q = "q\<lparr> network_header := Some (length (headroom_bytes q)),
     transport_header := Some (length (headroom_bytes q) + 20), dst_ip_anno := dst \<rparr>"
  have ck: "checkip_simple_action ck q = Inr (ck, Some ?q, [])"
    using assms(8-15) q l by (intro checkip_pass [where src = ca]) (simp_all add: add.commute)
  have fr: "framed ?q h body" "sole_handle ?q" using q l by (simp_all add: framed_def sole_handle_def)
  have "ip_fields ?q 2 ca dst"
    using framed_fields [OF fr(1)] assms(9,12,13) by (simp add: ip_fields_def)
  then have cl: "router_classifier_push (r_db r) ?q = Inr [(2, ?q)]"
    using router_classifier_spec [OF assms(2)] by simp
  have "length (report_bytes rs (click_in_cksum (report_bytes rs 0))) < 65536" using assms(6,10) by simp
  from router_push_report [OF assms(1-3) fr(2) fr(1) [unfolded assms(6)] assms(12) report_fits [OF this], of now]
  obtain r' where "router_push mem now pr0 r (Some ?q) = Inr (r', [])" "apply_records mem now ca rs r = Inr r'"
    "r_db r' = fold (record_effect ca) rs (r_db r)" "rdb_inv (r_db r')" by blast
  with ck cl show ?thesis by (simp add: router_ip_input_def q_def [symmetric])
qed

text \<open>A report of one record travels from the client that made it into the router's database.\<close>

lemma report_delivered:
  assumes "has_memory mem" and "igmp_encap e ethh" and "carries rep [g]" and "length (gr_sources g) \<le> 10000"
    and "rdb_inv (r_db r)" and "pr_records pr0 = []" and "ck_offset ck = 0" and "ie_src e \<notin> set (bad_src ck)"
  shows "\<exists>p frame r'. rep = Some p \<and> client_output mem e ethh p = Inr (e\<lparr> ie_id := ie_id e + 1 \<rparr>, Some frame) \<and>
     router_ip_input mem now pr0 ck r frame = Inr (ck, r', []) \<and> apply_record mem now (ie_src e) g r = Inr r' \<and>
     r_db r' = record_effect (ie_src e) g (r_db r)"
proof -
  obtain p where p: "rep = Some p" "pdata p = report_bytes [g] (click_in_cksum (report_bytes [g] 0))"
    using assms(3) by (auto simp: carries_def)
  from client_output_ok [OF assms(1,2), of p] obtain frame h where
    o: "client_output mem e ethh p = Inr (e\<lparr> ie_id := ie_id e + 1 \<rparr>, Some frame)" and
    f: "\<not> shared frame" "pdata frame = ethh @ h @ pdata p" "valid_header h" "h ! 9 = 2"
      "read16 h 2 = Inr (htons (of_nat (plength p + 20)))" "read32 h 12 = Inr (ie_src e)" "read32 h 16 = Inr (ie_dst e)"
    by blast
  have len: "plength p + 20 < 65536"
    using assms(4) by (simp add: p length_report_bytes calculateGrouprecordSize_def sizeof_igmpv3grouprecord_def)
  have "\<exists>r'. router_ip_input mem now pr0 ck r frame = Inr (ck, r', []) \<and>
      apply_records mem now (ie_src e) [g] r = Inr r' \<and>
      r_db r' = fold (record_effect (ie_src e)) [g] (r_db r) \<and> rdb_inv (r_db r')"
    using assms(2) by (intro router_ip_input_report [OF assms(1,5,6) sole_handle_unshared [OF f(1)] f(2) p(2) _ f(3,4) len f(5-7) assms(7,8)])
      (simp add: igmp_encap_def)
  then show ?thesis using p(1) o by (auto simp: ebind_Inr_conv)
qed

section \<open>Properties of the whole\<close>

text \<open>The sources the router has on record for a client and a group.\<close>

definition old_sources :: "router_db \<Rightarrow> ipaddr \<Rightarrow> ipaddr \<Rightarrow> ipaddr list" where
  "old_sources db ca ma = (case group_record db ca ma of None \<Rightarrow> [] | Some g \<Rightarrow> sources g)"

section \<open>Concrete data\<close>

text \<open>
  A small configuration on which the properties are applied: memory that is never short, the
  network of the scripts (router at 192.168.2.254, client at 192.168.2.1, group 239.0.0.0).
\<close>

definition ex_args :: "string \<Rightarrow> (string \<times> string) option" where
  "ex_args conf = Some (conf, [])"

definition ex_client_addr :: ipaddr where
  "ex_client_addr = ip_quad 192 168 2 1"

definition ex_group :: ipaddr where
  "ex_group = ip_quad 239 0 0 0"

definition ex_pr :: ProcessReport where
  "ex_pr = \<lparr> pr_type = 0, pr_checksum = 0, pr_no_of_grouprecords = 0, pr_records = [], pr_verifiedChecksum = False \<rparr>"

lemma ex_group_parse: "IPAddress query_ip ''239.0.0.0'' = ex_group"
  by (simp add: ex_group_def IPAddress_def ip_parse_def basic_parse_def numeral_eq_Suc isdigit_def digit_val_def)

lemma ex_facts:
  "cdb_inv (c_db (client_new a []))" "ex_args conf = Some (conf, [])"
  "igmp_encap ex_encap (replicate 14 0)" "rdb_inv (r_db (router_new ht_empty))" "pr_records ex_pr = []"
  "ck_offset ex_check = 0" "ie_src ex_encap \<notin> set (bad_src ex_check)" "ie_src ex_encap = ex_client_addr"
  "old_sources (r_db (router_new ht_empty)) ca ma = []"
  by (simp_all add: cdb_inv_def client_new_def ex_args_def igmp_encap_def ex_encap_def ex_client_addr_def router_new_def Let_def
      rdb_inv_empty ex_pr_def ex_check_def old_sources_def group_record_def getDb_def ht_find_empty)

section \<open>Joining and leaving\<close>

lemma join_effect:
  assumes "rdb_inv db"
  shows "member (record_effect ca (generateRecord 4 ma srcs) db) c g src \<longleftrightarrow>
      (if c = ca \<and> g = ma then src \<notin> set (old_sources db ca ma) else member db c g src)"
    and "member (record_effect ca (generateRecord 3 ma srcs) db) c g src \<longleftrightarrow>
      (if c = ca \<and> g = ma then src \<in> set (old_sources db ca ma) else member db c g src)"
  using switch_group_member [OF assms, of ca ma c g src]
  by (simp_all add: record_effect_def generateRecord_def old_sources_def)

text \<open>
  C1. Joining a group end to end. The \<open>exclude_sources\<close> handler of a client that has not joined the group
  returns 0 and leaves a report pending; that report, put out through \<^verbatim>\<open>IPEncap\<close> and \<^verbatim>\<open>EtherEncap\<close> and taken
  in by the router through \<^verbatim>\<open>Strip\<close>, \<^verbatim>\<open>CheckIPHeader\<close> and the classifier, makes the client a member for
  every source the router has not on record for it, and changes nobody else's membership.
\<close>

theorem join_end_to_end:
  assumes "has_memory mem" and "cdb_inv (c_db c)" and "parse_args conf = Some (m, s)" and "IPAddress query_ip m = ma"
    and "map_option filter_mode (getRecord (c_db c) ma) \<noteq> Some EXCLUDE"
    and "igmp_encap e ethh" and "rdb_inv (r_db r)" and "pr_records pr0 = []"
    and "ck_offset ck = 0" and "ie_src e \<notin> set (bad_src ck)"
  shows "\<exists>c' td p frame r'. excludeSourcesHandler parse_args query_ip mem draw now c conf = Inr (0, c') \<and>
     c_timers c' = c_timers c @ [(now + draw (unsolicited_report_interval c * 1000 + 1), td)] \<and>
     td_report td = Some p \<and> timesTosend td = robustness_variable c \<and>
     client_output mem e ethh p = Inr (e\<lparr> ie_id := ie_id e + 1 \<rparr>, Some frame) \<and>
     router_ip_input mem later pr0 ck r frame = Inr (ck, r', []) \<and>
     (\<forall>client g src. member (r_db r') client g src \<longleftrightarrow>
        (if client = ie_src e \<and> g = ma then src \<notin> set (old_sources (r_db r) client g) else member (r_db r) client g src))"
proof -
  obtain c' td where c': "excludeSourcesHandler parse_args query_ip mem draw now c conf = Inr (0, c')"
    "c_timers c' = c_timers c @ [(now + draw (unsolicited_report_interval c * 1000 + 1), td)]"
    "timesTosend td = robustness_variable c" "carries (td_report td) [generateRecord 4 ma []]"
    using excludeSourcesHandler_spec [of mem c parse_args conf m s query_ip ma draw now, OF assms(1-4)]
    unfolding if_not_P [OF assms(5)] by blast
  have "length (gr_sources (generateRecord 4 ma [])) \<le> 10000" by (simp add: generateRecord_def)
  from report_delivered [OF assms(1,6) c'(4) this assms(7-10), of later] obtain p frame r' where
    "td_report td = Some p" "client_output mem e ethh p = Inr (e\<lparr> ie_id := ie_id e + 1 \<rparr>, Some frame)"
    "router_ip_input mem later pr0 ck r frame = Inr (ck, r', [])"
    "r_db r' = record_effect (ie_src e) (generateRecord 4 ma []) (r_db r)" by blast
  with c' show ?thesis by (auto simp: join_effect(1) [OF assms(7)])
qed

theorem join_end_to_end_witness:
  "\<exists>c' td p frame r'. excludeSourcesHandler ex_args no_names ex_mem (\<lambda>n. 0) 0 (client_new ex_client_addr []) ''239.0.0.0'' = Inr (0, c') \<and>
     c_timers c' = [(0, td)] \<and> td_report td = Some p \<and>
     client_output ex_mem ex_encap (replicate 14 0) p = Inr (ex_encap\<lparr> ie_id := 1 \<rparr>, Some frame) \<and>
     router_ip_input ex_mem 5 ex_pr ex_check (router_new ht_empty) frame = Inr (ex_check, r', []) \<and>
     member (r_db r') ex_client_addr ex_group (ip_quad 192 168 1 1) \<and>
     \<not> member (r_db r') (ip_quad 192 168 3 1) ex_group (ip_quad 192 168 1 1)"
proof -
  have m: "map_option filter_mode (getRecord (c_db (client_new ex_client_addr [])) ex_group) \<noteq> Some EXCLUDE"
    by (simp add: client_new_def)
  have z: "ie_id ex_encap = 0" "c_timers (client_new ex_client_addr []) = []"
    "\<not> member (r_db (router_new ht_empty)) (ip_quad 192 168 3 1) ex_group (ip_quad 192 168 1 1)"
    "ip_quad 192 168 3 1 \<noteq> ex_client_addr"
    by (simp_all add: ex_encap_def client_new_def member_def getDb_def router_new_def Let_def ht_find_empty
        ex_client_addr_def)
  show ?thesis
    using join_end_to_end [of ex_mem "client_new ex_client_addr []" ex_args "''239.0.0.0''" "''239.0.0.0''" "[]" no_names
        ex_group ex_encap "replicate 14 0" "router_new ht_empty" ex_pr ex_check "\<lambda>n. 0" 0 5,
      OF ex_mem_ok ex_facts(1,2) ex_group_parse m ex_facts(3-7)]
    by (fastforce simp: z ex_facts)
qed

text \<open>
  C2. Leaving a group end to end. The \<open>include_sources\<close> handler of a client that is not in INCLUDE mode for
  the group leaves a report pending which, once it reaches the router, restricts the client to the
  sources on record (none, unless there were some), changes nobody else's membership, and schedules
  as many group queries as the robustness variable says unless the group was queried before.
\<close>

theorem leave_end_to_end:
  assumes "has_memory mem" and "cdb_inv (c_db c)" and "parse_args conf = Some (m, s)" and "IPAddress query_ip m = ma"
    and "map_option filter_mode (getRecord (c_db c) ma) \<noteq> Some INCLUDE"
    and "igmp_encap e ethh" and "rdb_inv (r_db r)" and "pr_records pr0 = []"
    and "ck_offset ck = 0" and "ie_src e \<notin> set (bad_src ck)"
  shows "\<exists>c' td p frame r' qs. includeSourcesHandler parse_args query_ip mem draw now c conf = Inr (0, c') \<and>
     c_timers c' = c_timers c @ [(now + draw (unsolicited_report_interval c * 1000 + 1), td)] \<and>
     td_report td = Some p \<and> timesTosend td = robustness_variable c \<and>
     client_output mem e ethh p = Inr (e\<lparr> ie_id := ie_id e + 1 \<rparr>, Some frame) \<and>
     router_ip_input mem later pr0 ck r frame = Inr (ck, r', []) \<and>
     (\<forall>client g src. member (r_db r') client g src \<longleftrightarrow>
        (if client = ie_src e \<and> g = ma then src \<in> set (old_sources (r_db r) client g) else member (r_db r) client g src)) \<and>
     query_timers r' = query_timers r @ map (Pair (later + 2)) qs \<and>
     length qs = (if ma \<in> set (groupQuerysSheduled r) then 0 else nat (r_robustness_variable r)) \<and>
     ma \<in> set (groupQuerysSheduled r')"
proof -
  let ?g = "generateRecord 3 ma []"
  obtain c' td where c': "includeSourcesHandler parse_args query_ip mem draw now c conf = Inr (0, c')"
    "c_timers c' = c_timers c @ [(now + draw (unsolicited_report_interval c * 1000 + 1), td)]"
    "timesTosend td = robustness_variable c" "carries (td_report td) [?g]"
    using includeSourcesHandler_spec [of mem c parse_args conf m s query_ip ma draw now, OF assms(1-4)]
    unfolding if_not_P [OF assms(5)] by blast
  have "length (gr_sources ?g) \<le> 10000" by (simp add: generateRecord_def)
  from report_delivered [OF assms(1,6) c'(4) this assms(7-10), of later] obtain p frame r' where
    d: "td_report td = Some p" "client_output mem e ethh p = Inr (e\<lparr> ie_id := ie_id e + 1 \<rparr>, Some frame)"
    "router_ip_input mem later pr0 ck r frame = Inr (ck, r', [])"
    "r_db r' = record_effect (ie_src e) ?g (r_db r)" "apply_record mem later (ie_src e) ?g r = Inr r'" by blast
  let ?r = "r\<lparr> r_db := switch_group INCLUDE (ie_src e) ma (r_db r) \<rparr>"
  have "sendGroupQuery mem later ?r ma = Inr r'"
    using d(5) assms(7) by (auto simp: apply_record_def generateRecord_def toIN_switch ebind_Inr_conv)
  with sendGroupQuery_ok [OF assms(1), of later ?r ma] obtain qs where
    "query_timers r' = query_timers r @ map (Pair (later + 2)) qs"
    "length qs = (if ma \<in> set (groupQuerysSheduled r) then 0 else nat (r_robustness_variable r))"
    "ma \<in> set (groupQuerysSheduled r')" by auto
  with c' d(1-4) show ?thesis by (auto simp: join_effect(2) [OF assms(7)])
qed

theorem leave_end_to_end_witness:
  "\<exists>c' td p frame r' qs. includeSourcesHandler ex_args no_names ex_mem (\<lambda>n. 0) 0 (client_new ex_client_addr []) ''239.0.0.0'' = Inr (0, c') \<and>
     c_timers c' = [(0, td)] \<and> td_report td = Some p \<and>
     client_output ex_mem ex_encap (replicate 14 0) p = Inr (ex_encap\<lparr> ie_id := 1 \<rparr>, Some frame) \<and>
     router_ip_input ex_mem 5 ex_pr ex_check (router_new ht_empty) frame = Inr (ex_check, r', []) \<and>
     \<not> member (r_db r') ex_client_addr ex_group (ip_quad 192 168 1 1) \<and>
     query_timers r' = map (Pair 7) qs \<and> length qs = 2"
proof -
  have m: "map_option filter_mode (getRecord (c_db (client_new ex_client_addr [])) ex_group) \<noteq> Some INCLUDE"
    by (simp add: client_new_def)
  have z: "ie_id ex_encap = 0" "c_timers (client_new ex_client_addr []) = []"
    "query_timers (router_new ht_empty) = []" "groupQuerysSheduled (router_new ht_empty) = []"
    "r_robustness_variable (router_new ht_empty) = 2"
    by (simp_all add: ex_encap_def client_new_def router_new_def Let_def)
  show ?thesis
    using leave_end_to_end [of ex_mem "client_new ex_client_addr []" ex_args "''239.0.0.0''" "''239.0.0.0''" "[]" no_names
        ex_group ex_encap "replicate 14 0" "router_new ht_empty" ex_pr ex_check "\<lambda>n. 0" 0 5,
      OF ex_mem_ok ex_facts(1,2) ex_group_parse m ex_facts(3-7)]
    by (fastforce simp: z ex_facts)
qed

section \<open>Queries and their answers\<close>

lemma header_split:
  assumes "length (h :: byte list) = 20"
  shows "h = take 10 h @ [h ! 10, h ! 11] @ drop 12 h"
proof -
  have "drop 10 h = h ! 10 # h ! 11 # drop 12 h"
    using assms by (simp add: Cons_nth_drop_Suc [symmetric] numeral_eq_Suc)
  then show ?thesis using append_take_drop_id [of 10 h] by simp
qed

lemma tee_copies:
  "map fst (tee_push 2 p) = [0, 1]" "x \<in> set (tee_push 2 p) \<Longrightarrow> pdata (snd x) = pdata p"
  by (auto simp: tee_push_def clone_def numeral_eq_Suc Let_def)

text \<open>What leaves the router for a query: a valid header with the network's own source address, and the query.\<close>

lemma query_output_ok:
  assumes "has_memory mem" and "length ethh = 14"
    and "pdata p = query_header ma @ query_bytes ma (click_in_cksum (query_bytes ma 0))"
  shows "\<exists>frame h. query_output mem addr ethh p = Inr (Some frame) \<and> \<not> shared frame \<and> valid_header h \<and>
     pdata frame = ethh @ h @ query_bytes ma (click_in_cksum (query_bytes ma 0)) \<and> h ! 9 = 2 \<and>
     read16 h 2 = Inr (htons 32) \<and> read32 h 12 = Inr addr \<and> read32 h 16 = Inr ma"
proof -
  let ?q = "query_bytes ma (click_in_cksum (query_bytes ma 0))"
  let ?h = "take 12 (pdata p) @ bytes32 addr @ take 4 (drop 16 (pdata p))"
  have len: "20 \<le> plength p" using assms(3) by simp
  have t: "take 12 (pdata p) = [0x45, 0] @ bytes16 (htons 32) @ bytes16 (htons 1) @ [0, 0, 1, 2] @
      bytes16 (click_in_cksum ([0x45, 0, 0, 0, 0, 0, 0, 0, 1, 2, 0, 0, 0, 0, 0, 0] @ bytes32 ma))"
    "take 4 (drop 16 (pdata p)) = bytes32 ma" "drop 20 (pdata p) = ?q"
    using assms(3) by (simp_all add: query_header_def)
  obtain q1 where q1: "setipsrc_push mem addr p = Inr [(0, q1)]" "\<not> shared q1" "framed q1 ?h ?q"
    using setipsrc_ok [OF assms(1) len, of addr] t(3) by auto
  have "?h ! 0 = 0x45" unfolding t by simp
  from setipchecksum_ok [OF q1(2,3) this, of mem] obtain h where
    s: "setipchecksum_simple_action mem q1 = Inr (Some (q1\<lparr> pdata := h @ ?q \<rparr>))" and
    h: "valid_header h" "take 10 h = take 10 ?h" "drop 12 h = drop 12 ?h" by blast
  have "length h = 20" using h(1) by (simp add: valid_header_def)
  from header_split [OF this] have hh: "h = [0x45, 0] @ bytes16 (htons 32) @ bytes16 (htons 1) @ [0, 0, 1, 2] @
      [h ! 10, h ! 11] @ bytes32 addr @ bytes32 ma" unfolding h(2,3) t by simp
  have f: "h ! 9 = 2" "read16 h 2 = Inr (htons 32)" "read32 h 12 = Inr addr" "read32 h 16 = Inr ma"
    by (subst hh, simp add: bytes16_def bytes32_def read16_def read32_def nth_append)+
  obtain frame where "etherencap_smaction mem ethh (q1\<lparr> pdata := h @ ?q \<rparr>) = Inr (Some frame)"
    "pdata frame = ethh @ h @ ?q" "\<not> shared frame"
    using etherencap_strip [OF assms(1,2), of "q1\<lparr> pdata := h @ ?q \<rparr>"]
      etherencap_unshared [of mem ethh "q1\<lparr> pdata := h @ ?q \<rparr>"] assms(1) by (auto simp: has_memory_def)
  with q1(1) s h(1) f show ?thesis by (intro exI [of _ frame] exI [of _ h]) (simp add: query_output_def)
qed

lemma client_routes_look:
  assumes "rt_configure 2 (map Some (client_routes addr net msk gw)) (rt_new e e2) = (0, rt)" and "is_prefix_mask msk"
    and "ma \<noteq> 0" and "ma \<noteq> addr" and "\<not> matches_prefix ma net msk"
  shows "rt_inv rt" "ports_below 2 rt" "rt_look rt ma = Some (gw, 1)"
proof -
  have "\<forall>r \<in> set (client_routes addr net msk gw). route_ok r \<and> rt_port r < int 2"
    using assms(2) by (simp add: client_routes_def route_ok_def)
  from rt_configure_spec [OF this, of e e2] assms(1) have
    r: "rt_inv rt" "ports_below 2 rt"
      "rt_routes (rt_t rt) = map_of (map (\<lambda>r. (route_key r, route_val r)) (client_routes addr net msk gw))" by auto
  show "rt_inv rt" "ports_below 2 rt" by (rule r)+
  have any: "matches_prefix ma 0 0" by (simp add: matches_prefix_def)
  have z: "(0, 0) \<noteq> (net, msk)" using assms(5) any by auto
  have "rt_routes (rt_t rt) (0, 0) = Some (gw, 1)"
    using z by (auto simp: r(3) client_routes_def route_key_def route_val_def)
  moreover have "v = (gw, 1)" if "rt_routes (rt_t rt) (p, m) = Some v" "matches_prefix ma p m" for p m v
    using that assms(4,5) by (auto simp: r(3) client_routes_def route_key_def route_val_def ones_matches split: if_splits)
  ultimately show "rt_look rt ma = Some (gw, 1)" using rt.only_route [OF r(1) assms(3) _ any] by blast
qed

lemma query_received:
  assumes "has_memory mem" and "pq_fresh pq0" and "\<not> shared frame" and "valid_header h" and "length ethh = 14"
    and "pdata frame = ethh @ h @ query_bytes ma (click_in_cksum (query_bytes ma 0))" and "h ! 9 = 2"
    and "read16 h 2 = Inr (htons 32)" and "read32 h 12 = Inr addr" and "read32 h 16 = Inr ma"
    and "ck_offset ck = 0" and "addr \<notin> set (bad_src ck)"
    and "rt_inv rt" and "ports_below 2 rt" and "rt_look rt ma = Some (gw, 1)" and "ma \<noteq> 0"
  shows "\<exists>rt' rep outs. client_ip_input mem draw now pq0 ck rt c frame =
       Inr (ck, rt', schedule_report now (draw 10001) rep c, outs) \<and>
     carries rep (table_records (getMulticastFiltermodeTable (c_db c)))"
proof -
  let ?b = "query_bytes ma (click_in_cksum (query_bytes ma 0))"
  define q where "q = strip_simple_action 14 frame"
  have q: "pdata q = h @ ?b" "sole_handle q"
    using assms(3,5,6) sole_handle_unshared by (simp_all add: q_def strip_simple_action_def sole_handle_pull) (simp add: packet_pull_def)
  have l: "length h = 20" "h ! 0 = 0x45" using assms(4) by (simp_all add: valid_header_def)
  let ?q = "q\<lparr> network_header := Some (length (headroom_bytes q)),
     transport_header := Some (length (headroom_bytes q) + 20), dst_ip_anno := ma \<rparr>"
  have ck: "checkip_simple_action ck q = Inr (ck, Some ?q, [])"
    using assms(4,8-12) q l by (intro checkip_pass [where src = addr]) simp_all
  obtain rt' where rt': "rt_push 2 rt ?q = Inr (rt', routed (Some (gw, 1)) ?q)"
    using rt_push_spec [OF assms(13) _ assms(14), of ?q] assms(15,16) by auto
  define p where "p = (if gw \<noteq> 0 then ?q\<lparr> dst_ip_anno := gw \<rparr> else ?q)"
  have ro: "routed (Some (gw, 1)) ?q = [(1, p)]" by (simp add: routed_def p_def)
  have fr: "igmp_framed p h ?b" using q l assms(7) by (simp add: igmp_framed_def framed_def sole_handle_def p_def)
  note ff = igmp_framed_facts [OF fr]
  have "ip_fields p 2 addr ma" using framed_fields [OF ff(2)] assms(7,9,10) by (simp add: ip_fields_def)
  moreover have "read8 (data_view p) 20 = Inr 0x11" using ff(5) by (simp add: query_bytes_def)
  ultimately have cl: "classifier_push (c_db c) p =
      Inr [(2, p), (if cdb_acceptFromSource (c_db c) ma addr then 1 else 0, p)]" by (rule classifier_query)
  obtain rep where rep: "client_push mem draw now pq0 c (Some p) = Inr (schedule_report now (draw 10001) rep c, [])"
    "carries rep (table_records (getMulticastFiltermodeTable (c_db c)))"
    using client_push_query_ok [OF assms(1,2) fr] by blast
  show ?thesis
    using ck rt' ro cl rep by (auto simp: client_ip_input_def q_def [symmetric])
qed



section \<open>Multicast traffic\<close>

lemma clone_fields: "ip_fields (fst (clone p)) proto src dst = ip_fields p proto src dst"
  "ip_fields (snd (clone p)) proto src dst = ip_fields p proto src dst"
proof -
  have "nh_view (fst (clone p)) = nh_view p" "nh_view (snd (clone p)) = nh_view p"
    by (simp_all add: clone_def nh_view_def buffer_def fun_eq_iff split: option.split)
  then show "ip_fields (fst (clone p)) proto src dst = ip_fields p proto src dst"
    "ip_fields (snd (clone p)) proto src dst = ip_fields p proto src dst"
    by (simp_all add: ip_fields_def ip_p_def ip_src_def ip_dst_def)
qed



end
